(* ===== verification/Vgi_Prelude.thy ===== *)
theory Vgi_Prelude
  imports Main "HOL-Library.Word" "HOL-Library.Sublist"
begin

text \<open>
  Shared vocabulary of the development: the operations of \<^verbatim>\<open>std::string\<close> the sources use
  (a string is a \<^typ>\<open>string\<close>, one \<^typ>\<open>char\<close> per byte), decimal printing and reading, the
  little-endian integer framing, and the generic lemmas on lists and words the component
  theories share. The collection \<open>str_simps\<close> carries the string lemmas.
\<close>

unbundle bit_operations_syntax

named_theorems str_simps \<open>equations for the string operations\<close>

type_synonym u8 = "8 word"
type_synonym u32 = "32 word"
type_synonym u64 = "64 word"

section \<open>Strings\<close>

text \<open>\<^verbatim>\<open>s.find(pat) != npos\<close>.\<close>

definition contains :: "string \<Rightarrow> string \<Rightarrow> bool" where
  "contains pat s \<longleftrightarrow> list_ex (\<lambda>i. take (length pat) (drop i s) = pat) [0..<Suc (length s)]"

subsection \<open>Searching: find, rfind\<close>

text \<open>\<open>find_char c s\<close> is \<^verbatim>\<open>s.find(c)\<close>; \<^const>\<open>None\<close> stands for \<^verbatim>\<open>npos\<close>.\<close>

fun find_char :: "char \<Rightarrow> string \<Rightarrow> nat option" where
  "find_char c [] = None"
| "find_char c (x # xs) = (if x = c then Some 0 else map_option Suc (find_char c xs))"

definition find_from :: "char \<Rightarrow> nat \<Rightarrow> string \<Rightarrow> nat option" where
  "find_from c start s = map_option (\<lambda>i. start + i) (find_char c (drop start s))"

definition rfind_char :: "char \<Rightarrow> string \<Rightarrow> nat option" where
  "rfind_char c s = map_option (\<lambda>i. length s - 1 - i) (find_char c (rev s))"

definition starts_with :: "string \<Rightarrow> string \<Rightarrow> bool" where
  "starts_with s p \<longleftrightarrow> take (length p) s = p"

lemma find_char_None [simp]: "find_char c s = None \<longleftrightarrow> c \<notin> set s"
  by (induction s) auto

lemma find_char_notin [simp]: "c \<notin> set s \<Longrightarrow> find_char c s = None"
  by simp

lemma find_char_Some:
  "find_char c s = Some i \<longleftrightarrow> i < length s \<and> s ! i = c \<and> c \<notin> set (take i s)"
proof (induction s arbitrary: i)
  case Nil
  then show ?case by simp
next
  case (Cons x xs)
  then show ?case by (cases i) auto
qed

lemma find_char_append [str_simps]:
  "find_char c (xs @ ys) =
     (case find_char c xs of Some i \<Rightarrow> Some i
      | None \<Rightarrow> map_option (\<lambda>i. length xs + i) (find_char c ys))"
proof (induction xs)
  case Nil
  show ?case by (cases "find_char c ys") auto
next
  case (Cons a xs)
  then show ?case by (cases "find_char c ys") (auto split: option.splits)
qed

lemma find_char_skip [simp]:
  "c \<notin> set xs \<Longrightarrow> find_char c (xs @ c # ys) = Some (length xs)"
  by (simp add: find_char_append)

lemma starts_with_prefix [str_simps]: "starts_with s p \<longleftrightarrow> prefix p s"
  unfolding starts_with_def
  by (metis append_eq_conv_conj prefix_def append_take_drop_id)

lemma starts_with_append [simp]: "starts_with (p @ s) p"
  by (simp add: starts_with_def)

text \<open>Splitting at the first separator is how every line and token loop of the sources works.\<close>

definition split_first :: "char \<Rightarrow> string \<Rightarrow> string \<times> string option" where
  "split_first c s =
     (case find_char c s of None \<Rightarrow> (s, None) | Some i \<Rightarrow> (take i s, Some (drop (Suc i) s)))"

lemma split_first_append [simp]:
  "c \<notin> set xs \<Longrightarrow> split_first c (xs @ c # ys) = (xs, Some ys)"
  by (simp add: split_first_def)

lemma split_first_none [simp]: "c \<notin> set xs \<Longrightarrow> split_first c xs = (xs, None)"
  by (simp add: split_first_def)

lemma split_first_Some:
  "split_first c s = (a, Some b) \<Longrightarrow> s = a @ c # b \<and> c \<notin> set a"
  by (auto simp: split_first_def find_char_Some id_take_nth_drop split: option.splits)

lemma split_first_shorter:
  "split_first c s = (a, Some b) \<Longrightarrow> length b < length s"
  by (drule split_first_Some) simp

text \<open>A whole \<^verbatim>\<open>find\<close>/\<^verbatim>\<open>substr\<close> loop: all pieces between separators.\<close>

function split_all :: "char \<Rightarrow> string \<Rightarrow> string list" where
  "split_all c s =
     (case split_first c s of (a, None) \<Rightarrow> [a] | (a, Some b) \<Rightarrow> a # split_all c b)"
  by pat_completeness auto
termination
  by (relation "measure (\<lambda>(c, s). length s)") (auto dest!: split_first_shorter [OF sym])

declare split_all.simps [simp del]

lemma split_all_append [simp]:
  "c \<notin> set xs \<Longrightarrow> split_all c (xs @ c # ys) = xs # split_all c ys"
  by (subst split_all.simps) simp

lemma split_all_none [simp]: "c \<notin> set xs \<Longrightarrow> split_all c xs = [xs]"
  by (subst split_all.simps) simp

lemma split_all_pieces: "p \<in> set (split_all c s) \<Longrightarrow> c \<notin> set p"
proof (induction c s rule: split_all.induct)
  case (1 c s)
  show ?case
  proof (cases "split_first c s")
    case (Pair a ob)
    show ?thesis
    proof (cases ob)
      case None
      then show ?thesis
        using 1 Pair by (auto simp: split_all.simps [of c s] split_first_def split: option.splits)
    next
      case (Some b)
      then show ?thesis
        using 1 Pair split_first_Some [of c s a b] by (auto simp: split_all.simps [of c s])
    qed
  qed
qed

subsection \<open>Character classes of the C locale\<close>

text \<open>\<^verbatim>\<open>isspace\<close>, \<^verbatim>\<open>tolower\<close>, and stripping white space at both ends.\<close>

definition c_space :: "char \<Rightarrow> bool" where
  "c_space c \<longleftrightarrow> c = CHR '' '' \<or> (9 \<le> (of_char c :: nat) \<and> (of_char c :: nat) \<le> 13)"

definition c_tolower :: "char \<Rightarrow> char" where
  "c_tolower c =
     (if 65 \<le> (of_char c :: nat) \<and> (of_char c :: nat) \<le> 90 then char_of ((of_char c :: nat) + 32) else c)"

definition strip_space :: "string \<Rightarrow> string" where
  "strip_space s = rev (dropWhile c_space (rev (dropWhile c_space s)))"

lemma set_strip_space: "set (strip_space s) \<subseteq> set s"
  by (auto simp: strip_space_def dest!: set_dropWhileD)

lemma strip_space_ends:
  assumes "strip_space s \<noteq> []"
  shows "\<not> c_space (hd (strip_space s))" "\<not> c_space (last (strip_space s))"
proof -
  let ?t = "dropWhile c_space s"
  have "strip_space s = rev (dropWhile c_space (rev ?t))" by (simp add: strip_space_def)
  moreover have ne: "dropWhile c_space (rev ?t) \<noteq> []" using assms by (simp add: strip_space_def)
  ultimately show "\<not> c_space (last (strip_space s))"
    using hd_dropWhile [OF ne] by (simp add: last_rev)
  obtain u where u: "?t = strip_space s @ u"
    using takeWhile_dropWhile_id [of c_space "rev ?t"] unfolding strip_space_def
    using arg_cong [of _ _ rev] by (metis rev_append rev_rev_ident)
  then have "hd ?t = hd (strip_space s)" "?t \<noteq> []" using assms by simp_all
  then show "\<not> c_space (hd (strip_space s))" using hd_dropWhile [of c_space s] by simp
qed

lemma strip_space_id:
  assumes "s = [] \<or> \<not> c_space (hd s) \<and> \<not> c_space (last s)"
  shows "strip_space s = s"
proof (cases "s = []")
  case False
  then have "dropWhile c_space s = s" "dropWhile c_space (rev s) = rev s"
    using assms by (simp_all add: dropWhile_eq_self_iff hd_rev)
  then show ?thesis by (simp add: strip_space_def)
qed (simp add: strip_space_def)

lemma strip_space_Cons: "c_space c \<Longrightarrow> strip_space (c # s) = strip_space s"
  by (simp add: strip_space_def)

subsection \<open>Decimal numbers\<close>

definition digit_char :: "nat \<Rightarrow> char" where
  "digit_char d = char_of (48 + d)"

text \<open>\<^verbatim>\<open>std::isdigit\<close> in the C locale.\<close>

definition is_digit :: "char \<Rightarrow> bool" where
  "is_digit c \<longleftrightarrow> 48 \<le> (of_char c :: nat) \<and> (of_char c :: nat) \<le> 57"

text \<open>\<^verbatim>\<open>std::to_string\<close> of an unsigned and of a signed integer.\<close>

fun show_nat :: "nat \<Rightarrow> string" where
  "show_nat n = (if n < 10 then [digit_char n] else show_nat (n div 10) @ [digit_char (n mod 10)])"

declare show_nat.simps [simp del]

definition show_int :: "int \<Rightarrow> string" where
  "show_int i = (if i < 0 then CHR ''-'' # show_nat (nat (- i)) else show_nat (nat i))"

definition digits_value :: "string \<Rightarrow> nat" where
  "digits_value s = foldl (\<lambda>a c. 10 * a + (of_char c - 48)) 0 s"

lemma of_char_digit [simp]: "d < 10 \<Longrightarrow> (of_char (digit_char d) :: nat) = 48 + d"
  by (simp add: digit_char_def of_char_of)

lemma is_digit_digit_char [simp]: "d < 10 \<Longrightarrow> is_digit (digit_char d)"
  by (simp add: is_digit_def)

lemma show_nat_ne [simp]: "show_nat n \<noteq> []"
  by (subst show_nat.simps) simp

lemma show_nat_digits: "c \<in> set (show_nat n) \<Longrightarrow> is_digit c"
proof (induction n rule: show_nat.induct)
  case (1 n)
  then show ?case by (subst (asm) show_nat.simps) (auto split: if_splits)
qed

lemma digits_value_snoc [simp]: "digits_value (s @ [c]) = 10 * digits_value s + (of_char c - 48)"
  by (simp add: digits_value_def)

lemma digits_value_show [simp]: "digits_value (show_nat n) = n"
proof (induction n rule: show_nat.induct)
  case (1 n)
  show ?case
  proof (cases "n < 10")
    case True
    then show ?thesis by (simp add: show_nat.simps [of n] digits_value_def)
  next
    case False
    then have "digits_value (show_nat n) = 10 * (n div 10) + n mod 10"
      using 1 by (subst show_nat.simps) simp
    then show ?thesis by simp
  qed
qed

lemma show_nat_inj [simp]: "show_nat m = show_nat n \<longleftrightarrow> m = n"
  by (metis digits_value_show)

lemma show_nat_all_digits [simp]: "list_all is_digit (show_nat n)"
  by (auto simp: list_all_iff dest: show_nat_digits)

lemma not_digit_minus [simp]: "\<not> is_digit CHR ''-''" "\<not> is_digit CHR '':''"
  by (simp_all add: is_digit_def)

lemma show_nat_no_sep:
  "\<not> is_digit c \<Longrightarrow> c \<notin> set (show_nat n)"
  by (auto dest: show_nat_digits)

lemma show_int_inj [simp]: "show_int i = show_int j \<longleftrightarrow> i = j"
proof
  assume eq: "show_int i = show_int j"
  have hd_digit: "hd (show_nat n) \<noteq> CHR ''-''" for n
    by (metis hd_in_set not_digit_minus(1) show_nat_digits show_nat_ne)
  show "i = j"
    using eq hd_digit [of "nat i"] hd_digit [of "nat j"]
    by (auto simp: show_int_def split: if_splits) (metis list.sel(1))+
qed simp

lemma show_int_no_sep:
  "\<not> is_digit c \<Longrightarrow> c \<noteq> CHR ''-'' \<Longrightarrow> c \<notin> set (show_int i)"
  by (auto simp: show_int_def dest: show_nat_digits)

text \<open>
  What \<^verbatim>\<open>std::strtoll\<close> and \<^verbatim>\<open>std::stoll\<close> consume in base ten: white space, a sign, the longest run
  of digits; \<^const>\<open>None\<close> when there is no digit. The value is exact, before any range check.
\<close>

definition scan_integer :: "string \<Rightarrow> int option" where
  "scan_integer s =
     (let t = dropWhile c_space s;
          neg = (t \<noteq> [] \<and> hd t = CHR ''-'');
          u = (if t \<noteq> [] \<and> (hd t = CHR ''-'' \<or> hd t = CHR ''+'') then tl t else t);
          ds = takeWhile is_digit u in
      if ds = [] then None
      else Some (if neg then - int (digits_value ds) else int (digits_value ds)))"

lemma digit_not_space: "is_digit c \<Longrightarrow> \<not> c_space c \<and> c \<noteq> CHR ''-'' \<and> c \<noteq> CHR ''+''"
  by (auto simp: is_digit_def c_space_def)

lemma takeWhile_digits: "list_all is_digit ds \<Longrightarrow> takeWhile is_digit ds = ds"
  by (simp add: list_all_iff takeWhile_eq_all_conv)

lemma scan_digits: "ds \<noteq> [] \<Longrightarrow> list_all is_digit ds \<Longrightarrow> scan_integer ds = Some (int (digits_value ds))"
  by (cases ds) (simp_all add: scan_integer_def Let_def digit_not_space takeWhile_digits)

lemma scan_show_nat [simp]: "scan_integer (show_nat n) = Some (int n)"
  by (simp add: scan_digits)

lemma scan_show_int [simp]: "scan_integer (show_int i) = Some i"
proof (cases "i < 0")
  case True
  then show ?thesis by (simp add: show_int_def scan_integer_def Let_def c_space_def takeWhile_digits)
next
  case False
  then show ?thesis by (simp add: show_int_def)
qed

section \<open>Memory\<close>

definition memcpy :: "string \<Rightarrow> nat \<Rightarrow> string \<Rightarrow> string" where
  "memcpy m dst xs = take dst m @ xs @ drop (dst + length xs) m"

lemma length_memcpy [simp]: "dst + length xs \<le> length m \<Longrightarrow> length (memcpy m dst xs) = length m"
  by (simp add: memcpy_def)

lemma nth_memcpy:
  assumes "dst + length xs \<le> length m" "i < length m"
  shows "memcpy m dst xs ! i = (if dst \<le> i \<and> i < dst + length xs then xs ! (i - dst) else m ! i)"
  using assms by (auto simp: memcpy_def nth_append min_def)

section \<open>Little-endian framing\<close>

text \<open>
  \<open>put_le k v\<close> is the byte loop of \<^verbatim>\<open>PutU32\<close> / \<^verbatim>\<open>PutU64\<close> (\<open>k\<close> is 4 or 8), \<open>get_le k s\<close> the
  loop that reads the first \<open>k\<close> bytes of \<open>s\<close> back.
\<close>

definition put_le :: "nat \<Rightarrow> 'a::len word \<Rightarrow> string" where
  "put_le k v = map (\<lambda>i. char_of (unat (drop_bit (8 * i) v AND 255))) [0..<k]"

definition get_le :: "nat \<Rightarrow> string \<Rightarrow> 'a::len word" where
  "get_le k s = fold (\<lambda>i v. v OR push_bit (8 * i) (word_of_nat (of_char (s ! i)))) [0..<k] 0"

lemma length_put_le [simp]: "length (put_le k v) = k"
  by (simp add: put_le_def)

lemma get_le_append [simp]: "k \<le> length s \<Longrightarrow> get_le k (s @ t) = get_le k s"
  unfolding get_le_def by (rule fold_cong) (auto simp: nth_append)

lemma bit_get_le_fold:
  "bit (fold (\<lambda>i v. v OR f i) is (w :: 'a::len word)) n \<longleftrightarrow> bit w n \<or> (\<exists>i \<in> set is. bit (f i) n)"
  by (induction "is" arbitrary: w) (auto simp: bit_simps)

lemma and_255: "x AND 255 = take_bit 8 x" for x :: "'a::len word"
  by (simp add: take_bit_eq_mask mask_eq_exp_minus_1)

lemma byte_of_word [simp]: "unat (x AND 255) mod 256 = unat (x AND 255)" for x :: "'a::len word"
  unfolding and_255 unsigned_take_bit_eq by (simp add: take_bit_eq_mod)

lemma get_put_le:
  assumes "LENGTH('a) = 8 * k" "0 < k"
  shows "get_le k (put_le k v) = (v :: 'a::len word)"
proof (rule bit_word_eqI)
  fix n assume n: "n < LENGTH('a)"
  have "bit (get_le k (put_le k v) :: 'a word) n \<longleftrightarrow>
      (\<exists>i<k. bit (push_bit (8 * i) (drop_bit (8 * i) v AND 255)) n)"
    by (auto simp: get_le_def bit_get_le_fold put_le_def ucast_id Bex_def simp del: push_bit_and)
  also have "\<dots> \<longleftrightarrow> (\<exists>i<k. 8 * i \<le> n \<and> n < 8 * i + 8 \<and> bit v n)"
    using n by (auto simp: and_255 bit_simps)
  also have "\<dots> \<longleftrightarrow> bit v n"
  proof -
    have "n div 8 < k \<and> 8 * (n div 8) \<le> n \<and> n < 8 * (n div 8) + 8"
      using n assms by auto
    then show ?thesis by blast
  qed
  finally show "bit (get_le k (put_le k v) :: 'a word) n = bit v n" .
qed

lemma get_put_u64 [simp]: "get_le 8 (put_le 8 v @ t) = (v :: u64)"
  by (simp add: get_put_le)

lemma get_put_u32 [simp]: "get_le 4 (put_le 4 v @ t) = (v :: u32)"
  by (simp add: get_put_le)

section \<open>Lists\<close>

lemma map_of_filter_neq:
  "map_of (filter (\<lambda>p. fst p \<noteq> k) xs) = (map_of xs)(k := None)"
  by (induction xs) auto

lemma sum_list_filter_split:
  "sum_list (map f xs) = sum_list (map f (filter P xs)) + sum_list (map f (filter (\<lambda>x. \<not> P x) xs))"
  for f :: "'a \<Rightarrow> 'b::comm_monoid_add"
  by (induction xs) (auto simp: algebra_simps)

lemma sum_list_nonneg_int:
  "(\<And>x. x \<in> set xs \<Longrightarrow> 0 \<le> f x) \<Longrightarrow> 0 \<le> sum_list (map f xs)"
  for f :: "'a \<Rightarrow> int"
  by (induction xs) auto

end
