(* ===== verification/Codec_Interface.thy ===== *)
theory Codec_Interface
  imports Vgi_Prelude
begin

text \<open>
  The contract every textual or binary encoding of the program is held to. An encoder whose
  code words can be cancelled from the left of a longer string is \<open>prefix_free\<close>; one that comes
  with a decoder which peels its code word off and hands the rest back is a \<open>prefix_codec\<close>.
  The lemmas inside the locales lift the contract from one value to a counted, a terminated and
  a separator-joined sequence of values, which are the three ways the sources lay values out.
\<close>

text \<open>The \<^verbatim>\<open>if (!first) out.push_back(sep)\<close> loop.\<close>

fun sep_join :: "string \<Rightarrow> string list \<Rightarrow> string" where
  "sep_join sep [] = []"
| "sep_join sep [x] = x"
| "sep_join sep (x # y # ys) = x @ sep @ sep_join sep (y # ys)"

lemma sep_join_Cons: "sep_join sep (x # xs) = x @ (if xs = [] then [] else sep @ sep_join sep xs)"
  by (cases xs) auto

locale prefix_free =
  fixes enc :: "'a \<Rightarrow> string"
    and wf :: "'a \<Rightarrow> bool"
  assumes enc_cancel: "wf x \<Longrightarrow> wf y \<Longrightarrow> enc x @ r = enc y @ s \<Longrightarrow> x = y \<and> r = s"
begin

lemma enc_inj: "wf x \<Longrightarrow> wf y \<Longrightarrow> enc x = enc y \<Longrightarrow> x = y"
  using enc_cancel [of x y "[]" "[]"] by simp

lemma counted_cancel:
  "list_all wf xs \<Longrightarrow> list_all wf ys \<Longrightarrow> length xs = length ys \<Longrightarrow>
   concat (map enc xs) @ r = concat (map enc ys) @ s \<Longrightarrow> xs = ys \<and> r = s"
proof (induction xs arbitrary: ys)
  case Nil
  then show ?case by simp
next
  case (Cons x xs)
  then obtain y ys' where ys: "ys = y # ys'" by (cases ys) auto
  with Cons.prems enc_cancel [of x y] have "x = y"
    and "concat (map enc xs) @ r = concat (map enc ys') @ s" by auto
  with Cons ys show ?case by auto
qed

lemma concat_inj:
  assumes ne: "\<And>x. wf x \<Longrightarrow> enc x \<noteq> []"
  shows "list_all wf xs \<Longrightarrow> list_all wf ys \<Longrightarrow> concat (map enc xs) = concat (map enc ys) \<Longrightarrow> xs = ys"
proof (induction xs arbitrary: ys)
  case Nil
  then show ?case using ne by (cases ys) auto
next
  case (Cons x xs)
  then obtain y ys' where ys: "ys = y # ys'" using ne by (cases ys) auto
  with Cons.prems enc_cancel [of x y] have "x = y" "concat (map enc xs) = concat (map enc ys')" by auto
  with Cons ys show ?case by auto
qed

lemma terminated_cancel:
  assumes stop: "\<And>x. wf x \<Longrightarrow> \<exists>h t. enc x = h # t \<and> h \<noteq> c"
  shows "list_all wf xs \<Longrightarrow> list_all wf ys \<Longrightarrow>
    concat (map enc xs) @ c # r = concat (map enc ys) @ c # s \<Longrightarrow> xs = ys \<and> r = s"
proof (induction xs arbitrary: ys)
  case Nil
  show ?case
  proof (cases ys)
    case Nil
    then show ?thesis using \<open>_ = _ @ c # s\<close> by simp
  next
    case (Cons y ys')
    with Nil.prems stop [of y] show ?thesis by auto
  qed
next
  case (Cons x xs)
  from Cons.prems stop [of x] obtain h t where x: "enc x = h # t" "h \<noteq> c" by auto
  with Cons.prems obtain y ys' where ys: "ys = y # ys'" by (cases ys) auto
  with Cons.prems enc_cancel [of x y] have "x = y"
    and "concat (map enc xs) @ c # r = concat (map enc ys') @ c # s" by auto
  with Cons ys show ?case by auto
qed

lemma separated_cancel:
  assumes stop: "\<And>x. wf x \<Longrightarrow> \<exists>h t. enc x = h # t \<and> h \<noteq> c" and sep: "b \<noteq> c"
  shows "list_all wf xs \<Longrightarrow> list_all wf ys \<Longrightarrow>
    sep_join [b] (map enc xs) @ c # r = sep_join [b] (map enc ys) @ c # s \<Longrightarrow> xs = ys \<and> r = s"
proof (induction xs arbitrary: ys)
  case Nil
  show ?case
  proof (cases ys)
    case Nil
    then show ?thesis using \<open>_ = _ @ c # s\<close> by simp
  next
    case (Cons y ys')
    with Nil.prems stop [of y] show ?thesis by (auto simp: sep_join_Cons)
  qed
next
  case (Cons x xs)
  from Cons.prems stop [of x] obtain h t where x: "enc x = h # t" "h \<noteq> c" by auto
  with Cons.prems obtain y ys' where ys: "ys = y # ys'" by (cases ys) (auto simp: sep_join_Cons)
  let ?tl = "\<lambda>zs t. (if zs = [] then [] else b # sep_join [b] (map enc zs)) @ c # t"
  have "enc x @ ?tl xs r = enc y @ ?tl ys' s"
    using Cons.prems(3) unfolding ys list.map sep_join_Cons by (simp split: if_splits)
  with Cons.prems ys have "x = y" and tl: "?tl xs r = ?tl ys' s"
    using enc_cancel [of x y "?tl xs r" "?tl ys' s"] by simp_all
  from tl sep have "sep_join [b] (map enc xs) @ c # r = sep_join [b] (map enc ys') @ c # s"
    by (simp split: if_splits)
  with Cons ys \<open>x = y\<close> show ?case by simp
qed

end

locale prefix_codec =
  fixes enc :: "'a \<Rightarrow> string"
    and dec :: "string \<Rightarrow> ('a \<times> string) option"
    and wf :: "'a \<Rightarrow> bool"
  assumes dec_enc: "wf x \<Longrightarrow> dec (enc x @ rest) = Some (x, rest)"
begin

sublocale prefix_free enc wf
proof
  fix x y r s
  assume "wf x" "wf y" "enc x @ r = enc y @ s"
  then have "Some (x, r) = Some (y, s)" by (metis dec_enc)
  then show "x = y \<and> r = s" by simp
qed

end

end
