(* ===== verification/Launcher.thy ===== *)
theory Launcher
  imports Codec_Interface "HOL-Library.Char_ord" "HOL-Library.List_Lexorder"
begin

text \<open>
  The pure helpers of the worker launcher, \<^verbatim>\<open>src/src/vgi_launcher_internal.cpp\<close>, in its POSIX
  build: the canonical JSON whose SHA-256 names a shared worker, the environment filter and state
  directory, the shell-quote parser of \<^verbatim>\<open>launch:\<close> locations and the discovery-line scanner.
  The digest is a parameter (mbedtls is not part of the sources).
\<close>

section \<open>Canonical JSON\<close>

definition hex_digit :: "nat \<Rightarrow> char" where
  "hex_digit d = (if d < 10 then char_of (48 + d) else char_of (87 + d))"

text \<open>\<^verbatim>\<open>%04x\<close> of a value below 256.\<close>

definition hex4 :: "nat \<Rightarrow> string" where
  "hex4 n = ''00'' @ [hex_digit (n div 16), hex_digit (n mod 16)]"

definition json_escape :: "char \<Rightarrow> string" where
  "json_escape c =
     (if c = CHR 0x22 then [CHR 0x5C, CHR 0x22]
      else if c = CHR 0x5C then [CHR 0x5C, CHR 0x5C]
      else if c = CHR 0x08 then [CHR 0x5C, CHR ''b'']
      else if c = CHR 0x0C then [CHR 0x5C, CHR ''f'']
      else if c = CHR 0x0A then [CHR 0x5C, CHR ''n'']
      else if c = CHR 0x0D then [CHR 0x5C, CHR ''r'']
      else if c = CHR 0x09 then [CHR 0x5C, CHR ''t'']
      else if (of_char c :: nat) < 32 then [CHR 0x5C, CHR ''u''] @ hex4 (of_char c)
      else [c])"

definition EncodeJsonString :: "string \<Rightarrow> string" where
  "EncodeJsonString s = [CHR 0x22] @ concat (map json_escape s) @ [CHR 0x22]"

definition json_member :: "string \<times> string \<Rightarrow> string" where
  "json_member kv = EncodeJsonString (fst kv) @ '':'' @ EncodeJsonString (snd kv)"

text \<open>\<open>env\<close> is the \<^verbatim>\<open>std::map\<close> in iteration order.\<close>

definition BuildCanonicalJson :: "string list \<Rightarrow> string \<Rightarrow> (string \<times> string) list \<Rightarrow> string" where
  "BuildCanonicalJson argv cwd env =
     ''{'' @ EncodeJsonString ''cmd'' @ '':['' @ sep_join '','' (map EncodeJsonString argv) @
     ''],'' @ EncodeJsonString ''cwd'' @ '':'' @ EncodeJsonString cwd @
     '','' @ EncodeJsonString ''env'' @ '':{'' @ sep_join '','' (map json_member env) @ ''}}''"

text \<open>The first eight digest bytes as sixteen hexadecimal digits.\<close>

definition ComputeLauncherHash ::
  "(string \<Rightarrow> u8 list) \<Rightarrow> string list \<Rightarrow> string \<Rightarrow> (string \<times> string) list \<Rightarrow> string" where
  "ComputeLauncherHash sha256 argv cwd env =
     concat (map (\<lambda>b. [hex_digit (unat b div 16), hex_digit (unat b mod 16)])
       (take 8 (sha256 (BuildCanonicalJson argv cwd env))))"

text \<open>\<^verbatim>\<open>std::map::emplace\<close> on the ordered association list: an existing key keeps its value.\<close>

fun map_emplace :: "'k::linorder \<Rightarrow> 'v \<Rightarrow> ('k \<times> 'v) list \<Rightarrow> ('k \<times> 'v) list" where
  "map_emplace k v [] = [(k, v)]"
| "map_emplace k v ((k', v') # xs) =
     (if k < k' then (k, v) # (k', v') # xs
      else if k = k' then (k', v') # xs
      else (k', v') # map_emplace k v xs)"

definition FilterVgiRpcEnv :: "(string \<times> string) list \<Rightarrow> (string \<times> string) list" where
  "FilterVgiRpcEnv env =
     fold (\<lambda>kv out. if starts_with (fst kv) ''VGI_RPC_'' then map_emplace (fst kv) (snd kv) out else out)
       env []"

section \<open>State directory and path length\<close>

function strip_slashes :: "string \<Rightarrow> string" where
  "strip_slashes base =
     (if 1 < length base \<and> last base = CHR ''/'' then strip_slashes (butlast base) else base)"
  by pat_completeness auto
termination by (relation "measure length") auto

declare strip_slashes.simps [simp del]

definition ResolveStateDir :: "string \<Rightarrow> string \<Rightarrow> u32 \<Rightarrow> string" where
  "ResolveStateDir xdg tmpdir euid =
     (if xdg \<noteq> [] then xdg @ ''/vgi-rpc''
      else strip_slashes (if tmpdir = [] then ''/tmp'' else tmpdir) @ ''/vgi-rpc-'' @ show_nat (unat euid))"

datatype launch_error = PathTooLong | TrailingBackslash | UnterminatedQuote | EmptyArgv

definition MaxUnixPathLen :: "bool \<Rightarrow> nat" where
  "MaxUnixPathLen apple = (if apple then 104 else 108)"

definition ValidateRendezvousPathLength :: "bool \<Rightarrow> string \<Rightarrow> launch_error + unit" where
  "ValidateRendezvousPathLength apple path =
     (if length path + 1 > MaxUnixPathLen apple then Inl PathTooLong else Inr ())"

section \<open>The argv of a launch: location\<close>

datatype shlex_state = kDefault | kInDouble | kInSingle

record shlex =
  sx_state :: shlex_state
  sx_token :: string
  sx_has_token :: bool
  sx_out :: "string list"

definition FlushToken :: "shlex \<Rightarrow> shlex" where
  "FlushToken s =
     (if sx_has_token s
      then s\<lparr>sx_out := sx_out s @ [sx_token s], sx_token := [], sx_has_token := False\<rparr>
      else s)"

definition push_token :: "char \<Rightarrow> shlex \<Rightarrow> shlex" where
  "push_token c s = s\<lparr>sx_token := sx_token s @ [c]\<rparr>"

abbreviation shell_space :: "char \<Rightarrow> bool" where
  "shell_space c \<equiv> c = CHR '' '' \<or> c = CHR 0x09 \<or> c = CHR 0x0A"

abbreviation dquote_escapable :: "char \<Rightarrow> bool" where
  "dquote_escapable c \<equiv>
     c = CHR 0x22 \<or> c = CHR 0x5C \<or> c = CHR ''$'' \<or> c = CHR 0x60 \<or> c = CHR 0x0A"

text \<open>One iteration per character; the look-ahead of the two escape branches consumes two.\<close>

fun shlex_loop :: "string \<Rightarrow> shlex \<Rightarrow> launch_error + shlex" where
  "shlex_loop [] s = Inr s"
| "shlex_loop (c # cs) s =
     (case sx_state s of
        kDefault \<Rightarrow>
          (if shell_space c then shlex_loop cs (FlushToken s)
           else if c = CHR 0x22 then shlex_loop cs (s\<lparr>sx_state := kInDouble, sx_has_token := True\<rparr>)
           else if c = CHR 0x27 then shlex_loop cs (s\<lparr>sx_state := kInSingle, sx_has_token := True\<rparr>)
           else if c = CHR 0x5C then
             (case cs of [] \<Rightarrow> Inl TrailingBackslash
              | d # ds \<Rightarrow> shlex_loop ds ((push_token d s)\<lparr>sx_has_token := True\<rparr>))
           else shlex_loop cs ((push_token c s)\<lparr>sx_has_token := True\<rparr>))
      | kInDouble \<Rightarrow>
          (if c = CHR 0x22 then shlex_loop cs (s\<lparr>sx_state := kDefault\<rparr>)
           else if c = CHR 0x5C \<and> cs \<noteq> [] then
             (case cs of [] \<Rightarrow> shlex_loop cs (push_token c s)
              | d # ds \<Rightarrow> if dquote_escapable d then shlex_loop ds (push_token d s)
                         else shlex_loop cs (push_token (CHR 0x5C) s))
           else shlex_loop cs (push_token c s))
      | kInSingle \<Rightarrow>
          (if c = CHR 0x27 then shlex_loop cs (s\<lparr>sx_state := kDefault\<rparr>)
           else shlex_loop cs (push_token c s)))"

definition ParseLaunchArgv :: "string \<Rightarrow> launch_error + string list" where
  "ParseLaunchArgv payload =
     (case shlex_loop payload \<lparr>sx_state = kDefault, sx_token = [], sx_has_token = False, sx_out = []\<rparr> of
        Inl e \<Rightarrow> Inl e
      | Inr s \<Rightarrow>
          if sx_state s \<noteq> kDefault then Inl UnterminatedQuote
          else (let s' = FlushToken s in if sx_out s' = [] then Inl EmptyArgv else Inr (sx_out s')))"

section \<open>Discovery lines\<close>

datatype discovery_result = kNeedMore | kFound | kMismatch

definition strip_cr :: "string \<Rightarrow> string" where
  "strip_cr line = (if line \<noteq> [] \<and> last line = CHR 0x0D then butlast line else line)"

text \<open>The buffer is an in-out parameter: the second component is what is left in it.\<close>

function ParseDiscoveryLine :: "string \<Rightarrow> string \<Rightarrow> string \<Rightarrow> discovery_result \<times> string" where
  "ParseDiscoveryLine buffer expected_path pfx =
     (case split_first (CHR 0x0A) buffer of
        (_, None) \<Rightarrow> (kNeedMore, buffer)
      | (raw, Some rest) \<Rightarrow>
          (let line = strip_cr raw in
           if starts_with line pfx
           then (if drop (length pfx) line = expected_path then (kFound, rest) else (kMismatch, rest))
           else ParseDiscoveryLine rest expected_path pfx))"
  by pat_completeness auto
termination
  by (relation "measure (\<lambda>(b, _, _). length b)") (auto dest!: split_first_shorter [OF sym])

declare ParseDiscoveryLine.simps [simp del]

definition launcher_IsUnixLocation :: "string \<Rightarrow> bool" where
  "launcher_IsUnixLocation location \<longleftrightarrow>
     length ''unix://'' \<le> length location \<and> take (length ''unix://'') location = ''unix://''"

definition launcher_IsLaunchLocation :: "string \<Rightarrow> bool" where
  "launcher_IsLaunchLocation location \<longleftrightarrow>
     length ''launch:'' \<le> length location \<and> take (length ''launch:'') location = ''launch:''"

section \<open>The canonical JSON determines the launch\<close>

lemma hex_digit_inj: "m < 16 \<Longrightarrow> n < 16 \<Longrightarrow> hex_digit m = hex_digit n \<longleftrightarrow> m = n"
proof
  assume m: "m < 16" and n: "n < 16" and eq: "hex_digit m = hex_digit n"
  from eq have "(of_char (hex_digit m) :: nat) = of_char (hex_digit n)" by simp
  then show "m = n" using m n by (auto simp: hex_digit_def of_char_of split: if_splits)
qed simp

lemma hex4_inj: "m < 256 \<Longrightarrow> n < 256 \<Longrightarrow> hex4 m = hex4 n \<Longrightarrow> m = n"
  by (simp add: hex4_def hex_digit_inj) (metis div_mult_mod_eq)

lemma length_hex4 [simp]: "length (hex4 n) = 4"
  by (simp add: hex4_def)

definition json_short :: "(char \<times> char) set" where
  "json_short = {(CHR 0x22, CHR 0x22), (CHR 0x5C, CHR 0x5C), (CHR 0x08, CHR ''b''),
     (CHR 0x0C, CHR ''f''), (CHR 0x0A, CHR ''n''), (CHR 0x0D, CHR ''r''), (CHR 0x09, CHR ''t'')}"

lemma json_escape_cases:
  obtains (plain) "json_escape c = [c]" "c \<noteq> CHR 0x5C" "c \<noteq> CHR 0x22"
  | (short) k where "json_escape c = [CHR 0x5C, k]" "(c, k) \<in> json_short"
  | (control) "json_escape c = CHR 0x5C # CHR ''u'' # hex4 (of_char c)"
proof (cases "\<exists>k. (c, k) \<in> json_short")
  case True
  then obtain k where k: "(c, k) \<in> json_short" ..
  then have "json_escape c = [CHR 0x5C, k]"
    unfolding json_short_def by (elim insertE) (simp_all add: json_escape_def)
  with k show ?thesis by (rule short [rotated])
next
  case False
  then have ne: "c \<noteq> CHR 0x22" "c \<noteq> CHR 0x5C" "c \<noteq> CHR 0x08" "c \<noteq> CHR 0x0C" "c \<noteq> CHR 0x0A"
    "c \<noteq> CHR 0x0D" "c \<noteq> CHR 0x09"
    unfolding json_short_def by blast+
  show ?thesis
  proof (cases "(of_char c :: nat) < 32")
    case True
    with ne show ?thesis by (intro control) (simp add: json_escape_def)
  next
    case False
    with ne show ?thesis by (intro plain) (simp_all add: json_escape_def)
  qed
qed

lemma json_short_inj: "(x, k) \<in> json_short \<Longrightarrow> (y, k) \<in> json_short \<Longrightarrow> x = y"
  by (auto simp: json_short_def)

lemma json_short_not_u: "(x, CHR ''u'') \<notin> json_short"
  by (auto simp: json_short_def)

lemma json_escape_head: "\<exists>h t. json_escape c = h # t \<and> h \<noteq> CHR 0x22"
  by (rule json_escape_cases [of c]) auto

lemma hex4_char_inj: "hex4 (of_char x) = hex4 (of_char y) \<Longrightarrow> x = y"
  using hex4_inj [of "of_char x" "of_char y"] by auto

interpretation json_char: prefix_free json_escape "\<lambda>_. True"
proof
  fix x y r s
  assume eq: "json_escape x @ r = json_escape y @ s"
  show "x = y \<and> r = s"
  proof (cases x rule: json_escape_cases)
    case plain
    then show ?thesis using eq by (cases y rule: json_escape_cases) auto
  next
    case (short k)
    then show ?thesis
      using eq json_short_inj [of x k y] json_short_not_u [of x]
      by (cases y rule: json_escape_cases) auto
  next
    case control
    then show ?thesis
      using eq json_short_not_u [of y] hex4_char_inj [of x y]
      by (cases y rule: json_escape_cases) auto
  qed
qed

lemma EncodeJsonString_eq: "EncodeJsonString s = CHR 0x22 # concat (map json_escape s) @ [CHR 0x22]"
  by (simp add: EncodeJsonString_def)

interpretation json_str: prefix_free EncodeJsonString "\<lambda>_. True"
proof
  fix x y r s
  assume "EncodeJsonString x @ r = EncodeJsonString y @ s"
  then have "concat (map json_escape x) @ CHR 0x22 # r = concat (map json_escape y) @ CHR 0x22 # s"
    by (simp add: EncodeJsonString_eq)
  then show "x = y \<and> r = s"
    by (rule json_char.terminated_cancel [rotated 3])
      (use json_escape_head in \<open>simp_all add: list_all_iff\<close>)
qed

interpretation json_kv: prefix_free json_member "\<lambda>_. True"
proof
  fix x y r s
  assume "json_member x @ r = json_member y @ s"
  then have *: "EncodeJsonString (fst x) @ CHR '':'' # EncodeJsonString (snd x) @ r =
      EncodeJsonString (fst y) @ CHR '':'' # EncodeJsonString (snd y) @ s"
    by (simp add: json_member_def)
  from json_str.enc_cancel [OF _ _ *]
  have "fst x = fst y" and **: "EncodeJsonString (snd x) @ r = EncodeJsonString (snd y) @ s" by auto
  moreover from json_str.enc_cancel [OF _ _ **] have "snd x = snd y \<and> r = s" by simp
  ultimately show "x = y \<and> r = s" by (simp add: prod_eq_iff)
qed

lemma json_str_head: "c \<noteq> CHR 0x22 \<Longrightarrow> \<exists>h t. EncodeJsonString x = h # t \<and> h \<noteq> c"
  by (simp add: EncodeJsonString_eq)

lemma json_kv_head: "c \<noteq> CHR 0x22 \<Longrightarrow> \<exists>h t. json_member x = h # t \<and> h \<noteq> c"
  by (simp add: json_member_def EncodeJsonString_eq)

lemma canonical_json_parts:
  assumes "BuildCanonicalJson argv cwd env = BuildCanonicalJson argv' cwd' env'"
  shows "argv = argv' \<and> cwd = cwd' \<and> env = env'"
proof -
  from assms have a: "sep_join '','' (map EncodeJsonString argv) @ CHR '']'' # CHR '','' # EncodeJsonString ''cwd'' @
       CHR '':'' # EncodeJsonString cwd @ CHR '','' # EncodeJsonString ''env'' @ '':{'' @
       sep_join '','' (map json_member env) @ ''}}'' =
     sep_join '','' (map EncodeJsonString argv') @ CHR '']'' # CHR '','' # EncodeJsonString ''cwd'' @
       CHR '':'' # EncodeJsonString cwd' @ CHR '','' # EncodeJsonString ''env'' @ '':{'' @
       sep_join '','' (map json_member env') @ ''}}''"
    by (simp add: BuildCanonicalJson_def)
  from json_str.separated_cancel [OF _ _ _ _ a] json_str_head [of "CHR '']''"]
  have "argv = argv'" and
    b: "EncodeJsonString cwd @ CHR '','' # EncodeJsonString ''env'' @ '':{'' @
          sep_join '','' (map json_member env) @ ''}}'' =
        EncodeJsonString cwd' @ CHR '','' # EncodeJsonString ''env'' @ '':{'' @
          sep_join '','' (map json_member env') @ ''}}''"
    by (auto simp: list_all_iff)
  moreover from json_str.enc_cancel [OF _ _ b] have "cwd = cwd'" and
    c: "sep_join '','' (map json_member env) @ CHR ''}'' # ''}'' =
        sep_join '','' (map json_member env') @ CHR ''}'' # ''}''"
    by auto
  moreover from json_kv.separated_cancel [OF _ _ _ _ c] json_kv_head [of "CHR ''}''"]
  have "env = env'" by (auto simp: list_all_iff)
  ultimately show ?thesis by simp
qed

text \<open>
  C1. The canonical JSON hashed into a launcher's rendezvous name determines the command, the
  working directory and the environment subset: two launches that differ in any of them are
  hashed from different byte strings, whatever characters their strings hold.
\<close>

theorem BuildCanonicalJson_inj:
  "BuildCanonicalJson argv cwd env = BuildCanonicalJson argv' cwd' env' \<longleftrightarrow>
   argv = argv' \<and> cwd = cwd' \<and> env = env'"
  using canonical_json_parts by blast

section \<open>Shell quoting\<close>

text \<open>
  Escape every character with a backslash, after an empty quoted string that makes the empty
  argument visible: the quoting a caller can use for an arbitrary argument.
\<close>

definition backslash_quote :: "string \<Rightarrow> string" where
  "backslash_quote a = [CHR 0x27, CHR 0x27] @ concat (map (\<lambda>c. [CHR 0x5C, c]) a)"

lemma shlex_loop_escaped:
  "sx_state s = kDefault \<Longrightarrow> sx_has_token s \<Longrightarrow>
   shlex_loop (concat (map (\<lambda>c. [CHR 0x5C, c]) a) @ rest) s =
   shlex_loop rest (s\<lparr>sx_token := sx_token s @ a\<rparr>)"
proof (induction a arbitrary: s)
  case Nil
  then show ?case by simp
next
  case (Cons c a)
  let ?s = "(push_token c s)\<lparr>sx_has_token := True\<rparr>"
  have "shlex_loop (CHR 0x5C # c # concat (map (\<lambda>c. [CHR 0x5C, c]) a) @ rest) s =
    shlex_loop (concat (map (\<lambda>c. [CHR 0x5C, c]) a) @ rest) ?s"
    using Cons.prems by simp
  also have "\<dots> = shlex_loop rest (?s\<lparr>sx_token := sx_token ?s @ a\<rparr>)"
    using Cons.prems Cons.IH [of ?s] by (simp add: push_token_def)
  also have "?s\<lparr>sx_token := sx_token ?s @ a\<rparr> = s\<lparr>sx_token := sx_token s @ c # a\<rparr>"
    using Cons.prems by (cases s) (simp add: push_token_def)
  finally show ?case by simp
qed

lemma shlex_loop_quoted:
  "shlex_loop (backslash_quote a @ rest) \<lparr>sx_state = kDefault, sx_token = [], sx_has_token = h, sx_out = out\<rparr> =
   shlex_loop rest \<lparr>sx_state = kDefault, sx_token = a, sx_has_token = True, sx_out = out\<rparr>"
  by (simp add: backslash_quote_def shlex_loop_escaped)

lemma shlex_loop_args:
  "args \<noteq> [] \<Longrightarrow>
   shlex_loop (sep_join '' '' (map backslash_quote args))
     \<lparr>sx_state = kDefault, sx_token = [], sx_has_token = False, sx_out = out\<rparr> =
   Inr \<lparr>sx_state = kDefault, sx_token = last args, sx_has_token = True, sx_out = out @ butlast args\<rparr>"
proof (induction args arbitrary: out)
  case Nil
  then show ?case by simp
next
  case (Cons a args)
  show ?case
  proof (cases args)
    case Nil
    then show ?thesis using shlex_loop_quoted [of a "[]"] by simp
  next
    case args: (Cons b bs)
    then show ?thesis
      using Cons.IH [of "out @ [a]"]
      by (simp add: sep_join_Cons [of _ "backslash_quote a"] shlex_loop_quoted FlushToken_def
          del: sep_join.simps)
  qed
qed

text \<open>
  C2. Every non-empty argument vector can be written in a \<^verbatim>\<open>launch:\<close> location: parsing the
  backslash-quoted, space-separated arguments gives back exactly those arguments, empty ones
  and ones with quotes, backslashes, spaces or newlines included.
\<close>

theorem ParseLaunchArgv_quoted:
  assumes "args \<noteq> []"
  shows "ParseLaunchArgv (sep_join '' '' (map backslash_quote args)) = Inr args"
  using assms by (simp add: ParseLaunchArgv_def shlex_loop_args FlushToken_def)

theorem ParseLaunchArgv_quoted_witness:
  "[''a b'', ''c''] \<noteq> ([] :: string list) \<and>
   ParseLaunchArgv (sep_join '' '' (map backslash_quote [''a b'', ''c''])) = Inr [''a b'', ''c'']"
  using ParseLaunchArgv_quoted [of "[''a b'', ''c'']"] by blast

section \<open>Discovery lines arrive in chunks\<close>

lemma split_first_more:
  "split_first c s = (a, Some b) \<Longrightarrow> split_first c (s @ m) = (a, Some (b @ m))"
  using split_first_Some [of c s a b] by auto

text \<open>
  C3. The scanner is insensitive to how the worker's output is cut into reads: scanning the
  first chunk and then what it left behind together with the next one gives the result of
  scanning everything at once, and a decision already taken is not revised by later bytes.
\<close>

theorem ParseDiscoveryLine_chunks:
  "ParseDiscoveryLine (buf @ later) path pfx =
     (case ParseDiscoveryLine buf path pfx of
        (kNeedMore, left) \<Rightarrow> ParseDiscoveryLine (left @ later) path pfx
      | (r, left) \<Rightarrow> (r, left @ later))"
proof (induction buf path pfx rule: ParseDiscoveryLine.induct)
  case (1 buf path pfx)
  show ?case
  proof (cases "split_first (CHR 0x0A) buf")
    case (Pair raw ob)
    show ?thesis
    proof (cases ob)
      case None
      with Pair have "ParseDiscoveryLine buf path pfx = (kNeedMore, buf)"
        by (subst ParseDiscoveryLine.simps) simp
      then show ?thesis by simp
    next
      case (Some rest)
      with Pair have s: "split_first (CHR 0x0A) buf = (raw, Some rest)"
        and s': "split_first (CHR 0x0A) (buf @ later) = (raw, Some (rest @ later))"
        by (simp_all add: split_first_more)
      show ?thesis
        using 1 [OF s [symmetric] refl refl]
        by (auto simp: ParseDiscoveryLine.simps [of buf] ParseDiscoveryLine.simps [of "buf @ later"] s s' Let_def)
    qed
  qed
qed

end
