(* ===== verification/Transport.thy ===== *)
theory Transport
  imports Launcher
begin

text \<open>
  Worker locations, \<^verbatim>\<open>src/src/vgi_transport.cpp\<close>: the scheme predicates, the parsers of
  \<^verbatim>\<open>tcp://\<close>, \<^verbatim>\<open>httpi://\<close> and \<^verbatim>\<open>iroh://\<close> locations and the transport dispatch. DuckDB's
  \<^verbatim>\<open>StringUtil\<close> is not part of the sources: its three functions are the fields of a
  \<open>string_util\<close> record every definition takes, and the locale \<open>duckdb_strings\<close> states
  their documented behaviour.
\<close>

section \<open>The string library of the host\<close>

record string_util =
  su_lower :: "string \<Rightarrow> string"
  su_trim :: "string \<Rightarrow> string"
  su_starts_with :: "string \<Rightarrow> string \<Rightarrow> bool"

text \<open>ASCII lower-casing and white space.\<close>

definition ascii_lower :: "char \<Rightarrow> char" where
  "ascii_lower c =
     (if 65 \<le> (of_char c :: nat) \<and> (of_char c :: nat) \<le> 90 then char_of ((of_char c :: nat) + 32) else c)"

definition ascii_space :: "char \<Rightarrow> bool" where
  "ascii_space c \<longleftrightarrow> c = CHR '' '' \<or> (9 \<le> (of_char c :: nat) \<and> (of_char c :: nat) \<le> 13)"

definition ascii_trim :: "string \<Rightarrow> string" where
  "ascii_trim s = rev (dropWhile ascii_space (rev (dropWhile ascii_space s)))"

locale duckdb_strings =
  fixes U :: string_util
  assumes lower_ascii: "su_lower U s = map ascii_lower s"
    and trim_ascii: "su_trim U s = ascii_trim s"
    and starts_prefix: "su_starts_with U s p \<longleftrightarrow> prefix p s"

definition ascii_strings :: string_util where
  "ascii_strings = \<lparr>su_lower = map ascii_lower, su_trim = ascii_trim, su_starts_with = starts_with\<rparr>"

interpretation ascii: duckdb_strings ascii_strings
  by unfold_locales (simp_all add: ascii_strings_def starts_with_prefix)

section \<open>Scheme predicates\<close>

definition lower_starts :: "string_util \<Rightarrow> string \<Rightarrow> string \<Rightarrow> bool" where
  "lower_starts U worker_path scheme \<longleftrightarrow> su_starts_with U (su_lower U worker_path) scheme"

definition IsHttpTransport :: "string_util \<Rightarrow> string \<Rightarrow> bool" where
  "IsHttpTransport U p \<longleftrightarrow> lower_starts U p ''http://'' \<or> lower_starts U p ''https://''"

definition IsUnixLocation :: "string \<Rightarrow> bool" where
  "IsUnixLocation p \<longleftrightarrow> launcher_IsUnixLocation p"

definition IsLaunchLocation :: "string \<Rightarrow> bool" where
  "IsLaunchLocation p \<longleftrightarrow> launcher_IsLaunchLocation p"

definition IsContainerLocation :: "string_util \<Rightarrow> string \<Rightarrow> bool" where
  "IsContainerLocation U p \<longleftrightarrow> lower_starts U p ''oci://'' \<or> lower_starts U p ''docker://''"

definition IsContainerSharedLocation :: "string_util \<Rightarrow> string \<Rightarrow> bool" where
  "IsContainerSharedLocation U p \<longleftrightarrow> su_starts_with U p ''container-shared:''"

definition IsGithubLocation :: "string_util \<Rightarrow> string \<Rightarrow> bool" where
  "IsGithubLocation U p \<longleftrightarrow> lower_starts U p ''github://''"

definition IsGithubAutoLocation :: "string_util \<Rightarrow> string \<Rightarrow> bool" where
  "IsGithubAutoLocation U p \<longleftrightarrow> lower_starts U p ''github-auto://''"

definition IsWebWorkerTransport :: "string_util \<Rightarrow> string \<Rightarrow> bool" where
  "IsWebWorkerTransport U p \<longleftrightarrow> lower_starts U p ''worker:''"

definition IsIrohTransport :: "string_util \<Rightarrow> string \<Rightarrow> bool" where
  "IsIrohTransport U p \<longleftrightarrow> su_starts_with U p ''iroh://''"

definition IsHttpiTransport :: "string_util \<Rightarrow> string \<Rightarrow> bool" where
  "IsHttpiTransport U p \<longleftrightarrow> su_starts_with U p ''httpi://''"

definition IsDatabaseLocation :: "string_util \<Rightarrow> string \<Rightarrow> bool" where
  "IsDatabaseLocation U p \<longleftrightarrow> lower_starts U p ''database://''"

definition IsResolvedWorkerLocation :: "string_util \<Rightarrow> string \<Rightarrow> bool" where
  "IsResolvedWorkerLocation U p \<longleftrightarrow> su_starts_with U p ''vgi-artifact:''"

definition IsTcpTransport :: "string_util \<Rightarrow> string \<Rightarrow> bool" where
  "IsTcpTransport U p \<longleftrightarrow> lower_starts U p ''tcp://''"

section \<open>Parsers and canonical forms\<close>

datatype location_error = WrongScheme | BadEndpoint | BadPath | BadAuthority | BadPort

definition lower_hex :: "char \<Rightarrow> bool" where
  "lower_hex c \<longleftrightarrow> is_digit c \<or> (97 \<le> (of_char c :: nat) \<and> (of_char c :: nat) \<le> 102)"

definition httpi_path_char :: "char \<Rightarrow> bool" where
  "httpi_path_char c \<longleftrightarrow>
     is_digit c \<or> (65 \<le> (of_char c :: nat) \<and> (of_char c :: nat) \<le> 90) \<or>
     (97 \<le> (of_char c :: nat) \<and> (of_char c :: nat) \<le> 122) \<or>
     c \<in> set ''-._~'' \<or> c = CHR 0x27 \<or> c \<in> set ''!$&()*+,;='' \<or> c \<in> set '':@/''"

record HttpiUrlParts =
  endpoint_id :: string
  path :: string

definition dot_segment :: "string \<Rightarrow> bool" where
  "dot_segment segment \<longleftrightarrow> segment = [] \<or> segment = ''.'' \<or> segment = ''..''"

definition ParseHttpiUrl :: "string_util \<Rightarrow> string \<Rightarrow> location_error + HttpiUrlParts" where
  "ParseHttpiUrl U location =
     (if \<not> IsHttpiTransport U location then Inl WrongScheme
      else if length location < 8 + 64 then Inl BadEndpoint
      else
        let endpoint = take 64 (drop 8 location); p = drop (8 + 64) location in
        if \<not> list_all lower_hex endpoint then Inl BadEndpoint
        else if p \<noteq> [] \<and> hd p \<noteq> CHR ''/'' then Inl BadPath
        else if p = ''/'' then Inr \<lparr>endpoint_id = endpoint, path = []\<rparr>
        else if \<not> list_all httpi_path_char p then Inl BadPath
        else if p \<noteq> [] \<and> list_ex dot_segment (split_all (CHR ''/'') (drop 1 p)) then Inl BadPath
        else Inr \<lparr>endpoint_id = endpoint, path = p\<rparr>)"

definition CanonicalizeHttpiLocation :: "string_util \<Rightarrow> string \<Rightarrow> location_error + string" where
  "CanonicalizeHttpiLocation U location =
     (case ParseHttpiUrl U location of
        Inl e \<Rightarrow> Inl e
      | Inr parts \<Rightarrow> Inr (''httpi://'' @ endpoint_id parts @ path parts))"

definition CanonicalizeIrohLocation :: "string_util \<Rightarrow> string \<Rightarrow> location_error + string" where
  "CanonicalizeIrohLocation U location =
     (if \<not> IsIrohTransport U location then Inl WrongScheme
      else if length location \<noteq> 7 + 64 then Inl BadEndpoint
      else
        let endpoint = drop 7 location in
        if \<not> list_all lower_hex endpoint then Inl BadEndpoint else Inr (''iroh://'' @ endpoint))"

definition StripWebWorkerScheme :: "string_util \<Rightarrow> string \<Rightarrow> location_error + string" where
  "StripWebWorkerScheme U location =
     (if \<not> IsWebWorkerTransport U location then Inl WrongScheme
      else Inr (drop (length ''worker:'') location))"

definition CanonicalizeBrowserWorkerTarget :: "string_util \<Rightarrow> string \<Rightarrow> location_error + string" where
  "CanonicalizeBrowserWorkerTarget U location =
     (if IsWebWorkerTransport U location then StripWebWorkerScheme U location
      else if IsIrohTransport U location then CanonicalizeIrohLocation U location
      else Inl WrongScheme)"

text \<open>
  The authority split of \<^verbatim>\<open>ParseTcpLocation\<close>: the bracketed form, then \<^verbatim>\<open>host:port\<close>. The port is
  the value of the digit string when it fits an \<^verbatim>\<open>int\<close> (\<^verbatim>\<open>std::stoi\<close> throws otherwise).
\<close>

definition tcp_authority :: "string \<Rightarrow> location_error + (string \<times> string)" where
  "tcp_authority rest =
     (if rest \<noteq> [] \<and> hd rest = CHR ''['' then
        (case find_char (CHR '']'') rest of
           None \<Rightarrow> Inl BadAuthority
         | Some close \<Rightarrow>
             if close = 1 \<or> close + 1 \<ge> length rest \<or> rest ! (close + 1) \<noteq> CHR '':'' then Inl BadAuthority
             else if find_from (CHR ''['') 1 rest \<noteq> None \<or> find_from (CHR '']'') (close + 1) rest \<noteq> None
             then Inl BadAuthority
             else Inr (take (close - 1) (drop 1 rest), drop (close + 2) rest))
      else
        (case rfind_char (CHR '':'') rest of
           None \<Rightarrow> Inl BadAuthority
         | Some colon \<Rightarrow>
             if colon = 0 \<or> colon + 1 \<ge> length rest then Inl BadAuthority
             else if find_char (CHR '':'') rest \<noteq> Some colon then Inl BadAuthority
             else Inr (take colon rest, drop (colon + 1) rest)))"

definition ParseTcpLocation :: "string_util \<Rightarrow> string \<Rightarrow> location_error + (string \<times> nat)" where
  "ParseTcpLocation U location =
     (if \<not> IsTcpTransport U location then Inl WrongScheme
      else case tcp_authority (drop 6 location) of
        Inl e \<Rightarrow> Inl e
      | Inr (host, port_text) \<Rightarrow>
          if port_text = [] \<or> \<not> list_all is_digit port_text then Inl BadPort
          else if digits_value port_text > 2147483647 then Inl BadPort
          else
            let port = digits_value port_text in
            if port = 0 \<or> port > 65535 then Inl BadPort else Inr (host, port))"

text \<open>The classifier that the transport tests use; connections are dispatched in \<open>Location_Dispatch\<close>.\<close>

datatype transport_type =
  SUBPROCESS | HTTP | UNIX | LAUNCH | CONTAINER | TCP | WEBWORKER | IROH | HTTPI | DATABASE

definition DetectTransport :: "string_util \<Rightarrow> string \<Rightarrow> transport_type" where
  "DetectTransport U p =
     (if IsHttpTransport U p then HTTP
      else if IsLaunchLocation p then LAUNCH
      else if IsUnixLocation p then UNIX
      else if IsContainerLocation U p then CONTAINER
      else if IsTcpTransport U p then TCP
      else if IsWebWorkerTransport U p then WEBWORKER
      else if IsIrohTransport U p then IROH
      else if IsHttpiTransport U p then HTTPI
      else if IsDatabaseLocation U p then DATABASE
      else SUBPROCESS)"

definition StripUnixScheme :: "string \<Rightarrow> location_error + string" where
  "StripUnixScheme location =
     (if \<not> IsUnixLocation location then Inl WrongScheme else Inr (drop (length ''unix://'') location))"

definition StripLaunchScheme :: "string \<Rightarrow> location_error + string" where
  "StripLaunchScheme location =
     (if \<not> IsLaunchLocation location then Inl WrongScheme else Inr (drop (length ''launch:'') location))"

definition StripContainerScheme :: "string_util \<Rightarrow> string \<Rightarrow> location_error + string" where
  "StripContainerScheme U location =
     (if \<not> IsContainerLocation U location then Inl WrongScheme
      else
        let scheme_len = (if lower_starts U location ''oci://'' then 6 else 9);
            rest = drop scheme_len location in
        Inr (case rfind_char (CHR ''#'') rest of None \<Rightarrow> rest | Some hash_pos \<Rightarrow> take hash_pos rest))"

definition StripGithubScheme :: "string_util \<Rightarrow> string \<Rightarrow> location_error + string" where
  "StripGithubScheme U location =
     (if \<not> IsGithubLocation U location then Inl WrongScheme else Inr (drop 9 location))"

definition StripGithubAutoScheme :: "string_util \<Rightarrow> string \<Rightarrow> location_error + string" where
  "StripGithubAutoScheme U location =
     (if \<not> IsGithubAutoLocation U location then Inl WrongScheme else Inr (drop 14 location))"

section \<open>Laws of the locations\<close>

lemma rfind_char_None [simp]: "rfind_char c s = None \<longleftrightarrow> c \<notin> set s"
  by (simp add: rfind_char_def)

lemma rfind_char_last [simp]: "c \<notin> set ys \<Longrightarrow> rfind_char c (xs @ c # ys) = Some (length xs)"
  by (simp add: rfind_char_def)

lemma find_char_SomeD:
  assumes "find_char c s = Some i"
  shows "s = take i s @ c # drop (Suc i) s" and "c \<notin> set (take i s)" and "i < length s"
  using assms by (auto simp: find_char_Some id_take_nth_drop)

lemma rfind_char_SomeD:
  assumes "rfind_char c s = Some i"
  shows "s = take i s @ c # drop (Suc i) s" and "c \<notin> set (drop (Suc i) s)" and "i < length s"
proof -
  obtain j where j: "find_char c (rev s) = Some j" and i: "i = length s - 1 - j"
    using assms by (auto simp: rfind_char_def)
  note f = find_char_SomeD [OF j]
  have l: "j < length s" using f(3) by simp
  have "rev s ! j = c" using j by (simp add: find_char_Some)
  then have c: "s ! i = c" using l i by (simp add: rev_nth)
  show il: "i < length s" using l i by simp
  show "s = take i s @ c # drop (Suc i) s" using id_take_nth_drop [OF il] c by simp
  have "drop (Suc i) s = rev (take j (rev s))"
    using l i by (simp add: take_rev Suc_diff_Suc)
  then show "c \<notin> set (drop (Suc i) s)" using f(2) by simp
qed

lemma brackets_not_digits [simp]:
  "\<not> is_digit CHR ''[''" "\<not> is_digit CHR '']''"
  by (simp_all add: is_digit_def)

lemma digits_exclude: "list_all is_digit t \<Longrightarrow> \<not> is_digit c \<Longrightarrow> c \<notin> set t"
  by (auto simp: list_all_iff)

text \<open>The two accepted shapes of an authority with a numeric port.\<close>

definition tcp_form :: "string \<Rightarrow> string \<Rightarrow> string \<Rightarrow> bool" where
  "tcp_form rest host port_text \<longleftrightarrow> host \<noteq> [] \<and>
     (rest = host @ '':'' @ port_text \<and> CHR '':'' \<notin> set host \<and> hd host \<noteq> CHR ''['' \<or>
      rest = ''['' @ host @ '']:'' @ port_text \<and> CHR ''['' \<notin> set host \<and> CHR '']'' \<notin> set host)"

lemma tcp_authority_sound:
  assumes "tcp_authority rest = Inr (h, t)"
  shows "tcp_form rest h t"
proof (cases "rest \<noteq> [] \<and> hd rest = CHR ''[''")
  case True
  then obtain r where r: "rest = CHR ''['' # r" by (cases rest) auto
  obtain close where cl: "find_char (CHR '']'') rest = Some close"
    using assms True by (auto simp: tcp_authority_def split: option.splits)
  then obtain k where k: "find_char (CHR '']'') r = Some k" "close = Suc k"
    using r by auto
  note f = find_char_SomeD [OF k(1)]
  have g: "k \<noteq> 0" "Suc k < length r" "r ! Suc k = CHR '':''" "CHR ''['' \<notin> set r"
      "h = take k r" "t = drop (Suc (Suc k)) r"
    using assms r k cl by (auto simp: tcp_authority_def find_from_def split: if_splits)
  have "drop (Suc k) r = CHR '':'' # t"
    using g by (metis Cons_nth_drop_Suc)
  then have "r = h @ '']:'' @ t" using f(1) g by simp
  moreover have "h \<noteq> []" using g f by (cases r) auto
  ultimately show ?thesis
    using r f(2) g by (auto simp: tcp_form_def dest: in_set_takeD)
next
  case False
  then obtain colon where c: "rfind_char (CHR '':'') rest = Some colon"
    using assms by (auto simp: tcp_authority_def split: option.splits)
  have g: "colon \<noteq> 0" "find_char (CHR '':'') rest = Some colon"
      "h = take colon rest" "t = drop (Suc colon) rest"
    using assms c False by (auto simp: tcp_authority_def split: if_splits)
  note f = find_char_SomeD [OF g(2)]
  have "h \<noteq> []" "hd h = hd rest" using g f(3) by (cases rest; cases colon; auto)+
  then show ?thesis
    using False f g by (auto simp: tcp_form_def)
qed

lemma tcp_authority_complete:
  assumes "tcp_form rest h t" "t \<noteq> []" "list_all is_digit t"
  shows "tcp_authority rest = Inr (h, t)"
proof -
  have x: "CHR '':'' \<notin> set t" "CHR ''['' \<notin> set t" "CHR '']'' \<notin> set t"
    using digits_exclude [OF assms(3)] by simp_all
  show ?thesis
  proof (cases "rest = h @ '':'' @ t \<and> CHR '':'' \<notin> set h \<and> hd h \<noteq> CHR ''[''")
    case True
    moreover have "h \<noteq> []" using assms(1) by (simp add: tcp_form_def)
    moreover have "rfind_char (CHR '':'') (h @ CHR '':'' # t) = Some (length h)" using x by simp
    ultimately show ?thesis
      using assms x by (simp add: tcp_authority_def)
  next
    case False
    then have r: "rest = ''['' @ h @ '']:'' @ t" "CHR ''['' \<notin> set h" "CHR '']'' \<notin> set h" "h \<noteq> []"
      using assms(1) by (auto simp: tcp_form_def)
    then show ?thesis
      using x by (simp add: tcp_authority_def find_from_def nth_append)
  qed
qed

text \<open>
  C4. \<^verbatim>\<open>ParseTcpLocation\<close> accepts exactly the \<^verbatim>\<open>tcp://\<close> locations (scheme in any case) whose
  authority is \<^verbatim>\<open>host:port\<close> with a colon-free host, or \<^verbatim>\<open>[address]:port\<close> with a bracket-free
  address, and whose port is a decimal number from 1 to 65535; it returns that host without
  brackets and that number.
\<close>

theorem ParseTcpLocation_iff:
  "ParseTcpLocation U location = Inr (host, port) \<longleftrightarrow>
     IsTcpTransport U location \<and> 1 \<le> port \<and> port \<le> 65535 \<and>
     (\<exists>t. t \<noteq> [] \<and> list_all is_digit t \<and> digits_value t = port \<and> tcp_form (drop 6 location) host t)"
  (is "?L \<longleftrightarrow> ?R")
proof
  assume ?L
  then obtain t where "IsTcpTransport U location" "tcp_authority (drop 6 location) = Inr (host, t)"
      "t \<noteq> []" "list_all is_digit t" "digits_value t = port" "1 \<le> port" "port \<le> 65535"
    by (auto simp: ParseTcpLocation_def Let_def split: if_splits sum.splits)
  then show ?R
    using tcp_authority_sound by blast
next
  assume ?R
  then show ?L
    by (auto simp: ParseTcpLocation_def Let_def dest: tcp_authority_complete)
qed

lemma ParseHttpiUrl_Inr:
  assumes "ParseHttpiUrl U location = Inr parts"
  shows "length (endpoint_id parts) = 64" "list_all lower_hex (endpoint_id parts)"
    "path parts \<noteq> [] \<Longrightarrow>
       hd (path parts) = CHR ''/'' \<and> list_all httpi_path_char (path parts) \<and>
       \<not> list_ex dot_segment (split_all (CHR ''/'') (drop 1 (path parts)))"
  using assms by (auto simp: ParseHttpiUrl_def Let_def split: if_splits)

lemma single_slash_dot: "list_ex dot_segment (split_all (CHR ''/'') (drop 1 ''/''))"
  by (simp add: dot_segment_def)

context duckdb_strings
begin

lemma IsHttpi_prefix [simp]: "IsHttpiTransport U (''httpi://'' @ s)"
  by (simp add: IsHttpiTransport_def starts_prefix)

lemma ParseHttpiUrl_render:
  assumes "length e = 64" "list_all lower_hex e"
    and "p \<noteq> [] \<Longrightarrow> hd p = CHR ''/'' \<and> list_all httpi_path_char p \<and>
           \<not> list_ex dot_segment (split_all (CHR ''/'') (drop 1 p))"
  shows "ParseHttpiUrl U (''httpi://'' @ e @ p) = Inr \<lparr>endpoint_id = e, path = p\<rparr>"
proof -
  have "p \<noteq> ''/''"
    using assms(3) single_slash_dot by auto
  then show ?thesis
    using assms IsHttpi_prefix [of "e @ p"] by (cases p) (auto simp: ParseHttpiUrl_def)
qed

lemma canonical_fixpoint:
  assumes "ParseHttpiUrl U location = Inr parts"
  shows "ParseHttpiUrl U (''httpi://'' @ endpoint_id parts @ path parts) = Inr parts"
  using ParseHttpiUrl_render [OF ParseHttpiUrl_Inr [OF assms]] by simp

end

text \<open>
  C5. The canonical form of an \<^verbatim>\<open>httpi://\<close> location is a normal form: it parses to the same
  endpoint and base path as the location it came from and canonicalizes to itself, so two
  locations have the same canonical form exactly when they name the same endpoint and path.
\<close>

theorem CanonicalizeHttpiLocation_normal_form:
  assumes "duckdb_strings U" and "CanonicalizeHttpiLocation U location = Inr c"
  shows "ParseHttpiUrl U c = ParseHttpiUrl U location \<and> CanonicalizeHttpiLocation U c = Inr c \<and>
    (CanonicalizeHttpiLocation U location' = Inr c \<longleftrightarrow>
       ParseHttpiUrl U location' = ParseHttpiUrl U location)"
proof -
  obtain parts where p: "ParseHttpiUrl U location = Inr parts"
      "c = ''httpi://'' @ endpoint_id parts @ path parts"
    using assms(2) by (auto simp: CanonicalizeHttpiLocation_def split: sum.splits)
  have q: "ParseHttpiUrl U c = Inr parts"
    using duckdb_strings.canonical_fixpoint [OF assms(1) p(1)] p(2) by simp
  have "ParseHttpiUrl U location' = Inr parts" if c': "CanonicalizeHttpiLocation U location' = Inr c"
  proof -
    obtain parts' where p': "ParseHttpiUrl U location' = Inr parts'"
        "c = ''httpi://'' @ endpoint_id parts' @ path parts'"
      using c' by (auto simp: CanonicalizeHttpiLocation_def split: sum.splits)
    then show ?thesis
      using duckdb_strings.canonical_fixpoint [OF assms(1) p'(1)] q by simp
  qed
  then show ?thesis
    using p q by (auto simp: CanonicalizeHttpiLocation_def)
qed

theorem CanonicalizeHttpiLocation_normal_form_witness:
  "ParseHttpiUrl ascii_strings (''httpi://'' @ replicate 64 CHR ''a'') =
     ParseHttpiUrl ascii_strings (''httpi://'' @ replicate 64 CHR ''a'' @ ''/'')"
proof -
  let ?l = "''httpi://'' @ replicate 64 CHR ''a'' @ ''/''"
  have "CanonicalizeHttpiLocation ascii_strings ?l = Inr (''httpi://'' @ replicate 64 CHR ''a'')"
    by (simp add: CanonicalizeHttpiLocation_def ParseHttpiUrl_def IsHttpiTransport_def
        ascii_strings_def starts_with_def lower_hex_def is_digit_def list_all_iff Let_def)
  from CanonicalizeHttpiLocation_normal_form [OF ascii.duckdb_strings_axioms this]
  show ?thesis by blast
qed

end
