(* ===== verification/Location_Policy.thy ===== *)
theory Location_Policy
  imports Transport
begin

text \<open>
  The location policy, \<^verbatim>\<open>src/src/vgi_location_classify.cpp\<close> and
  \<^verbatim>\<open>src/src/vgi_location_policy.cpp\<close>: the transport bit mask, its textual form, the
  classification of a location, the check every entry point makes, and the lock-free
  narrowing of the mask, whose compare-and-swap loop is a step relation over any number of
  threads.
\<close>

section \<open>Transport bits\<close>

definition POLICY_SUBPROCESS :: u32 where "POLICY_SUBPROCESS = push_bit 0 1"
definition POLICY_LAUNCH :: u32 where "POLICY_LAUNCH = push_bit 1 1"
definition POLICY_UNIX :: u32 where "POLICY_UNIX = push_bit 2 1"
definition POLICY_OCI :: u32 where "POLICY_OCI = push_bit 3 1"
definition POLICY_GITHUB :: u32 where "POLICY_GITHUB = push_bit 4 1"
definition POLICY_DATABASE :: u32 where "POLICY_DATABASE = push_bit 5 1"
definition POLICY_HTTP :: u32 where "POLICY_HTTP = push_bit 6 1"
definition POLICY_HTTPS :: u32 where "POLICY_HTTPS = push_bit 7 1"
definition POLICY_TCP :: u32 where "POLICY_TCP = push_bit 8 1"
definition POLICY_HTTPI :: u32 where "POLICY_HTTPI = push_bit 9 1"
definition POLICY_IROH :: u32 where "POLICY_IROH = push_bit 10 1"
definition POLICY_WORKER :: u32 where "POLICY_WORKER = push_bit 11 1"

definition POLICY_LOCAL_TRANSPORTS :: u32 where
  "POLICY_LOCAL_TRANSPORTS =
     POLICY_SUBPROCESS OR POLICY_LAUNCH OR POLICY_UNIX OR POLICY_OCI OR POLICY_GITHUB OR POLICY_DATABASE"

definition POLICY_ALL_TRANSPORTS :: u32 where
  "POLICY_ALL_TRANSPORTS =
     POLICY_LOCAL_TRANSPORTS OR POLICY_HTTP OR POLICY_HTTPS OR POLICY_TCP OR POLICY_HTTPI OR POLICY_IROH
       OR POLICY_WORKER"

lemmas policy_bit_defs =
  POLICY_SUBPROCESS_def POLICY_LAUNCH_def POLICY_UNIX_def POLICY_OCI_def POLICY_GITHUB_def
  POLICY_DATABASE_def POLICY_HTTP_def POLICY_HTTPS_def POLICY_TCP_def POLICY_HTTPI_def
  POLICY_IROH_def POLICY_WORKER_def

definition kTokens :: "(string \<times> u32) list" where
  "kTokens =
     [(''subprocess'', POLICY_SUBPROCESS), (''launch'', POLICY_LAUNCH), (''unix'', POLICY_UNIX),
      (''oci'', POLICY_OCI), (''github'', POLICY_GITHUB), (''database'', POLICY_DATABASE),
      (''http'', POLICY_HTTP), (''https'', POLICY_HTTPS), (''tcp'', POLICY_TCP),
      (''httpi'', POLICY_HTTPI), (''iroh'', POLICY_IROH), (''worker'', POLICY_WORKER)]"

datatype LocationEntryPoint = ATTACH | VGI_CATALOGS | VGI_PROTOCOLS

fun LocationEntryPointName :: "LocationEntryPoint \<Rightarrow> string" where
  "LocationEntryPointName ATTACH = ''attach''"
| "LocationEntryPointName VGI_PROTOCOLS = ''vgi_protocols''"
| "LocationEntryPointName VGI_CATALOGS = ''vgi_catalogs''"

definition PolicyTransportName :: "u32 \<Rightarrow> string" where
  "PolicyTransportName b =
     (case find (\<lambda>t. snd t = b) kTokens of Some t \<Rightarrow> fst t | None \<Rightarrow> ''unknown'')"

section \<open>Parsing and printing the setting\<close>

datatype policy_error =
    EmptyEntry | UnknownTransport string | NotGlobal | NotRegistered | NullSetting | CannotWiden
  | UnsupportedLocation | TransportNotAllowed string | ExternalAccessDisabled string

fun parse_tokens :: "string_util \<Rightarrow> string list \<Rightarrow> u32 \<Rightarrow> policy_error + u32" where
  "parse_tokens U [] tmask = Inr tmask"
| "parse_tokens U (piece # pieces) tmask =
     (let token = su_trim U (su_lower U piece) in
      if token = [] then Inl EmptyEntry
      else if token = ''all'' then parse_tokens U pieces (tmask OR POLICY_ALL_TRANSPORTS)
      else if token \<noteq> ''none'' then
        (case map_of kTokens token of
           Some b \<Rightarrow> parse_tokens U pieces (tmask OR b)
         | None \<Rightarrow> Inl (UnknownTransport token))
      else parse_tokens U pieces tmask)"

definition ParseAllowedTransports :: "string_util \<Rightarrow> string \<Rightarrow> policy_error + u32" where
  "ParseAllowedTransports U v = parse_tokens U (split_all (CHR '','') v) 0"

definition append_token :: "u32 \<Rightarrow> string \<times> u32 \<Rightarrow> string \<Rightarrow> string" where
  "append_token tmask t out =
     (if tmask AND snd t \<noteq> 0 then (if out \<noteq> [] then out @ '','' else out) @ fst t else out)"

definition FormatAllowedTransports :: "u32 \<Rightarrow> string" where
  "FormatAllowedTransports tmask =
     (if tmask = POLICY_ALL_TRANSPORTS then ''all''
      else if tmask = 0 then ''none''
      else fold (append_token tmask) kTokens [])"

section \<open>Classification and the check\<close>

text \<open>
  \<open>wasm\<close> is the build guard \<^verbatim>\<open>__EMSCRIPTEN__\<close>; the result 0 is a refusal.
\<close>

definition ClassifyLocationForPolicy :: "string_util \<Rightarrow> bool \<Rightarrow> string \<Rightarrow> LocationEntryPoint \<Rightarrow> u32" where
  "ClassifyLocationForPolicy U wasm location entry =
     (if IsResolvedWorkerLocation U location \<or> IsContainerSharedLocation U location then 0
      else if IsHttpTransport U location then
        (if lower_starts U location ''https://'' then POLICY_HTTPS else POLICY_HTTP)
      else if IsHttpiTransport U location then POLICY_HTTPI
      else if wasm \<and> IsWebWorkerTransport U location then POLICY_WORKER
      else if IsIrohTransport U location then POLICY_IROH
      else if IsTcpTransport U location then POLICY_TCP
      else if IsLaunchLocation location then POLICY_LAUNCH
      else if IsUnixLocation location then POLICY_UNIX
      else if IsGithubLocation U location \<or> IsGithubAutoLocation U location then POLICY_GITHUB
      else if IsContainerLocation U location then POLICY_OCI
      else if IsDatabaseLocation U location then (if entry \<noteq> ATTACH then 0 else POLICY_DATABASE)
      else POLICY_SUBPROCESS)"

definition TransportNameForLocation :: "string_util \<Rightarrow> bool \<Rightarrow> string \<Rightarrow> string" where
  "TransportNameForLocation U wasm location =
     (if location = [] then []
      else if IsResolvedWorkerLocation U location then PolicyTransportName POLICY_DATABASE
      else if IsContainerSharedLocation U location then PolicyTransportName POLICY_OCI
      else
        let b = ClassifyLocationForPolicy U wasm location ATTACH in
        if b \<noteq> 0 then PolicyTransportName b else [])"

record VgiLocationPolicy =
  allowed :: u32

definition CheckLocationPolicy ::
  "string_util \<Rightarrow> bool \<Rightarrow> VgiLocationPolicy option \<Rightarrow> bool \<Rightarrow> string \<Rightarrow> LocationEntryPoint \<Rightarrow>
     policy_error + unit" where
  "CheckLocationPolicy U wasm policy external_access location entry =
     (let transport = ClassifyLocationForPolicy U wasm location entry in
      if transport = 0 then Inl UnsupportedLocation
      else case policy of
        None \<Rightarrow> Inl NotRegistered
      | Some p \<Rightarrow>
          if allowed p AND transport = 0 then Inl (TransportNotAllowed (PolicyTransportName transport))
          else if transport AND POLICY_LOCAL_TRANSPORTS \<noteq> 0 \<and> \<not> external_access
          then Inl (ExternalAccessDisabled (PolicyTransportName transport))
          else Inr ())"

section \<open>Changing the mask\<close>

text \<open>\<^verbatim>\<open>Narrow\<close> without interference, and the setting callback around it.\<close>

definition Narrow :: "VgiLocationPolicy \<Rightarrow> u32 \<Rightarrow> policy_error + VgiLocationPolicy" where
  "Narrow policy requested =
     (if requested AND NOT (allowed policy) \<noteq> 0 then Inl CannotWiden
      else Inr (policy\<lparr>allowed := requested\<rparr>))"

datatype SetScope = SCOPE_AUTOMATIC | SCOPE_GLOBAL | SCOPE_OTHER

definition AllowedTransportsSetCallback ::
  "string_util \<Rightarrow> VgiLocationPolicy option \<Rightarrow> SetScope \<Rightarrow> string option \<Rightarrow>
     policy_error + (VgiLocationPolicy \<times> string)" where
  "AllowedTransportsSetCallback U policy scope parameter =
     (if scope \<noteq> SCOPE_AUTOMATIC \<and> scope \<noteq> SCOPE_GLOBAL then Inl NotGlobal
      else case policy of
        None \<Rightarrow> Inl NotRegistered
      | Some p \<Rightarrow>
          (case parameter of
             None \<Rightarrow> Inl NullSetting
           | Some v \<Rightarrow>
               (case ParseAllowedTransports U v of
                  Inl e \<Rightarrow> Inl e
                | Inr requested \<Rightarrow>
                    (case Narrow p requested of
                       Inl e \<Rightarrow> Inl e
                     | Inr p' \<Rightarrow> Inr (p', FormatAllowedTransports requested)))))"

definition RegisterLocationPolicySetting ::
  "string_util \<Rightarrow> string option \<Rightarrow> VgiLocationPolicy \<Rightarrow> policy_error + VgiLocationPolicy" where
  "RegisterLocationPolicySetting U current policy =
     (case current of
        None \<Rightarrow> Inr policy
      | Some v \<Rightarrow>
          (case ParseAllowedTransports U v of
             Inl e \<Rightarrow> Inl e
           | Inr tmask \<Rightarrow> Inr (policy\<lparr>allowed := tmask\<rparr>)))"

text \<open>
  The loop under interference. A thread has a request and a program counter; \<open>Loaded c\<close> holds
  its local copy \<^verbatim>\<open>current\<close>. A weak compare-and-swap may fail although the values agree;
  either way it reloads the copy.
\<close>

datatype narrow_pc = Start | Loaded u32 | Done | Refused

record narrow_state =
  cur :: u32
  request :: "nat \<Rightarrow> u32"
  pc :: "nat \<Rightarrow> narrow_pc"

inductive narrow_step :: "narrow_state \<Rightarrow> narrow_state \<Rightarrow> bool" where
  load: "pc s i = Start \<Longrightarrow> narrow_step s (s\<lparr>pc := (pc s)(i := Loaded (cur s))\<rparr>)"
| refuse: "pc s i = Loaded c \<Longrightarrow> request s i AND NOT c \<noteq> 0 \<Longrightarrow>
    narrow_step s (s\<lparr>pc := (pc s)(i := Refused)\<rparr>)"
| cas_ok: "pc s i = Loaded c \<Longrightarrow> request s i AND NOT c = 0 \<Longrightarrow> cur s = c \<Longrightarrow>
    narrow_step s (s\<lparr>cur := request s i, pc := (pc s)(i := Done)\<rparr>)"
| cas_fail: "pc s i = Loaded c \<Longrightarrow> request s i AND NOT c = 0 \<Longrightarrow>
    narrow_step s (s\<lparr>pc := (pc s)(i := Loaded (cur s))\<rparr>)"

inductive_cases narrow_stepE: "narrow_step s t"

section \<open>Laws of masks and tokens\<close>

abbreviation sub_mask :: "u32 \<Rightarrow> u32 \<Rightarrow> bool" where
  "sub_mask a b \<equiv> a AND NOT b = 0"

lemma sub_mask_bits: "sub_mask a b \<longleftrightarrow> (\<forall>n. bit a n \<longrightarrow> bit b n)"
  using bit_imp_le_length [of a] by (auto simp: bit_eq_iff bit_simps)

lemma sub_mask_refl [simp]: "sub_mask a a"
  by (simp add: sub_mask_bits)

lemma sub_mask_trans: "sub_mask a b \<Longrightarrow> sub_mask b c \<Longrightarrow> sub_mask a c"
  by (simp add: sub_mask_bits)

lemma kTokens_bits: "map snd kTokens = map (\<lambda>i. push_bit i 1) [0..<12]"
  by (simp add: kTokens_def policy_bit_defs upt_rec)

lemma policy_all_mask: "POLICY_ALL_TRANSPORTS = Bit_Operations.mask 12"
  by (simp add: POLICY_ALL_TRANSPORTS_def POLICY_LOCAL_TRANSPORTS_def policy_bit_defs mask_eq_exp_minus_1)



lemma selected_bits:
  assumes "sub_mask tmask POLICY_ALL_TRANSPORTS"
  shows "(\<exists>t\<in>set kTokens. tmask AND snd t \<noteq> 0 \<and> bit (snd t) n) \<longleftrightarrow> bit tmask n"
proof -
  have "(\<exists>t\<in>set kTokens. tmask AND snd t \<noteq> 0 \<and> bit (snd t) n) \<longleftrightarrow>
      (\<exists>b\<in>set (map snd kTokens). tmask AND b \<noteq> 0 \<and> bit b n)"
    by auto
  also have "\<dots> \<longleftrightarrow> (\<exists>i<12. bit tmask i \<and> n = i)"
    unfolding kTokens_bits
    using bit_imp_le_length [of tmask] by (auto simp: push_bit_of_1 and_exp_eq_0_iff_not_bit bit_simps)
  also have "\<dots> \<longleftrightarrow> bit tmask n"
    using assms by (auto simp: sub_mask_bits policy_all_mask bit_simps)
  finally show ?thesis .
qed

lemma bit_fold_or:
  "bit (fold (\<lambda>t m. m OR snd t) ts m) n \<longleftrightarrow> bit m n \<or> (\<exists>t\<in>set ts. bit (snd t) n)"
  for m :: u32 and ts :: "('a \<times> u32) list"
  by (induction ts arbitrary: m) (auto simp: bit_simps)

lemma fold_or_selected:
  assumes "sub_mask tmask POLICY_ALL_TRANSPORTS"
  shows "fold (\<lambda>t m. m OR snd t) (filter (\<lambda>t. tmask AND snd t \<noteq> 0) kTokens) 0 = tmask"
proof (rule bit_word_eqI)
  fix n
  show "bit (fold (\<lambda>t m. m OR snd t) (filter (\<lambda>t. tmask AND snd t \<noteq> 0) kTokens) 0) n = bit tmask n"
    unfolding bit_fold_or selected_bits [OF assms, of n, symmetric] by (simp add: Bex_def conj_assoc)
qed

lemma fold_append_token:
  assumes "\<forall>t\<in>set ts. fst t \<noteq> []"
  shows "fold (append_token tmask) ts out =
    (let names = map fst (filter (\<lambda>t. tmask AND snd t \<noteq> 0) ts) in
     if out = [] then sep_join '','' names else sep_join '','' (out # names))"
  using assms
proof (induction ts arbitrary: out)
  case Nil
  then show ?case by (simp add: Let_def)
next
  case (Cons t ts)
  then show ?case by (auto simp: append_token_def Let_def sep_join_Cons)
qed

lemma split_all_sep_join:
  assumes "names \<noteq> []" "\<forall>x\<in>set names. c \<notin> set x"
  shows "split_all c (sep_join [c] names) = names"
  using assms
proof (induction names)
  case (Cons x xs)
  then show ?case by (cases xs) (auto simp: sep_join_Cons)
qed simp

lemma kTokens_plain:
  assumes "t \<in> set kTokens"
  shows "fst t \<noteq> []" "CHR '','' \<notin> set (fst t)" "map ascii_lower (fst t) = fst t"
    "ascii_trim (fst t) = fst t" "fst t \<noteq> ''all''" "fst t \<noteq> ''none''"
    "map_of kTokens (fst t) = Some (snd t)"
  using assms
  by (auto simp: kTokens_def ascii_lower_def ascii_trim_def ascii_space_def)

context duckdb_strings
begin

lemma parse_known_tokens:
  assumes "set ts \<subseteq> set kTokens"
  shows "parse_tokens U (map fst ts) tmask = Inr (fold (\<lambda>t m. m OR snd t) ts tmask)"
  using assms
proof (induction ts arbitrary: tmask)
  case (Cons t ts)
  then show ?case
    using kTokens_plain [of t] by (simp add: lower_ascii trim_ascii Let_def)
qed simp

end

section \<open>Properties\<close>

text \<open>
  The canonical text of a mask reads back as that mask: for every mask of known transports,
  parsing what \<^verbatim>\<open>FormatAllowedTransports\<close> prints gives the mask again, so
  \<^verbatim>\<open>current_setting()\<close> shows what is enforced.
\<close>

theorem ParseAllowedTransports_Format:
  assumes "duckdb_strings U" and "sub_mask tmask POLICY_ALL_TRANSPORTS"
  shows "ParseAllowedTransports U (FormatAllowedTransports tmask) = Inr tmask"
proof (cases "tmask = POLICY_ALL_TRANSPORTS \<or> tmask = 0")
  case True
  then show ?thesis
    using assms(1)
    by (auto simp: ParseAllowedTransports_def FormatAllowedTransports_def Let_def policy_all_mask
        duckdb_strings.lower_ascii duckdb_strings.trim_ascii ascii_lower_def ascii_trim_def ascii_space_def)
next
  case False
  let ?sel = "filter (\<lambda>t. tmask AND snd t \<noteq> 0) kTokens"
  have ne: "?sel \<noteq> []"
    using fold_or_selected [OF assms(2)] False by force
  have "fold (append_token tmask) kTokens [] = sep_join '','' (map fst ?sel)"
    using fold_append_token [of kTokens tmask "[]"] kTokens_plain(1) by (simp add: Let_def)
  moreover have "split_all (CHR '','') (sep_join '','' (map fst ?sel)) = map fst ?sel"
    using ne kTokens_plain(2) by (intro split_all_sep_join) auto
  moreover have "parse_tokens U (map fst ?sel) 0 = Inr tmask"
    using duckdb_strings.parse_known_tokens [OF assms(1), of ?sel 0] fold_or_selected [OF assms(2)]
    by simp
  ultimately show ?thesis
    using False by (simp add: ParseAllowedTransports_def FormatAllowedTransports_def)
qed

theorem ParseAllowedTransports_Format_witness:
  "ParseAllowedTransports ascii_strings (FormatAllowedTransports (POLICY_HTTPS OR POLICY_TCP)) =
     Inr (POLICY_HTTPS OR POLICY_TCP)"
  by (rule ParseAllowedTransports_Format [OF ascii.duckdb_strings_axioms])
    (simp add: policy_all_mask policy_bit_defs mask_eq_exp_minus_1)

definition narrow_ok :: "narrow_state \<Rightarrow> bool" where
  "narrow_ok s \<longleftrightarrow> (\<forall>i. pc s i = Done \<longrightarrow> sub_mask (cur s) (request s i))"

lemma narrow_step_keeps:
  assumes "narrow_step s t" and "narrow_ok s"
  shows "narrow_ok t" "sub_mask (cur t) (cur s)" "request t = request s"
  using assms by (auto elim!: narrow_stepE simp: narrow_ok_def split: if_splits) (metis sub_mask_trans)

lemma narrow_reach:
  assumes "narrow_step\<^sup>*\<^sup>* s t" and "narrow_ok s"
  shows "narrow_ok t \<and> sub_mask (cur t) (cur s) \<and> request t = request s"
  using assms
proof (induction rule: rtranclp_induct)
  case (step t u)
  then show ?case
    using narrow_step_keeps [of t u] sub_mask_trans by metis
qed simp

text \<open>
  C7. The restriction only ever tightens. However many threads run \<^verbatim>\<open>Narrow\<close> and in whatever
  order their loads and compare-and-swaps interleave, from any state where no call has returned
  the mask stays within its earlier value at every later point, and within the request of
  every call that has returned: a completed restriction is never undone by a slower thread.
\<close>

theorem Narrow_interleavings:
  assumes "\<forall>i. pc s0 i = Start" and "narrow_step\<^sup>*\<^sup>* s0 s" and "narrow_step\<^sup>*\<^sup>* s t"
  shows "sub_mask (cur t) (cur s) \<and> (\<forall>i. pc s i = Done \<longrightarrow> sub_mask (cur t) (request s0 i))"
proof -
  have "narrow_ok s0" using assms(1) by (simp add: narrow_ok_def)
  from narrow_reach [OF assms(2) this] have s: "narrow_ok s" "request s = request s0" by auto
  from narrow_reach [OF assms(3) s(1)] have "sub_mask (cur t) (cur s)" by simp
  then show ?thesis
    using s sub_mask_trans by (metis narrow_ok_def)
qed

theorem Narrow_interleavings_witness:
  "\<exists>s. narrow_step\<^sup>*\<^sup>* \<lparr>cur = POLICY_ALL_TRANSPORTS, request = \<lambda>_. POLICY_HTTPS, pc = \<lambda>_. Start\<rparr> s \<and>
     pc s 0 = Done \<and> sub_mask (cur s) POLICY_HTTPS"
proof -
  let ?s0 = "\<lparr>cur = POLICY_ALL_TRANSPORTS, request = \<lambda>_. POLICY_HTTPS, pc = \<lambda>_::nat. Start\<rparr>"
  let ?s1 = "?s0\<lparr>pc := (pc ?s0)(0 := Loaded (cur ?s0))\<rparr>"
  let ?s2 = "?s1\<lparr>cur := request ?s1 0, pc := (pc ?s1)(0 := Done)\<rparr>"
  have "narrow_step ?s0 ?s1" by (rule narrow_step.load) simp
  moreover have "narrow_step ?s1 ?s2"
    by (rule narrow_step.cas_ok) (simp_all add: policy_all_mask policy_bit_defs mask_eq_exp_minus_1)
  ultimately have r: "narrow_step\<^sup>*\<^sup>* ?s0 ?s2" by (meson rtranclp.rtrancl_refl rtranclp.rtrancl_into_rtrancl)
  have "pc ?s2 0 = Done" by simp
  with Narrow_interleavings [OF _ r rtranclp.rtrancl_refl] r show ?thesis
    by (intro exI [of _ ?s2]) simp
qed

lemma scheme_clash:
  "prefix a x \<Longrightarrow> prefix b x \<Longrightarrow> \<not> prefix a b \<Longrightarrow> \<not> prefix b a \<Longrightarrow> False"
  using prefix_same_cases by blast

lemma prefix_lowerI: "prefix s p \<Longrightarrow> map ascii_lower s = s \<Longrightarrow> prefix s (map ascii_lower p)"
  by (metis map_mono_prefix)

context duckdb_strings
begin

lemma lower_starts_prefix: "lower_starts U p s \<longleftrightarrow> prefix s (map ascii_lower p)"
  by (simp add: lower_starts_def lower_ascii starts_prefix)

lemma scheme_prefixes:
  "IsLaunchLocation p \<Longrightarrow> prefix ''launch:'' (map ascii_lower p)"
  "IsUnixLocation p \<Longrightarrow> prefix ''unix://'' (map ascii_lower p)"
  "IsIrohTransport U p \<Longrightarrow> prefix ''iroh://'' (map ascii_lower p)"
  "IsHttpiTransport U p \<Longrightarrow> prefix ''httpi://'' (map ascii_lower p)"
  by (auto intro!: prefix_lowerI simp: IsLaunchLocation_def launcher_IsLaunchLocation_def
      IsUnixLocation_def launcher_IsUnixLocation_def IsIrohTransport_def IsHttpiTransport_def
      starts_prefix starts_with_prefix ascii_lower_def) (metis take_is_prefix)+

end

end
