(* ===== verification/Location_Dispatch.thy ===== *)
theory Location_Dispatch
  imports Location_Policy
begin

text \<open>
  From a checked location to a worker: the rewriting of container and database locations by the
  ATTACH handler of \<^verbatim>\<open>src/src/vgi_extension.cpp\<close>, the two dispatchers that every connection and
  every unary call go through, \<^verbatim>\<open>CreateFunctionConnection\<close> of \<^verbatim>\<open>vgi_function_connection.cpp\<close> and
  \<^verbatim>\<open>InvokeUnaryRpcOnTransport\<close> of \<^verbatim>\<open>vgi_unary_rpc.cpp\<close>, and the helpers that start or find the
  worker, \<^verbatim>\<open>ResolveWorkerPath\<close>, \<^verbatim>\<open>SpawnWorker\<close> and \<^verbatim>\<open>ResolveLauncherSocketPath\<close>. A route is what
  the code goes on to contact or to run; the I/O behind a route is not modelled.
\<close>

section \<open>Routes\<close>

datatype route =
    HttpRoute string
  | HttpiRoute string
  | BrowserRoute string
  | IrohRoute string
  | TcpRoute string nat
  | SharedContainerRoute string
  | SocketRoute string
  | LauncherRoute string
  | ArtifactRoute string
  | ContainerRoute string
  | CommandRoute string

datatype dispatch_error = NotInBuild | MissingIrohConfig | BadLocation location_error | NotResolved

text \<open>\<open>ResolveGithubWorker\<close>, which downloads a release and gives the path of its executable, is an argument.\<close>

definition ResolveWorkerPath :: "string_util \<Rightarrow> (string \<Rightarrow> string) \<Rightarrow> string \<Rightarrow> string" where
  "ResolveWorkerPath U ResolveGithubWorker location =
     (if IsGithubLocation U location \<or> IsGithubAutoLocation U location then ResolveGithubWorker location else location)"

definition SpawnWorker :: "string_util \<Rightarrow> string \<Rightarrow> route" where
  "SpawnWorker U worker_path =
     (if IsResolvedWorkerLocation U worker_path then ArtifactRoute worker_path
      else if \<not> IsContainerLocation U worker_path then CommandRoute worker_path
      else ContainerRoute worker_path)"

definition ResolveLauncherSocketPath :: "string \<Rightarrow> dispatch_error + route" where
  "ResolveLauncherSocketPath location =
     (if IsUnixLocation location
      then (case StripUnixScheme location of Inl e \<Rightarrow> Inl (BadLocation e) | Inr socket \<Rightarrow> Inr (SocketRoute socket))
      else (case StripLaunchScheme location of Inl e \<Rightarrow> Inl (BadLocation e) | Inr argv \<Rightarrow> Inr (LauncherRoute argv)))"

definition canonical_httpi :: "string_util \<Rightarrow> string \<Rightarrow> dispatch_error + route" where
  "canonical_httpi U worker_path =
     (case CanonicalizeHttpiLocation U worker_path of
        Inl e \<Rightarrow> Inl (BadLocation e)
      | Inr location \<Rightarrow> Inr (HttpiRoute location))"

definition connect_tcp :: "string_util \<Rightarrow> string \<Rightarrow> dispatch_error + route" where
  "connect_tcp U worker_path =
     (case ParseTcpLocation U worker_path of
        Inl e \<Rightarrow> Inl (BadLocation e)
      | Inr (host, port) \<Rightarrow> Inr (TcpRoute host port))"

section \<open>The two dispatchers\<close>

text \<open>
  \<open>wasm\<close> is the build guard \<^verbatim>\<open>__EMSCRIPTEN__\<close>; every other build has child processes, sockets and
  TCP. \<open>iroh\<close> tells whether the catalog carries an iroh configuration.
\<close>

definition CreateFunctionConnection ::
  "string_util \<Rightarrow> (string \<Rightarrow> string) \<Rightarrow> bool \<Rightarrow> bool \<Rightarrow> string \<Rightarrow> dispatch_error + route" where
  "CreateFunctionConnection U ResolveGithubWorker wasm iroh worker_path =
     (if IsHttpTransport U worker_path then Inr (HttpRoute worker_path)
      else if IsHttpiTransport U worker_path then
        (if \<not> wasm \<and> \<not> iroh then Inl MissingIrohConfig else canonical_httpi U worker_path)
      else if wasm \<and> (IsWebWorkerTransport U worker_path \<or> IsIrohTransport U worker_path)
      then Inr (BrowserRoute worker_path)
      else if \<not> wasm \<and> IsIrohTransport U worker_path then
        (if \<not> iroh then Inl MissingIrohConfig else Inr (IrohRoute worker_path))
      else if IsContainerSharedLocation U worker_path then
        (if wasm then Inl NotInBuild else Inr (SharedContainerRoute worker_path))
      else if IsTcpTransport U worker_path then (if wasm then Inl NotInBuild else connect_tcp U worker_path)
      else if IsLaunchLocation worker_path \<or> IsUnixLocation worker_path then
        (if wasm then Inl NotInBuild else ResolveLauncherSocketPath worker_path)
      else if IsGithubLocation U worker_path \<or> IsGithubAutoLocation U worker_path then
        (if wasm then Inl NotInBuild
         else Inr (SpawnWorker U (ResolveWorkerPath U ResolveGithubWorker worker_path)))
      else if wasm then Inl NotInBuild
      else Inr (SpawnWorker U (ResolveWorkerPath U ResolveGithubWorker worker_path)))"

definition InvokeUnaryRpcOnTransport ::
  "string_util \<Rightarrow> (string \<Rightarrow> string) \<Rightarrow> bool \<Rightarrow> bool \<Rightarrow> string \<Rightarrow> dispatch_error + route" where
  "InvokeUnaryRpcOnTransport U ResolveGithubWorker wasm iroh worker_path =
     (if IsHttpTransport U worker_path then Inr (HttpRoute worker_path)
      else if IsHttpiTransport U worker_path then canonical_httpi U worker_path
      else if wasm \<and> (IsWebWorkerTransport U worker_path \<or> IsIrohTransport U worker_path)
      then Inr (BrowserRoute worker_path)
      else if \<not> wasm \<and> IsIrohTransport U worker_path then
        (if \<not> iroh then Inl MissingIrohConfig else Inr (IrohRoute worker_path))
      else if IsContainerSharedLocation U worker_path then
        (if wasm then Inl NotInBuild else Inr (SharedContainerRoute worker_path))
      else if IsTcpTransport U worker_path then (if wasm then Inl NotInBuild else connect_tcp U worker_path)
      else if IsLaunchLocation worker_path \<or> IsUnixLocation worker_path then
        (if wasm then Inl NotInBuild else ResolveLauncherSocketPath worker_path)
      else if wasm then Inl NotInBuild
      else Inr (SpawnWorker U (ResolveWorkerPath U ResolveGithubWorker worker_path)))"

section \<open>What ATTACH makes of a location\<close>

text \<open>
  \<open>shared\<close> is the connection mode the image or the user selects, \<open>spec_hash\<close> the digest of the
  container's specification and \<open>ResolveDatabaseWorker\<close> the snapshot of a registry row, None when it
  fails; the token it gives starts with \<^verbatim>\<open>vgi-artifact:\<close>. An option that ATTACH rejects ends it before
  anything is dispatched and is left out. The discovery functions dispatch the location as it is.
\<close>

definition attach_container :: "string_util \<Rightarrow> bool \<Rightarrow> bool \<Rightarrow> string \<Rightarrow> string \<Rightarrow> dispatch_error + string" where
  "attach_container U wasm shared spec_hash worker_path =
     (if IsContainerLocation U worker_path then
        (if wasm then Inl NotInBuild
         else if shared then Inr (''container-shared:'' @ worker_path @ ''#'' @ spec_hash)
         else Inr (worker_path @ ''#'' @ spec_hash))
      else Inr worker_path)"

definition attach_database ::
  "string_util \<Rightarrow> (string \<Rightarrow> string option) \<Rightarrow> string \<Rightarrow> dispatch_error + string" where
  "attach_database U ResolveDatabaseWorker worker_path =
     (if IsDatabaseLocation U worker_path
      then (case ResolveDatabaseWorker worker_path of
              None \<Rightarrow> Inl NotResolved
            | Some artifact \<Rightarrow> Inr (''vgi-artifact:'' @ artifact))
      else Inr worker_path)"

definition browser_location :: "string_util \<Rightarrow> string \<Rightarrow> bool" where
  "browser_location U worker_path \<longleftrightarrow>
     IsHttpTransport U worker_path \<or> IsWebWorkerTransport U worker_path \<or>
     IsIrohTransport U worker_path \<or> IsHttpiTransport U worker_path"

definition attach_worker_path ::
  "string_util \<Rightarrow> (string \<Rightarrow> string option) \<Rightarrow> bool \<Rightarrow> bool \<Rightarrow> string \<Rightarrow> string \<Rightarrow> dispatch_error + string" where
  "attach_worker_path U ResolveDatabaseWorker wasm shared spec_hash worker_path =
     (case attach_container U wasm shared spec_hash worker_path of
        Inl e \<Rightarrow> Inl e
      | Inr container \<Rightarrow>
          (case attach_database U ResolveDatabaseWorker container of
             Inl e \<Rightarrow> Inl e
           | Inr resolved \<Rightarrow> if wasm \<and> \<not> browser_location U resolved then Inl NotInBuild else Inr resolved))"

section \<open>What a route is allowed as\<close>

text \<open>
  The policy's view of a route: the transport that has to be permitted for it, and how the route
  comes from the location the user wrote.
\<close>

fun permitted_as ::
  "string_util \<Rightarrow> (string \<Rightarrow> string) \<Rightarrow> (string \<Rightarrow> string option) \<Rightarrow> bool \<Rightarrow> string \<Rightarrow> string \<Rightarrow> u32 \<Rightarrow> route \<Rightarrow> bool" where
  "permitted_as U github db wasm spec_hash location transport (HttpRoute url) \<longleftrightarrow>
     url = location \<and> transport = (if lower_starts U url ''https://'' then POLICY_HTTPS else POLICY_HTTP)"
| "permitted_as U github db wasm spec_hash location transport (HttpiRoute url) \<longleftrightarrow>
     transport = POLICY_HTTPI \<and> CanonicalizeHttpiLocation U location = Inr url"
| "permitted_as U github db wasm spec_hash location transport (BrowserRoute target) \<longleftrightarrow>
     wasm \<and> target = location \<and> transport = (if IsIrohTransport U target then POLICY_IROH else POLICY_WORKER)"
| "permitted_as U github db wasm spec_hash location transport (IrohRoute target) \<longleftrightarrow>
     target = location \<and> transport = POLICY_IROH"
| "permitted_as U github db wasm spec_hash location transport (TcpRoute host port) \<longleftrightarrow>
     transport = POLICY_TCP \<and> ParseTcpLocation U location = Inr (host, port)"
| "permitted_as U github db wasm spec_hash location transport (SharedContainerRoute token) \<longleftrightarrow>
     transport = POLICY_OCI \<and> token = ''container-shared:'' @ location @ ''#'' @ spec_hash"
| "permitted_as U github db wasm spec_hash location transport (SocketRoute socket) \<longleftrightarrow>
     transport = POLICY_UNIX \<and> StripUnixScheme location = Inr socket"
| "permitted_as U github db wasm spec_hash location transport (LauncherRoute argv) \<longleftrightarrow>
     transport = POLICY_LAUNCH \<and> StripLaunchScheme location = Inr argv"
| "permitted_as U github db wasm spec_hash location transport (ArtifactRoute token) \<longleftrightarrow>
     transport = POLICY_DATABASE \<and> (\<exists>artifact. db location = Some artifact \<and> token = ''vgi-artifact:'' @ artifact)"
| "permitted_as U github db wasm spec_hash location transport (ContainerRoute key) \<longleftrightarrow>
     transport = POLICY_OCI \<and> IsContainerLocation U location \<and> key \<in> {location, location @ ''#'' @ spec_hash}"
| "permitted_as U github db wasm spec_hash location transport (CommandRoute command) \<longleftrightarrow>
     transport = POLICY_GITHUB \<and> command = github location \<or> transport = POLICY_SUBPROCESS \<and> command = location"

text \<open>The routes that run or reach something on this machine.\<close>

fun local_route :: "route \<Rightarrow> bool" where
  "local_route (SharedContainerRoute _) \<longleftrightarrow> True"
| "local_route (SocketRoute _) \<longleftrightarrow> True"
| "local_route (LauncherRoute _) \<longleftrightarrow> True"
| "local_route (ArtifactRoute _) \<longleftrightarrow> True"
| "local_route (ContainerRoute _) \<longleftrightarrow> True"
| "local_route (CommandRoute _) \<longleftrightarrow> True"
| "local_route _ \<longleftrightarrow> False"

lemma local_route_transport:
  assumes "permitted_as U github db wasm spec_hash location transport r" "local_route r"
  shows "transport AND POLICY_LOCAL_TRANSPORTS \<noteq> 0"
  using assms by (cases r) (auto simp: POLICY_LOCAL_TRANSPORTS_def policy_bit_defs)

section \<open>Schemes exclude one another\<close>

definition schemes :: "string list" where
  "schemes = [''http://'', ''https://'', ''httpi://'', ''worker:'', ''iroh://'', ''tcp://'', ''launch:'', ''unix://'',
     ''github://'', ''github-auto://'', ''oci://'', ''docker://'', ''database://'', ''container-shared:'', ''vgi-artifact:'']"

lemma schemes_exclusive: "list_all (\<lambda>s. list_all (\<lambda>s'. prefix s s' \<longrightarrow> s = s') schemes) schemes"
  by code_simp

lemma one_scheme: "s \<in> set schemes \<Longrightarrow> s' \<in> set schemes \<Longrightarrow> prefix s x \<Longrightarrow> prefix s' x \<Longrightarrow> s = s'"
  using schemes_exclusive scheme_clash [of s x s'] unfolding list_all_iff by metis

definition has_scheme :: "string \<Rightarrow> string \<Rightarrow> bool" where
  "has_scheme s p \<longleftrightarrow> s \<in> set schemes \<and> prefix s (map ascii_lower p)"

definition wire_schemes :: "string list" where
  "wire_schemes = [''http://'', ''https://'', ''httpi://'', ''worker:'', ''iroh://'', ''tcp://'', ''launch:'', ''unix://'',
     ''github://'', ''github-auto://'']"

lemma has_one_scheme: "has_scheme s p \<Longrightarrow> has_scheme s' p \<Longrightarrow> s = s'"
  unfolding has_scheme_def by (blast intro: one_scheme)

lemma has_scheme_append: "has_scheme s p \<Longrightarrow> has_scheme s (p @ q)"
  by (simp add: has_scheme_def)

context duckdb_strings
begin

lemma lower_scheme: "s \<in> set schemes \<Longrightarrow> lower_starts U p s \<longleftrightarrow> has_scheme s p"
  by (simp add: lower_starts_prefix has_scheme_def)

lemma in_schemes:
  "''http://'' \<in> set schemes" "''https://'' \<in> set schemes" "''worker:'' \<in> set schemes" "''tcp://'' \<in> set schemes"
  "''github://'' \<in> set schemes" "''github-auto://'' \<in> set schemes" "''oci://'' \<in> set schemes" "''docker://'' \<in> set schemes"
  "''database://'' \<in> set schemes"
  by (simp_all add: schemes_def)

lemmas lower_schemes = in_schemes [THEN lower_scheme]

lemma token_schemes:
  "IsContainerSharedLocation U p \<Longrightarrow> has_scheme ''container-shared:'' p"
  "IsResolvedWorkerLocation U p \<Longrightarrow> has_scheme ''vgi-artifact:'' p"
  by (auto intro!: prefix_lowerI simp: IsContainerSharedLocation_def IsResolvedWorkerLocation_def
      has_scheme_def schemes_def starts_prefix ascii_lower_def)

lemma raw_schemes:
  "IsLaunchLocation p \<Longrightarrow> has_scheme ''launch:'' p" "IsUnixLocation p \<Longrightarrow> has_scheme ''unix://'' p"
  "IsIrohTransport U p \<Longrightarrow> has_scheme ''iroh://'' p" "IsHttpiTransport U p \<Longrightarrow> has_scheme ''httpi://'' p"
  using scheme_prefixes [of p] by (simp_all add: has_scheme_def schemes_def)

text \<open>Each predicate names its scheme, so two of them on one location agree on it.\<close>

lemma not_wire:
  assumes "has_scheme s p" "s \<notin> set wire_schemes"
  shows "\<not> IsHttpTransport U p" "\<not> IsHttpiTransport U p" "\<not> IsWebWorkerTransport U p" "\<not> IsIrohTransport U p"
    "\<not> IsTcpTransport U p" "\<not> IsLaunchLocation p" "\<not> IsUnixLocation p" "\<not> IsGithubLocation U p" "\<not> IsGithubAutoLocation U p"
proof -
  have no: "\<not> has_scheme s' p" if "s' \<in> set wire_schemes" for s' using has_one_scheme [OF assms(1), of s'] assms(2) that by auto
  show "\<not> IsHttpTransport U p" using no lower_schemes(1,2) [of p] by (simp add: IsHttpTransport_def wire_schemes_def)
  show "\<not> IsWebWorkerTransport U p" using no lower_schemes(3) [of p] by (simp add: IsWebWorkerTransport_def wire_schemes_def)
  show "\<not> IsTcpTransport U p" using no lower_schemes(4) [of p] by (simp add: IsTcpTransport_def wire_schemes_def)
  show "\<not> IsGithubLocation U p" "\<not> IsGithubAutoLocation U p"
    using no lower_schemes(5,6) [of p] by (simp_all add: IsGithubLocation_def IsGithubAutoLocation_def wire_schemes_def)
  show "\<not> IsHttpiTransport U p" "\<not> IsIrohTransport U p" "\<not> IsLaunchLocation p" "\<not> IsUnixLocation p"
    using no raw_schemes [of p] by (auto simp: wire_schemes_def)
qed

lemma container_scheme:
  assumes "IsContainerLocation U p"
  shows "\<exists>s. has_scheme s p \<and> s \<in> set [''oci://'', ''docker://'']"
  using assms lower_schemes(7,8) [of p] unfolding IsContainerLocation_def by auto

lemma container_token:
  assumes "IsContainerLocation U p"
  shows "\<not> IsContainerSharedLocation U p" "\<not> IsResolvedWorkerLocation U p" "\<not> IsDatabaseLocation U p"
proof -
  obtain s where s: "has_scheme s p" "s \<in> set [''oci://'', ''docker://'']" using container_scheme [OF assms] by blast
  have no: "\<not> has_scheme s' p" if "s' \<notin> set [''oci://'', ''docker://'']" for s' using has_one_scheme [OF s(1), of s'] s(2) that by auto
  show "\<not> IsContainerSharedLocation U p" "\<not> IsResolvedWorkerLocation U p" using no token_schemes [of p] by auto
  show "\<not> IsDatabaseLocation U p" using no lower_schemes(9) [of p] by (simp add: IsDatabaseLocation_def)
qed

lemma container_append:
  assumes "IsContainerLocation U p"
  shows "IsContainerLocation U (p @ q)"
  using assms has_scheme_append [of _ p q] lower_schemes(7,8) [of p] lower_schemes(7,8) [of "p @ q"]
  by (auto simp: IsContainerLocation_def)

lemma shared_token:
  "IsContainerSharedLocation U (''container-shared:'' @ x)" "\<not> IsDatabaseLocation U (''container-shared:'' @ x)"
proof -
  show t: "IsContainerSharedLocation U (''container-shared:'' @ x)" by (simp add: IsContainerSharedLocation_def starts_prefix)
  show "\<not> IsDatabaseLocation U (''container-shared:'' @ x)"
    using has_one_scheme [OF token_schemes(1) [OF t]] lower_schemes(9) [of "''container-shared:'' @ x"]
    by (auto simp: IsDatabaseLocation_def)
qed

lemma artifact_token:
  "IsResolvedWorkerLocation U (''vgi-artifact:'' @ x)" "\<not> IsContainerSharedLocation U (''vgi-artifact:'' @ x)"
proof -
  show t: "IsResolvedWorkerLocation U (''vgi-artifact:'' @ x)" by (simp add: IsResolvedWorkerLocation_def starts_prefix)
  show "\<not> IsContainerSharedLocation U (''vgi-artifact:'' @ x)"
    using has_one_scheme [OF token_schemes(2) [OF t]] token_schemes(1) [of "''vgi-artifact:'' @ x"] by auto
qed

text \<open>Locations that ATTACH rewrites, and what the two dispatchers do with the result.\<close>

lemma dispatch_container:
  assumes "IsContainerLocation U location" "w \<in> {location, location @ ''#'' @ h}"
    "r \<in> {CreateFunctionConnection U github wasm iroh w, InvokeUnaryRpcOnTransport U github wasm iroh w}"
  shows "r \<in> {Inl NotInBuild, Inr (ContainerRoute w)}"
proof -
  have w: "IsContainerLocation U w" using assms(1,2) container_append by blast
  then obtain s where s: "has_scheme s w" "s \<in> set [''oci://'', ''docker://'']" using container_scheme by blast
  then have "s \<notin> set wire_schemes" by (auto simp: wire_schemes_def)
  from assms(3) w container_token [OF w] not_wire [OF s(1) this] show ?thesis
    by (auto simp: CreateFunctionConnection_def InvokeUnaryRpcOnTransport_def ResolveWorkerPath_def SpawnWorker_def)
qed

lemma dispatch_shared:
  assumes "r \<in> {CreateFunctionConnection U github wasm iroh w, InvokeUnaryRpcOnTransport U github wasm iroh w}"
    "w = ''container-shared:'' @ x"
  shows "r \<in> {Inl NotInBuild, Inr (SharedContainerRoute w)}"
proof -
  have w: "IsContainerSharedLocation U w" using assms(2) shared_token by blast
  have "''container-shared:'' \<notin> set wire_schemes" by (simp add: wire_schemes_def)
  from assms(1) w not_wire [OF token_schemes(1) [OF w] this] show ?thesis
    by (auto simp: CreateFunctionConnection_def InvokeUnaryRpcOnTransport_def)
qed

lemma dispatch_artifact:
  assumes "r \<in> {CreateFunctionConnection U github wasm iroh w, InvokeUnaryRpcOnTransport U github wasm iroh w}"
    "w = ''vgi-artifact:'' @ x"
  shows "r \<in> {Inl NotInBuild, Inr (ArtifactRoute w)}"
proof -
  have w: "IsResolvedWorkerLocation U w" "\<not> IsContainerSharedLocation U w" using assms(2) artifact_token by blast+
  have "''vgi-artifact:'' \<notin> set wire_schemes" by (simp add: wire_schemes_def)
  from assms(1) w not_wire [OF token_schemes(2) [OF w(1)] this] show ?thesis
    by (auto simp: CreateFunctionConnection_def InvokeUnaryRpcOnTransport_def ResolveWorkerPath_def SpawnWorker_def)
qed

lemma classify_container:
  assumes "IsContainerLocation U p"
  shows "ClassifyLocationForPolicy U wasm p entry = POLICY_OCI"
proof -
  obtain s where s: "has_scheme s p" "s \<in> set [''oci://'', ''docker://'']" using container_scheme [OF assms] by blast
  then have "s \<notin> set wire_schemes" by (auto simp: wire_schemes_def)
  then show ?thesis using assms container_token [OF assms] not_wire [OF s(1)] by (simp add: ClassifyLocationForPolicy_def)
qed

lemma classify_database:
  assumes "IsDatabaseLocation U p" "ClassifyLocationForPolicy U wasm p entry \<noteq> 0"
  shows "ClassifyLocationForPolicy U wasm p entry = POLICY_DATABASE \<and> entry = ATTACH"
proof -
  have s: "has_scheme ''database://'' p" using assms(1) lower_schemes(9) [of p] by (simp add: IsDatabaseLocation_def)
  have "''database://'' \<notin> set wire_schemes" by (simp add: wire_schemes_def)
  then show ?thesis using assms container_token(3) [of p] not_wire [OF s]
    by (auto simp: ClassifyLocationForPolicy_def split: if_splits)
qed

lemma worker_not_iroh: "IsWebWorkerTransport U p \<Longrightarrow> \<not> IsIrohTransport U p"
  using raw_schemes(3) [of p] lower_schemes(3) [of p] has_one_scheme [of "''worker:''" p "''iroh://''"]
  by (auto simp: IsWebWorkerTransport_def)

lemma launch_not_unix: "IsLaunchLocation p \<Longrightarrow> \<not> IsUnixLocation p"
  using raw_schemes(1,2) [of p] has_one_scheme [of "''launch:''" p "''unix://''"] by auto

text \<open>Every other location is dispatched as it was written.\<close>

lemma dispatch_plain:
  assumes "\<not> IsContainerLocation U w" "\<not> IsDatabaseLocation U w"
    "ClassifyLocationForPolicy U wasm w entry \<noteq> 0"
    "\<And>l. \<not> IsResolvedWorkerLocation U (github l) \<and> \<not> IsContainerLocation U (github l)"
    "Inr route \<in> {CreateFunctionConnection U github wasm iroh w, InvokeUnaryRpcOnTransport U github wasm iroh w}"
  shows "permitted_as U github db wasm h w (ClassifyLocationForPolicy U wasm w entry) route"
  using assms worker_not_iroh [of w] launch_not_unix [of w]
  by (auto simp: ClassifyLocationForPolicy_def CreateFunctionConnection_def InvokeUnaryRpcOnTransport_def
      ResolveWorkerPath_def SpawnWorker_def ResolveLauncherSocketPath_def canonical_httpi_def connect_tcp_def
      split: if_splits sum.splits prod.splits)

end

section \<open>Property\<close>

text \<open>The location the dispatchers see: rewritten by ATTACH, as it is for the discovery functions.\<close>

definition dispatched_location ::
  "string_util \<Rightarrow> (string \<Rightarrow> string option) \<Rightarrow> bool \<Rightarrow> bool \<Rightarrow> string \<Rightarrow> LocationEntryPoint \<Rightarrow> string \<Rightarrow> dispatch_error + string" where
  "dispatched_location U db wasm shared spec_hash entry location =
     (if entry = ATTACH then attach_worker_path U db wasm shared spec_hash location else Inr location)"

context duckdb_strings
begin

lemma rewritten_location:
  assumes "dispatched_location U db wasm shared h entry location = Inr w"
  shows "\<not> IsContainerLocation U location \<Longrightarrow> \<not> IsDatabaseLocation U location \<Longrightarrow> w = location"
    "IsContainerLocation U location \<Longrightarrow>
      w \<in> {location, location @ ''#'' @ h, ''container-shared:'' @ location @ ''#'' @ h}"
    "IsDatabaseLocation U location \<Longrightarrow> entry = ATTACH \<Longrightarrow> \<exists>a. db location = Some a \<and> w = ''vgi-artifact:'' @ a"
proof -
  note defs = dispatched_location_def attach_worker_path_def attach_container_def attach_database_def
  show "w = location" if "\<not> IsContainerLocation U location" "\<not> IsDatabaseLocation U location"
    using assms that by (auto simp: defs split: if_splits)
  show "w \<in> {location, location @ ''#'' @ h, ''container-shared:'' @ location @ ''#'' @ h}" if c: "IsContainerLocation U location"
    using assms c container_token(3) [OF container_append [OF c]] shared_token(2) [of "location @ ''#'' @ h"]
    by (auto simp: defs split: if_splits)
  show "\<exists>a. db location = Some a \<and> w = ''vgi-artifact:'' @ a" if d: "IsDatabaseLocation U location" "entry = ATTACH"
    using assms d container_token(3) [of location] by (auto simp: defs split: if_splits option.splits)
qed

lemma checked_route:
  assumes "ClassifyLocationForPolicy U wasm location entry \<noteq> 0"
    "dispatched_location U db wasm shared h entry location = Inr w"
    "\<And>l. \<not> IsResolvedWorkerLocation U (github l) \<and> \<not> IsContainerLocation U (github l)"
    "Inr route \<in> {CreateFunctionConnection U github wasm iroh w, InvokeUnaryRpcOnTransport U github wasm iroh w}"
  shows "permitted_as U github db wasm h location (ClassifyLocationForPolicy U wasm location entry) route"
proof -
  note w = rewritten_location [OF assms(2)]
  consider "IsContainerLocation U location" | "IsDatabaseLocation U location"
    | "\<not> IsContainerLocation U location" "\<not> IsDatabaseLocation U location" by blast
  then show ?thesis
  proof cases
    case 1
    note c = classify_container [OF 1, of wasm entry]
    show ?thesis
    proof (cases "w \<in> {location, location @ ''#'' @ h}")
      case True
      then show ?thesis using dispatch_container [OF 1 True assms(4)] 1 c by auto
    next
      case False
      then have "w = ''container-shared:'' @ location @ ''#'' @ h" using w(2) [OF 1] by simp
      then show ?thesis using dispatch_shared [OF assms(4)] c by auto
    qed
  next
    case 2
    note c = classify_database [OF 2 assms(1)]
    obtain a where a: "db location = Some a" "w = ''vgi-artifact:'' @ a" using w(3) [OF 2] c by blast
    then show ?thesis using dispatch_artifact [OF assms(4) a(2)] c by auto
  next
    case 3
    then have e: "w = location" using w(1) by blast
    show ?thesis using dispatch_plain [OF _ _ _ assms(3,4)] 3 assms(1) unfolding e by blast
  qed
qed

end

text \<open>
  C8. The transport policy governs what is really contacted. Take a location that passes the check,
  on a native or a browser build and from ATTACH or a discovery function, and whatever ATTACH turns
  it into. Whichever of the two dispatchers then takes it on, it raises an error or follows a route
  whose transport the policy permits and which is the user's own location read as that transport:
  the URL itself, the endpoint or socket it names, its container, its command, the release or the
  registered artifact it resolves to. While \<^verbatim>\<open>enable_external_access\<close> is off no route starts or
  reaches anything on this machine. Of the download of a release it is assumed that the executable's
  path is neither an artifact token nor an image reference.
\<close>

theorem checked_location_dispatch:
  assumes "duckdb_strings U"
    and "\<And>l. \<not> IsResolvedWorkerLocation U (github l) \<and> \<not> IsContainerLocation U (github l)"
    and "CheckLocationPolicy U wasm policy external_access location entry = Inr ()"
    and "dispatched_location U db wasm shared spec_hash entry location = Inr worker_path"
    and "Inr route \<in> {CreateFunctionConnection U github wasm iroh worker_path,
                       InvokeUnaryRpcOnTransport U github wasm iroh worker_path}"
  shows "\<exists>p transport. policy = Some p \<and> allowed p AND transport \<noteq> 0 \<and>
      permitted_as U github db wasm spec_hash location transport route \<and>
      (\<not> external_access \<longrightarrow> \<not> local_route route)"
proof -
  let ?c = "ClassifyLocationForPolicy U wasm location entry"
  have c: "?c \<noteq> 0" "\<not> external_access \<Longrightarrow> ?c AND POLICY_LOCAL_TRANSPORTS = 0"
      "\<exists>p. policy = Some p \<and> allowed p AND ?c \<noteq> 0"
    using assms(3) by (auto simp: CheckLocationPolicy_def Let_def split: if_splits option.splits)
  have r: "permitted_as U github db wasm spec_hash location ?c route"
    using duckdb_strings.checked_route [OF assms(1) c(1) assms(4,2,5)] .
  have "\<not> local_route route" if "\<not> external_access" using local_route_transport [OF r] c(2) [OF that] by blast
  then show ?thesis using c(3) r by blast
qed

text \<open>A database location: permitted as such, resolved by ATTACH, and run as the artifact it names.\<close>

theorem checked_location_dispatch_witness:
  "\<exists>p transport. Some \<lparr>allowed = POLICY_DATABASE\<rparr> = Some p \<and> allowed p AND transport \<noteq> 0 \<and>
     permitted_as ascii_strings (\<lambda>_. ''/cache/worker'') (\<lambda>_. Some ''ab:cd'') False [] ''DATABASE://w'' transport
       (ArtifactRoute ''vgi-artifact:ab:cd'') \<and> (\<not> True \<longrightarrow> \<not> local_route (ArtifactRoute ''vgi-artifact:ab:cd''))"
proof (rule checked_location_dispatch)
  show "duckdb_strings ascii_strings" by (rule ascii.duckdb_strings_axioms)
  show "\<not> IsResolvedWorkerLocation ascii_strings ''/cache/worker'' \<and> \<not> IsContainerLocation ascii_strings ''/cache/worker''"
    by code_simp
  show "CheckLocationPolicy ascii_strings False (Some \<lparr>allowed = POLICY_DATABASE\<rparr>) True ''DATABASE://w'' ATTACH = Inr ()"
    by code_simp
  show "dispatched_location ascii_strings (\<lambda>_. Some ''ab:cd'') False False [] ATTACH ''DATABASE://w'' = Inr ''vgi-artifact:ab:cd''"
    by code_simp
  have "Inr (ArtifactRoute ''vgi-artifact:ab:cd'') =
      CreateFunctionConnection ascii_strings (\<lambda>_. ''/cache/worker'') False False ''vgi-artifact:ab:cd''" by code_simp
  then show "Inr (ArtifactRoute ''vgi-artifact:ab:cd'') \<in>
      {CreateFunctionConnection ascii_strings (\<lambda>_. ''/cache/worker'') False False ''vgi-artifact:ab:cd'',
       InvokeUnaryRpcOnTransport ascii_strings (\<lambda>_. ''/cache/worker'') False False ''vgi-artifact:ab:cd''}" by simp
qed

end
