(* ===== verification/Ipc_Stream.thy ===== *)
theory Ipc_Stream
  imports Vgi_Prelude
begin

text \<open>
  Byte streams and the message reader on top of them: \<^verbatim>\<open>VgiInputStream\<close>, \<^verbatim>\<open>VgiBufferReader\<close>
  and \<^verbatim>\<open>VgiIpcReader\<close> of \<^verbatim>\<open>src/src/vgi_ipc.cpp\<close>, and the \<^verbatim>\<open>ChainedBufferInputStream\<close> of
  \<^verbatim>\<open>src/src/vgi_shm_segment.cpp\<close>. The virtual calls of the reader are its function arguments
  \<open>rd\<close> and \<open>rdbuf\<close>. The nanoarrow decoder is not part of the sources: its functions are the
  fields of the record \<open>ipc_decoder\<close>, on which nothing is assumed. The locale \<open>input_stream\<close>
  is the contract the header states for \<^verbatim>\<open>Read\<close>: up to \<open>n\<close> bytes, fewer only at the end.
\<close>

section \<open>Streams\<close>

subsection \<open>The chained stream\<close>

record chained =
  regions :: "string list"
  region_idx :: nat
  region_pos :: nat
  abs_pos :: nat

definition chained_of :: "string list \<Rightarrow> chained" where
  "chained_of rs = \<lparr>regions = rs, region_idx = 0, region_pos = 0, abs_pos = 0\<rparr>"

definition next_region :: "chained \<Rightarrow> chained" where
  "next_region st = st\<lparr>region_idx := region_idx st + 1, region_pos := 0\<rparr>"

definition advance :: "nat \<Rightarrow> chained \<Rightarrow> chained" where
  "advance n st =
     (let st' = st\<lparr>region_pos := region_pos st + n, abs_pos := abs_pos st + n\<rparr> in
      if region_pos st' = length (regions st ! region_idx st) then next_region st' else st')"

function chained_Read :: "nat \<Rightarrow> chained \<Rightarrow> string \<times> chained" where
  "chained_Read nbytes st =
     (if 0 < nbytes \<and> region_idx st < length (regions st) then
        let r = regions st ! region_idx st in
        if length r \<le> region_pos st then chained_Read nbytes (next_region st)
        else
          let n = min nbytes (length r - region_pos st);
              chunk = take n (drop (region_pos st) r);
              (out, fin) = chained_Read (nbytes - n) (advance n st) in
          (chunk @ out, fin)
      else ([], st))"
  by pat_completeness auto
termination
  by (relation "measure (\<lambda>(n, st). n + (length (regions st) - region_idx st))")
    (auto simp: next_region_def advance_def Let_def)

declare chained_Read.simps [simp del]

function skip_exhausted :: "chained \<Rightarrow> chained" where
  "skip_exhausted st =
     (if region_idx st < length (regions st) \<and> length (regions st ! region_idx st) \<le> region_pos st
      then skip_exhausted (next_region st) else st)"
  by pat_completeness auto
termination
  by (relation "measure (\<lambda>st. length (regions st) - region_idx st)") (auto simp: next_region_def)

declare skip_exhausted.simps [simp del]

text \<open>
  The base class's \<^verbatim>\<open>ReadBuffer\<close> allocates, reads and trims to what was read: with the bytes as
  the value, it is \<^verbatim>\<open>Read\<close>.
\<close>

definition base_ReadBuffer :: "(nat \<Rightarrow> 's \<Rightarrow> string \<times> 's) \<Rightarrow> nat \<Rightarrow> 's \<Rightarrow> string \<times> 's" where
  "base_ReadBuffer rd nbytes s =
     (let (data, s') = rd nbytes s; n = length data in
      if n = nbytes then (data, s') else (take n data, s'))"

definition chained_ReadBuffer :: "nat \<Rightarrow> chained \<Rightarrow> string \<times> chained" where
  "chained_ReadBuffer nbytes st0 =
     (let st = skip_exhausted st0 in
      if region_idx st < length (regions st) \<and>
         nbytes \<le> length (regions st ! region_idx st) - region_pos st
      then (take nbytes (drop (region_pos st) (regions st ! region_idx st)), advance nbytes st)
      else base_ReadBuffer chained_Read nbytes st)"

subsection \<open>The buffer reader\<close>

record buffer_reader =
  buffer :: string
  position :: nat

definition remaining :: "buffer_reader \<Rightarrow> nat" where
  "remaining b = length (buffer b) - position b"

definition buffer_Read :: "nat \<Rightarrow> buffer_reader \<Rightarrow> string \<times> buffer_reader" where
  "buffer_Read nbytes b =
     (let n = min nbytes (remaining b) in
      if 0 < n then (take n (drop (position b) (buffer b)), b\<lparr>position := position b + n\<rparr>)
      else ([], b))"

definition buffer_ReadBuffer :: "nat \<Rightarrow> buffer_reader \<Rightarrow> string \<times> buffer_reader" where
  "buffer_ReadBuffer nbytes b =
     (let n = min nbytes (remaining b) in
      (take n (drop (position b) (buffer b)), b\<lparr>position := position b + n\<rparr>))"

section \<open>The IPC reader\<close>

datatype message_type = SCHEMA | DICTIONARY_BATCH | RECORD_BATCH | OTHER_MESSAGE
datatype peek = PeekNoData | PeekError | PeekOk nat nat
datatype validation = MINIMAL | DEFAULT

record ('m, 'd, 'b) ipc_decoder =
  peek_header :: "string \<Rightarrow> peek"
  decode_header :: "string \<Rightarrow> 'm option"
  message_type :: "'m \<Rightarrow> message_type"
  body_size_bytes :: "'m \<Rightarrow> nat"
  decode_schema :: "'m \<Rightarrow> 'd option"
  decode_dictionary :: "'m \<Rightarrow> string \<Rightarrow> 'd \<Rightarrow> 'd option"
  message_metadata :: "'m \<Rightarrow> (string \<times> string) list option"
  decode_array :: "validation \<Rightarrow> 'm \<Rightarrow> string \<Rightarrow> 'd \<Rightarrow> 'b option"

datatype ipc_error =
    ShortPrefix | BadHeader | LegacyPrefix | ShortHeader | ShortBody | NoSchema | NotSchema
  | BadSchema | BadDictionary | BadMetadata | BadBatch | UnexpectedSchema | UnexpectedMessage

definition ReadHeader ::
  "('m, 'd, 'b) ipc_decoder \<Rightarrow> (nat \<Rightarrow> 's \<Rightarrow> string \<times> 's) \<Rightarrow> 's \<Rightarrow> ipc_error + ('m option \<times> 's)" where
  "ReadHeader D rd s =
     (let (pfx, s1) = rd 8 s; n = length pfx in
      if n = 0 then Inr (None, s1)
      else if n = 4 \<and> get_le 4 pfx = (0 :: u32) then Inr (None, s1)
      else if n \<noteq> 8 then Inl ShortPrefix
      else case peek_header D pfx of
        PeekNoData \<Rightarrow> Inr (None, s1)
      | PeekError \<Rightarrow> Inl BadHeader
      | PeekOk prefix_size header_bytes \<Rightarrow>
          if prefix_size \<noteq> 8 then Inl LegacyPrefix
          else
            let (rest_bytes, s2) = rd (header_bytes - 8) s1 in
            if length rest_bytes \<noteq> header_bytes - 8 then Inl ShortHeader
            else (case decode_header D (pfx @ rest_bytes) of
                    None \<Rightarrow> Inl BadHeader
                  | Some m \<Rightarrow> Inr (Some m, s2)))"

definition ReadBody ::
  "('m, 'd, 'b) ipc_decoder \<Rightarrow> (nat \<Rightarrow> 's \<Rightarrow> string \<times> 's) \<Rightarrow> 'm \<Rightarrow> 's \<Rightarrow> ipc_error + (string \<times> 's)" where
  "ReadBody D rdbuf m s =
     (let n = body_size_bytes D m in
      if n = 0 then Inr ([], s)
      else
        let (body, s') = rdbuf n s in
        if length body \<noteq> n then Inl ShortBody else Inr (body, s'))"

record ('d, 's) ipc_reader =
  input :: 's
  dictionaries :: 'd
  num_record_batches :: nat
  finished :: bool

definition ReadSchemaMessage ::
  "('m, 'd, 'b) ipc_decoder \<Rightarrow> (nat \<Rightarrow> 's \<Rightarrow> string \<times> 's) \<Rightarrow> 's \<Rightarrow> ipc_error + ('d, 's) ipc_reader" where
  "ReadSchemaMessage D rd s =
     (case ReadHeader D rd s of
        Inl e \<Rightarrow> Inl e
      | Inr (None, _) \<Rightarrow> Inl NoSchema
      | Inr (Some m, s') \<Rightarrow>
          if message_type D m \<noteq> SCHEMA then Inl NotSchema
          else (case decode_schema D m of
                  None \<Rightarrow> Inl BadSchema
                | Some d \<Rightarrow>
                    Inr \<lparr>input = s', dictionaries = d, num_record_batches = 0, finished = False\<rparr>))"

text \<open>
  A batch is the decoded array, its message metadata, and whether it failed the structural
  validation and was decoded again at the minimal level. \<open>ReadNext\<close> loops over dictionary
  messages; \<open>fuel\<close> bounds the number of messages and \<^const>\<open>None\<close> is running out of it.
\<close>

type_synonym 'b read_batch = "'b \<times> (string \<times> string) list \<times> bool"

fun ReadNext ::
  "nat \<Rightarrow> ('m, 'd, 'b) ipc_decoder \<Rightarrow> (nat \<Rightarrow> 's \<Rightarrow> string \<times> 's) \<Rightarrow> (nat \<Rightarrow> 's \<Rightarrow> string \<times> 's) \<Rightarrow>
     ('d, 's) ipc_reader \<Rightarrow> (ipc_error + ('b read_batch option \<times> ('d, 's) ipc_reader)) option" where
  "ReadNext 0 D rd rdbuf rr = None"
| "ReadNext (Suc fuel) D rd rdbuf rr =
     (if finished rr then Some (Inr (None, rr))
      else case ReadHeader D rd (input rr) of
        Inl e \<Rightarrow> Some (Inl e)
      | Inr (None, s) \<Rightarrow> Some (Inr (None, rr\<lparr>input := s, finished := True\<rparr>))
      | Inr (Some m, s) \<Rightarrow>
          (case message_type D m of
             DICTIONARY_BATCH \<Rightarrow>
               (case ReadBody D rdbuf m s of
                  Inl e \<Rightarrow> Some (Inl e)
                | Inr (body, s') \<Rightarrow>
                    (case decode_dictionary D m body (dictionaries rr) of
                       None \<Rightarrow> Some (Inl BadDictionary)
                     | Some d \<Rightarrow> ReadNext fuel D rd rdbuf (rr\<lparr>input := s', dictionaries := d\<rparr>)))
           | RECORD_BATCH \<Rightarrow>
               (case message_metadata D m of
                  None \<Rightarrow> Some (Inl BadMetadata)
                | Some pairs \<Rightarrow>
                    (case ReadBody D rdbuf m s of
                       Inl e \<Rightarrow> Some (Inl e)
                     | Inr (body, s') \<Rightarrow>
                         let rr' = rr\<lparr>input := s', num_record_batches := num_record_batches rr + 1\<rparr> in
                         (case decode_array D DEFAULT m body (dictionaries rr) of
                            Some b \<Rightarrow> Some (Inr (Some (b, pairs, False), rr'))
                          | None \<Rightarrow>
                              (case decode_array D MINIMAL m body (dictionaries rr) of
                                 None \<Rightarrow> Some (Inl BadBatch)
                               | Some b \<Rightarrow> Some (Inr (Some (b, pairs, True), rr'))))))
           | SCHEMA \<Rightarrow> Some (Inl UnexpectedSchema)
           | OTHER_MESSAGE \<Rightarrow> Some (Inl UnexpectedMessage)))"

text \<open>
  How \<^verbatim>\<open>MaybeResolveBatch\<close> reads the one batch of a slice: open the stream, take the first
  batch, refuse an empty stream.
\<close>

datatype resolve_error = OpenFailed ipc_error | ReadFailed ipc_error | EmptyStream

definition read_one_batch ::
  "nat \<Rightarrow> ('m, 'd, 'b) ipc_decoder \<Rightarrow> (nat \<Rightarrow> 's \<Rightarrow> string \<times> 's) \<Rightarrow> (nat \<Rightarrow> 's \<Rightarrow> string \<times> 's) \<Rightarrow> 's \<Rightarrow>
     (resolve_error + 'b read_batch) option" where
  "read_one_batch fuel D rd rdbuf s =
     (case ReadSchemaMessage D rd s of
        Inl e \<Rightarrow> Some (Inl (OpenFailed e))
      | Inr rr \<Rightarrow>
          (case ReadNext fuel D rd rdbuf rr of
             None \<Rightarrow> None
           | Some (Inl e) \<Rightarrow> Some (Inl (ReadFailed e))
           | Some (Inr (None, _)) \<Rightarrow> Some (Inl EmptyStream)
           | Some (Inr (Some b, _)) \<Rightarrow> Some (Inr b)))"

section \<open>The stream contract\<close>

locale input_stream =
  fixes rest :: "'s \<Rightarrow> string" and rd :: "nat \<Rightarrow> 's \<Rightarrow> string \<times> 's"
  assumes read_bytes: "fst (rd n s) = take n (rest s)"
    and read_rest: "rest (snd (rd n s)) = drop n (rest s)"

locale byte_stream = direct: input_stream rest rd + buffered: input_stream rest rdbuf
  for rest :: "'s \<Rightarrow> string" and rd :: "nat \<Rightarrow> 's \<Rightarrow> string \<times> 's" and rdbuf :: "nat \<Rightarrow> 's \<Rightarrow> string \<times> 's"

subsection \<open>The streams meet the contract\<close>

definition chained_rest :: "chained \<Rightarrow> string" where
  "chained_rest st =
     (if region_idx st < length (regions st)
      then drop (region_pos st) (regions st ! region_idx st) @ concat (drop (Suc (region_idx st)) (regions st))
      else [])"

definition buffer_rest :: "buffer_reader \<Rightarrow> string" where
  "buffer_rest b = drop (position b) (buffer b)"

definition flat_read :: "nat \<Rightarrow> string \<Rightarrow> string \<times> string" where
  "flat_read n s = (take n s, drop n s)"

lemma chained_rest_of [simp]: "chained_rest (chained_of rs) = concat rs"
  by (cases rs) (auto simp: chained_rest_def chained_of_def)

lemma concat_drop_nth:
  "i < length rs \<Longrightarrow> concat (drop i rs) = rs ! i @ concat (drop (Suc i) rs)"
  by (simp flip: Cons_nth_drop_Suc)

lemma chained_rest_next:
  assumes "length (regions st ! region_idx st) \<le> region_pos st"
  shows "chained_rest (next_region st) = chained_rest st"
  using assms
  by (cases "Suc (region_idx st) < length (regions st)") (auto simp: chained_rest_def next_region_def concat_drop_nth)

lemma chained_rest_advance:
  assumes "region_idx st < length (regions st)" "n \<le> length (regions st ! region_idx st) - region_pos st"
    "region_pos st \<le> length (regions st ! region_idx st)"
  shows "chained_rest (advance n st) = drop n (chained_rest st)"
  using assms
  by (cases "Suc (region_idx st) < length (regions st)")
    (auto simp: chained_rest_def advance_def next_region_def concat_drop_nth Let_def add.commute)

lemma chained_Read_spec:
  "fst (chained_Read n st) = take n (chained_rest st) \<and>
   chained_rest (snd (chained_Read n st)) = drop n (chained_rest st)"
proof (induction n st rule: chained_Read.induct)
  case (1 n st)
  let ?r = "regions st ! region_idx st"
  show ?case
  proof (cases "0 < n \<and> region_idx st < length (regions st)")
    case False
    then show ?thesis by (auto simp: chained_Read.simps [of n] chained_rest_def)
  next
    case on: True
    show ?thesis
    proof (cases "length ?r \<le> region_pos st")
      case True
      then show ?thesis
        using 1(1) [OF on refl True] on by (simp add: chained_Read.simps [of n st] chained_rest_next)
    next
      case False
      let ?n = "min n (length ?r - region_pos st)"
      have a: "chained_rest (advance ?n st) = drop ?n (chained_rest st)"
        using on False by (intro chained_rest_advance) auto
      have c: "take ?n (drop (region_pos st) ?r) = take ?n (chained_rest st)"
        using on False by (auto simp: chained_rest_def)
      have "?n + (n - ?n) = n" by simp
      then show ?thesis
        using 1(2) [OF on refl False refl refl] on False a c
        by (simp add: chained_Read.simps [of n st] Let_def case_prod_beta flip: take_add)
    qed
  qed
qed

lemma skip_exhausted_rest: "chained_rest (skip_exhausted st) = chained_rest st"
proof (induction st rule: skip_exhausted.induct)
  case (1 st)
  then show ?case by (subst skip_exhausted.simps) (simp add: chained_rest_next)
qed

lemma skip_exhausted_pos:
  "region_idx (skip_exhausted st) < length (regions (skip_exhausted st)) \<Longrightarrow>
   region_pos (skip_exhausted st) < length (regions (skip_exhausted st) ! region_idx (skip_exhausted st))"
proof (induction st rule: skip_exhausted.induct)
  case (1 st)
  then show ?case
    by (cases "region_idx st < length (regions st) \<and> length (regions st ! region_idx st) \<le> region_pos st")
      (auto simp: skip_exhausted.simps [of st])
qed

lemma base_ReadBuffer_eq [simp]: "base_ReadBuffer rd n s = rd n s"
  by (simp add: base_ReadBuffer_def Let_def case_prod_beta)

interpretation chained_direct: input_stream chained_rest chained_Read
  by unfold_locales (simp_all add: chained_Read_spec)

interpretation chained_buffered: input_stream chained_rest chained_ReadBuffer
proof
  fix n st
  let ?s = "skip_exhausted st"
  have "fst (chained_ReadBuffer n st) = take n (chained_rest ?s) \<and>
      chained_rest (snd (chained_ReadBuffer n st)) = drop n (chained_rest ?s)"
    using skip_exhausted_pos [of st] chained_rest_advance [of ?s n] chained_Read_spec [of n ?s]
    by (auto simp: chained_ReadBuffer_def Let_def chained_rest_def [of ?s])
  then show "fst (chained_ReadBuffer n st) = take n (chained_rest st)"
    and "chained_rest (snd (chained_ReadBuffer n st)) = drop n (chained_rest st)"
    by (simp_all add: skip_exhausted_rest)
qed

interpretation chained: byte_stream chained_rest chained_Read chained_ReadBuffer ..

interpretation buffer: byte_stream buffer_rest buffer_Read buffer_ReadBuffer
  by unfold_locales
    (auto simp: buffer_rest_def buffer_Read_def buffer_ReadBuffer_def remaining_def Let_def min_def add.commute)

subsection \<open>The reader sees only the bytes\<close>

definition over :: "('s \<Rightarrow> 't) \<Rightarrow> ('d, 's) ipc_reader \<Rightarrow> ('d, 't) ipc_reader" where
  "over f rr = \<lparr>input = f (input rr), dictionaries = dictionaries rr,
     num_record_batches = num_record_batches rr, finished = finished rr\<rparr>"

lemma over_sel [simp]:
  "input (over f rr) = f (input rr)" "dictionaries (over f rr) = dictionaries rr"
  "num_record_batches (over f rr) = num_record_batches rr" "finished (over f rr) = finished rr"
  by (simp_all add: over_def)

lemma over_upd [simp]:
  "(over f rr)\<lparr>input := f s, dictionaries := d\<rparr> = over f (rr\<lparr>input := s, dictionaries := d\<rparr>)"
  "(over f rr)\<lparr>input := f s, finished := b\<rparr> = over f (rr\<lparr>input := s, finished := b\<rparr>)"
  "(over f rr)\<lparr>input := f s, num_record_batches := n\<rparr> = over f (rr\<lparr>input := s, num_record_batches := n\<rparr>)"
  by (simp_all add: over_def)

context byte_stream
begin

lemma ReadHeader_flat: "ReadHeader D flat_read (rest s) = map_sum id (map_prod id rest) (ReadHeader D rd s)"
  by (simp add: ReadHeader_def flat_read_def Let_def case_prod_beta direct.read_bytes direct.read_rest
      split: peek.split option.split)

lemma ReadBody_flat: "ReadBody D flat_read m (rest s) = map_sum id (map_prod id rest) (ReadBody D rdbuf m s)"
  by (simp add: ReadBody_def flat_read_def Let_def case_prod_beta buffered.read_bytes buffered.read_rest)

lemma ReadHeader_shorter:
  assumes "ReadHeader D rd s = Inr (Some m, s')"
  shows "length (rest s') < length (rest s)"
  using assms
  by (auto simp: ReadHeader_def Let_def case_prod_beta direct.read_bytes direct.read_rest
      split: if_splits peek.splits option.splits)

lemma ReadBody_shorter:
  assumes "ReadBody D rdbuf m s = Inr (b, s')"
  shows "length (rest s') \<le> length (rest s)"
  using assms
  by (auto simp: ReadBody_def Let_def case_prod_beta buffered.read_bytes buffered.read_rest split: if_splits)

lemma ReadNext_returns:
  "length (rest (input rr)) < fuel \<Longrightarrow> ReadNext fuel D rd rdbuf rr \<noteq> None"
proof (induction fuel arbitrary: rr)
  case (Suc fuel)
  have "ReadNext fuel D rd rdbuf (rr\<lparr>input := s', dictionaries := d\<rparr>) \<noteq> None"
    if "ReadHeader D rd (input rr) = Inr (Some m, s)" "ReadBody D rdbuf m s = Inr (b, s')" for m s b s' d
    using Suc ReadHeader_shorter [OF that(1)] ReadBody_shorter [OF that(2)] by simp
  then show ?case
    by (auto simp: Let_def split: sum.splits option.splits message_type.splits)
qed simp

lemma ReadNext_flat:
  "ReadNext fuel D flat_read flat_read (over rest rr) =
     map_option (map_sum id (map_prod id (over rest))) (ReadNext fuel D rd rdbuf rr)"
proof (induction fuel arbitrary: rr)
  case (Suc fuel)
  show ?case
    by (simp add: Suc ReadHeader_flat ReadBody_flat Let_def case_prod_beta
        split: sum.split option.split message_type.split)
qed simp

lemma ReadSchemaMessage_flat:
  "ReadSchemaMessage D flat_read (rest s) = map_sum id (over rest) (ReadSchemaMessage D rd s)"
  by (simp add: ReadSchemaMessage_def over_def ReadHeader_flat split: sum.split option.split prod.split)

end

context byte_stream
begin

lemma read_one_batch_flat:
  "read_one_batch fuel D rd rdbuf s = read_one_batch fuel D flat_read flat_read (rest s)"
  by (simp add: read_one_batch_def ReadSchemaMessage_flat ReadNext_flat
      split: sum.split option.split prod.split)

lemma read_one_batch_returns:
  assumes "length (rest s) < fuel"
  shows "read_one_batch fuel D rd rdbuf s \<noteq> None"
proof (cases "ReadSchemaMessage D rd s")
  case (Inr rr)
  then have "length (rest (input rr)) < fuel"
    using assms
    by (auto simp: ReadSchemaMessage_def dest!: ReadHeader_shorter
        split: sum.splits option.splits if_splits)
  from ReadNext_returns [OF this, of D] Inr show ?thesis
    by (auto simp: read_one_batch_def split: sum.splits option.splits)
qed (simp add: read_one_batch_def)

end

text \<open>
  C9. Reading a batch through the zero-copy chain of regions is reading it from one contiguous
  buffer: whatever the decoder does, over any regions (empty ones included) the chained stream
  and a buffer holding their concatenation give the same batch, the same metadata or the same
  error, and with one message of fuel per byte the reader always returns.
\<close>

theorem read_one_batch_chained:
  "read_one_batch fuel D chained_Read chained_ReadBuffer (chained_of rs) =
     read_one_batch fuel D buffer_Read buffer_ReadBuffer \<lparr>buffer = concat rs, position = 0\<rparr> \<and>
   read_one_batch (Suc (length (concat rs))) D chained_Read chained_ReadBuffer (chained_of rs) \<noteq> None"
proof
  show "read_one_batch fuel D chained_Read chained_ReadBuffer (chained_of rs) =
     read_one_batch fuel D buffer_Read buffer_ReadBuffer \<lparr>buffer = concat rs, position = 0\<rparr>"
    by (simp add: chained.read_one_batch_flat buffer.read_one_batch_flat buffer_rest_def)
  show "read_one_batch (Suc (length (concat rs))) D chained_Read chained_ReadBuffer (chained_of rs) \<noteq> None"
    by (rule chained.read_one_batch_returns) simp
qed

end
