(* ===== verification/Shm_Segment.thy ===== *)
theory Shm_Segment
  imports Ipc_Stream
begin

text \<open>
  The shared-memory segment, \<^verbatim>\<open>src/src/vgi_shm_segment.cpp\<close>. The mapping is the byte list
  \<open>seg_base\<close> and every header access is a load, store or \<^verbatim>\<open>memmove\<close> at the byte offset the code
  uses. A second group of definitions works on the decoded allocation table; the byte-level
  operations are shown to implement them, and the allocator's guarantees (disjoint slots,
  first fit, untouched data) are proved on the table. What the operating system decides (the
  mapped size, the process id, the random number) is an argument.
\<close>

section \<open>Memory\<close>

type_synonym mem = string

definition memmove :: "mem \<Rightarrow> nat \<Rightarrow> nat \<Rightarrow> nat \<Rightarrow> mem" where
  "memmove m dst src n = memcpy m dst (take n (drop src m))"

definition LoadU32LE :: "mem \<Rightarrow> nat \<Rightarrow> u32" where
  "LoadU32LE m p = get_le 4 (drop p m)"

definition LoadU64LE :: "mem \<Rightarrow> nat \<Rightarrow> u64" where
  "LoadU64LE m p = get_le 8 (drop p m)"

definition StoreU32LE :: "mem \<Rightarrow> nat \<Rightarrow> u32 \<Rightarrow> mem" where
  "StoreU32LE m p v = memcpy m p (put_le 4 v)"

definition StoreU64LE :: "mem \<Rightarrow> nat \<Rightarrow> u64 \<Rightarrow> mem" where
  "StoreU64LE m p v = memcpy m p (put_le 8 v)"

section \<open>The segment\<close>

definition VGI_SHM_HEADER_SIZE :: nat where "VGI_SHM_HEADER_SIZE = 65536"
definition VGI_SHM_MAGIC :: string where "VGI_SHM_MAGIC = ''VGIS''"
definition VGI_SHM_VERSION :: u32 where "VGI_SHM_VERSION = 1"
definition VGI_SHM_MAX_ALLOCS :: nat where "VGI_SHM_MAX_ALLOCS = (VGI_SHM_HEADER_SIZE - 24) div 16"

lemmas shm_consts = VGI_SHM_HEADER_SIZE_def VGI_SHM_MAX_ALLOCS_def

record shm_segment =
  seg_name :: string
  seg_base :: "mem option"
  seg_size :: u64

datatype shm_error =
    SizeTooSmall | OsFailure | CorruptHeader | MalformedPointer | PointerOutOfRange
  | ResolveFailed resolve_error

function show_hex :: "nat \<Rightarrow> string" where
  "show_hex n =
     (let d = n mod 16; c = char_of (if d < 10 then 48 + d else 87 + d) in
      if n < 16 then [c] else show_hex (n div 16) @ [c])"
  by pat_completeness auto
termination by (relation "measure id") auto

declare show_hex.simps [simp del]

definition GenerateName :: "nat \<Rightarrow> u32 \<Rightarrow> u64 \<Rightarrow> string" where
  "GenerateName pid r n =
     ''/vgi_shm_'' @ show_hex pid @ ''_'' @ show_hex (unat r) @ ''_'' @ show_hex (unat n)"

text \<open>
  \<open>os\<close> maps the requested size to the size actually mapped, \<^const>\<open>None\<close> when a system call
  fails. Fresh pages are zero.
\<close>

definition Create :: "(nat \<Rightarrow> nat option) \<Rightarrow> string \<Rightarrow> nat \<Rightarrow> shm_error + shm_segment" where
  "Create os name size_bytes =
     (if size_bytes \<le> VGI_SHM_HEADER_SIZE then Inl SizeTooSmall
      else case os size_bytes of
        None \<Rightarrow> Inl OsFailure
      | Some actual_size \<Rightarrow>
          let m0 = replicate actual_size (char_of (0::nat));
              m1 = memcpy m0 0 VGI_SHM_MAGIC;
              m2 = StoreU32LE m1 4 VGI_SHM_VERSION;
              m3 = StoreU64LE m2 8 (of_nat (actual_size - VGI_SHM_HEADER_SIZE));
              m4 = StoreU32LE m3 16 0;
              m5 = StoreU32LE m4 20 0 in
          Inr \<lparr>seg_name = name, seg_base = Some m5, seg_size = of_nat actual_size\<rparr>)"

text \<open>The destructor unmaps the segment and removes its name.\<close>

definition Destroy :: "shm_segment \<Rightarrow> shm_segment" where
  "Destroy seg = seg\<lparr>seg_base := None, seg_name := []\<rparr>"

definition ResetAllocator :: "shm_segment \<Rightarrow> shm_segment" where
  "ResetAllocator seg =
     (case seg_base seg of None \<Rightarrow> seg | Some m \<Rightarrow> seg\<lparr>seg_base := Some (StoreU32LE m 16 0)\<rparr>)"

definition entry_off :: "mem \<Rightarrow> nat \<Rightarrow> u64" where
  "entry_off m i = LoadU64LE m (24 + i * 16)"

definition entry_len :: "mem \<Rightarrow> nat \<Rightarrow> u64" where
  "entry_len m i = LoadU64LE m (24 + i * 16 + 8)"

fun retain_loop :: "u64 list \<Rightarrow> nat list \<Rightarrow> mem \<Rightarrow> nat \<Rightarrow> mem \<times> nat" where
  "retain_loop offsets [] m kept = (m, kept)"
| "retain_loop offsets (i # rest) m kept =
     (if entry_off m i \<notin> set offsets then retain_loop offsets rest m kept
      else
        retain_loop offsets rest
          (if kept \<noteq> i then memmove m (24 + kept * 16) (24 + i * 16) 16 else m) (kept + 1))"

definition RetainOnly :: "u64 list \<Rightarrow> shm_segment \<Rightarrow> shm_error + shm_segment" where
  "RetainOnly offsets seg =
     (case seg_base seg of
        None \<Rightarrow> Inr seg
      | Some m \<Rightarrow>
          if offsets = [] then Inr (ResetAllocator seg)
          else
            let num = unat (LoadU32LE m 16) in
            if num > VGI_SHM_MAX_ALLOCS then Inl CorruptHeader
            else
              let (m', kept) = retain_loop offsets [0..<num] m 0 in
              Inr (seg\<lparr>seg_base := Some (StoreU32LE m' 16 (of_nat kept))\<rparr>))"

definition Unlink :: "shm_segment \<Rightarrow> shm_segment" where
  "Unlink seg = seg\<lparr>seg_name := []\<rparr>"

definition FreeAllocation :: "u64 \<Rightarrow> shm_segment \<Rightarrow> shm_error + shm_segment" where
  "FreeAllocation offset seg =
     (case seg_base seg of
        None \<Rightarrow> Inr seg
      | Some m \<Rightarrow>
          let num = unat (LoadU32LE m 16) in
          if num > VGI_SHM_MAX_ALLOCS then Inl CorruptHeader
          else case find (\<lambda>i. entry_off m i = offset) [0..<num] of
            None \<Rightarrow> Inr seg
          | Some i \<Rightarrow>
              let m' = (if i + 1 < num
                        then memmove m (24 + i * 16) (24 + (i + 1) * 16) ((num - i - 1) * 16) else m) in
              Inr (seg\<lparr>seg_base := Some (StoreU32LE m' 16 (of_nat (num - 1)))\<rparr>))"

fun alloc_scan :: "mem \<Rightarrow> u64 \<Rightarrow> nat list \<Rightarrow> u64 \<Rightarrow> nat \<Rightarrow> u64 \<times> nat" where
  "alloc_scan m len [] cursor ins = (cursor, ins)"
| "alloc_scan m len (i # rest) cursor ins =
     (let off = entry_off m i; l = entry_len m i in
      if off \<ge> cursor \<and> off - cursor \<ge> len then (cursor, i)
      else
        let e = off + l in
        alloc_scan m len rest (if e > cursor then e else cursor) ins)"

definition insert_entry :: "mem \<Rightarrow> nat \<Rightarrow> nat \<Rightarrow> u64 \<Rightarrow> u64 \<Rightarrow> mem" where
  "insert_entry m num ins cursor len =
     (let m1 = (if ins < num
                then memmove m (24 + (ins + 1) * 16) (24 + ins * 16) ((num - ins) * 16) else m);
          m2 = StoreU64LE m1 (24 + ins * 16) cursor;
          m3 = StoreU64LE m2 (24 + ins * 16 + 8) len in
      StoreU32LE m3 16 (of_nat (num + 1)))"

definition Allocate :: "u64 \<Rightarrow> shm_segment \<Rightarrow> shm_error + (u64 option \<times> shm_segment)" where
  "Allocate len seg =
     (case seg_base seg of
        None \<Rightarrow> Inr (None, seg)
      | Some m \<Rightarrow>
          if len = 0 then Inr (None, seg)
          else
            let num = unat (LoadU32LE m 16) in
            if num > VGI_SHM_MAX_ALLOCS then Inl CorruptHeader
            else if num \<ge> VGI_SHM_MAX_ALLOCS then Inr (None, seg)
            else
              let (cursor, ins) = alloc_scan m len [0..<num] (of_nat VGI_SHM_HEADER_SIZE) num in
              if cursor + len > seg_size seg then Inr (None, seg)
              else
                Inr (Some cursor, seg\<lparr>seg_base := Some (insert_entry m num ins cursor len)\<rparr>))"

definition AllocateAndWrite :: "string \<Rightarrow> shm_segment \<Rightarrow> shm_error + (u64 option \<times> shm_segment)" where
  "AllocateAndWrite data seg =
     (case Allocate (of_nat (length data)) seg of
        Inl e \<Rightarrow> Inl e
      | Inr (None, seg') \<Rightarrow> Inr (None, seg')
      | Inr (Some off, seg') \<Rightarrow>
          Inr (Some off, seg'\<lparr>seg_base := map_option (\<lambda>m. memcpy m (unat off) data) (seg_base seg')\<rparr>))"

section \<open>Resolving pointer batches\<close>

text \<open>
  \<^verbatim>\<open>std::stoull\<close>: leading white space, an optional sign, then digits up to the first other
  character; a minus sign negates modulo \<open>2 ^ 64\<close>. No digits and a value that does not fit are
  the two exceptions.
\<close>

definition stoull :: "string \<Rightarrow> u64 option" where
  "stoull s =
     (let t = dropWhile c_space s;
          neg = (t \<noteq> [] \<and> hd t = CHR ''-'');
          u = (if t \<noteq> [] \<and> (hd t = CHR ''-'' \<or> hd t = CHR ''+'') then tl t else t);
          ds = takeWhile is_digit u;
          v = digits_value ds in
      if ds = [] then None
      else if v \<ge> 2 ^ 64 then None
      else Some (if neg then - of_nat v else of_nat v))"

text \<open>
  The slice a pointer batch names: \<^const>\<open>None\<close> when the batch is not a pointer, an error when
  the metadata is malformed or out of range. A batch is its row count, the metadata a lookup.
\<close>

definition pointer_slice ::
  "nat option \<Rightarrow> (string \<Rightarrow> string option) option \<Rightarrow> shm_segment \<Rightarrow> shm_error + (u64 \<times> u64) option" where
  "pointer_slice num_rows custom_metadata seg =
     (case custom_metadata of
        None \<Rightarrow> Inr None
      | Some md \<Rightarrow>
          if (case num_rows of None \<Rightarrow> False | Some n \<Rightarrow> n \<noteq> 0) then Inr None
          else
            (case (md ''vgi_rpc.shm_offset'', md ''vgi_rpc.shm_length'') of
               (Some offset_str, Some length_str) \<Rightarrow>
                 (case (stoull offset_str, stoull length_str) of
                    (Some offset, Some len) \<Rightarrow>
                      if offset < of_nat VGI_SHM_HEADER_SIZE \<or> offset > seg_size seg \<or> len > seg_size seg - offset
                      then Inl PointerOutOfRange else Inr (Some (offset, len))
                  | _ \<Rightarrow> Inl MalformedPointer)
             | _ \<Rightarrow> Inr None))"

definition kEosMarker :: string where
  "kEosMarker = map (char_of :: nat \<Rightarrow> char) [255, 255, 255, 255, 0, 0, 0, 0]"

text \<open>
  \<open>schema_msg\<close> is the serialized schema of the pointer batch when a field of it is
  dictionary-encoded: then the slice holds neither schema nor end marker and both are spliced
  around it. The reader's fuel is one message per byte of the stream.
\<close>

definition MaybeResolveBatch ::
  "('m, 'd, 'b) ipc_decoder \<Rightarrow> nat option \<Rightarrow> string option \<Rightarrow> (string \<Rightarrow> string option) option \<Rightarrow> shm_segment \<Rightarrow>
     (shm_error + ('b read_batch \<times> u64) option) option" where
  "MaybeResolveBatch D num_rows schema_msg custom_metadata seg =
     (case pointer_slice num_rows custom_metadata seg of
        Inl e \<Rightarrow> Some (Inl e)
      | Inr None \<Rightarrow> Some (Inr None)
      | Inr (Some (offset, len)) \<Rightarrow>
          let m = (case seg_base seg of None \<Rightarrow> [] | Some m \<Rightarrow> m);
              slice = take (unat len) (drop (unat offset) m);
              fuel = (\<lambda>s. Suc (length s));
              res = (case schema_msg of
                       None \<Rightarrow> read_one_batch (fuel slice) D buffer_Read buffer_ReadBuffer
                                \<lparr>buffer = slice, position = 0\<rparr>
                     | Some sm \<Rightarrow>
                         let regs = [sm, slice, kEosMarker] in
                         read_one_batch (fuel (concat regs)) D chained_Read chained_ReadBuffer (chained_of regs)) in
          map_option (\<lambda>r. case r of
              Inl e \<Rightarrow> Inl (ResolveFailed e)
            | Inr b \<Rightarrow> Inr (Some (b, offset))) res)"

section \<open>Laws of the memory\<close>

lemma drop_memcpy: "dst + length xs \<le> k \<Longrightarrow> k \<le> length m \<Longrightarrow> drop k (memcpy m dst xs) = drop k m"
  by (rule nth_equalityI) (auto simp: nth_memcpy)

lemma get_le_cong: "(\<And>j. j < k \<Longrightarrow> s ! j = t ! j) \<Longrightarrow> get_le k s = get_le k t"
  unfolding get_le_def by (rule fold_cong) auto

lemma LoadU64LE_cong:
  assumes "p + 8 \<le> length m" "q + 8 \<le> length m'" "\<And>j. j < 8 \<Longrightarrow> m ! (p + j) = m' ! (q + j)"
  shows "LoadU64LE m p = LoadU64LE m' q"
  using assms unfolding LoadU64LE_def by (intro get_le_cong) simp

lemma LoadU32LE_cong:
  assumes "p + 4 \<le> length m" "p + 4 \<le> length m'" "\<And>j. j < 4 \<Longrightarrow> m ! (p + j) = m' ! (p + j)"
  shows "LoadU32LE m p = LoadU32LE m' p"
  using assms unfolding LoadU32LE_def by (intro get_le_cong) simp

lemma Load_Store [simp]:
  "p + 8 \<le> length m \<Longrightarrow> LoadU64LE (StoreU64LE m p v) p = v"
  "p + 4 \<le> length m \<Longrightarrow> LoadU32LE (StoreU32LE m p w) p = w"
  by (simp_all add: LoadU64LE_def LoadU32LE_def StoreU64LE_def StoreU32LE_def memcpy_def)

lemma Load_memcpy_other:
  assumes "dst + length xs \<le> length m"
  shows "p + 8 \<le> length m \<Longrightarrow> p + 8 \<le> dst \<or> dst + length xs \<le> p \<Longrightarrow> LoadU64LE (memcpy m dst xs) p = LoadU64LE m p"
    and "q + 4 \<le> length m \<Longrightarrow> q + 4 \<le> dst \<or> dst + length xs \<le> q \<Longrightarrow> LoadU32LE (memcpy m dst xs) q = LoadU32LE m q"
  using assms by (auto intro!: LoadU64LE_cong LoadU32LE_cong simp: nth_memcpy)

lemma length_Store [simp]:
  "p + 8 \<le> length m \<Longrightarrow> length (StoreU64LE m p v) = length m"
  "p + 4 \<le> length m \<Longrightarrow> length (StoreU32LE m p w) = length m"
  by (simp_all add: StoreU64LE_def StoreU32LE_def)

lemma length_memmove [simp]:
  "dst + n \<le> length m \<Longrightarrow> src + n \<le> length m \<Longrightarrow> length (memmove m dst src n) = length m"
  by (simp add: memmove_def)

subsection \<open>The allocation table in memory\<close>

definition num_allocs :: "mem \<Rightarrow> nat" where
  "num_allocs m = unat (LoadU32LE m 16)"

definition entry :: "mem \<Rightarrow> nat \<Rightarrow> u64 \<times> u64" where
  "entry m i = (entry_off m i, entry_len m i)"

definition table :: "mem \<Rightarrow> (u64 \<times> u64) list" where
  "table m = map (entry m) [0..<num_allocs m]"

definition header_ok :: "mem \<Rightarrow> bool" where
  "header_ok m \<longleftrightarrow> VGI_SHM_HEADER_SIZE \<le> length m \<and> num_allocs m \<le> VGI_SHM_MAX_ALLOCS"

lemma entry_memcpy_other:
  assumes "dst + length xs \<le> length m" "24 + (j + 1) * 16 \<le> length m"
    "24 + (j + 1) * 16 \<le> dst \<or> dst + length xs \<le> 24 + j * 16"
  shows "entry (memcpy m dst xs) j = entry m j"
  using assms by (auto simp: entry_def entry_off_def entry_len_def intro!: Load_memcpy_other)

lemma entry_memmove:
  assumes "24 + (a + c) * 16 \<le> length m" "24 + (b + c) * 16 \<le> length m" "24 + (j + 1) * 16 \<le> length m"
  shows "entry (memmove m (24 + a * 16) (24 + b * 16) (c * 16)) j =
    (if a \<le> j \<and> j < a + c then entry m (b + (j - a)) else entry m j)"
proof (cases "a \<le> j \<and> j < a + c")
  case True
  then obtain d where d: "j = a + d" "d < c" by (metis add_less_cancel_left le_Suc_ex)
  show ?thesis
    using assms d
    by (auto simp: entry_def entry_off_def entry_len_def memmove_def nth_memcpy
        intro!: LoadU64LE_cong arg_cong [of _ _ "nth m"])
next
  case False
  then show ?thesis
    using assms by (auto simp: memmove_def intro!: entry_memcpy_other)
qed

lemma num_allocs_simps [simp]:
  "20 \<le> length m \<Longrightarrow> num_allocs (StoreU32LE m 16 v) = unat v"
  "dst + length xs \<le> length m \<Longrightarrow> 20 \<le> dst \<Longrightarrow> num_allocs (memcpy m dst xs) = num_allocs m"
  by (simp_all add: num_allocs_def Load_memcpy_other)

lemma num_allocs_padding [simp]: "24 \<le> length m \<Longrightarrow> num_allocs (StoreU32LE m 20 v) = num_allocs m"
  by (simp add: StoreU32LE_def)

lemma entry_set_num [simp]:
  "24 + (j + 1) * 16 \<le> length m \<Longrightarrow> entry (StoreU32LE m 16 v) j = entry m j"
  unfolding StoreU32LE_def by (rule entry_memcpy_other) auto

lemma entry_set [simp]:
  assumes "24 + (i + 1) * 16 \<le> length m" "24 + (j + 1) * 16 \<le> length m"
  shows "entry (StoreU64LE (StoreU64LE m (24 + i * 16) c) (24 + i * 16 + 8) l) j =
    (if i = j then (c, l) else entry m j)"
proof (cases "i = j")
  case True
  have "LoadU64LE (StoreU64LE (StoreU64LE m (24 + j * 16) c) (24 + j * 16 + 8) l) (24 + j * 16) = c"
    using assms by (subst StoreU64LE_def) (simp add: Load_memcpy_other)
  then show ?thesis
    using True assms by (simp add: entry_def entry_off_def entry_len_def)
next
  case False
  then have "24 + (j + 1) * 16 \<le> 24 + i * 16 \<or> 24 + i * 16 + 16 \<le> 24 + j * 16"
    by (cases "i < j") auto
  with assms False show ?thesis
    by (auto simp: StoreU64LE_def entry_memcpy_other)
qed

section \<open>The allocation table as a list\<close>

fun fit :: "u64 \<Rightarrow> (u64 \<times> u64) list \<Rightarrow> u64 \<Rightarrow> u64 \<times> nat" where
  "fit len [] cursor = (cursor, 0)"
| "fit len ((off, l) # t) cursor =
     (if off \<ge> cursor \<and> off - cursor \<ge> len then (cursor, 0)
      else map_prod id Suc (fit len t (if off + l > cursor then off + l else cursor)))"

definition table_alloc :: "u64 \<Rightarrow> u64 \<Rightarrow> (u64 \<times> u64) list \<Rightarrow> (u64 \<times> (u64 \<times> u64) list) option" where
  "table_alloc sz len t =
     (if len = 0 \<or> VGI_SHM_MAX_ALLOCS \<le> length t then None
      else
        let (c, k) = fit len t (of_nat VGI_SHM_HEADER_SIZE) in
        if c + len > sz then None else Some (c, take k t @ (c, len) # drop k t))"

fun table_free :: "u64 \<Rightarrow> (u64 \<times> u64) list \<Rightarrow> (u64 \<times> u64) list" where
  "table_free off [] = []"
| "table_free off (e # t) = (if fst e = off then t else e # table_free off t)"

definition table_retain :: "u64 list \<Rightarrow> (u64 \<times> u64) list \<Rightarrow> (u64 \<times> u64) list" where
  "table_retain offs t = filter (\<lambda>e. fst e \<in> set offs) t"

lemma table_retain_Cons [simp]:
  "table_retain offs [] = []"
  "table_retain offs (e # t) = (if fst e \<in> set offs then e # table_retain offs t else table_retain offs t)"
  by (simp_all add: table_retain_def)

lemma fit_le: "snd (fit len t c) \<le> length t"
  by (induction len t c rule: fit.induct) auto

lemma alloc_scan_fit:
  assumes "i \<le> n"
  shows "alloc_scan m len [i..<n] cursor n =
    (fst (fit len (map (entry m) [i..<n]) cursor), i + snd (fit len (map (entry m) [i..<n]) cursor))"
  using assms
proof (induction "n - i" arbitrary: i cursor)
  case (Suc k)
  then have u: "[i..<n] = i # [Suc i..<n]" and k: "k = n - Suc i" "Suc i \<le> n" by (auto simp: upt_rec)
  show ?case unfolding u by (auto simp: Suc.hyps(1) [OF k] Let_def entry_def)
qed simp

lemma find_upt_table:
  assumes "i \<le> n"
  shows "find (\<lambda>i. entry_off m i = off) [i..<n] = None \<Longrightarrow> table_free off (map (entry m) [i..<n]) = map (entry m) [i..<n]"
    and "find (\<lambda>i. entry_off m i = off) [i..<n] = Some j \<Longrightarrow>
      i \<le> j \<and> j < n \<and> table_free off (map (entry m) [i..<n]) = map (entry m) ([i..<j] @ [Suc j..<n])"
  using assms
proof (induction "n - i" arbitrary: i)
  case (Suc k)
  then have u: "[i..<n] = i # [Suc i..<n]" and k: "k = n - Suc i" "Suc i \<le> n" by (auto simp: upt_rec)
  { case 1
    then show ?case using Suc.hyps(1) [OF k(1) _ k(2)] unfolding u by (auto simp: entry_def split: if_splits) }
  { case 2
    then show ?case
      using Suc.hyps(2) [OF k(1) _ k(2)] k(2)
      unfolding u by (auto simp: entry_def upt_conv_Cons split: if_splits) }
qed simp_all

lemma num_bounds:
  assumes "header_ok m"
  shows "num_allocs m \<le> 4094" "65536 \<le> length m"
  using assms by (auto simp: header_ok_def shm_consts)

lemma length_table [simp]: "length (table m) = num_allocs m"
  by (simp add: table_def)

lemma unat_small32 [simp]: "n \<le> 4095 \<Longrightarrow> unat (of_nat n :: u32) = n"
  by (simp add: unsigned_of_nat take_bit_eq_mod)

text \<open>What a header operation leaves alone: the size of the mapping and the data area.\<close>

definition same_data :: "mem \<Rightarrow> mem \<Rightarrow> bool" where
  "same_data m m' \<longleftrightarrow> length m' = length m \<and> drop VGI_SHM_HEADER_SIZE m' = drop VGI_SHM_HEADER_SIZE m"

lemma same_data_refl [simp]: "same_data m m"
  by (simp add: same_data_def)

lemma same_data_trans: "same_data a b \<Longrightarrow> same_data b c \<Longrightarrow> same_data a c"
  by (simp add: same_data_def)

lemma same_data_memcpy:
  "dst + length xs \<le> VGI_SHM_HEADER_SIZE \<Longrightarrow> VGI_SHM_HEADER_SIZE \<le> length m \<Longrightarrow> same_data m (memcpy m dst xs)"
  by (simp add: same_data_def drop_memcpy)

lemma same_data_header:
  assumes "65536 \<le> length m"
  shows "p + 4 \<le> 65536 \<Longrightarrow> same_data m (StoreU32LE m p v)"
    and "p + 8 \<le> 65536 \<Longrightarrow> same_data m (StoreU64LE m p w)"
    and "dst + n \<le> 65536 \<Longrightarrow> same_data m (memmove m dst src n)"
  using assms
  by (auto simp: StoreU32LE_def StoreU64LE_def memmove_def VGI_SHM_HEADER_SIZE_def intro!: same_data_memcpy)

subsection \<open>The byte-level operations implement the table operations\<close>

lemma tableI:
  assumes "num_allocs m = length t" "\<And>j. j < length t \<Longrightarrow> entry m j = t ! j"
  shows "table m = t"
  using assms by (intro nth_equalityI) (simp_all add: table_def)

lemma table_nth: "j < num_allocs m \<Longrightarrow> table m ! j = entry m j"
  by (simp add: table_def)

lemma insert_entry_table:
  assumes "header_ok m" "num_allocs m < VGI_SHM_MAX_ALLOCS" "k \<le> num_allocs m"
  shows "table (insert_entry m (num_allocs m) k c len) = take k (table m) @ (c, len) # drop k (table m)"
    and "header_ok (insert_entry m (num_allocs m) k c len)"
    and "same_data m (insert_entry m (num_allocs m) k c len)"
proof -
  let ?n = "num_allocs m"
  let ?m1 = "if k < ?n then memmove m (24 + (k + 1) * 16) (24 + k * 16) ((?n - k) * 16) else m"
  let ?m2 = "StoreU64LE (StoreU64LE ?m1 (24 + k * 16) c) (24 + k * 16 + 8) len"
  let ?m4 = "insert_entry m ?n k c len"
  have m4: "?m4 = StoreU32LE ?m2 16 (of_nat (?n + 1))" by (simp only: insert_entry_def Let_def)
  note b = num_bounds [OF assms(1)] assms(3)
  have n: "?n < 4094" using assms(2) by (simp add: shm_consts)
  have l1: "length ?m1 = length m" using n b by simp
  have l2: "length ?m2 = length m" using n b l1 by simp
  have "same_data m ?m1" using n b by (simp add: same_data_header)
  moreover have "same_data ?m1 (StoreU64LE ?m1 (24 + k * 16) c)"
      "same_data (StoreU64LE ?m1 (24 + k * 16) c) ?m2" "same_data ?m2 ?m4"
    using n b l1 l2 m4 by (auto intro!: same_data_header)
  ultimately show sd: "same_data m ?m4" by (blast intro: same_data_trans)
  have num: "num_allocs ?m4 = Suc ?n"
    using n b l2 m4 by (simp del: of_nat_Suc of_nat_add)
  show "header_ok ?m4"
    using num n b sd by (simp add: header_ok_def same_data_def shm_consts)
  have ent: "entry ?m4 j = (if j = k then (c, len) else if j < k then entry m j else entry m (j - 1))"
    if "j < Suc ?n" for j
  proof -
    have "entry ?m4 j = entry ?m2 j" using that n b l2 m4 by simp
    also have "\<dots> = (if k = j then (c, len) else entry ?m1 j)"
      using that n b l1 by (intro entry_set) simp_all
    also have "entry ?m1 j = (if k + 1 \<le> j then entry m (j - 1) else entry m j)"
      using that n b entry_memmove [of "k + 1" "?n - k" m k j] by auto
    finally show ?thesis by auto
  qed
  show "table ?m4 = take k (table m) @ (c, len) # drop k (table m)"
    using b num by (intro tableI) (auto simp: ent nth_append table_nth)
qed

lemma Allocate_table:
  assumes "seg_base seg = Some m" "header_ok m"
  shows "case table_alloc (seg_size seg) len (table m) of
      None \<Rightarrow> Allocate len seg = Inr (None, seg)
    | Some (c, t) \<Rightarrow> \<exists>m'. Allocate len seg = Inr (Some c, seg\<lparr>seg_base := Some m'\<rparr>) \<and>
        header_ok m' \<and> table m' = t \<and> same_data m m'"
proof -
  let ?n = "num_allocs m"
  obtain c k where f: "fit len (table m) (of_nat VGI_SHM_HEADER_SIZE) = (c, k)" by fastforce
  have k: "k \<le> ?n" using fit_le [of len "table m" "of_nat VGI_SHM_HEADER_SIZE"] f by simp
  have sc: "alloc_scan m len [0..<?n] (of_nat VGI_SHM_HEADER_SIZE) ?n = (c, k)"
    using alloc_scan_fit [of 0 ?n m len] f by (simp add: table_def)
  show ?thesis
    using assms f sc k insert_entry_table [OF assms(2) _ k, of c len]
    by (auto simp: table_alloc_def Allocate_def header_ok_def num_allocs_def [symmetric] Let_def)
qed

lemma FreeAllocation_table:
  assumes "seg_base seg = Some m" "header_ok m"
  shows "\<exists>m'. FreeAllocation off seg = Inr (seg\<lparr>seg_base := Some m'\<rparr>) \<and>
    header_ok m' \<and> table m' = table_free off (table m) \<and> same_data m m'"
proof (cases "find (\<lambda>i. entry_off m i = off) [0..<num_allocs m]")
  case None
  then have "table_free off (table m) = table m"
    using find_upt_table(1) [of 0 "num_allocs m"] by (simp add: table_def)
  then show ?thesis
    using assms None
    by (intro exI [of _ m]) (simp add: FreeAllocation_def header_ok_def num_allocs_def Let_def)
next
  case (Some i)
  let ?n = "num_allocs m"
  have i: "i < ?n" and t: "table_free off (table m) = map (entry m) ([0..<i] @ [Suc i..<?n])"
    using find_upt_table(2) [OF _ Some] by (simp_all add: table_def)
  note b = num_bounds [OF assms(2)]
  let ?m1 = "if i + 1 < ?n then memmove m (24 + i * 16) (24 + (i + 1) * 16) ((?n - i - 1) * 16) else m"
  let ?m2 = "StoreU32LE ?m1 16 (of_nat (?n - 1))"
  have l1: "length ?m1 = length m" using i b by simp
  have "same_data m ?m1" "same_data ?m1 ?m2"
    using i b l1 by (auto intro!: same_data_header)
  then have sd: "same_data m ?m2" by (rule same_data_trans)
  have num: "num_allocs ?m2 = ?n - 1" using i b l1 by (simp del: of_nat_diff)
  have "entry ?m2 j = (if j < i then entry m j else entry m (Suc j))" if "j < ?n - 1" for j
  proof -
    have "entry ?m2 j = entry ?m1 j" using that i b l1 by (intro entry_set_num) simp
    then show ?thesis using that i b entry_memmove [of i "?n - i - 1" m "i + 1" j] by auto
  qed
  then have "table ?m2 = table_free off (table m)"
    unfolding t using i num by (intro tableI) (auto simp: nth_append)
  moreover have "header_ok ?m2"
    using b num sd by (simp add: header_ok_def same_data_def shm_consts)
  moreover have "FreeAllocation off seg = Inr (seg\<lparr>seg_base := Some ?m2\<rparr>)"
    using assms Some by (simp add: FreeAllocation_def header_ok_def num_allocs_def Let_def)
  ultimately show ?thesis using sd by blast
qed

lemma retain_loop_spec:
  assumes "kept \<le> i" "i \<le> n" "n \<le> 4094" "65536 \<le> length m"
  shows "case retain_loop offs [i..<n] m kept of (m', kept') \<Rightarrow>
    same_data m m' \<and> kept' \<le> n \<and>
    map (entry m') [0..<kept'] = map (entry m) [0..<kept] @ table_retain offs (map (entry m) [i..<n])"
  using assms
proof (induction "n - i" arbitrary: i m kept)
  case (Suc k)
  then have u: "[i..<n] = i # [Suc i..<n]" and k: "k = n - Suc i" "Suc i \<le> n" by (auto simp: upt_rec)
  show ?case
  proof (cases "entry_off m i \<in> set offs")
    case False
    then show ?thesis
      using Suc.hyps(1) [OF k(1) _ k(2), of kept m] Suc.prems unfolding u
      by (auto simp: entry_def [of m i])
  next
    case True
    define m1 where "m1 = (if kept \<noteq> i then memmove m (24 + kept * 16) (24 + i * 16) 16 else m)"
    have sd: "same_data m m1"
      using Suc.prems k by (auto simp: m1_def intro!: same_data_header)
    have e: "entry m1 j = (if j = kept then entry m i else entry m j)" if "j < n" for j
      using that Suc.prems k entry_memmove [of kept 1 m i j]
      by (cases "j = kept") (auto simp: m1_def)
    have e1: "map (entry m1) [0..<Suc kept] = map (entry m) [0..<kept] @ [entry m i]"
      using Suc.prems k by (auto simp: e)
    have e2: "map (entry m1) [Suc i..<n] = map (entry m) [Suc i..<n]"
      using Suc.prems k by (auto simp: e)
    have tr: "same_data m m'" if "same_data m1 m'" for m'
      using sd that by (rule same_data_trans)
    have "65536 \<le> length m1" using sd Suc.prems by (simp add: same_data_def)
    then show ?thesis
      using Suc.hyps(1) [OF k(1) _ k(2), of "Suc kept" m1, unfolded e1 e2] Suc.prems True k tr unfolding u
      by (auto simp: m1_def [symmetric] entry_def [of m i] simp del: upt_Suc split: prod.splits)
  qed
qed (simp add: table_retain_def)

lemma RetainOnly_table:
  assumes "seg_base seg = Some m" "header_ok m"
  shows "\<exists>m'. RetainOnly offs seg = Inr (seg\<lparr>seg_base := Some m'\<rparr>) \<and>
    header_ok m' \<and> table m' = table_retain offs (table m) \<and> same_data m m'"
proof -
  note b = num_bounds [OF assms(2)]
  show ?thesis
  proof (cases "offs = []")
    case True
    have "table (StoreU32LE m 16 0) = []" using b by (simp add: table_def)
    then show ?thesis
      using True assms b
      by (auto simp: RetainOnly_def ResetAllocator_def header_ok_def table_retain_def intro!: same_data_header)
  next
    case False
    obtain m' kept where r: "retain_loop offs [0..<num_allocs m] m 0 = (m', kept)" by fastforce
    have s: "same_data m m'" "kept \<le> num_allocs m"
        "map (entry m') [0..<kept] = table_retain offs (table m)"
      using retain_loop_spec [of 0 0 "num_allocs m" m offs] r b by (auto simp: table_def)
    let ?m2 = "StoreU32LE m' 16 (of_nat kept)"
    have l: "65536 \<le> length m'" using s b by (simp add: same_data_def)
    have sd: "same_data m ?m2"
      using s(1) l by (auto intro!: same_data_trans [OF s(1)] same_data_header)
    have num: "num_allocs ?m2 = kept" using s b l by simp
    have "table ?m2 = map (entry m') [0..<kept]"
      using num s(2) b l by (intro tableI) auto
    moreover have "header_ok ?m2"
      using num s assms(2) sd by (simp add: header_ok_def same_data_def)
    moreover have "RetainOnly offs seg = Inr (seg\<lparr>seg_base := Some ?m2\<rparr>)"
      using False assms r by (simp add: RetainOnly_def header_ok_def num_allocs_def Let_def)
    ultimately show ?thesis using sd s(3) by metis
  qed
qed

section \<open>Well-formed tables\<close>

fun wf_from :: "nat \<Rightarrow> nat \<Rightarrow> (u64 \<times> u64) list \<Rightarrow> bool" where
  "wf_from sz lo [] = (lo \<le> sz)"
| "wf_from sz lo ((off, l) # t) = (lo \<le> unat off \<and> 0 < l \<and> wf_from sz (unat off + unat l) t)"

definition disjoint_from :: "nat \<Rightarrow> nat \<Rightarrow> (u64 \<times> u64) list \<Rightarrow> bool" where
  "disjoint_from off len t \<longleftrightarrow>
     (\<forall>e\<in>set t. off + len \<le> unat (fst e) \<or> unat (fst e) + unat (snd e) \<le> off)"

lemma wf_from_le: "wf_from sz lo t \<Longrightarrow> lo \<le> sz"
  by (induction sz lo t rule: wf_from.induct) auto

lemma wf_from_mono: "wf_from sz lo t \<Longrightarrow> lo' \<le> lo \<Longrightarrow> wf_from sz lo' t"
  by (cases t) auto

lemma wf_from_entry:
  assumes "wf_from sz lo t" "(off, l) \<in> set t"
  shows "lo \<le> unat off" "unat off + unat l \<le> sz" "0 < unat l"
  using assms
  by (induction sz lo t rule: wf_from.induct) (auto dest: wf_from_le simp: unat_gt_0 word_neq_0_conv)

lemma wf_from_filter: "wf_from sz lo t \<Longrightarrow> wf_from sz lo (filter P t)"
proof (induction sz lo t rule: wf_from.induct)
  case (2 sz lo off l t)
  then show ?case by (auto intro: wf_from_mono)
qed simp

lemma wf_from_free: "wf_from sz lo t \<Longrightarrow> wf_from sz lo (table_free off t)"
proof (induction sz lo t rule: wf_from.induct)
  case (2 sz lo off' l t)
  then show ?case by (auto intro: wf_from_mono)
qed simp

lemma wf_from_offsets: "wf_from sz lo t \<Longrightarrow> (off, l) \<in> set t \<Longrightarrow> (off, l') \<in> set t \<Longrightarrow> l = l'"
proof (induction sz lo t rule: wf_from.induct)
  case (2 sz lo off' l0 t)
  have "off \<noteq> off'" if "(off, l1) \<in> set t" for l1
  proof
    assume "off = off'"
    with wf_from_entry(1) [of sz "unat off' + unat l0" t off l1] that 2(2) have "unat l0 = 0" by auto
    with 2(2) show False by (simp add: unat_eq_0)
  qed
  with 2 show ?case by auto
qed simp

lemma wf_from_distinct: "wf_from sz lo t \<Longrightarrow> distinct t"
proof (induction sz lo t rule: wf_from.induct)
  case (2 sz lo off l t)
  have "(off, l) \<notin> set t"
  proof
    assume "(off, l) \<in> set t"
    with wf_from_entry [of sz "unat off + unat l" t off l] 2(2) show False by auto
  qed
  with 2 show ?case by simp
qed simp

lemma set_table_free: "e \<in> set t \<Longrightarrow> fst e \<noteq> off \<Longrightarrow> e \<in> set (table_free off t)"
  by (induction t) auto

lemma unat_add_u64: "unat x + unat y < 2 ^ 64 \<Longrightarrow> unat (x + y) = unat x + unat y" for x y :: u64
  by (simp add: unat_word_ariths)

lemma fit_spec:
  assumes "wf_from sz (unat cursor) t" "0 < len" "sz + unat len < 2 ^ 64" "fit len t cursor = (c, k)"
  shows "unat cursor \<le> unat c \<and> unat c \<le> sz \<and>
    (unat c + unat len \<le> sz \<longrightarrow> wf_from sz (unat cursor) (take k t @ (c, len) # drop k t)) \<and>
    (\<forall>off. unat cursor \<le> off \<longrightarrow> disjoint_from off (unat len) t \<longrightarrow> unat c \<le> off)"
  using assms
proof (induction t arbitrary: cursor c k)
  case Nil
  then show ?case by auto
next
  case (Cons e t)
  obtain off l where e: "e = (off, l)" by (cases e)
  have w: "unat cursor \<le> unat off" "0 < l" "wf_from sz (unat off + unat l) t"
    using Cons.prems(1) e by auto
  have le: "cursor \<le> off" using w by (simp add: word_le_nat_alt)
  have gap: "off - cursor \<ge> len \<longleftrightarrow> unat cursor + unat len \<le> unat off"
    using le w by (auto simp: word_le_nat_alt unat_sub)
  have l0: "0 < unat l" using w by (simp add: unat_gt_0 word_neq_0_conv)
  have en: "unat (off + l) = unat off + unat l"
    using wf_from_le [OF w(3)] Cons.prems(3) by (intro unat_add_u64) simp
  then have gt: "off + l > cursor" using w l0 by (simp add: word_less_nat_alt)
  show ?case
  proof (cases "off - cursor \<ge> len")
    case True
    then have "c = cursor" "k = 0" using Cons.prems(4) e le by auto
    then show ?thesis
      using True gap w wf_from_le [OF Cons.prems(1)] Cons.prems(2) e by auto
  next
    case False
    then obtain k' where f: "fit len t (off + l) = (c, k')" "k = Suc k'"
      using Cons.prems(4) e le gt by (cases "fit len t (off + l)") auto
    note ih = Cons.IH [of "off + l", unfolded en, OF w(3) Cons.prems(2,3) f(1)]
    have "unat c \<le> o'" if "unat cursor \<le> o'" "disjoint_from o' (unat len) (e # t)" for o'
      using that e False gap ih by (auto simp: disjoint_from_def)
    then show ?thesis using ih f(2) e w by auto
  qed
qed

lemma wf_split_disjoint:
  assumes "wf_from sz lo (a @ (c, l) # b)"
  shows "disjoint_from (unat c) (unat l) (a @ b)" "lo \<le> unat c" "unat c + unat l \<le> sz"
  using assms
proof (induction a arbitrary: lo)
  case Nil
  { case 1
    then show ?case using wf_from_entry [of sz "unat c + unat l" b] by (fastforce simp: disjoint_from_def) }
  { case 2 then show ?case by simp }
  { case 3 then show ?case by (auto dest: wf_from_le) }
next
  case (Cons e a)
  obtain off l' where e: "e = (off, l')" by (cases e)
  { case 1
    then have w: "wf_from sz (unat off + unat l') (a @ (c, l) # b)" using e by simp
    from Cons.IH(1) [OF w] Cons.IH(2) [OF w] e show ?case by (auto simp: disjoint_from_def) }
  { case 2 then show ?case using Cons.IH(2) [of "unat off + unat l'"] e by auto }
  { case 3 then show ?case using Cons.IH(3) [of "unat off + unat l'"] e by auto }
qed

section \<open>The segment invariant\<close>

text \<open>
  A segment in use: mapped, as large as recorded (and no larger than any real mapping can be,
  \<open>2 ^ 63\<close> bytes), with a table of disjoint in-range slots in offset order.
\<close>

definition seg_table :: "shm_segment \<Rightarrow> (u64 \<times> u64) list" where
  "seg_table seg = (case seg_base seg of None \<Rightarrow> [] | Some m \<Rightarrow> table m)"

definition seg_mem :: "shm_segment \<Rightarrow> mem" where
  "seg_mem seg = (case seg_base seg of None \<Rightarrow> [] | Some m \<Rightarrow> m)"

definition seg_wf :: "shm_segment \<Rightarrow> bool" where
  "seg_wf seg \<longleftrightarrow> (\<exists>m. seg_base seg = Some m \<and> header_ok m \<and> length m = unat (seg_size seg) \<and>
     unat (seg_size seg) < 2 ^ 63 \<and> wf_from (unat (seg_size seg)) VGI_SHM_HEADER_SIZE (table m))"

definition slot_bytes :: "shm_segment \<Rightarrow> u64 \<times> u64 \<Rightarrow> string" where
  "slot_bytes seg e = take (unat (snd e)) (drop (unat (fst e)) (seg_mem seg))"

definition free_at :: "shm_segment \<Rightarrow> u64 \<Rightarrow> nat \<Rightarrow> bool" where
  "free_at seg len off \<longleftrightarrow> VGI_SHM_HEADER_SIZE \<le> off \<and> off + unat len \<le> unat (seg_size seg) \<and>
     disjoint_from off (unat len) (seg_table seg)"

lemma unat_header [simp]: "unat (of_nat VGI_SHM_HEADER_SIZE :: u64) = VGI_SHM_HEADER_SIZE"
  by (simp add: VGI_SHM_HEADER_SIZE_def)

lemma slot_bytes_same:
  assumes "same_data m m'" "VGI_SHM_HEADER_SIZE \<le> unat (fst e)"
  shows "slot_bytes (seg\<lparr>seg_base := Some m'\<rparr>) e = take (unat (snd e)) (drop (unat (fst e)) m)"
proof -
  have "drop (unat (fst e)) m' = drop (unat (fst e) - VGI_SHM_HEADER_SIZE) (drop VGI_SHM_HEADER_SIZE m')"
    using assms(2) by simp
  also have "\<dots> = drop (unat (fst e)) m" using assms by (simp add: same_data_def)
  finally show ?thesis by (simp add: slot_bytes_def seg_mem_def)
qed

lemma seg_wf_update:
  assumes "seg_wf seg" "seg_base seg = Some m" "header_ok m'" "same_data m m'"
    "wf_from (unat (seg_size seg)) VGI_SHM_HEADER_SIZE (table m')"
  shows "seg_wf (seg\<lparr>seg_base := Some m'\<rparr>)"
  using assms by (auto simp: seg_wf_def same_data_def)

lemma table_alloc_cases:
  assumes "seg_wf seg" "0 < len" "unat len < 2 ^ 63"
  shows "case table_alloc (seg_size seg) len (seg_table seg) of
      None \<Rightarrow> VGI_SHM_MAX_ALLOCS \<le> length (seg_table seg) \<or> (\<nexists>off. free_at seg len off)
    | Some (c, t) \<Rightarrow> free_at seg len (unat c) \<and> (\<forall>off. free_at seg len off \<longrightarrow> unat c \<le> off) \<and>
        set t = insert (c, len) (set (seg_table seg)) \<and>
        wf_from (unat (seg_size seg)) VGI_SHM_HEADER_SIZE t"
proof (cases "VGI_SHM_MAX_ALLOCS \<le> length (seg_table seg)")
  case False
  let ?sz = "seg_size seg" and ?t = "seg_table seg"
  obtain c k where f: "fit len ?t (of_nat VGI_SHM_HEADER_SIZE) = (c, k)" by fastforce
  have w: "wf_from (unat ?sz) (unat (of_nat VGI_SHM_HEADER_SIZE :: u64)) ?t" "unat ?sz < 2 ^ 63"
    using assms(1) by (auto simp: seg_wf_def seg_table_def)
  have "unat ?sz + unat len < 2 ^ 64" using w(2) assms(3) by simp
  note s = fit_spec [OF w(1) assms(2) this f, unfolded unat_header]
  have "c + len > ?sz \<longleftrightarrow> unat c + unat len > unat ?sz"
    using s w(2) assms(3) unat_add_u64 [of c len] by (simp add: word_less_nat_alt)
  moreover have "set (take k ?t @ (c, len) # drop k ?t) = insert (c, len) (set ?t)"
    by (metis append_take_drop_id set_append list.simps(15) Un_insert_right)
  moreover have "disjoint_from (unat c) (unat len) ?t" if "unat c + unat len \<le> unat ?sz"
    using s that wf_split_disjoint(1) [of "unat ?sz" VGI_SHM_HEADER_SIZE "take k ?t" c len "drop k ?t"]
    by simp
  ultimately show ?thesis
    using False f s assms(2) by (auto simp: table_alloc_def free_at_def)
qed (simp add: table_alloc_def)

lemma Allocate_cases:
  assumes "seg_wf seg" "0 < len" "unat len < 2 ^ 63"
  obtains (full) "Allocate len seg = Inr (None, seg)"
      "VGI_SHM_MAX_ALLOCS \<le> length (seg_table seg) \<or> (\<nexists>off. free_at seg len off)"
  | (slot) c seg' where "Allocate len seg = Inr (Some c, seg')" "seg_wf seg'" "free_at seg len (unat c)"
      "\<forall>off. free_at seg len off \<longrightarrow> unat c \<le> off" "set (seg_table seg') = insert (c, len) (set (seg_table seg))"
      "same_data (seg_mem seg) (seg_mem seg')" "seg_size seg' = seg_size seg"
proof -
  obtain m where m: "seg_base seg = Some m" "header_ok m" using assms(1) by (auto simp: seg_wf_def)
  note a = Allocate_table [OF m, of len] and t = table_alloc_cases [OF assms]
  have st: "seg_table seg = table m" "seg_mem seg = m" using m by (simp_all add: seg_table_def seg_mem_def)
  show ?thesis
  proof (cases "table_alloc (seg_size seg) len (table m)")
    case None
    then show ?thesis using a t st full by simp
  next
    case (Some r)
    then obtain c m' where "Allocate len seg = Inr (Some c, seg\<lparr>seg_base := Some m'\<rparr>)"
        "header_ok m'" "r = (c, table m')" "same_data m m'"
      using a by (cases r) auto
    moreover from this have "seg_wf (seg\<lparr>seg_base := Some m'\<rparr>)"
      using Some t st m by (intro seg_wf_update [OF assms(1)]) auto
    ultimately show ?thesis
      using Some t st by (intro slot [of c "seg\<lparr>seg_base := Some m'\<rparr>"]) (auto simp: seg_table_def seg_mem_def)
  qed
qed

lemma Allocate_zero: "seg_wf seg \<Longrightarrow> Allocate 0 seg = Inr (None, seg)"
  by (auto simp: Allocate_def seg_wf_def)

lemma free_disjoint_slot:
  assumes "free_at seg len off" "e \<in> set (seg_table seg)"
  shows "off + unat len \<le> unat (fst e) \<or> unat (fst e) + unat (snd e) \<le> off"
  using assms by (auto simp: free_at_def disjoint_from_def)

lemma seg_slot_range:
  assumes "seg_wf seg" "e \<in> set (seg_table seg)"
  shows "VGI_SHM_HEADER_SIZE \<le> unat (fst e)" "unat (fst e) + unat (snd e) \<le> length (seg_mem seg)"
  using assms wf_from_entry [of "unat (seg_size seg)" VGI_SHM_HEADER_SIZE "seg_table seg" "fst e" "snd e"]
  by (auto simp: seg_wf_def seg_table_def seg_mem_def)

lemma seg_wf_memcpy:
  assumes "seg_wf seg" "seg_base seg = Some m" "VGI_SHM_HEADER_SIZE \<le> p" "p + length xs \<le> length m"
  shows "seg_wf (seg\<lparr>seg_base := Some (memcpy m p xs)\<rparr>)" "table (memcpy m p xs) = table m"
proof -
  have b: "num_allocs m \<le> 4094" "65536 \<le> length m" "65536 \<le> p"
    using assms num_bounds [of m] by (auto simp: seg_wf_def VGI_SHM_HEADER_SIZE_def)
  then have n: "num_allocs (memcpy m p xs) = num_allocs m"
    using assms(4) by (intro num_allocs_simps) auto
  show t: "table (memcpy m p xs) = table m"
    using b n assms(4) by (auto simp: table_def intro!: entry_memcpy_other)
  show "seg_wf (seg\<lparr>seg_base := Some (memcpy m p xs)\<rparr>)"
    using assms n t by (auto simp: seg_wf_def header_ok_def)
qed

text \<open>
  Writing into a fresh slot: the data is there and no other slot is touched.
\<close>

lemma AllocateAndWrite_cases:
  assumes "seg_wf seg" "length data < 2 ^ 63"
  obtains (none) "AllocateAndWrite data seg = Inr (None, seg)"
  | (written) c seg' where "AllocateAndWrite data seg = Inr (Some c, seg')" "seg_wf seg'"
      "set (seg_table seg') = insert (c, of_nat (length data)) (set (seg_table seg))"
      "slot_bytes seg' (c, of_nat (length data)) = data" "seg_size seg' = seg_size seg"
      "\<And>e. e \<in> set (seg_table seg) \<Longrightarrow> slot_bytes seg' e = slot_bytes seg e"
proof (cases "data = []")
  case True
  then show ?thesis using none Allocate_zero [OF assms(1)] by (simp add: AllocateAndWrite_def)
next
  case False
  let ?len = "of_nat (length data) :: u64"
  have len: "unat ?len = length data" using assms(2) by (simp add: unsigned_of_nat take_bit_eq_mod)
  have pos: "0 < ?len" using False len by (metis length_0_conv unat_0 word_neq_0_conv)
  have lt: "unat ?len < 2 ^ 63" using len assms(2) by simp
  from assms(1) pos lt show ?thesis
  proof (cases rule: Allocate_cases)
    case full
    then show ?thesis using none by (simp add: AllocateAndWrite_def)
  next
    case (slot c seg1)
    obtain m1 where m1: "seg_base seg1 = Some m1" "length m1 = unat (seg_size seg)"
      using slot by (auto simp: seg_wf_def)
    let ?m = "memcpy m1 (unat c) data" and ?seg' = "seg1\<lparr>seg_base := Some (memcpy m1 (unat c) data)\<rparr>"
    have r: "VGI_SHM_HEADER_SIZE \<le> unat c" "unat c + length data \<le> length m1"
      using slot(3) len m1 by (auto simp: free_at_def)
    note wf = seg_wf_memcpy [OF slot(2) m1(1) r]
    have own: "slot_bytes ?seg' (c, ?len) = data"
      using r len by (simp add: slot_bytes_def seg_mem_def memcpy_def)
    have other: "slot_bytes ?seg' e = slot_bytes seg e" if e: "e \<in> set (seg_table seg)" for e
    proof -
      have e1: "unat (fst e) + unat (snd e) \<le> length m1" "VGI_SHM_HEADER_SIZE \<le> unat (fst e)"
        using seg_slot_range [OF slot(2), of e] slot(5) e m1 by (auto simp: seg_mem_def)
      have "slot_bytes ?seg' e = take (unat (snd e)) (drop (unat (fst e)) m1)"
        using free_disjoint_slot [OF slot(3) e] e1 r len
        by (auto simp: slot_bytes_def seg_mem_def nth_memcpy intro!: nth_equalityI)
      also have "\<dots> = slot_bytes seg e"
        using slot_bytes_same [OF slot(6) e1(2), of seg1] m1 by (simp add: slot_bytes_def seg_mem_def)
      finally show ?thesis .
    qed
    show ?thesis
      using slot m1 wf own other
      by (intro written [of c ?seg']) (auto simp: AllocateAndWrite_def seg_table_def)
  qed
qed

section \<open>The life of a slot\<close>

text \<open>
  What a connection relies on when it keeps a slot across requests, as an interface: the
  operations are total and keep the invariant, and a slot that an operation does not release
  stays in place with its content.
\<close>

fun run_steps :: "('op \<Rightarrow> 's \<Rightarrow> 'e + 's) \<Rightarrow> 'op list \<Rightarrow> 's \<Rightarrow> 'e + 's" where
  "run_steps step [] s = Inr s"
| "run_steps step (op # ops) s = (case step op s of Inl e \<Rightarrow> Inl e | Inr s' \<Rightarrow> run_steps step ops s')"

locale slot_store =
  fixes inv :: "'s \<Rightarrow> bool" and slots :: "'s \<Rightarrow> 'k set" and content :: "'s \<Rightarrow> 'k \<Rightarrow> 'v"
    and step :: "'op \<Rightarrow> 's \<Rightarrow> 'e + 's" and admissible :: "'op \<Rightarrow> bool" and releases :: "'op \<Rightarrow> 'k \<Rightarrow> bool"
  assumes step_inv: "inv s \<Longrightarrow> admissible op \<Longrightarrow> \<exists>s'. step op s = Inr s' \<and> inv s'"
    and step_keeps: "inv s \<Longrightarrow> admissible op \<Longrightarrow> step op s = Inr s' \<Longrightarrow> k \<in> slots s \<Longrightarrow> \<not> releases op k \<Longrightarrow>
      k \<in> slots s' \<and> content s' k = content s k"
begin

lemma run_keeps:
  assumes "inv s" "k \<in> slots s" "\<forall>op\<in>set ops. admissible op \<and> \<not> releases op k"
  shows "\<exists>s'. run_steps step ops s = Inr s' \<and> inv s' \<and> k \<in> slots s' \<and> content s' k = content s k"
  using assms
proof (induction ops arbitrary: s)
  case (Cons op ops)
  then obtain s1 where s1: "step op s = Inr s1" "inv s1" using step_inv [of s op] by auto
  have k: "k \<in> slots s1 \<and> content s1 k = content s k"
    using step_keeps [OF Cons.prems(1) _ s1(1) Cons.prems(2)] Cons.prems(3) by simp
  with Cons.IH [of s1] s1 Cons.prems(3) show ?case by auto
qed simp

end

datatype shm_op = ShmWrite string | ShmFree u64 | ShmRetain "u64 list"

fun shm_step :: "shm_op \<Rightarrow> shm_segment \<Rightarrow> shm_error + shm_segment" where
  "shm_step (ShmWrite data) seg = map_sum id snd (AllocateAndWrite data seg)"
| "shm_step (ShmFree off) seg = FreeAllocation off seg"
| "shm_step (ShmRetain offs) seg = RetainOnly offs seg"

fun shm_admissible :: "shm_op \<Rightarrow> bool" where
  "shm_admissible (ShmWrite data) \<longleftrightarrow> length data < 2 ^ 63"
| "shm_admissible _ \<longleftrightarrow> True"

fun shm_releases :: "shm_op \<Rightarrow> u64 \<Rightarrow> bool" where
  "shm_releases (ShmWrite data) off \<longleftrightarrow> False"
| "shm_releases (ShmFree off') off \<longleftrightarrow> off' = off"
| "shm_releases (ShmRetain offs) off \<longleftrightarrow> off \<notin> set offs"

text \<open>Freeing and retaining change only the table, and only drop entries from it.\<close>

lemma table_op_keeps:
  assumes "seg_wf seg" "seg_base seg = Some m" "header_ok m'" "same_data m m'"
    "wf_from (unat (seg_size seg)) VGI_SHM_HEADER_SIZE (table m')" "k \<in> set (table m')" "k \<in> set (seg_table seg)"
  shows "k \<in> set (seg_table (seg\<lparr>seg_base := Some m'\<rparr>)) \<and> slot_bytes (seg\<lparr>seg_base := Some m'\<rparr>) k = slot_bytes seg k"
  using assms seg_slot_range(1) [OF assms(1,7)] slot_bytes_same [OF assms(4), of k seg]
  by (simp add: seg_table_def slot_bytes_def seg_mem_def)

interpretation shm_slots: slot_store seg_wf "\<lambda>seg. set (seg_table seg)" slot_bytes shm_step shm_admissible
  "\<lambda>op e. shm_releases op (fst e)"
proof
  fix s op
  assume a: "seg_wf s" "shm_admissible op"
  obtain m where m: "seg_base s = Some m" "header_ok m"
      "wf_from (unat (seg_size s)) VGI_SHM_HEADER_SIZE (table m)"
    using a by (auto simp: seg_wf_def)
  show "\<exists>s'. shm_step op s = Inr s' \<and> seg_wf s'"
  proof (cases op)
    case (ShmWrite data)
    then have "length data < 2 ^ 63" using a by simp
    then show ?thesis using ShmWrite a(1) by (cases rule: AllocateAndWrite_cases [OF a(1)]) auto
  next
    case (ShmFree off)
    then show ?thesis
      using FreeAllocation_table [OF m(1,2), of off] seg_wf_update [OF a(1) m(1)] wf_from_free [OF m(3)] by auto
  next
    case (ShmRetain offs)
    then show ?thesis
      using RetainOnly_table [OF m(1,2), of offs] seg_wf_update [OF a(1) m(1)] wf_from_filter [OF m(3)]
      by (auto simp: table_retain_def)
  qed
  fix s' k
  assume k: "shm_step op s = Inr s'" "k \<in> set (seg_table s)" "\<not> shm_releases op (fst k)"
  show "k \<in> set (seg_table s') \<and> slot_bytes s' k = slot_bytes s k"
  proof (cases op)
    case (ShmWrite data)
    then have "length data < 2 ^ 63" using a by simp
    then show ?thesis using ShmWrite k by (cases rule: AllocateAndWrite_cases [OF a(1)]) (cases k; auto)+
  next
    case (ShmFree off)
    have "k \<in> set (table_free off (table m))"
      using k ShmFree m by (auto simp: seg_table_def intro: set_table_free)
    then show ?thesis
      using ShmFree k FreeAllocation_table [OF m(1,2), of off] wf_from_free [OF m(3)]
        table_op_keeps [OF a(1) m(1) _ _ _ _ k(2)] by auto
  next
    case (ShmRetain offs)
    have "k \<in> set (table_retain offs (table m))"
      using k ShmRetain m by (auto simp: seg_table_def table_retain_def)
    then show ?thesis
      using ShmRetain k RetainOnly_table [OF m(1,2), of offs] wf_from_filter [OF m(3)]
        table_op_keeps [OF a(1) m(1) _ _ _ _ k(2)] by (auto simp: table_retain_def)
  qed
qed

lemma stoull_show: "n < 2 ^ 64 \<Longrightarrow> stoull (show_nat n) = Some (of_nat n)"
proof -
  obtain c cs where s: "show_nat n = c # cs" using show_nat_ne [of n] by (cases "show_nat n") auto
  have d: "is_digit c" using show_nat_digits [of c n] s by simp
  then have "\<not> c_space c" "c \<noteq> CHR ''-''" "c \<noteq> CHR ''+''"
    by (auto simp: c_space_def is_digit_def)
  moreover have "takeWhile is_digit (show_nat n) = show_nat n"
    using show_nat_digits by (simp add: takeWhile_eq_all_conv)
  ultimately show "n < 2 ^ 64 \<Longrightarrow> stoull (show_nat n) = Some (of_nat n)"
    using s digits_value_show [of n] by (simp add: stoull_def Let_def)
qed

lemma unat_u64_less: "unat x < 2 ^ 64" for x :: u64
  using unsigned_less [where ?'a = nat, of x] by simp

lemma pointer_slice_in_range:
  assumes "seg_wf seg" "(off, len) \<in> set (seg_table seg)"
  shows "pointer_slice (Some 0)
      (Some [''vgi_rpc.shm_offset'' \<mapsto> show_nat (unat off), ''vgi_rpc.shm_length'' \<mapsto> show_nat (unat len)]) seg =
    Inr (Some (off, len))"
proof -
  have r: "VGI_SHM_HEADER_SIZE \<le> unat off" "unat off + unat len \<le> unat (seg_size seg)"
    using seg_slot_range [OF assms] assms(1) by (auto simp: seg_wf_def seg_mem_def)
  have "off \<le> seg_size seg" using r by (simp add: word_le_nat_alt)
  then have "len \<le> seg_size seg - off" using r by (simp add: word_le_nat_alt unat_sub)
  then show ?thesis
    using r stoull_show [of "unat off"] stoull_show [of "unat len"] unat_u64_less [of off] unat_u64_less [of len]
    by (simp add: pointer_slice_def word_le_nat_alt word_less_nat_alt)
qed

section \<open>Properties\<close>

text \<open>
  C10. The allocator is first fit and complete. On a well-formed segment, \<^verbatim>\<open>Allocate\<close> never
  fails with an error; when it gives an offset, that is the lowest offset of the data area at
  which the block overlaps no live slot, the new table has exactly that entry more, the
  segment is well-formed again and the data area is unchanged; when it gives none, nothing
  changed and either the table is full or no offset would do.
\<close>

theorem Allocate_first_fit:
  assumes "seg_wf seg" "0 < len" "unat len < 2 ^ 63"
  shows "\<exists>r seg'. Allocate len seg = Inr (r, seg') \<and> seg_wf seg' \<and>
    same_data (seg_mem seg) (seg_mem seg') \<and>
    (case r of
       None \<Rightarrow> seg' = seg \<and> (VGI_SHM_MAX_ALLOCS \<le> length (seg_table seg) \<or> (\<nexists>off. free_at seg len off))
     | Some c \<Rightarrow> free_at seg len (unat c) \<and> (\<forall>off. free_at seg len off \<longrightarrow> unat c \<le> off) \<and>
         set (seg_table seg') = insert (c, len) (set (seg_table seg)))"
  using assms
proof (cases rule: Allocate_cases)
  case full
  then show ?thesis using assms by (intro exI [of _ None] exI [of _ seg]) simp
next
  case (slot c seg')
  then show ?thesis by (intro exI [of _ "Some c"] exI [of _ seg']) simp
qed

lemma Create_wf:
  assumes "VGI_SHM_HEADER_SIZE < n" "os n = Some a" "n \<le> a" "a < 2 ^ 63"
  shows "\<exists>seg. Create os name n = Inr seg \<and> seg_wf seg \<and> seg_table seg = [] \<and> seg_size seg = of_nat a"
proof -
  let ?m0 = "memcpy (replicate a (char_of (0::nat))) 0 VGI_SHM_MAGIC"
  let ?m = "StoreU32LE (StoreU32LE (StoreU64LE (StoreU32LE ?m0 4 VGI_SHM_VERSION) 8
    (of_nat (a - VGI_SHM_HEADER_SIZE))) 16 0) 20 0"
  have a: "65536 < a" using assms by (simp add: VGI_SHM_HEADER_SIZE_def)
  then have l0: "length ?m0 = a" by (simp add: VGI_SHM_MAGIC_def)
  then have l: "length ?m = a" using a by simp
  have n: "num_allocs ?m = 0" using a by (simp add: VGI_SHM_MAGIC_def)
  have u: "unat (of_nat a :: u64) = a" using assms(4) by (simp add: unsigned_of_nat take_bit_eq_mod)
  have "seg_wf \<lparr>seg_name = name, seg_base = Some ?m, seg_size = of_nat a\<rparr>"
    using l n u a assms(4) by (simp add: seg_wf_def header_ok_def table_def VGI_SHM_HEADER_SIZE_def)
  then show ?thesis
    using assms n by (simp add: Create_def Let_def seg_table_def table_def)
qed

theorem Allocate_first_fit_witness:
  "\<exists>seg seg'. Create Some ''/vgi_shm_1_2_3'' 131072 = Inr seg \<and>
     Allocate 100 seg = Inr (Some 65536, seg') \<and> seg_table seg' = [(65536, 100)]"
proof -
  obtain seg where seg: "Create Some ''/vgi_shm_1_2_3'' 131072 = Inr seg" "seg_wf seg" "seg_table seg = []"
      "seg_size seg = 131072"
    using Create_wf [of 131072 Some 131072 "''/vgi_shm_1_2_3''"] by (auto simp: VGI_SHM_HEADER_SIZE_def)
  have free: "free_at seg 100 65536" using seg by (simp add: free_at_def VGI_SHM_HEADER_SIZE_def disjoint_from_def)
  from Allocate_first_fit [OF seg(2), of 100] obtain r seg' where
    r: "Allocate 100 seg = Inr (r, seg')" "seg_wf seg'"
      "case r of None \<Rightarrow> seg' = seg \<and> (VGI_SHM_MAX_ALLOCS \<le> length (seg_table seg) \<or> (\<nexists>off. free_at seg 100 off))
       | Some c \<Rightarrow> free_at seg 100 (unat c) \<and> (\<forall>off. free_at seg 100 off \<longrightarrow> unat c \<le> off) \<and>
         set (seg_table seg') = insert (c, 100) (set (seg_table seg))"
    by auto
  then obtain c where c: "r = Some c" "unat c \<le> 65536" "65536 \<le> unat c" "set (seg_table seg') = {(c, 100)}"
    using free seg by (cases r) (auto simp: shm_consts free_at_def)
  have "c = 65536" using c by (simp add: word_unat_eq_iff)
  moreover have "seg_table seg' = [(c, 100)]"
  proof -
    have "wf_from (unat (seg_size seg')) VGI_SHM_HEADER_SIZE (seg_table seg')"
      using r(2) by (auto simp: seg_wf_def seg_table_def)
    then have "length (seg_table seg') = 1"
      using distinct_card [OF wf_from_distinct, of _ _ "seg_table seg'"] c(4) by force
    with c(4) show ?thesis by (cases "seg_table seg'") auto
  qed
  ultimately show ?thesis using seg r c by auto
qed

text \<open>
  C11. A written slot lives until it is released. After \<^verbatim>\<open>AllocateAndWrite\<close> returned an offset,
  every sequence of further writes, frees and between-request resets that does not release that
  offset runs without error and leaves the bytes of the slot as written; and a pointer batch
  naming the offset and length in decimal still resolves to exactly that slot.
\<close>

theorem written_slot_survives:
  assumes "seg_wf seg" "length data < 2 ^ 63" "AllocateAndWrite data seg = Inr (Some off, seg1)"
    "\<forall>op\<in>set ops. shm_admissible op \<and> \<not> shm_releases op off"
  shows "\<exists>seg2. run_steps shm_step ops seg1 = Inr seg2 \<and> seg_wf seg2 \<and>
    slot_bytes seg2 (off, of_nat (length data)) = data \<and>
    pointer_slice (Some 0) (Some [''vgi_rpc.shm_offset'' \<mapsto> show_nat (unat off),
      ''vgi_rpc.shm_length'' \<mapsto> show_nat (length data)]) seg2 = Inr (Some (off, of_nat (length data)))"
proof -
  let ?e = "(off, of_nat (length data) :: u64)"
  have w: "seg_wf seg1" "?e \<in> set (seg_table seg1)" "slot_bytes seg1 ?e = data"
    using assms(3) by (cases rule: AllocateAndWrite_cases [OF assms(1,2)]; auto)+
  obtain seg2 where s: "run_steps shm_step ops seg1 = Inr seg2" "seg_wf seg2" "?e \<in> set (seg_table seg2)"
      "slot_bytes seg2 ?e = data"
    using shm_slots.run_keeps [OF w(1,2), of ops] assms(4) w(3) by auto
  have "unat (of_nat (length data) :: u64) = length data"
    using assms(2) by (simp add: unsigned_of_nat take_bit_eq_mod)
  with pointer_slice_in_range [OF s(2,3)] s show ?thesis by auto
qed

lemma empty_allocates:
  assumes "seg_wf seg" "seg_table seg = []" "0 < len" "VGI_SHM_HEADER_SIZE + unat len \<le> unat (seg_size seg)"
  shows "\<exists>c seg'. Allocate len seg = Inr (Some c, seg')"
proof -
  have "free_at seg len VGI_SHM_HEADER_SIZE" "unat len < 2 ^ 63"
    using assms by (auto simp: free_at_def disjoint_from_def seg_wf_def)
  with assms show ?thesis
    by (cases rule: Allocate_cases [OF assms(1,3)]) (auto simp: shm_consts)
qed

theorem written_slot_survives_witness:
  "\<exists>seg off seg1 seg2. Create Some ''/vgi_shm_1_2_3'' 131072 = Inr seg \<and>
     AllocateAndWrite ''abc'' seg = Inr (Some off, seg1) \<and>
     run_steps shm_step [ShmWrite ''xyz'', ShmRetain [off]] seg1 = Inr seg2 \<and>
     slot_bytes seg2 (off, 3) = ''abc''"
proof -
  obtain seg where seg: "Create Some ''/vgi_shm_1_2_3'' 131072 = Inr seg" "seg_wf seg" "seg_table seg = []"
      "seg_size seg = 131072"
    using Create_wf [of 131072 Some 131072 "''/vgi_shm_1_2_3''"] by (auto simp: VGI_SHM_HEADER_SIZE_def)
  then obtain off seg' where "Allocate 3 seg = Inr (Some off, seg')"
    using empty_allocates [of seg 3] by (auto simp: VGI_SHM_HEADER_SIZE_def)
  then obtain seg1 where w: "AllocateAndWrite ''abc'' seg = Inr (Some off, seg1)"
    by (simp add: AllocateAndWrite_def)
  from written_slot_survives [OF seg(2) _ w, of "[ShmWrite ''xyz'', ShmRetain [off]]"] seg w
  show ?thesis by auto
qed

text \<open>
  C12. No pointer batch reads outside the data area: whatever offset and length texts a worker
  sends, a slice the reader is given lies between the header and the end of the mapping, with
  the sum taken over the naturals (the guard does not wrap).
\<close>

theorem pointer_slice_bounds:
  assumes "pointer_slice num_rows custom_metadata seg = Inr (Some (off, len))"
  shows "VGI_SHM_HEADER_SIZE \<le> unat off \<and> unat off + unat len \<le> unat (seg_size seg)"
proof -
  have r: "of_nat VGI_SHM_HEADER_SIZE \<le> off" "off \<le> seg_size seg" "len \<le> seg_size seg - off"
    using assms by (auto simp: pointer_slice_def split: option.splits if_splits)
  then have "unat len \<le> unat (seg_size seg) - unat off" by (simp add: word_le_nat_alt unat_sub)
  then show ?thesis using r(1,2) by (simp add: word_le_nat_alt)
qed

theorem pointer_slice_bounds_witness:
  "\<exists>seg. pointer_slice (Some 0)
       (Some [''vgi_rpc.shm_offset'' \<mapsto> ''65636'', ''vgi_rpc.shm_length'' \<mapsto> ''28'']) seg = Inr (Some (65636, 28)) \<and>
     unat (65636 :: u64) + unat (28 :: u64) \<le> unat (seg_size seg)"
proof -
  let ?seg = "\<lparr>seg_name = ''/vgi_shm_1_2_3'', seg_base = None, seg_size = 131072\<rparr>"
  have "stoull ''65636'' = Some 65636" "stoull ''28'' = Some 28"
    by (simp_all add: stoull_def c_space_def is_digit_def digits_value_def)
  then have p: "pointer_slice (Some 0)
      (Some [''vgi_rpc.shm_offset'' \<mapsto> ''65636'', ''vgi_rpc.shm_length'' \<mapsto> ''28'']) ?seg = Inr (Some (65636, 28))"
    by (simp add: pointer_slice_def VGI_SHM_HEADER_SIZE_def)
  from pointer_slice_bounds [OF p] p show ?thesis by blast
qed

end
