(* ===== verification/Std_Map.thy ===== *)
theory Std_Map
  imports Vgi_Prelude "HOL-Library.Char_ord" "HOL-Library.List_Lexorder"
begin

text \<open>
  \<^verbatim>\<open>std::map\<close>: an association list in ascending key order, so that iteration visits the
  entries in the order the sources see them. The locale \<open>ordered_map\<close> states what the
  components rely on: lookup after update and erase, the order invariant, and how a sum of
  entry weights moves, which is what the byte and slot accounts of the caches need.
\<close>

type_synonym ('k, 'v) std_map = "('k \<times> 'v) list"

fun map_put :: "'k::linorder \<Rightarrow> 'v \<Rightarrow> ('k, 'v) std_map \<Rightarrow> ('k, 'v) std_map" where
  "map_put k v [] = [(k, v)]"
| "map_put k v ((k', v') # m) =
     (if k < k' then (k, v) # (k', v') # m
      else if k = k' then (k, v) # m
      else (k', v') # map_put k v m)"

definition map_erase :: "'k \<Rightarrow> ('k, 'v) std_map \<Rightarrow> ('k, 'v) std_map" where
  "map_erase k m = filter (\<lambda>e. fst e \<noteq> k) m"

definition map_sorted :: "('k::linorder, 'v) std_map \<Rightarrow> bool" where
  "map_sorted m \<longleftrightarrow> sorted_wrt (<) (map fst m)"

definition weight :: "('v \<Rightarrow> nat) \<Rightarrow> ('k, 'v) std_map \<Rightarrow> nat" where
  "weight f m = sum_list (map (\<lambda>e. f (snd e)) m)"

definition weight_at :: "('v \<Rightarrow> nat) \<Rightarrow> 'v option \<Rightarrow> nat" where
  "weight_at f ov = (case ov of None \<Rightarrow> 0 | Some v \<Rightarrow> f v)"

locale ordered_map =
  fixes look :: "'m \<Rightarrow> 'k \<Rightarrow> 'v option" and put :: "'k \<Rightarrow> 'v \<Rightarrow> 'm \<Rightarrow> 'm" and erase :: "'k \<Rightarrow> 'm \<Rightarrow> 'm"
    and inv :: "'m \<Rightarrow> bool" and wt :: "('v \<Rightarrow> nat) \<Rightarrow> 'm \<Rightarrow> nat"
  assumes look_put: "inv m \<Longrightarrow> look (put k v m) = (look m)(k \<mapsto> v)"
    and look_erase: "inv m \<Longrightarrow> look (erase k m) = (look m)(k := None)"
    and inv_put: "inv m \<Longrightarrow> inv (put k v m)"
    and inv_erase: "inv m \<Longrightarrow> inv (erase k m)"
    and wt_put: "inv m \<Longrightarrow> wt f (put k v m) + weight_at f (look m k) = wt f m + f v"
    and wt_erase: "inv m \<Longrightarrow> wt f (erase k m) + weight_at f (look m k) = wt f m"
begin

lemma wt_fold_erase_le: "inv m \<Longrightarrow> inv (fold erase ks m) \<and> wt f (fold erase ks m) \<le> wt f m"
proof (induction ks arbitrary: m)
  case (Cons k ks)
  from Cons.IH [OF inv_erase [OF Cons.prems, of k]] wt_erase [OF Cons.prems, of f k] show ?case by simp
qed simp

lemma look_fold_erase: "inv m \<Longrightarrow> look (fold erase ks m) k = (if k \<in> set ks then None else look m k)"
proof (induction ks arbitrary: m)
  case (Cons k' ks)
  from Cons.IH [OF inv_erase [OF Cons.prems]] look_erase [OF Cons.prems] show ?case by auto
qed simp

end

lemma map_sorted_Cons:
  "map_sorted ((k, v) # m) \<longleftrightarrow> (\<forall>e\<in>set m. k < fst e) \<and> map_sorted m"
  by (auto simp: map_sorted_def)

lemma map_sorted_Nil [simp]: "map_sorted []"
  by (simp add: map_sorted_def)

lemma set_map_put: "set (map_put k v m) \<subseteq> insert (k, v) (set m)"
  by (induction m rule: map_put.induct) auto

lemma map_sorted_distinct: "map_sorted m \<Longrightarrow> distinct (map fst m)"
  unfolding map_sorted_def by (simp add: strict_sorted_iff)

lemma map_of_smaller: "\<forall>e\<in>set m. k < fst e \<Longrightarrow> map_of m k = None" for k :: "'k::linorder"
  by (auto simp: map_of_eq_None_iff)

lemma map_put_sorted: "map_sorted m \<Longrightarrow> map_sorted (map_put k v m)"
proof (induction k v m rule: map_put.induct)
  case (2 k v k' v' m)
  then show ?case using set_map_put [of k v m] by (force simp: map_sorted_Cons)
qed (simp add: map_sorted_def)

lemma map_erase_sorted: "map_sorted m \<Longrightarrow> map_sorted (map_erase k m)"
  by (induction m) (auto simp: map_erase_def map_sorted_Cons split_paired_all)

lemma map_of_put: "map_sorted m \<Longrightarrow> map_of (map_put k v m) = (map_of m)(k \<mapsto> v)"
proof (induction k v m rule: map_put.induct)
  case (2 k v k' v' m)
  then show ?case by (auto simp: map_sorted_Cons fun_eq_iff)
qed (simp add: fun_eq_iff)

lemma weight_put:
  "map_sorted m \<Longrightarrow> weight f (map_put k v m) + weight_at f (map_of m k) = weight f m + f v"
proof (induction k v m rule: map_put.induct)
  case (2 k v k' v' m)
  then show ?case
    using map_of_smaller [of m k] by (force simp: map_sorted_Cons weight_def weight_at_def)
qed (simp add: weight_def weight_at_def)

lemma weight_erase:
  "map_sorted m \<Longrightarrow> weight f (map_erase k m) + weight_at f (map_of m k) = weight f m"
proof (induction m)
  case (Cons e m)
  obtain k' v' where e: "e = (k', v')" by (cases e)
  have "map_erase k m = m" if "k' = k"
    using Cons.prems e that by (force simp: map_erase_def map_sorted_Cons filter_id_conv)
  with Cons e show ?case
    using map_of_smaller [of m k'] by (auto simp: map_sorted_Cons map_erase_def weight_def weight_at_def)
qed (simp add: weight_def weight_at_def map_erase_def)

lemma map_of_erase: "map_of (map_erase k m) = (map_of m)(k := None)"
  by (simp add: map_erase_def map_of_filter_neq)

interpretation std_map: ordered_map map_of map_put map_erase map_sorted weight
  by unfold_locales
    (simp_all add: map_of_put map_put_sorted map_erase_sorted weight_put weight_erase map_of_erase)

end
