(* ===== verification/Worker_Pool.thy ===== *)
theory Worker_Pool
  imports Std_Map "HOL-Library.Product_Lexorder" "HOL-Library.Multiset"
begin

text \<open>
  The subprocess worker pool, \<^verbatim>\<open>src/src/vgi_worker_pool.cpp\<close>. Every public operation runs under
  the pool's mutex, so an operation is one function on the pool's state and an execution is a
  sequence of them. Whether a process still runs (\<^verbatim>\<open>TryWait\<close>) is the argument \<open>alive\<close> on
  process ids, which may differ from call to call; times are nanoseconds of the steady clock.
\<close>

section \<open>State\<close>

datatype PoolKey =
  PoolKey (worker_path: string) (data_version_spec: string) (implementation_version: string)

text \<open>\<^verbatim>\<open>std::tie\<close> compares the fields lexicographically.\<close>

definition tie :: "PoolKey \<Rightarrow> string \<times> string \<times> string" where
  "tie k = (worker_path k, data_version_spec k, implementation_version k)"

lemma tie_inj: "tie a = tie b \<longleftrightarrow> a = b"
  by (cases a; cases b) (simp add: tie_def)

instantiation PoolKey :: linorder
begin

definition less_eq_PoolKey :: "PoolKey \<Rightarrow> PoolKey \<Rightarrow> bool" where
  "less_eq_PoolKey a b \<longleftrightarrow> tie a \<le> tie b"

definition less_PoolKey :: "PoolKey \<Rightarrow> PoolKey \<Rightarrow> bool" where
  "less_PoolKey a b \<longleftrightarrow> tie a < tie b"

instance
proof
  fix a b c :: PoolKey
  show "a < b \<longleftrightarrow> a \<le> b \<and> \<not> b \<le> a"
    unfolding less_eq_PoolKey_def less_PoolKey_def by (rule less_le_not_le)
  show "a \<le> a"
    unfolding less_eq_PoolKey_def by (rule order.refl)
  show "a \<le> b \<or> b \<le> a"
    unfolding less_eq_PoolKey_def by (rule linear)
  show "a \<le> b \<Longrightarrow> b \<le> c \<Longrightarrow> a \<le> c"
    unfolding less_eq_PoolKey_def by (rule order.trans)
  show "a \<le> b \<Longrightarrow> b \<le> a \<Longrightarrow> a = b"
    unfolding less_eq_PoolKey_def tie_inj [symmetric] by (rule order.antisym)
qed

end

record PoolSettings =
  max_pool_size :: nat
  idle_timeout_seconds :: nat

record PooledWorker =
  proc :: "int option"
  key :: PoolKey
  pooled_at :: int
  idle_timeout :: nat

definition IsAlive :: "(int \<Rightarrow> bool) \<Rightarrow> PooledWorker \<Rightarrow> bool" where
  "IsAlive alive w = (case proc w of None \<Rightarrow> False | Some pid \<Rightarrow> alive pid)"

definition GetPid :: "PooledWorker \<Rightarrow> int" where
  "GetPid w = (case proc w of None \<Rightarrow> - 1 | Some pid \<Rightarrow> pid)"

record VgiWorkerPool =
  pools :: "(PoolKey, PooledWorker list) std_map"
  path_configs :: "(string, PoolSettings) std_map"
  default_settings :: PoolSettings
  stats :: "(string, u64 \<times> u64) std_map"

definition bucket :: "VgiWorkerPool \<Rightarrow> PoolKey \<Rightarrow> PooledWorker list" where
  "bucket p k = (case map_of (pools p) k of None \<Rightarrow> [] | Some ws \<Rightarrow> ws)"

definition TotalPoolSizeLocked :: "VgiWorkerPool \<Rightarrow> nat" where
  "TotalPoolSizeLocked p = fold (\<lambda>e total. total + length (snd e)) (pools p) 0"

section \<open>Operations\<close>

definition SetDefaultSettings :: "PoolSettings \<Rightarrow> VgiWorkerPool \<Rightarrow> VgiWorkerPool" where
  "SetDefaultSettings settings p = p\<lparr>default_settings := settings\<rparr>"

text \<open>The pop-from-the-back loop; a hit also bumps the path's counter.\<close>

function pop_alive :: "(int \<Rightarrow> bool) \<Rightarrow> PooledWorker list \<Rightarrow> PooledWorker option \<times> PooledWorker list" where
  "pop_alive alive pool =
     (if pool = [] then (None, [])
      else if IsAlive alive (last pool) then (Some (last pool), butlast pool)
      else pop_alive alive (butlast pool))"
  by pat_completeness auto
termination
  by (relation "measure (\<lambda>(alive, pool). length pool)") auto

declare pop_alive.simps [simp del]

definition stat_of :: "VgiWorkerPool \<Rightarrow> string \<Rightarrow> u64 \<times> u64" where
  "stat_of p pth = (case map_of (stats p) pth of None \<Rightarrow> (0, 0) | Some hm \<Rightarrow> hm)"

definition TryAcquire :: "(int \<Rightarrow> bool) \<Rightarrow> PoolKey \<Rightarrow> VgiWorkerPool \<Rightarrow> PooledWorker option \<times> VgiWorkerPool" where
  "TryAcquire alive k p =
     (case map_of (pools p) k of
        None \<Rightarrow> (None, p)
      | Some ws \<Rightarrow>
          if ws = [] then (None, p)
          else
            let (r, ws') = pop_alive alive ws; p' = p\<lparr>pools := map_put k ws' (pools p)\<rparr> in
            (case r of
               None \<Rightarrow> (None, p')
             | Some w \<Rightarrow>
                 let hm = stat_of p (worker_path k) in
                 (Some w, p'\<lparr>stats := map_put (worker_path k) (fst hm + 1, snd hm) (stats p)\<rparr>)))"

record ReleaseResult =
  pooled :: bool
  rel_pid :: int
  skip_reason :: string
  pool_size :: nat
  total_pool_size :: nat

definition no_release :: ReleaseResult where
  "no_release = \<lparr>pooled = False, rel_pid = - 1, skip_reason = [], pool_size = 0, total_pool_size = 0\<rparr>"

definition settings_for :: "VgiWorkerPool \<Rightarrow> string \<Rightarrow> PoolSettings" where
  "settings_for p pth = (case map_of (path_configs p) pth of Some s \<Rightarrow> s | None \<Rightarrow> default_settings p)"

definition Release :: "(int \<Rightarrow> bool) \<Rightarrow> PooledWorker option \<Rightarrow> VgiWorkerPool \<Rightarrow> ReleaseResult \<times> VgiWorkerPool" where
  "Release alive worker p =
     (case worker of
        None \<Rightarrow> (no_release, p)
      | Some w \<Rightarrow>
          let res = no_release\<lparr>rel_pid := GetPid w\<rparr> in
          if \<not> IsAlive alive w then (res\<lparr>skip_reason := ''dead''\<rparr>, p)
          else
            let settings = settings_for p (worker_path (key w)) in
            if max_pool_size settings = 0
            then (res\<lparr>skip_reason := ''disabled'', total_pool_size := TotalPoolSizeLocked p\<rparr>, p)
            else
              let b = bucket p (key w); p1 = p\<lparr>pools := map_put (key w) b (pools p)\<rparr> in
              if length b \<ge> max_pool_size settings
              then (res\<lparr>skip_reason := ''path_full'', pool_size := length b,
                      total_pool_size := TotalPoolSizeLocked p1\<rparr>, p1)
              else
                let w' = w\<lparr>idle_timeout := idle_timeout_seconds settings\<rparr>;
                    p2 = p\<lparr>pools := map_put (key w) (b @ [w']) (pools p)\<rparr> in
                (res\<lparr>pooled := True, pool_size := length (b @ [w']),
                   total_pool_size := TotalPoolSizeLocked p2\<rparr>, p2))"

definition Flush :: "VgiWorkerPool \<Rightarrow> nat \<times> VgiWorkerPool" where
  "Flush p = (TotalPoolSizeLocked p, p\<lparr>pools := []\<rparr>)"

definition age_seconds :: "int \<Rightarrow> PooledWorker \<Rightarrow> int" where
  "age_seconds now w = (now - pooled_at w) div 1000000000"

definition GetPoolEntries :: "int \<Rightarrow> VgiWorkerPool \<Rightarrow> (PoolKey \<times> int \<times> int) list" where
  "GetPoolEntries now p =
     concat (map (\<lambda>e. map (\<lambda>w. (fst e, GetPid w, age_seconds now w)) (snd e)) (pools p))"

definition ConfigurePath :: "string \<Rightarrow> PoolSettings \<Rightarrow> VgiWorkerPool \<Rightarrow> VgiWorkerPool" where
  "ConfigurePath pth settings p = p\<lparr>path_configs := map_put pth settings (path_configs p)\<rparr>"

fun erase_stale :: "(int \<Rightarrow> bool) \<Rightarrow> int \<Rightarrow> PooledWorker list \<Rightarrow> PooledWorker list" where
  "erase_stale alive now [] = []"
| "erase_stale alive now (w # ws) =
     (if \<not> IsAlive alive w then erase_stale alive now ws
      else if age_seconds now w \<ge> int (idle_timeout w) then erase_stale alive now ws
      else w # erase_stale alive now ws)"

definition RemoveStaleWorkersLocked :: "(int \<Rightarrow> bool) \<Rightarrow> int \<Rightarrow> VgiWorkerPool \<Rightarrow> VgiWorkerPool" where
  "RemoveStaleWorkersLocked alive now p =
     p\<lparr>pools := map (\<lambda>e. (fst e, erase_stale alive now (snd e))) (pools p)\<rparr>"

definition GetPoolStats :: "VgiWorkerPool \<Rightarrow> (string \<times> u64 \<times> u64) list" where
  "GetPoolStats p = stats p"

definition RecordMiss :: "string \<Rightarrow> VgiWorkerPool \<Rightarrow> VgiWorkerPool" where
  "RecordMiss pth p =
     (let hm = stat_of p pth in p\<lparr>stats := map_put pth (fst hm, snd hm + 1) (stats p)\<rparr>)"

section \<open>The pool and its clients\<close>

text \<open>
  An execution: clients spawn processes (with fresh ids), acquire and release them, the
  cleanup thread removes stale ones, and settings change. \<open>held\<close> is what clients own; a
  released worker leaves the client whether or not the pool keeps it. \<open>cap\<close> bounds the pool
  sizes that are ever configured.
\<close>

record pool_system =
  pool :: VgiWorkerPool
  held :: "PooledWorker list"
  next_pid :: int

definition new_worker :: "int \<Rightarrow> PoolKey \<Rightarrow> int \<Rightarrow> PooledWorker" where
  "new_worker pid k now = \<lparr>proc = Some pid, key = k, pooled_at = now, idle_timeout = 0\<rparr>"

inductive pool_step :: "nat \<Rightarrow> pool_system \<Rightarrow> pool_system \<Rightarrow> bool" for cap :: nat where
  spawn: "next_pid s < n \<Longrightarrow>
    pool_step cap s (s\<lparr>pool := RecordMiss (worker_path k) (pool s),
      held := new_worker (next_pid s) k now # held s, next_pid := n\<rparr>)"
| acquire: "TryAcquire alive k (pool s) = (Some w, p') \<Longrightarrow> pool_step cap s (s\<lparr>pool := p', held := w # held s\<rparr>)"
| miss: "TryAcquire alive k (pool s) = (None, p') \<Longrightarrow> pool_step cap s (s\<lparr>pool := p'\<rparr>)"
| release: "w \<in> set (held s) \<Longrightarrow> Release alive (Some w) (pool s) = (r, p') \<Longrightarrow>
    pool_step cap s (s\<lparr>pool := p', held := remove1 w (held s)\<rparr>)"
| cleanup: "pool_step cap s (s\<lparr>pool := RemoveStaleWorkersLocked alive now (pool s)\<rparr>)"
| flush: "Flush (pool s) = (n, p') \<Longrightarrow> pool_step cap s (s\<lparr>pool := p'\<rparr>)"
| configure: "max_pool_size st \<le> cap \<Longrightarrow> pool_step cap s (s\<lparr>pool := ConfigurePath pth st (pool s)\<rparr>)"
| default: "max_pool_size st \<le> cap \<Longrightarrow> pool_step cap s (s\<lparr>pool := SetDefaultSettings st (pool s)\<rparr>)"

inductive_cases pool_stepE: "pool_step cap s t"

section \<open>Laws of the pool\<close>

lemma pop_alive_spec:
  "case pop_alive alive ws of
     (None, ws') \<Rightarrow> ws' = [] \<and> (\<forall>w\<in>set ws. \<not> IsAlive alive w)
   | (Some w, ws') \<Rightarrow> IsAlive alive w \<and> (\<exists>dead. ws = ws' @ w # dead \<and> (\<forall>d\<in>set dead. \<not> IsAlive alive d))"
proof (induction alive ws rule: pop_alive.induct)
  case (1 alive ws)
  show ?case
  proof (cases "ws = [] \<or> IsAlive alive (last ws)")
    case True
    then show ?thesis by (auto simp: pop_alive.simps [of alive ws] intro!: exI [of _ "[]"])
  next
    case False
    obtain r ws' where r: "pop_alive alive (butlast ws) = (r, ws')" by fastforce
    have p: "pop_alive alive ws = (r, ws')"
      using False r by (simp add: pop_alive.simps [of alive ws])
    have ih: "case (r, ws') of
        (None, ws') \<Rightarrow> ws' = [] \<and> (\<forall>w\<in>set (butlast ws). \<not> IsAlive alive w)
      | (Some w, ws') \<Rightarrow> IsAlive alive w \<and>
          (\<exists>dead. butlast ws = ws' @ w # dead \<and> (\<forall>d\<in>set dead. \<not> IsAlive alive d))"
      using 1 [unfolded r] False by simp
    obtain xs x where ws: "ws = xs @ [x]" "\<not> IsAlive alive x" using False by (cases ws rule: rev_cases) auto
    have "\<exists>dead'. xs @ [x] = ws' @ w # dead' \<and> (\<forall>d\<in>set dead'. \<not> IsAlive alive d)"
      if "xs = ws' @ w # dead" "\<forall>d\<in>set dead. \<not> IsAlive alive d" for w dead
      using that ws(2) by (intro exI [of _ "dead @ [x]"]) auto
    with ih ws show ?thesis unfolding p by (cases r) auto
  qed
qed

definition all_workers :: "VgiWorkerPool \<Rightarrow> PooledWorker list" where
  "all_workers p = concat (map snd (pools p))"

definition pool_inv :: "VgiWorkerPool \<Rightarrow> bool" where
  "pool_inv p \<longleftrightarrow> map_sorted (pools p) \<and> map_sorted (path_configs p) \<and> map_sorted (stats p) \<and>
     (\<forall>k ws. map_of (pools p) k = Some ws \<longrightarrow> (\<forall>w\<in>set ws. key w = k))"

lemma mset_concat_put:
  "map_sorted m \<Longrightarrow> mset (concat (map snd (map_put k ws m))) +
     mset (case map_of m k of None \<Rightarrow> [] | Some old \<Rightarrow> old) = mset (concat (map snd m)) + mset ws"
proof (induction k ws m rule: map_put.induct)
  case (2 k ws k' ws' m)
  have "map_of m k = None" if "k < k'"
    using 2(2) that by (intro map_of_smaller) (force simp: map_sorted_Cons)
  with 2 show ?case by (auto simp: map_sorted_Cons ac_simps)
qed simp

lemma all_workers_put:
  assumes "pool_inv p"
  shows "mset (all_workers (p\<lparr>pools := map_put k ws (pools p)\<rparr>)) + mset (bucket p k) =
    mset (all_workers p) + mset ws"
  using assms mset_concat_put [of "pools p" k ws]
  by (simp add: pool_inv_def all_workers_def bucket_def)

lemma pool_inv_put:
  "pool_inv p \<Longrightarrow> \<forall>w\<in>set ws. key w = k \<Longrightarrow> pool_inv (p\<lparr>pools := map_put k ws (pools p)\<rparr>)"
  by (simp add: pool_inv_def std_map.look_put std_map.inv_put)

lemma pool_inv_stats: "pool_inv p \<Longrightarrow> pool_inv (p\<lparr>stats := map_put pth v (stats p)\<rparr>)"
  by (simp add: pool_inv_def std_map.inv_put)

lemma bucket_put:
  "pool_inv p \<Longrightarrow> bucket (p\<lparr>pools := map_put k ws (pools p)\<rparr>) = (bucket p)(k := ws)"
  by (auto simp: pool_inv_def bucket_def std_map.look_put fun_eq_iff)

lemma bucket_key: "pool_inv p \<Longrightarrow> w \<in> set (bucket p k) \<Longrightarrow> key w = k"
  by (cases "map_of (pools p) k") (auto simp: pool_inv_def bucket_def)

lemma bucket_stats [simp]:
  "bucket (p\<lparr>stats := st\<rparr>) = bucket p" "all_workers (p\<lparr>stats := st\<rparr>) = all_workers p"
  by (auto simp: bucket_def all_workers_def)

lemma TryAcquire_bucket:
  "TryAcquire alive k p =
     (if bucket p k = [] then (None, p)
      else
        let (r, ws') = pop_alive alive (bucket p k); p' = p\<lparr>pools := map_put k ws' (pools p)\<rparr> in
        (case r of
           None \<Rightarrow> (None, p')
         | Some w \<Rightarrow>
             let hm = stat_of p (worker_path k) in
             (Some w, p'\<lparr>stats := map_put (worker_path k) (fst hm + 1, snd hm) (stats p)\<rparr>)))"
  by (cases "map_of (pools p) k") (simp_all add: TryAcquire_def bucket_def)

lemma TryAcquire_unfold:
  assumes "pool_inv p" "TryAcquire alive k p = (r, p')" "pop_alive alive (bucket p k) = (r0, ws')"
  shows "r = r0" "pool_inv p'" "bucket p' = (bucket p)(k := ws')"
    "mset (all_workers p') + mset (bucket p k) = mset (all_workers p) + mset ws'"
    "path_configs p' = path_configs p" "default_settings p' = default_settings p"
proof -
  have keys: "\<forall>w\<in>set ws'. key w = k"
    using pop_alive_spec [where alive = alive and ws = "bucket p k"] assms(3) bucket_key [OF assms(1), of _ k]
    by (auto split: option.splits)
  have e: "bucket p k = [] \<Longrightarrow> r0 = None \<and> ws' = []" using assms(3) by (simp add: pop_alive.simps)
  note put = pool_inv_put [OF assms(1) keys] bucket_put [OF assms(1), of k ws']
    all_workers_put [OF assms(1), of k ws']
  note fin = pool_inv_stats [OF put(1), simplified] put(1)
  show "r = r0" "pool_inv p'"
    using assms e fin by (cases r0; auto simp: TryAcquire_bucket Let_def split: if_splits)+
  have "\<exists>st. p' = (if bucket p k = [] then p else p\<lparr>pools := map_put k ws' (pools p), stats := st\<rparr>)"
    using assms(2,3)
    by (cases r0) (auto simp: TryAcquire_bucket Let_def intro!: exI [of _ "stats p'"] split: if_splits)
  then obtain st where
    p': "p' = (if bucket p k = [] then p else p\<lparr>pools := map_put k ws' (pools p), stats := st\<rparr>)" by blast
  have st: "bucket (p\<lparr>pools := m, stats := st\<rparr>) = bucket (p\<lparr>pools := m\<rparr>)"
    "all_workers (p\<lparr>pools := m, stats := st\<rparr>) = all_workers (p\<lparr>pools := m\<rparr>)" for m
    by (auto simp: bucket_def all_workers_def)
  show "bucket p' = (bucket p)(k := ws')"
    "mset (all_workers p') + mset (bucket p k) = mset (all_workers p) + mset ws'"
    "path_configs p' = path_configs p" "default_settings p' = default_settings p"
    using put(2,3) e by (auto simp: p' st)
qed

lemma erase_stale_filter:
  "erase_stale alive now ws = filter (\<lambda>w. IsAlive alive w \<and> age_seconds now w < int (idle_timeout w)) ws"
  by (induction ws) auto

lemma Release_unfold:
  assumes "pool_inv p" "Release alive (Some w) p = (r, p')"
  shows "pool_inv p'"
    and "bucket p' = (bucket p)(key w := bucket p (key w) @
      (if pooled r then [w\<lparr>idle_timeout := idle_timeout_seconds (settings_for p (worker_path (key w)))\<rparr>] else []))"
    and "\<exists>ws. set ws \<subseteq> {w\<lparr>idle_timeout := t\<rparr> | t. True} \<and> length ws \<le> 1 \<and>
      mset (all_workers p') = mset (all_workers p) + mset ws"
    and "pooled r \<Longrightarrow> IsAlive alive w \<and>
      length (bucket p (key w)) < max_pool_size (settings_for p (worker_path (key w)))"
    and "path_configs p' = path_configs p" "default_settings p' = default_settings p"
proof -
  let ?k = "key w" and ?w = "w\<lparr>idle_timeout := idle_timeout_seconds (settings_for p (worker_path (key w)))\<rparr>"
  let ?put = "\<lambda>ws. p\<lparr>pools := map_put (key w) ws (pools p)\<rparr>"
  have c: "p' = p \<and> \<not> pooled r \<or> p' = ?put (bucket p ?k) \<and> \<not> pooled r \<or>
      p' = ?put (bucket p ?k @ [?w]) \<and> pooled r \<and> IsAlive alive w \<and>
      length (bucket p ?k) < max_pool_size (settings_for p (worker_path ?k))"
    using assms(2) by (auto simp: Release_def no_release_def Let_def split: if_splits)
  have i: "pool_inv (?put ws)" "bucket (?put ws) = (bucket p)(?k := ws)"
      "mset (all_workers (?put ws)) + mset (bucket p ?k) = mset (all_workers p) + mset ws"
    if "\<forall>w'\<in>set ws. key w' = ?k" for ws
    using that pool_inv_put [OF assms(1)] bucket_put [OF assms(1)] all_workers_put [OF assms(1)] by blast+
  have b: "\<forall>w'\<in>set (bucket p ?k). key w' = ?k" "\<forall>w'\<in>set (bucket p ?k @ [?w]). key w' = ?k"
    using bucket_key [OF assms(1), of _ ?k] by auto
  show "pool_inv p'" using c i(1) b assms(1) by blast
  show "bucket p' = (bucket p)(?k := bucket p ?k @ (if pooled r then [?w] else []))"
    using c i(2) [OF b(1)] i(2) [OF b(2)] by auto
  have "mset (all_workers p') = mset (all_workers p) \<or> mset (all_workers p') = mset (all_workers p) + mset [?w]"
    using c i(3) [OF b(1)] i(3) [OF b(2)] by (auto simp: ac_simps)
  then show "\<exists>ws. set ws \<subseteq> {w\<lparr>idle_timeout := t\<rparr> | t. True} \<and> length ws \<le> 1 \<and>
      mset (all_workers p') = mset (all_workers p) + mset ws"
  proof
    assume "mset (all_workers p') = mset (all_workers p)"
    then show ?thesis by (intro exI [of _ "[]"]) simp
  next
    assume "mset (all_workers p') = mset (all_workers p) + mset [?w]"
    then show ?thesis by (intro exI [of _ "[?w]"]) auto
  qed
  show "pooled r \<Longrightarrow> IsAlive alive w \<and> length (bucket p ?k) < max_pool_size (settings_for p (worker_path ?k))"
    using c by blast
  show "path_configs p' = path_configs p" "default_settings p' = default_settings p" using c by auto
qed

lemma map_of_map_values: "map_of (map (\<lambda>e. (fst e, f (snd e))) m) k = map_option f (map_of m k)"
  by (induction m) auto

lemma RemoveStale_unfold:
  assumes "pool_inv p"
  shows "pool_inv (RemoveStaleWorkersLocked alive now p)"
    "bucket (RemoveStaleWorkersLocked alive now p) k = erase_stale alive now (bucket p k)"
    "mset (all_workers (RemoveStaleWorkersLocked alive now p)) \<subseteq># mset (all_workers p)"
proof -
  let ?q = "RemoveStaleWorkersLocked alive now p"
  have m: "map_of (pools ?q) k = map_option (erase_stale alive now) (map_of (pools p) k)" for k
    by (simp add: RemoveStaleWorkersLocked_def map_of_map_values)
  then show "bucket ?q k = erase_stale alive now (bucket p k)"
    by (cases "map_of (pools p) k") (simp_all add: bucket_def)
  show "pool_inv ?q"
    using assms m
    by (auto simp: pool_inv_def RemoveStaleWorkersLocked_def map_sorted_def o_def erase_stale_filter)
  have "mset (concat (map snd (map (\<lambda>e. (fst e, erase_stale alive now (snd e))) xs))) \<subseteq># mset (concat (map snd xs))" for xs
    by (induction xs) (auto simp: erase_stale_filter mset_filter intro!: subset_mset.add_mono)
  then show "mset (all_workers ?q) \<subseteq># mset (all_workers p)"
    by (simp add: RemoveStaleWorkersLocked_def all_workers_def)
qed

section \<open>Properties\<close>

text \<open>
  C13. Acquiring is last-in first-out over the living: a worker handed out runs, was released
  under exactly the requested key (path, data version and implementation version), and is the
  most recently released one still alive; only dead workers released after it are discarded
  with it, and no other bucket changes. Nothing is handed out only when no worker of the
  bucket is alive.
\<close>

theorem TryAcquire_mru:
  assumes "pool_inv p" "TryAcquire alive k p = (r, p')"
  shows "(\<forall>k'. k' \<noteq> k \<longrightarrow> bucket p' k' = bucket p k') \<and>
    (case r of
       None \<Rightarrow> bucket p' k = [] \<and> (\<forall>w\<in>set (bucket p k). \<not> IsAlive alive w)
     | Some w \<Rightarrow> IsAlive alive w \<and> key w = k \<and>
         (\<exists>dead. bucket p k = bucket p' k @ w # dead \<and> (\<forall>d\<in>set dead. \<not> IsAlive alive d)))"
proof -
  obtain r0 ws' where r: "pop_alive alive (bucket p k) = (r0, ws')" by fastforce
  note u = TryAcquire_unfold [OF assms r]
  have "key w = k" if "bucket p k = ws' @ w # dead" for w dead
    using bucket_key [OF assms(1), of w k] that by simp
  with u pop_alive_spec [where alive = alive and ws = "bucket p k", unfolded r] show ?thesis
    by (auto split: option.splits)
qed

definition wA :: PooledWorker where
  "wA = new_worker 101 (PoolKey ''/usr/bin/w'' ''1'' ''2'') 0"

definition wB :: PooledWorker where
  "wB = new_worker 102 (PoolKey ''/usr/bin/w'' ''1'' ''2'') 0"

definition demo_pool :: VgiWorkerPool where
  "demo_pool = \<lparr>pools = [(PoolKey ''/usr/bin/w'' ''1'' ''2'', [wA, wB])], path_configs = [],
     default_settings = \<lparr>max_pool_size = 4, idle_timeout_seconds = 60\<rparr>, stats = []\<rparr>"

theorem TryAcquire_mru_witness:
  "\<exists>p'. TryAcquire (\<lambda>pid. pid = 101) (PoolKey ''/usr/bin/w'' ''1'' ''2'') demo_pool = (Some wA, p') \<and>
     (\<exists>dead. bucket demo_pool (PoolKey ''/usr/bin/w'' ''1'' ''2'') =
        bucket p' (PoolKey ''/usr/bin/w'' ''1'' ''2'') @ wA # dead)"
proof -
  have i: "pool_inv demo_pool"
    by (simp add: pool_inv_def demo_pool_def map_sorted_def wA_def wB_def new_worker_def)
  obtain p' where p': "TryAcquire (\<lambda>pid. pid = 101) (PoolKey ''/usr/bin/w'' ''1'' ''2'') demo_pool = (Some wA, p')"
    by (simp add: TryAcquire_def demo_pool_def pop_alive.simps IsAlive_def wA_def wB_def new_worker_def Let_def)
  from TryAcquire_mru [OF i p'] p' show ?thesis by auto
qed

definition pids :: "pool_system \<Rightarrow> int option multiset" where
  "pids s = image_mset proc (mset (all_workers (pool s)) + mset (held s))"

definition settings_ok :: "nat \<Rightarrow> VgiWorkerPool \<Rightarrow> bool" where
  "settings_ok cap p \<longleftrightarrow>
     (\<forall>e\<in>set (path_configs p). max_pool_size (snd e) \<le> cap) \<and> max_pool_size (default_settings p) \<le> cap"

lemma settings_ok_for: "settings_ok cap p \<Longrightarrow> max_pool_size (settings_for p pth) \<le> cap"
  by (auto simp: settings_ok_def settings_for_def dest!: map_of_SomeD split: option.split)

definition sys_inv :: "nat \<Rightarrow> pool_system \<Rightarrow> bool" where
  "sys_inv cap s \<longleftrightarrow> pool_inv (pool s) \<and> settings_ok cap (pool s) \<and>
     (\<forall>x. count (pids s) x \<le> 1) \<and> (\<forall>x\<in>#pids s. \<exists>pid. x = Some pid \<and> pid < next_pid s) \<and>
     (\<forall>k. length (bucket (pool s) k) \<le> cap)"

lemma sys_inv_shrink:
  assumes "sys_inv cap s" "pids t \<subseteq># pids s" "next_pid t = next_pid s" "pool_inv (pool t)"
    "\<And>k. length (bucket (pool t) k) \<le> cap" "settings_ok cap (pool t)"
  shows "sys_inv cap t"
proof -
  have "count (pids t) x \<le> 1" for x
    using assms(1) mset_subset_eq_count [OF assms(2), of x] by (auto simp: sys_inv_def intro: le_trans)
  moreover have "x \<in># pids s" if "x \<in># pids t" for x using that assms(2) by (rule mset_subset_eqD [rotated])
  ultimately show ?thesis using assms by (auto simp: sys_inv_def)
qed

lemma pids_mono:
  "mset (all_workers (pool t)) + mset (held t) \<subseteq># mset (all_workers (pool s)) + mset (held s) \<Longrightarrow> pids t \<subseteq># pids s"
  unfolding pids_def by (rule image_mset_subseteq_mono)

lemma settings_ok_cong:
  "path_configs p' = path_configs p \<Longrightarrow> default_settings p' = default_settings p \<Longrightarrow>
     settings_ok cap p' = settings_ok cap p"
  by (simp add: settings_ok_def)

lemma TryAcquire_sys:
  assumes "sys_inv cap s" "TryAcquire alive k (pool s) = (r, p')"
  shows "sys_inv cap (s\<lparr>pool := p', held := (case r of None \<Rightarrow> [] | Some w \<Rightarrow> [w]) @ held s\<rparr>)"
proof -
  have inv: "pool_inv (pool s)" using assms(1) by (simp add: sys_inv_def)
  obtain r0 ws' where r: "pop_alive alive (bucket (pool s) k) = (r0, ws')" by fastforce
  note u = TryAcquire_unfold [OF inv assms(2) r]
  obtain dead where d: "bucket (pool s) k = ws' @ (case r of None \<Rightarrow> [] | Some w \<Rightarrow> [w]) @ dead"
    using pop_alive_spec [where alive = alive and ws = "bucket (pool s) k", unfolded r] u(1)
    by (cases r0) auto
  have "mset (all_workers p') + mset (case r of None \<Rightarrow> [] | Some w \<Rightarrow> [w]) \<subseteq># mset (all_workers (pool s))"
  proof -
    have "mset (all_workers (pool s)) =
        mset (all_workers p') + mset (case r of None \<Rightarrow> [] | Some w \<Rightarrow> [w]) + mset dead"
      using u(4) d by (simp add: ac_simps)
    then show ?thesis by simp
  qed
  then have "pids (s\<lparr>pool := p', held := (case r of None \<Rightarrow> [] | Some w \<Rightarrow> [w]) @ held s\<rparr>) \<subseteq># pids s"
    by (intro pids_mono) (simp add: add.assoc [symmetric])
  moreover have "length (bucket p' k') \<le> cap" for k'
  proof -
    have "length (bucket (pool s) k') \<le> cap" using assms(1) by (simp add: sys_inv_def)
    then show ?thesis using u(3) arg_cong [OF d, of length] by (cases "k' = k") auto
  qed
  ultimately show ?thesis
    using assms(1) u settings_ok_cong [OF u(5,6)] by (intro sys_inv_shrink [OF assms(1)]) (auto simp: sys_inv_def)
qed

lemma Release_sys:
  assumes "sys_inv cap s" "w \<in> set (held s)" "Release alive (Some w) (pool s) = (r, p')"
  shows "sys_inv cap (s\<lparr>pool := p', held := remove1 w (held s)\<rparr>)"
proof -
  have inv: "pool_inv (pool s)" and ok: "settings_ok cap (pool s)" using assms(1) by (simp_all add: sys_inv_def)
  note u = Release_unfold [OF inv assms(3)]
  obtain ws where ws: "set ws \<subseteq> {w\<lparr>idle_timeout := t\<rparr> | t. True}" "length ws \<le> 1"
      "mset (all_workers p') = mset (all_workers (pool s)) + mset ws"
    using u(3) by blast
  have "image_mset proc (mset ws) \<subseteq># {#proc w#}"
    using ws(1,2) by (cases ws) auto
  moreover have "image_mset proc (mset (held s)) = image_mset proc (mset (remove1 w (held s))) + {#proc w#}"
    using assms(2) by (metis add_mset_add_single image_mset_add_mset insert_DiffM mset_remove1 set_mset_mset)
  ultimately have "pids (s\<lparr>pool := p', held := remove1 w (held s)\<rparr>) \<subseteq># pids s"
    by (simp add: pids_def ws(3) add.assoc)
  moreover have "length (bucket p' k') \<le> cap" for k'
    using u(2,4) assms(1) settings_ok_for [OF ok, of "worker_path (key w)"]
    by (auto simp: sys_inv_def fun_upd_def)
  ultimately show ?thesis
    using assms(1) u(1) ok settings_ok_cong [OF u(5,6)] by (intro sys_inv_shrink [OF assms(1)]) auto
qed

lemma pool_step_keeps:
  assumes "pool_step cap s t" "sys_inv cap s"
  shows "sys_inv cap t"
  using assms(1)
proof (cases rule: pool_step.cases)
  case (spawn n k now)
  have "\<forall>x\<in>#pids s. x \<noteq> Some (next_pid s)" using assms(2) by (auto simp: sys_inv_def)
  then have fresh: "count (pids s) (Some (next_pid s)) = 0" by (auto simp: not_in_iff [symmetric])
  have "pids t = add_mset (Some (next_pid s)) (pids s)"
    using spawn by (simp add: pids_def new_worker_def RecordMiss_def Let_def)
  with spawn fresh assms(2) show ?thesis
    by (auto simp: sys_inv_def RecordMiss_def Let_def settings_ok_def intro!: pool_inv_stats)
next
  case (acquire alive k w p')
  with TryAcquire_sys [OF assms(2) acquire(2)] show ?thesis by simp
next
  case (miss alive k p')
  with TryAcquire_sys [OF assms(2) miss(2)] show ?thesis by simp
next
  case (release w alive r p')
  with Release_sys [OF assms(2)] show ?thesis by simp
next
  case (cleanup alive now)
  have inv: "pool_inv (pool s)" using assms(2) by (simp add: sys_inv_def)
  have "length (erase_stale alive now ws) \<le> length ws" for ws by (simp add: erase_stale_filter)
  then have "length (bucket (RemoveStaleWorkersLocked alive now (pool s)) k) \<le> cap" for k
    using assms(2) unfolding RemoveStale_unfold(2) [OF inv] sys_inv_def by (meson le_trans)
  with cleanup assms(2) RemoveStale_unfold(1,3) [OF inv] show ?thesis
    by (intro sys_inv_shrink [OF assms(2) pids_mono])
      (auto simp: sys_inv_def settings_ok_def RemoveStaleWorkersLocked_def)
next
  case (flush n p')
  then have "pids t \<subseteq># pids s" by (intro pids_mono) (auto simp: Flush_def all_workers_def)
  with flush assms(2) show ?thesis
    by (intro sys_inv_shrink [OF assms(2)])
      (auto simp: sys_inv_def Flush_def pool_inv_def bucket_def settings_ok_def)
next
  case (configure st pth)
  then have "pids t \<subseteq># pids s" by (intro pids_mono) (auto simp: ConfigurePath_def all_workers_def)
  with configure assms(2) set_map_put [of pth st "path_configs (pool s)"] show ?thesis
    by (intro sys_inv_shrink [OF assms(2)])
      (auto simp: sys_inv_def ConfigurePath_def pool_inv_def bucket_def settings_ok_def std_map.inv_put)
next
  case (default st)
  then have "pids t \<subseteq># pids s" by (intro pids_mono) (auto simp: SetDefaultSettings_def all_workers_def)
  with default assms(2) show ?thesis
    by (intro sys_inv_shrink [OF assms(2)])
      (auto simp: sys_inv_def SetDefaultSettings_def pool_inv_def bucket_def settings_ok_def)
qed

definition init_system :: "PoolSettings \<Rightarrow> pool_system" where
  "init_system st = \<lparr>pool = \<lparr>pools = [], path_configs = [], default_settings = st, stats = []\<rparr>,
     held = [], next_pid = 1\<rparr>"

lemma sys_inv_init: "max_pool_size st \<le> cap \<Longrightarrow> sys_inv cap (init_system st)"
  by (simp add: sys_inv_def init_system_def pool_inv_def settings_ok_def pids_def all_workers_def bucket_def)

lemma sys_inv_reach:
  assumes "(pool_step cap)\<^sup>*\<^sup>* s t" "sys_inv cap s"
  shows "sys_inv cap t"
  using assms by (induction rule: rtranclp_induct) (auto intro: pool_step_keeps)

text \<open>
  C14. A worker process has one owner. In every state reachable by any interleaving of spawns,
  acquisitions, releases, cleanups, flushes and reconfigurations, with processes dying at any
  moment, no process id occurs twice among the pooled workers and the workers clients hold, so
  the pool never hands one process to two clients; every bucket holds only workers of its own
  key, and never more than the largest pool size ever configured.
\<close>

theorem pool_ownership:
  assumes "max_pool_size st \<le> cap" "(pool_step cap)\<^sup>*\<^sup>* (init_system st) s"
  shows "distinct (map proc (all_workers (pool s) @ held s)) \<and>
    (\<forall>k. length (bucket (pool s) k) \<le> cap \<and> (\<forall>w\<in>set (bucket (pool s) k). key w = k))"
proof -
  have i: "sys_inv cap s" using sys_inv_reach [OF assms(2) sys_inv_init [OF assms(1)]] .
  have "mset (map proc (all_workers (pool s) @ held s)) = pids s" by (simp add: pids_def)
  then have "distinct (map proc (all_workers (pool s) @ held s))"
    using i unfolding sys_inv_def distinct_count_atmost_1
    by (metis One_nat_def count_eq_zero_iff le_Suc_eq le_zero_eq set_mset_mset)
  then show ?thesis
    using i bucket_key [of "pool s"] by (auto simp: sys_inv_def)
qed

theorem pool_ownership_witness:
  "\<exists>s. (pool_step 2)\<^sup>*\<^sup>* (init_system \<lparr>max_pool_size = 2, idle_timeout_seconds = 60\<rparr>) s \<and>
     held s \<noteq> [] \<and> distinct (map proc (all_workers (pool s) @ held s))"
proof -
  let ?s0 = "init_system \<lparr>max_pool_size = 2, idle_timeout_seconds = 60\<rparr>"
  let ?k = "PoolKey ''/usr/bin/w'' ''1'' ''2''"
  let ?s1 = "?s0\<lparr>pool := RecordMiss (worker_path ?k) (pool ?s0),
      held := new_worker (next_pid ?s0) ?k 0 # held ?s0, next_pid := 2\<rparr>"
  have "pool_step 2 ?s0 ?s1" by (rule pool_step.spawn) (simp add: init_system_def)
  then have r: "(pool_step 2)\<^sup>*\<^sup>* ?s0 ?s1" by (rule r_into_rtranclp)
  from pool_ownership [OF _ r] r show ?thesis by (intro exI [of _ ?s1]) simp
qed

end
