(* ===== verification/Cookie_Jar.thy ===== *)
theory Cookie_Jar
  imports Codec_Interface "HOL-Library.Multiset"
begin

text \<open>
  The session cookie jar, \<^verbatim>\<open>src/src/vgi_cookie_jar.cpp\<close>. Times are nanoseconds of the system
  clock in a signed 64-bit integer, so a \<^verbatim>\<open>Max-Age\<close> added to the clock wraps. The jar's
  \<^verbatim>\<open>unordered_map\<close> is an association list with distinct names; its iteration order is the
  argument \<open>order\<close>. The locale-dependent date parser \<^verbatim>\<open>std::get_time\<close> is the argument
  \<open>get_time\<close>, from a text to seconds since the epoch.
\<close>

section \<open>Parsing\<close>

definition TrimAscii :: "string \<Rightarrow> string" where
  "TrimAscii s = strip_space s"

definition LowerAscii :: "string \<Rightarrow> string" where
  "LowerAscii s = map c_tolower s"

definition wrap64 :: "int \<Rightarrow> int" where
  "wrap64 i = (i + 2 ^ 63) mod 2 ^ 64 - 2 ^ 63"

definition ParseHttpDate :: "(string \<Rightarrow> int option) \<Rightarrow> string \<Rightarrow> int option" where
  "ParseHttpDate get_time s =
     (case get_time s of
        None \<Rightarrow> None
      | Some epoch \<Rightarrow> if epoch = - 1 then None else Some (wrap64 (epoch * 1000000000)))"

text \<open>\<^verbatim>\<open>std::strtoll\<close>: \<^const>\<open>None\<close> when no digit was consumed; the value saturates.\<close>

definition strtoll :: "string \<Rightarrow> int option" where
  "strtoll s = map_option (\<lambda>v. max (- (2 ^ 63)) (min (2 ^ 63 - 1) v)) (scan_integer s)"

record ParsedSetCookie =
  pname :: string
  pvalue :: string
  pexpires :: "int option"
  delete_cookie :: bool
  secure :: bool

definition kMaxCookies :: nat where "kMaxCookies = 32"
definition kMaxValueBytes :: nat where "kMaxValueBytes = 4096"

definition apply_attr :: "(string \<Rightarrow> int option) \<Rightarrow> int \<Rightarrow> string \<Rightarrow> ParsedSetCookie \<Rightarrow> ParsedSetCookie" where
  "apply_attr get_time now raw parsed =
     (let attr_raw = TrimAscii raw in
      if attr_raw = [] then parsed
      else
        let (attr_name, attr_value) =
              (case split_first (CHR ''='') attr_raw of
                 (a, None) \<Rightarrow> (a, [])
               | (a, Some v) \<Rightarrow> (TrimAscii a, TrimAscii v));
            attr_lower = LowerAscii attr_name in
        if attr_lower = ''max-age'' then
          (case strtoll attr_value of
             None \<Rightarrow> parsed
           | Some ma \<Rightarrow>
               if ma \<le> 0 then parsed\<lparr>delete_cookie := True\<rparr>
               else parsed\<lparr>pexpires := Some (wrap64 (now + ma * 1000000000))\<rparr>)
        else if attr_lower = ''expires'' then
          (case ParseHttpDate get_time attr_value of
             None \<Rightarrow> parsed
           | Some t \<Rightarrow>
               if t \<le> now then parsed\<lparr>delete_cookie := True\<rparr> else parsed\<lparr>pexpires := Some t\<rparr>)
        else if attr_lower = ''secure'' then parsed\<lparr>secure := True\<rparr>
        else parsed)"

definition ParseSetCookie :: "(string \<Rightarrow> int option) \<Rightarrow> int \<Rightarrow> string \<Rightarrow> ParsedSetCookie option" where
  "ParseSetCookie get_time now header =
     (case split_all (CHR '';'') header of
        [] \<Rightarrow> None
      | name_value # attrs \<Rightarrow>
          (case split_first (CHR ''='') name_value of
             (_, None) \<Rightarrow> None
           | (n, Some v) \<Rightarrow>
               let name = TrimAscii n; val = TrimAscii v in
               if name = [] then None
               else if length val > kMaxValueBytes then None
               else
                 Some (fold (apply_attr get_time now) attrs
                   \<lparr>pname = name, pvalue = val, pexpires = None, delete_cookie = False, secure = False\<rparr>)))"

section \<open>The jar\<close>

record CookieEntry =
  cvalue :: string
  expires :: "int option"

type_synonym jar = "(string \<times> CookieEntry) list"

definition jar_erase :: "string \<Rightarrow> jar \<Rightarrow> jar" where
  "jar_erase n j = filter (\<lambda>e. fst e \<noteq> n) j"

fun jar_set :: "string \<Rightarrow> CookieEntry \<Rightarrow> jar \<Rightarrow> jar" where
  "jar_set n c [] = [(n, c)]"
| "jar_set n c ((n', c') # j) = (if n' = n then (n, c) # j else (n', c') # jar_set n c j)"

definition erase_begin :: "(jar \<Rightarrow> jar) \<Rightarrow> jar \<Rightarrow> jar" where
  "erase_begin order j = (case order j of [] \<Rightarrow> j | e # _ \<Rightarrow> jar_erase (fst e) j)"

definition accept_headers ::
  "(string \<Rightarrow> int option) \<Rightarrow> int \<Rightarrow> bool \<Rightarrow> string list \<Rightarrow> ParsedSetCookie list" where
  "accept_headers get_time now origin_is_https headers =
     concat (map (\<lambda>h. case ParseSetCookie get_time now h of
         None \<Rightarrow> []
       | Some e \<Rightarrow> if secure e \<and> \<not> origin_is_https then [] else [e]) headers)"

definition store_cookie :: "(jar \<Rightarrow> jar) \<Rightarrow> ParsedSetCookie \<Rightarrow> jar \<Rightarrow> jar" where
  "store_cookie order e j =
     (if delete_cookie e then jar_erase (pname e) j
      else
        let j' = (if map_of j (pname e) = None \<and> length j \<ge> kMaxCookies then erase_begin order j else j) in
        jar_set (pname e) \<lparr>cvalue = pvalue e, expires = pexpires e\<rparr> j')"

definition UpdateFromSetCookie ::
  "(string \<Rightarrow> int option) \<Rightarrow> (jar \<Rightarrow> jar) \<Rightarrow> int \<Rightarrow> string list \<Rightarrow> bool \<Rightarrow> jar \<Rightarrow> jar" where
  "UpdateFromSetCookie get_time order now headers origin_is_https j =
     fold (store_cookie order) (accept_headers get_time now origin_is_https headers) j"

definition cookie_live :: "int \<Rightarrow> string \<times> CookieEntry \<Rightarrow> bool" where
  "cookie_live now e \<longleftrightarrow> (case expires (snd e) of None \<Rightarrow> True | Some t \<Rightarrow> \<not> t \<le> now)"

fun render :: "jar \<Rightarrow> bool \<Rightarrow> string" where
  "render [] is_first = []"
| "render ((n, c) # j) is_first = (if \<not> is_first then ''; '' else []) @ n @ ''='' @ cvalue c @ render j False"

definition BuildCookieHeader :: "(jar \<Rightarrow> jar) \<Rightarrow> int \<Rightarrow> jar \<Rightarrow> string \<times> jar" where
  "BuildCookieHeader order now j =
     (let j' = filter (cookie_live now) j in (render (order j') True, j'))"

definition Size :: "jar \<Rightarrow> nat" where
  "Size j = length j"

section \<open>Laws of the jar\<close>

definition cookie_ok :: "string \<Rightarrow> string \<Rightarrow> bool" where
  "cookie_ok n v \<longleftrightarrow> n \<noteq> [] \<and> CHR ''='' \<notin> set n \<and> CHR '';'' \<notin> set n \<and> CHR '';'' \<notin> set v \<and>
     \<not> c_space (hd n) \<and> \<not> c_space (last n) \<and> (v = [] \<or> \<not> c_space (hd v) \<and> \<not> c_space (last v)) \<and>
     length v \<le> kMaxValueBytes"

definition jar_ok :: "jar \<Rightarrow> bool" where
  "jar_ok j \<longleftrightarrow> distinct (map fst j) \<and> length j \<le> kMaxCookies \<and>
     (\<forall>e\<in>set j. cookie_ok (fst e) (cvalue (snd e)))"

definition iteration_order :: "(jar \<Rightarrow> jar) \<Rightarrow> bool" where
  "iteration_order order \<longleftrightarrow> (\<forall>j. mset (order j) = mset j)"

lemma apply_attr_keeps [simp]:
  "pname (apply_attr g now a p) = pname p" "pvalue (apply_attr g now a p) = pvalue p"
  by (auto simp: apply_attr_def Let_def split: prod.splits option.splits)

lemma fold_apply_attr [simp]:
  "pname (fold (apply_attr g now) as p) = pname p" "pvalue (fold (apply_attr g now) as p) = pvalue p"
  by (induction as arbitrary: p) auto

lemma ParseSetCookie_ok:
  assumes "ParseSetCookie g now h = Some p"
  shows "cookie_ok (pname p) (pvalue p)"
proof -
  obtain nv as where s: "split_all (CHR '';'') h = nv # as"
    using assms by (auto simp: ParseSetCookie_def split: list.splits)
  obtain n v where nv: "split_first (CHR ''='') nv = (n, Some v)"
    using assms s by (auto simp: ParseSetCookie_def split: prod.splits option.splits)
  have p: "pname p = strip_space n" "pvalue p = strip_space v" "strip_space n \<noteq> []"
      "length (strip_space v) \<le> kMaxValueBytes"
    using assms s nv by (auto simp: ParseSetCookie_def TrimAscii_def Let_def split: if_splits)
  have c: "CHR '';'' \<notin> set nv" using split_all_pieces [of nv "CHR '';''" h] s by simp
  have e: "nv = n @ CHR ''='' # v" "CHR ''='' \<notin> set n" using split_first_Some [OF nv] by auto
  have "set (strip_space n) \<subseteq> set n" "set (strip_space v) \<subseteq> set v" by (rule set_strip_space)+
  with c e p strip_space_ends [of n] strip_space_ends [of v] show ?thesis
    unfolding cookie_ok_def by (cases "strip_space v = []") auto
qed

lemma jar_set_keys: "fst ` set (jar_set n c j) = insert n (fst ` set j)"
proof (induction j)
  case (Cons e j)
  then show ?case by (cases e; cases "fst e = n") auto
qed simp

lemma jar_set_distinct: "distinct (map fst j) \<Longrightarrow> distinct (map fst (jar_set n c j))"
proof (induction j)
  case (Cons e j)
  then show ?case using jar_set_keys [of n c j] by (cases e) (auto simp: image_iff)
qed simp

lemma length_jar_set: "length (jar_set n c j) = (if map_of j n = None then Suc (length j) else length j)"
  by (induction j) auto

lemma set_jar_set: "set (jar_set n c j) \<subseteq> insert (n, c) (set j)"
proof (induction j)
  case (Cons e j)
  then show ?case by (cases e; cases "fst e = n") auto
qed simp

lemma jar_ok_erase: "jar_ok j \<Longrightarrow> jar_ok (jar_erase n j)"
  using le_trans [OF length_filter_le [of "\<lambda>e. fst e \<noteq> n" j]]
  by (auto simp: jar_ok_def jar_erase_def distinct_map_filter)

lemma jar_ok_filter: "jar_ok j \<Longrightarrow> jar_ok (filter P j)"
  using le_trans [OF length_filter_le [of P j]] by (auto simp: jar_ok_def distinct_map_filter)

lemma erase_begin_smaller:
  assumes "iteration_order order" "j \<noteq> []"
  shows "length (erase_begin order j) < length j"
proof -
  obtain e r where o: "order j = e # r" using assms
    by (cases "order j") (auto simp: iteration_order_def dest: spec [of _ j])
  have "set (order j) = set j" using assms(1) by (intro mset_eq_setD) (simp add: iteration_order_def)
  then have "e \<in> set j" using o by auto
  then show ?thesis using o by (auto simp: erase_begin_def jar_erase_def intro!: length_filter_less)
qed

lemma store_cookie_ok:
  assumes "iteration_order order" "jar_ok j" "cookie_ok (pname p) (pvalue p)"
  shows "jar_ok (store_cookie order p j)"
proof -
  let ?j' = "if map_of j (pname p) = None \<and> length j \<ge> kMaxCookies then erase_begin order j else j"
  have ok: "jar_ok ?j'"
    using assms(2) by (auto simp: erase_begin_def intro: jar_ok_erase split: list.split)
  have len: "length (jar_set (pname p) c ?j') \<le> kMaxCookies" for c
  proof (cases "map_of j (pname p) = None \<and> length j \<ge> kMaxCookies")
    case True
    then have "length ?j' < length j"
      using erase_begin_smaller [OF assms(1), of j] by (cases "j = []") (auto simp: kMaxCookies_def)
    then show ?thesis using assms(2) by (auto simp: length_jar_set jar_ok_def)
  next
    case False
    then show ?thesis using assms(2) by (auto simp: length_jar_set jar_ok_def)
  qed
  have "jar_ok (jar_set (pname p) \<lparr>cvalue = pvalue p, expires = pexpires p\<rparr> ?j')"
    using ok len assms(3) jar_set_distinct set_jar_set
    unfolding jar_ok_def by (metis (no_types, lifting) CookieEntry.select_convs(1) fst_conv insert_iff snd_conv subset_iff)
  then show ?thesis
    using jar_ok_erase [OF assms(2)] by (simp add: store_cookie_def Let_def)
qed

lemma accept_headers_ok: "p \<in> set (accept_headers g now https hs) \<Longrightarrow> cookie_ok (pname p) (pvalue p)"
  by (auto simp: accept_headers_def intro: ParseSetCookie_ok split: option.splits if_splits)

lemma fold_store_ok:
  assumes "iteration_order order" "jar_ok j" "\<forall>p\<in>set ps. cookie_ok (pname p) (pvalue p)"
  shows "jar_ok (fold (store_cookie order) ps j)"
  using assms(2,3) by (induction ps arbitrary: j) (auto intro: store_cookie_ok [OF assms(1)])

inductive jar_reach :: "(string \<Rightarrow> int option) \<Rightarrow> (jar \<Rightarrow> jar) \<Rightarrow> jar \<Rightarrow> bool" for get_time order where
  empty: "jar_reach get_time order []"
| update: "jar_reach get_time order j \<Longrightarrow> jar_reach get_time order (UpdateFromSetCookie get_time order now hs https j)"
| build: "jar_reach get_time order j \<Longrightarrow> jar_reach get_time order (snd (BuildCookieHeader order now j))"

lemma jar_reach_ok:
  assumes "iteration_order order" "jar_reach get_time order j"
  shows "jar_ok j"
  using assms(2)
proof (induction rule: jar_reach.induct)
  case (update j now hs https)
  then show ?case
    unfolding UpdateFromSetCookie_def by (intro fold_store_ok [OF assms(1)]) (auto dest: accept_headers_ok)
qed (simp_all add: jar_ok_def [of "[]"] BuildCookieHeader_def Let_def jar_ok_filter)

subsection \<open>Reading the header back\<close>

definition read_cookie :: "string \<Rightarrow> string \<times> string" where
  "read_cookie p =
     (case split_first (CHR ''='') (strip_space p) of (n, None) \<Rightarrow> (n, []) | (n, Some v) \<Rightarrow> (n, v))"

definition read_cookies :: "string \<Rightarrow> (string \<times> string) list" where
  "read_cookies s = (if s = [] then [] else map read_cookie (split_all (CHR '';'') s))"

lemma read_cookie_body:
  assumes "cookie_ok n v"
  shows "read_cookie (n @ CHR ''='' # v) = (n, v)" "read_cookie (CHR '' '' # n @ CHR ''='' # v) = (n, v)"
proof -
  have "strip_space (n @ CHR ''='' # v) = n @ CHR ''='' # v"
    using assms by (intro strip_space_id) (auto simp: cookie_ok_def hd_append c_space_def)
  moreover from this have "strip_space (CHR '' '' # n @ CHR ''='' # v) = n @ CHR ''='' # v"
    by (subst strip_space_Cons) (simp_all add: c_space_def)
  ultimately show "read_cookie (n @ CHR ''='' # v) = (n, v)" "read_cookie (CHR '' '' # n @ CHR ''='' # v) = (n, v)"
    using assms by (simp_all add: read_cookie_def cookie_ok_def)
qed

lemma split_render:
  assumes "\<forall>e\<in>set j. cookie_ok (fst e) (cvalue (snd e))" "CHR '';'' \<notin> set p"
  shows "split_all (CHR '';'') (p @ render j False) = p # map (\<lambda>e. CHR '' '' # fst e @ CHR ''='' # cvalue (snd e)) j"
  using assms
proof (induction j arbitrary: p)
  case (Cons e j)
  obtain n c where e: "e = (n, c)" by (cases e)
  from Cons.IH [of "CHR '' '' # n @ CHR ''='' # cvalue c"] Cons.prems show ?case
    by (auto simp: e cookie_ok_def)
qed simp

lemma read_render:
  assumes "\<forall>e\<in>set j. cookie_ok (fst e) (cvalue (snd e))"
  shows "read_cookies (render j True) = map (\<lambda>e. (fst e, cvalue (snd e))) j"
proof (cases j)
  case (Cons e r)
  obtain n c where e: "e = (n, c)" by (cases e)
  have ok: "cookie_ok n (cvalue c)" "\<forall>e\<in>set r. cookie_ok (fst e) (cvalue (snd e))" using assms Cons e by auto
  have "split_all (CHR '';'') (render j True) = (n @ CHR ''='' # cvalue c) #
      map (\<lambda>e. CHR '' '' # fst e @ CHR ''='' # cvalue (snd e)) r"
    using split_render [OF ok(2), of "n @ CHR ''='' # cvalue c"] ok(1) Cons e by (simp add: cookie_ok_def)
  then show ?thesis
    using ok Cons e by (auto simp: read_cookies_def read_cookie_body)
qed (simp add: read_cookies_def)

section \<open>Properties\<close>

text \<open>
  C15. The \<^verbatim>\<open>Cookie\<close> header says exactly what the jar holds. For every jar the operations can
  reach, splitting the built header at semicolons, trimming, and splitting each piece at the
  first equals sign gives back the live cookies, each once, with the stored values: no stored
  name or value can inject a second cookie, and no expired cookie is sent.
\<close>

theorem BuildCookieHeader_roundtrip:
  assumes "iteration_order order" "jar_reach get_time order j"
  shows "mset (read_cookies (fst (BuildCookieHeader order now j))) =
      image_mset (\<lambda>e. (fst e, cvalue (snd e))) (mset (filter (cookie_live now) j)) \<and>
    distinct (map fst (read_cookies (fst (BuildCookieHeader order now j))))"
proof -
  let ?l = "filter (cookie_live now) j"
  have ok: "jar_ok ?l" using jar_ok_filter [OF jar_reach_ok [OF assms]] .
  have m: "mset (order ?l) = mset ?l" using assms(1) by (simp add: iteration_order_def)
  have r: "read_cookies (render (order ?l) True) = map (\<lambda>e. (fst e, cvalue (snd e))) (order ?l)"
    using ok mset_eq_setD [OF m] by (intro read_render) (auto simp: jar_ok_def)
  have "distinct (map fst (order ?l))"
    using ok m mset_eq_imp_distinct_iff [of "map fst (order ?l)" "map fst ?l"] by (auto simp: jar_ok_def)
  with r m show ?thesis
    by (simp add: BuildCookieHeader_def Let_def o_def)
qed

definition demo_jar :: jar where
  "demo_jar = UpdateFromSetCookie (\<lambda>_. None) id 0 [''sid=abc; Max-Age=60'', ''old=1; Max-Age=0'', ''t=x; path=/''] True []"

lemma demo_jar_reach: "jar_reach (\<lambda>_. None) id demo_jar"
  unfolding demo_jar_def by (rule jar_reach.update, rule jar_reach.empty)

theorem BuildCookieHeader_roundtrip_witness:
  "fst (BuildCookieHeader id 1000 demo_jar) = ''sid=abc; t=x'' \<and>
   mset (read_cookies ''sid=abc; t=x'') =
     image_mset (\<lambda>e. (fst e, cvalue (snd e))) (mset (filter (cookie_live 1000) demo_jar))"
proof -
  have "fst (BuildCookieHeader id 1000 demo_jar) = ''sid=abc; t=x''" by code_simp
  with BuildCookieHeader_roundtrip [OF _ demo_jar_reach, of 1000] show ?thesis
    by (simp add: iteration_order_def)
qed

text \<open>
  C16. The jar stays within its caps and well-formed under any sequence of updates and header
  builds, whatever the responses contain: at most 32 cookies with distinct non-empty names,
  every value at most 4096 bytes, and no name or value with a semicolon, a name with an equals
  sign, or white space at either end.
\<close>

theorem jar_within_caps:
  assumes "iteration_order order" "jar_reach get_time order j"
  shows "Size j \<le> 32 \<and> distinct (map fst j) \<and>
    (\<forall>e\<in>set j. length (cvalue (snd e)) \<le> 4096 \<and> cookie_ok (fst e) (cvalue (snd e)))"
  using jar_reach_ok [OF assms] by (auto simp: jar_ok_def Size_def kMaxCookies_def kMaxValueBytes_def cookie_ok_def)

theorem jar_within_caps_witness: "Size demo_jar = 2 \<and> Size demo_jar \<le> 32"
proof -
  have "Size demo_jar = 2" by code_simp
  with jar_within_caps [OF _ demo_jar_reach] show ?thesis by (simp add: iteration_order_def)
qed

lemma apply_attr_secure: "secure p \<Longrightarrow> secure (apply_attr g now a p)"
  by (auto simp: apply_attr_def Let_def split: prod.splits option.splits)

lemma fold_attr_secure: "secure p \<Longrightarrow> secure (fold (apply_attr g now) as p)"
  by (induction as arbitrary: p) (auto intro: apply_attr_secure)

lemma attr_sets_secure:
  assumes "map c_tolower (strip_space a) = ''secure''"
  shows "secure (apply_attr g now a p)"
proof -
  have "CHR ''='' \<notin> set (strip_space a)"
  proof
    assume "CHR ''='' \<in> set (strip_space a)"
    then have "c_tolower (CHR ''='') \<in> set (map c_tolower (strip_space a))" by simp
    with assms show False by (simp add: c_tolower_def)
  qed
  moreover have "strip_space a \<noteq> []" using assms by auto
  ultimately show ?thesis
    using assms by (simp add: apply_attr_def TrimAscii_def LowerAscii_def Let_def)
qed

lemma fold_sets_secure:
  assumes "a \<in> set as" "map c_tolower (strip_space a) = ''secure''"
  shows "secure (fold (apply_attr g now) as p)"
proof -
  obtain xs ys where "as = xs @ a # ys" using split_list [OF assms(1)] by blast
  then show ?thesis using attr_sets_secure [OF assms(2)] by (simp add: fold_attr_secure)
qed

text \<open>
  C17. A cookie that declares \<^verbatim>\<open>Secure\<close> (in any letter case, with any surrounding white space,
  anywhere among the attributes) is refused over plaintext: the response is processed as if that
  header were not there.
\<close>

theorem secure_refused_over_plaintext:
  assumes "a \<in> set (tl (split_all (CHR '';'') h))" "map c_tolower (strip_space a) = ''secure''"
  shows "UpdateFromSetCookie get_time order now (hs @ h # hs') False j =
    UpdateFromSetCookie get_time order now (hs @ hs') False j"
proof -
  have "secure p" if "ParseSetCookie get_time now h = Some p" for p
    using that assms fold_sets_secure [OF _ assms(2), of "tl (split_all (CHR '';'') h)"]
    by (auto simp: ParseSetCookie_def Let_def split: list.splits prod.splits option.splits if_splits)
  then have "(case ParseSetCookie get_time now h of None \<Rightarrow> [] | Some e \<Rightarrow> if secure e \<and> \<not> False then [] else [e]) = []"
    by (auto split: option.splits)
  then show ?thesis by (simp add: UpdateFromSetCookie_def accept_headers_def)
qed

theorem secure_refused_over_plaintext_witness:
  "UpdateFromSetCookie (\<lambda>_. None) id 0 [''a=1;  SeCure ''] False demo_jar = UpdateFromSetCookie (\<lambda>_. None) id 0 [] False demo_jar"
proof -
  have "''  SeCure '' \<in> set (tl (split_all (CHR '';'') ''a=1;  SeCure ''))" by code_simp
  moreover have "map c_tolower (strip_space ''  SeCure '') = ''secure''" by code_simp
  ultimately show ?thesis
    using secure_refused_over_plaintext [of "''  SeCure ''" "''a=1;  SeCure ''" "\<lambda>_. None" id 0 "[]" "[]" demo_jar]
    by simp
qed

end
