(* ===== verification/Memo_Arena.thy ===== *)
theory Memo_Arena
  imports Vgi_Prelude
begin

text \<open>
  The per-value memo arena, \<^verbatim>\<open>src/src/vgi_memo_arena.cpp\<close>. A batch is the list of its rows
  (of any type), times are nanoseconds of the steady clock. \<open>TakeRows\<close> is the unchecked gather
  of the arrow layer: an index out of range is undefined behaviour in the sources and
  \<^const>\<open>None\<close> here, so every theorem below also says that no such index occurs. The slot map
  is an association list in the hash map's iteration order. What a batch weighs in bytes
  (\<open>buffer_size\<close>) and how it is serialized (\<open>to_ipc\<close>, \<open>from_ipc\<close>) are arguments.
\<close>

section \<open>Batches\<close>

definition TakeRows :: "'r list \<Rightarrow> nat list \<Rightarrow> 'r list option" where
  "TakeRows src idx = (if list_all (\<lambda>i. i < length src) idx then Some (map (nth src) idx) else None)"

definition ConcatBatches :: "'r list list \<Rightarrow> 'r list option" where
  "ConcatBatches parts = (if parts = [] then None else Some (concat parts))"

section \<open>State\<close>

record ArenaValidator =
  vscope :: string
  vetag :: string
  vlast_modified :: string
  vrevalidatable :: bool

definition no_validator :: ArenaValidator where
  "no_validator = \<lparr>vscope = [], vetag = [], vlast_modified = [], vrevalidatable = False\<rparr>"

record VgiMemoSlot =
  row_start :: nat
  slot_len :: nat
  validator_ref :: int
  expires_at :: int
  never_expires :: bool

record 'r arena =
  base :: "'r list option"
  tail :: "'r list option"
  base_rows :: nat
  tail_rows :: nat
  dead_rows :: nat
  footprint :: int
  slots :: "(string \<times> VgiMemoSlot) list"
  validators :: "ArenaValidator list"
  has_backend :: bool

definition rows_of :: "'r list option \<Rightarrow> 'r list" where
  "rows_of b = (case b of None \<Rightarrow> [] | Some r \<Rightarrow> r)"

definition stale :: "int \<Rightarrow> VgiMemoSlot \<Rightarrow> bool" where
  "stale now s \<longleftrightarrow> \<not> never_expires s \<and> expires_at s \<le> now"

text \<open>A freshly constructed arena, with or without a persistence backend.\<close>

definition new_arena :: "bool \<Rightarrow> 'r arena" where
  "new_arena backend = \<lparr>base = None, tail = None, base_rows = 0, tail_rows = 0, dead_rows = 0, footprint = 0,
     slots = [], validators = [], has_backend = backend\<rparr>"

section \<open>Validators\<close>

definition find_validator :: "ArenaValidator \<Rightarrow> ArenaValidator list \<Rightarrow> nat option" where
  "find_validator v vs = find (\<lambda>i. vs ! i = v) [0..<length vs]"

definition ResolveValidator :: "ArenaValidator \<Rightarrow> 'r arena \<Rightarrow> int \<times> 'r arena" where
  "ResolveValidator v ar =
     (if v = no_validator then (- 1, ar)
      else case find_validator v (validators ar) of
        Some i \<Rightarrow> (int i, ar)
      | None \<Rightarrow> (int (length (validators ar)), ar\<lparr>validators := validators ar @ [v]\<rparr>))"

definition GetValidator :: "int \<Rightarrow> 'r arena \<Rightarrow> ArenaValidator" where
  "GetValidator ref ar =
     (if ref < 0 \<or> ref \<ge> int (length (validators ar)) then no_validator else validators ar ! nat ref)"

section \<open>Gathering rows\<close>

definition gather_two :: "'r arena \<Rightarrow> nat list \<Rightarrow> 'r list option" where
  "gather_two ar logical =
     (let n = length logical;
          base_out = filter (\<lambda>i. logical ! i < base_rows ar) [0..<n];
          tail_out = filter (\<lambda>i. \<not> logical ! i < base_rows ar) [0..<n];
          base_idx = map (\<lambda>i. logical ! i) base_out;
          tail_idx = map (\<lambda>i. logical ! i - base_rows ar) tail_out;
          base_part = (if base_idx \<noteq> [] then map_option (\<lambda>b. [b]) (TakeRows (rows_of (base ar)) base_idx) else Some []);
          tail_part = (if tail_idx \<noteq> [] then map_option (\<lambda>b. [b]) (TakeRows (rows_of (tail ar)) tail_idx) else Some []) in
      case (base_part, tail_part) of
        (Some bp, Some tp) \<Rightarrow>
          let parts = bp @ tp;
              combined = (if length parts = 1 then Some (parts ! 0) else ConcatBatches parts);
              inv0 = replicate n 0;
              inv1 = fold (\<lambda>r inv. inv[base_out ! r := r]) [0..<length base_out] inv0;
              inv2 = fold (\<lambda>r inv. inv[tail_out ! r := length base_idx + r]) [0..<length tail_out] inv1 in
          (case combined of None \<Rightarrow> None | Some c \<Rightarrow> TakeRows c inv2)
      | _ \<Rightarrow> None)"

definition MaterializeLocked :: "'r arena \<Rightarrow> nat list \<Rightarrow> 'r list option" where
  "MaterializeLocked ar logical =
     (if logical = [] then Some []
      else if list_all (\<lambda>l. l < base_rows ar) logical then TakeRows (rows_of (base ar)) logical
      else gather_two ar logical)"

section \<open>Probe\<close>

record 'r ArenaProbeResult =
  prows :: "'r list"
  parent :: "nat list"
  hit :: "bool list"
  pvalidator_ref :: "int list"
  served_bytes :: int
  num_hits :: nat
  latch_all_never_expires :: bool
  latch_min_remaining_s :: int
  latch_validators_agree :: bool
  latch_validator_ref :: int

record probe_state =
  res :: "unit ArenaProbeResult"
  logical :: "nat list"
  pparent :: "nat list"
  first_hit :: bool

definition duration_seconds :: "int \<Rightarrow> int" where
  "duration_seconds ns = (if ns \<ge> 0 then ns div 1000000000 else - ((- ns) div 1000000000))"

definition latch :: "int \<Rightarrow> VgiMemoSlot \<Rightarrow> bool \<Rightarrow> 'r ArenaProbeResult \<Rightarrow> 'r ArenaProbeResult" where
  "latch now s fst_hit r =
     (let r1 = (if \<not> never_expires s then
                  let rem0 = duration_seconds (expires_at s - now);
                      rem = (if rem0 < 0 then 0 else rem0) in
                  r\<lparr>latch_all_never_expires := False,
                    latch_min_remaining_s :=
                      (if fst_hit \<or> rem < latch_min_remaining_s r then rem else latch_min_remaining_s r)\<rparr>
                else r) in
      if fst_hit then r1\<lparr>latch_validator_ref := validator_ref s\<rparr>
      else if validator_ref s \<noteq> latch_validator_ref r1 then r1\<lparr>latch_validators_agree := False\<rparr>
      else r1)"

definition probe_key :: "'r arena \<Rightarrow> int \<Rightarrow> nat \<times> string \<Rightarrow> probe_state \<Rightarrow> probe_state" where
  "probe_key ar now kk st =
     (case map_of (slots ar) (snd kk) of
        None \<Rightarrow> st
      | Some s \<Rightarrow>
          if stale now s then st
          else
            let r0 = res st;
                r1 = r0\<lparr>hit := (hit r0)[fst kk := True], pvalidator_ref := (pvalidator_ref r0)[fst kk := validator_ref s],
                        num_hits := num_hits r0 + 1\<rparr>;
                r2 = latch now s (first_hit st) r1 in
            st\<lparr>res := r2, first_hit := False,
               logical := logical st @ map (\<lambda>o'. row_start s + o') [0..<slot_len s],
               pparent := pparent st @ replicate (slot_len s) (fst kk)\<rparr>)"

definition init_probe :: "nat \<Rightarrow> probe_state" where
  "init_probe n =
     \<lparr>res = \<lparr>prows = [], parent = [], hit = replicate n False, pvalidator_ref = replicate n (- 1),
             served_bytes = 0, num_hits = 0, latch_all_never_expires = True, latch_min_remaining_s = 0,
             latch_validators_agree = True, latch_validator_ref = - 1\<rparr>,
      logical = [], pparent = [], first_hit = True\<rparr>"

definition Probe :: "('r list \<Rightarrow> int) \<Rightarrow> 'r arena \<Rightarrow> string list \<Rightarrow> int \<Rightarrow> 'r ArenaProbeResult option" where
  "Probe buffer_size ar keys now =
     (let st = fold (probe_key ar now) (enumerate 0 keys) (init_probe (length keys));
          r = res st;
          out = (\<lambda>rows par. \<lparr>prows = rows, parent = par, hit = hit r, pvalidator_ref = pvalidator_ref r,
             served_bytes = (if par = [] then 0 else buffer_size rows), num_hits = num_hits r,
             latch_all_never_expires = latch_all_never_expires r, latch_min_remaining_s = latch_min_remaining_s r,
             latch_validators_agree = latch_validators_agree r, latch_validator_ref = latch_validator_ref r\<rparr>) in
      if logical st = [] then Some (out [] [])
      else (case MaterializeLocked ar (logical st) of
              None \<Rightarrow> None
            | Some rows \<Rightarrow> Some (out rows (pparent st))))"

section \<open>Compaction and footprint\<close>

definition ShouldCompactLocked :: "'r arena \<Rightarrow> bool" where
  "ShouldCompactLocked ar =
     (if tail_rows ar = 0
      then dead_rows ar * 2 \<ge> base_rows ar + tail_rows ar \<and> base_rows ar + tail_rows ar > 0
      else base_rows ar = 0 \<or> tail_rows ar * 2 \<ge> base_rows ar \<or> dead_rows ar * 2 \<ge> base_rows ar + tail_rows ar)"

text \<open>One pass over the slots: the rows to carry, the rebased slots, the new row count.\<close>

fun compact_slots ::
  "int \<Rightarrow> nat \<Rightarrow> (string \<times> VgiMemoSlot) list \<Rightarrow> nat list \<times> (string \<times> VgiMemoSlot) list \<times> nat" where
  "compact_slots now cursor [] = ([], [], cursor)"
| "compact_slots now cursor ((k, s) # kvs) =
     (if stale now s then compact_slots now cursor kvs
      else
        let (lg, kvs', c') = compact_slots now (cursor + slot_len s) kvs in
        (map (\<lambda>o'. row_start s + o') [0..<slot_len s] @ lg, (k, s\<lparr>row_start := cursor\<rparr>) # kvs', c'))"

definition CompactLocked :: "int \<Rightarrow> 'r arena \<Rightarrow> 'r arena option" where
  "CompactLocked now ar =
     (let (lg, kvs, cursor) = compact_slots now 0 (slots ar) in
      case (if lg = [] then Some [] else MaterializeLocked ar lg) of
        None \<Rightarrow> None
      | Some nb \<Rightarrow>
          Some (ar\<lparr>slots := kvs, base := Some nb, base_rows := cursor, tail := None, tail_rows := 0, dead_rows := 0\<rparr>))"

definition RecomputeFootprintLocked :: "('r list \<Rightarrow> int) \<Rightarrow> 'r arena \<Rightarrow> int" where
  "RecomputeFootprintLocked buffer_size ar =
     (case base ar of None \<Rightarrow> 0 | Some b \<Rightarrow> buffer_size b) + (case tail ar of None \<Rightarrow> 0 | Some t \<Rightarrow> buffer_size t) +
     sum_list (map (\<lambda>kv. int (length (fst kv)) + 160) (slots ar)) + int (length (validators ar)) * 96"

definition FootprintBytes :: "'r arena \<Rightarrow> int" where
  "FootprintBytes ar = footprint ar"

definition GetStats :: "'r arena \<Rightarrow> nat \<times> nat \<times> nat \<times> int" where
  "GetStats ar = (length (slots ar), dead_rows ar, base_rows ar + tail_rows ar, footprint ar)"

section \<open>Store\<close>

record ArenaStoreSpec =
  spec_key :: string
  spec_len :: nat
  spec_ref :: int

record PersistedSlot =
  input_blob :: string
  ipc :: string
  nrows :: nat
  expires_unix :: int
  pvalidator :: ArenaValidator

definition kMaxSlots :: nat where "kMaxSlots = 2 ^ 20"

definition erase_slot :: "string \<Rightarrow> (string \<times> VgiMemoSlot) list \<Rightarrow> (string \<times> VgiMemoSlot) list" where
  "erase_slot k m = filter (\<lambda>e. fst e \<noteq> k) m"

text \<open>
  The publication loop. Its state is the slot map, the dead-row count and the list of new
  slots with their offset within the batch (collected only when there is a backend).
\<close>

fun publish ::
  "bool \<Rightarrow> int \<Rightarrow> int \<Rightarrow> bool \<Rightarrow> nat \<Rightarrow> nat \<Rightarrow> ArenaStoreSpec list \<Rightarrow>
     (string \<times> VgiMemoSlot) list \<times> nat \<times> (string \<times> VgiMemoSlot) list \<Rightarrow>
     (string \<times> VgiMemoSlot) list \<times> nat \<times> (string \<times> VgiMemoSlot) list" where
  "publish backend now ex never batch_base off [] st = st"
| "publish backend now ex never batch_base off (sp # sps) (sl, dead, news) =
     (let start = batch_base + off; off' = off + spec_len sp;
          insert_new = (\<lambda>(sl, dead).
            if length sl \<ge> kMaxSlots then (sl, dead + spec_len sp, news)
            else
              let s = \<lparr>row_start = start, slot_len = spec_len sp, validator_ref = spec_ref sp,
                       expires_at = ex, never_expires = never\<rparr> in
              (sl @ [(spec_key sp, s)], dead,
               if backend then news @ [(spec_key sp, s\<lparr>row_start := off\<rparr>)] else news)) in
      publish backend now ex never batch_base off' sps
        (case map_of sl (spec_key sp) of
           None \<Rightarrow> insert_new (sl, dead)
         | Some old \<Rightarrow>
             if stale now old then insert_new (erase_slot (spec_key sp) sl, dead + slot_len old)
             else (sl, dead + spec_len sp, news)))"

definition persist_slot ::
  "('r list \<Rightarrow> string) \<Rightarrow> int \<Rightarrow> int \<Rightarrow> ArenaValidator list \<Rightarrow> 'r list \<Rightarrow> string \<times> VgiMemoSlot \<Rightarrow> PersistedSlot" where
  "persist_slot to_ipc now_unix steady_now vs batch kv =
     (let s = snd kv in
      \<lparr>input_blob = fst kv, ipc = to_ipc (take (slot_len s) (drop (row_start s) batch)), nrows = slot_len s,
       expires_unix = (if never_expires s then - 1 else now_unix + duration_seconds (expires_at s - steady_now)),
       pvalidator = (if validator_ref s \<ge> 0 \<and> validator_ref s < int (length vs)
                     then vs ! nat (validator_ref s) else no_validator)\<rparr>)"

definition PersistNewSlotsLocked ::
  "('r list \<Rightarrow> string) \<Rightarrow> int \<Rightarrow> int \<Rightarrow> 'r arena \<Rightarrow> 'r list option \<Rightarrow> (string \<times> VgiMemoSlot) list \<Rightarrow> PersistedSlot list" where
  "PersistNewSlotsLocked to_ipc now_unix steady_now ar batch news =
     (case batch of
        None \<Rightarrow> []
      | Some b \<Rightarrow> if \<not> has_backend ar then [] else map (persist_slot to_ipc now_unix steady_now (validators ar) b) news)"

definition append_batch :: "'r list option \<Rightarrow> 'r arena \<Rightarrow> 'r arena" where
  "append_batch batch ar =
     (let appended = length (rows_of batch) in
      if appended > 0 then
        (case tail ar of
           None \<Rightarrow> ar\<lparr>tail := batch, tail_rows := appended\<rparr>
         | Some t \<Rightarrow> ar\<lparr>tail := ConcatBatches [t, rows_of batch], tail_rows := tail_rows ar + appended\<rparr>)
      else ar)"

text \<open>
  The result: the footprint change, the arena, and what was handed to the backend. The clocks
  are read twice: \<open>now\<close> for the slots, \<open>now_unix\<close> and \<open>steady_now\<close> for the persisted deadlines.
\<close>

definition Store ::
  "('r list \<Rightarrow> int) \<Rightarrow> ('r list \<Rightarrow> string) \<Rightarrow> int \<Rightarrow> int \<Rightarrow> int \<Rightarrow> 'r list option \<Rightarrow> ArenaStoreSpec list \<Rightarrow> int \<Rightarrow>
     bool \<Rightarrow> 'r arena \<Rightarrow> (int \<times> 'r arena \<times> PersistedSlot list) option" where
  "Store buffer_size to_ipc now now_unix steady_now batch specs ex never ar =
     (let before = footprint ar;
          appended = length (rows_of batch);
          ar1 = append_batch batch ar;
          batch_base = base_rows ar1 + (tail_rows ar1 - appended);
          (sl, dead, news) = publish (has_backend ar) now ex never batch_base 0 specs (slots ar1, dead_rows ar1, []);
          ar2 = ar1\<lparr>slots := sl, dead_rows := dead\<rparr>;
          persisted = (if has_backend ar \<and> news \<noteq> []
                       then PersistNewSlotsLocked to_ipc now_unix steady_now ar2 batch news else []) in
      case (if ShouldCompactLocked ar2 then CompactLocked now ar2 else Some ar2) of
        None \<Rightarrow> None
      | Some ar3 \<Rightarrow>
          let after = RecomputeFootprintLocked buffer_size ar3 in
          Some (after - before, ar3\<lparr>footprint := after\<rparr>, persisted))"

section \<open>Hydration\<close>

definition hydrate_slot ::
  "(string \<Rightarrow> 'r list) \<Rightarrow> int \<Rightarrow> int \<Rightarrow> PersistedSlot \<Rightarrow> 'r arena \<times> 'r list list \<times> nat \<Rightarrow> 'r arena \<times> 'r list list \<times> nat" where
  "hydrate_slot from_ipc steady_now now_unix p st =
     (case st of (ar, batches, cursor) \<Rightarrow>
        let b = from_ipc (ipc p);
            never = expires_unix p < 0;
            (ref, ar1) = ResolveValidator (pvalidator p) ar;
            s = \<lparr>row_start = cursor, slot_len = nrows p, validator_ref = ref,
                 expires_at = (if never then steady_now
                               else steady_now + (expires_unix p - now_unix) * 1000000000),
                 never_expires = never\<rparr>;
            ar2 = (if map_of (slots ar1) (input_blob p) = None
                   then ar1\<lparr>slots := slots ar1 @ [(input_blob p, s)]\<rparr> else ar1) in
        (ar2, if b \<noteq> [] then batches @ [b] else batches, cursor + nrows p))"

definition LoadFromBackend ::
  "('r list \<Rightarrow> int) \<Rightarrow> (string \<Rightarrow> 'r list) \<Rightarrow> int \<Rightarrow> int \<Rightarrow> PersistedSlot list option \<Rightarrow> 'r arena \<Rightarrow> int \<times> 'r arena" where
  "LoadFromBackend buffer_size from_ipc steady_now now_unix hydrated ar =
     (if \<not> has_backend ar then (0, ar)
      else case hydrated of
        None \<Rightarrow> (0, ar)
      | Some ps \<Rightarrow>
          if ps = [] then (0, ar)
          else
            let (ar1, batches, cursor) = fold (hydrate_slot from_ipc steady_now now_unix) ps (ar, [], 0);
                ar2 = ar1\<lparr>base := (if batches = [] then Some [] else ConcatBatches batches), base_rows := cursor\<rparr>;
                f = RecomputeFootprintLocked buffer_size ar2 in
            (f, ar2\<lparr>footprint := f\<rparr>))"

section \<open>The gather is one lookup per row\<close>

definition all_rows :: "'r arena \<Rightarrow> 'r list" where
  "all_rows ar = rows_of (base ar) @ rows_of (tail ar)"

definition counts_ok :: "'r arena \<Rightarrow> bool" where
  "counts_ok ar \<longleftrightarrow> base_rows ar = length (rows_of (base ar)) \<and> tail_rows ar = length (rows_of (tail ar))"

lemma scatter:
  assumes "distinct xs" "\<forall>x\<in>set xs. x < length v"
  shows "length (fold (\<lambda>r inv. inv[xs ! r := f r]) [0..<length xs] v) = length v"
    and "r < length xs \<Longrightarrow> fold (\<lambda>r inv. inv[xs ! r := f r]) [0..<length xs] v ! (xs ! r) = f r"
    and "i \<notin> set xs \<Longrightarrow> fold (\<lambda>r inv. inv[xs ! r := f r]) [0..<length xs] v ! i = v ! i"
proof -
  have "length (fold (\<lambda>r inv. inv[xs ! r := f r]) [0..<k] v) = length v \<and>
      (\<forall>r<k. fold (\<lambda>r inv. inv[xs ! r := f r]) [0..<k] v ! (xs ! r) = f r) \<and>
      (\<forall>i. i \<notin> set (take k xs) \<longrightarrow> fold (\<lambda>r inv. inv[xs ! r := f r]) [0..<k] v ! i = v ! i)"
    if "k \<le> length xs" for k
    using that
  proof (induction k)
    case (Suc k)
    have d: "xs ! k \<noteq> xs ! r" if "r < k" for r
      using that Suc.prems assms(1) by (simp add: nth_eq_iff_index_eq)
    show ?case
      using Suc assms(2) d by (auto simp: take_Suc_conv_app_nth nth_list_update less_Suc_eq)
  qed simp
  from this [of "length xs"] show
    "length (fold (\<lambda>r inv. inv[xs ! r := f r]) [0..<length xs] v) = length v"
    "r < length xs \<Longrightarrow> fold (\<lambda>r inv. inv[xs ! r := f r]) [0..<length xs] v ! (xs ! r) = f r"
    "i \<notin> set xs \<Longrightarrow> fold (\<lambda>r inv. inv[xs ! r := f r]) [0..<length xs] v ! i = v ! i"
    by auto
qed

lemma gather_two_correct:
  assumes "counts_ok ar" "\<forall>l\<in>set lg. l < length (all_rows ar)" "lg \<noteq> []"
  shows "gather_two ar lg = Some (map (nth (all_rows ar)) lg)"
proof -
  let ?n = "length lg" and ?b = "rows_of (base ar)" and ?t = "rows_of (tail ar)" and ?br = "base_rows ar"
  define bo where "bo = filter (\<lambda>i. lg ! i < ?br) [0..<?n]"
  define to' where "to' = filter (\<lambda>i. \<not> lg ! i < ?br) [0..<?n]"
  let ?bi = "map (\<lambda>i. lg ! i) bo" and ?ti = "map (\<lambda>i. lg ! i - ?br) to'"
  let ?inv1 = "fold (\<lambda>r inv. inv[bo ! r := r]) [0..<length bo] (replicate ?n 0)"
  let ?inv2 = "fold (\<lambda>r inv. inv[to' ! r := length bo + r]) [0..<length to'] ?inv1"
  let ?c = "map (nth ?b) ?bi @ map (nth ?t) ?ti"
  have bo: "distinct bo" "\<forall>x\<in>set bo. x < length (replicate ?n 0)" "\<forall>x\<in>set bo. lg ! x < ?br"
    and to': "distinct to'" "\<forall>x\<in>set to'. x < length ?inv1" "\<forall>x\<in>set to'. \<not> lg ! x < ?br"
    by (auto simp: bo_def to'_def scatter(1))
  have split: "i \<in> set bo \<or> i \<in> set to'" if "i < ?n" for i using that by (auto simp: bo_def to'_def)
  have rng: "lg ! i < length ?b + length ?t" if "i < ?n" for i
    using assms(2) that by (simp add: all_rows_def)
  have br: "?br = length ?b" using assms(1) by (simp add: counts_ok_def)
  have tb: "TakeRows ?b ?bi = Some (map (nth ?b) ?bi)"
    using bo(3) br by (auto simp: TakeRows_def list_all_iff)
  have tt: "TakeRows ?t ?ti = Some (map (nth ?t) ?ti)"
    using to'(3) br rng by (auto simp: TakeRows_def list_all_iff to'_def less_diff_conv2 not_less add.commute)
  have len: "length ?inv2 = ?n" using scatter(1) [OF to'(1,2)] scatter(1) [OF bo(1,2)] by simp
  have pt: "?inv2 ! i < length ?c \<and> ?c ! (?inv2 ! i) = all_rows ar ! (lg ! i)" if i: "i < ?n" for i
  proof (cases "i \<in> set bo")
    case True
    then obtain r where r: "r < length bo" "bo ! r = i" by (auto simp: in_set_conv_nth)
    have "i \<notin> set to'" using True bo(3) to'(3) by blast
    then have "?inv2 ! i = r"
      using r scatter(3) [OF to'(1,2)] scatter(2) [OF bo(1,2), of r] by simp
    then show ?thesis using r True bo(3) br by (auto simp: nth_append all_rows_def)
  next
    case False
    then obtain r where r: "r < length to'" "to' ! r = i" using split [OF i] by (auto simp: in_set_conv_nth)
    have "?inv2 ! i = length bo + r" using r scatter(2) [OF to'(1,2), of r] by simp
    then show ?thesis using r to'(3) br i by (auto simp: nth_append all_rows_def)
  qed
  have "set ?inv2 \<subseteq> {..<length ?c}" using pt len by (fastforce simp: in_set_conv_nth)
  then have tk: "TakeRows ?c ?inv2 = Some (map (nth (all_rows ar)) lg)"
    using pt len by (auto simp: TakeRows_def list_all_iff intro!: nth_equalityI)
  have ne: "bo \<noteq> [] \<or> to' \<noteq> []" using split [of 0] assms(3) by (cases bo) auto
  show ?thesis
    unfolding gather_two_def Let_def bo_def [symmetric] to'_def [symmetric]
    using tk ne tb tt by (cases "bo = []"; cases "to' = []") (simp_all add: ConcatBatches_def)
qed

lemma Materialize_correct:
  assumes "counts_ok ar" "\<forall>l\<in>set lg. l < length (all_rows ar)"
  shows "MaterializeLocked ar lg = Some (map (nth (all_rows ar)) lg)"
proof (cases "lg \<noteq> [] \<and> \<not> list_all (\<lambda>l. l < base_rows ar) lg")
  case True
  then show ?thesis using gather_two_correct [OF assms] by (simp add: MaterializeLocked_def)
next
  case False
  then show ?thesis
    using assms(1) by (auto simp: MaterializeLocked_def TakeRows_def counts_ok_def all_rows_def list_all_iff nth_append)
qed

section \<open>The arena as a memo table\<close>

text \<open>
  What the arena promises: a partial function from keys to the memoized rows and their
  validator, at a point in time. The detailed operations are shown to act on it.
\<close>

definition fresh_slot :: "'r arena \<Rightarrow> int \<Rightarrow> string \<Rightarrow> VgiMemoSlot option" where
  "fresh_slot ar now k =
     (case map_of (slots ar) k of None \<Rightarrow> None | Some s \<Rightarrow> if stale now s then None else Some s)"

definition slot_rows :: "'r arena \<Rightarrow> VgiMemoSlot \<Rightarrow> 'r list" where
  "slot_rows ar s = take (slot_len s) (drop (row_start s) (all_rows ar))"

definition memo :: "'r arena \<Rightarrow> int \<Rightarrow> string \<Rightarrow> ('r list \<times> int) option" where
  "memo ar now k = map_option (\<lambda>s. (slot_rows ar s, validator_ref s)) (fresh_slot ar now k)"

definition live_rows :: "(string \<times> VgiMemoSlot) list \<Rightarrow> nat" where
  "live_rows m = sum_list (map (\<lambda>e. slot_len (snd e)) m)"

definition arena_inv :: "'r arena \<Rightarrow> bool" where
  "arena_inv ar \<longleftrightarrow> counts_ok ar \<and> distinct (map fst (slots ar)) \<and>
     (\<forall>e\<in>set (slots ar). row_start (snd e) + slot_len (snd e) \<le> length (all_rows ar)) \<and>
     live_rows (slots ar) + dead_rows ar = length (all_rows ar)"

lemma counts_length: "counts_ok ar \<Longrightarrow> base_rows ar + tail_rows ar = length (all_rows ar)"
  by (simp add: counts_ok_def all_rows_def)

lemma fresh_slot_range:
  assumes "arena_inv ar" "fresh_slot ar now k = Some s"
  shows "row_start s + slot_len s \<le> length (all_rows ar)"
  using assms by (auto simp: arena_inv_def fresh_slot_def dest!: map_of_SomeD split: option.splits if_splits)

lemma slot_rows_nth:
  "row_start s + slot_len s \<le> length (all_rows ar) \<Longrightarrow>
   slot_rows ar s = map (nth (all_rows ar)) (map (\<lambda>o'. row_start s + o') [0..<slot_len s])"
  by (auto simp: slot_rows_def intro!: nth_equalityI)

subsection \<open>Probe\<close>

lemma latch_keeps [simp]:
  "hit (latch now s f r) = hit r" "pvalidator_ref (latch now s f r) = pvalidator_ref r"
  "num_hits (latch now s f r) = num_hits r"
  by (simp_all add: latch_def Let_def)

definition idx_of :: "VgiMemoSlot option \<Rightarrow> nat list" where
  "idx_of so = (case so of None \<Rightarrow> [] | Some s \<Rightarrow> map (\<lambda>o'. row_start s + o') [0..<slot_len s])"

definition ref_of :: "VgiMemoSlot option \<Rightarrow> int" where
  "ref_of so = (case so of None \<Rightarrow> - 1 | Some s \<Rightarrow> validator_ref s)"

lemma probe_key_fresh:
  "probe_key ar now (i, k) st =
     (case fresh_slot ar now k of
        None \<Rightarrow> st
      | Some s \<Rightarrow>
          st\<lparr>res := latch now s (first_hit st) ((res st)\<lparr>hit := (hit (res st))[i := True],
                 pvalidator_ref := (pvalidator_ref (res st))[i := validator_ref s],
                 num_hits := num_hits (res st) + 1\<rparr>),
             first_hit := False, logical := logical st @ idx_of (Some s),
             pparent := pparent st @ replicate (slot_len s) i\<rparr>)"
  by (simp add: probe_key_def fresh_slot_def idx_of_def Let_def split: option.split)

lemma probe_fold:
  fixes ks m ar now
  defines "st \<equiv> fold (probe_key ar now) (enumerate 0 ks) (init_probe (length ks + m))"
  shows "logical st = concat (map (\<lambda>k. idx_of (fresh_slot ar now k)) ks) \<and>
    pparent st = concat (map (\<lambda>(i, k). replicate (length (idx_of (fresh_slot ar now k))) i) (enumerate 0 ks)) \<and>
    hit (res st) = map (\<lambda>k. fresh_slot ar now k \<noteq> None) ks @ replicate m False \<and>
    pvalidator_ref (res st) = map (\<lambda>k. ref_of (fresh_slot ar now k)) ks @ replicate m (- 1) \<and>
    num_hits (res st) = length (filter (\<lambda>k. fresh_slot ar now k \<noteq> None) ks)"
  unfolding st_def
proof (induction ks arbitrary: m rule: rev_induct)
  case Nil
  then show ?case by (simp add: init_probe_def)
next
  case (snoc k ks)
  from snoc [of "Suc m"] show ?case
    by (cases "fresh_slot ar now k")
      (simp_all add: enumerate_append_eq probe_key_fresh idx_of_def ref_of_def list_update_append)
qed

text \<open>
  C18. Probing returns exactly the fresh memos. On a well-formed arena \<^verbatim>\<open>Probe\<close> never gathers out
  of range; key by key it reports a hit exactly for the keys with a memo that is not stale,
  with that memo's validator; the rows it serves are the memoized rows of the hit keys in
  probe order (negative memos contribute none), and the parent of every row is the index of
  the key it was memoized for.
\<close>

theorem Probe_correct:
  assumes "arena_inv ar"
  shows "\<exists>r. Probe buffer_size ar keys now = Some r \<and>
    prows r = concat (map (\<lambda>k. case memo ar now k of None \<Rightarrow> [] | Some v \<Rightarrow> fst v) keys) \<and>
    parent r = concat (map (\<lambda>(i, k). case memo ar now k of None \<Rightarrow> [] | Some v \<Rightarrow> replicate (length (fst v)) i)
      (enumerate 0 keys)) \<and>
    hit r = map (\<lambda>k. memo ar now k \<noteq> None) keys \<and>
    pvalidator_ref r = map (\<lambda>k. case memo ar now k of None \<Rightarrow> - 1 | Some v \<Rightarrow> snd v) keys \<and>
    num_hits r = length (filter (\<lambda>k. memo ar now k \<noteq> None) keys)"
proof -
  let ?st = "fold (probe_key ar now) (enumerate 0 keys) (init_probe (length keys))"
  let ?rows = "concat (map (\<lambda>k. case memo ar now k of None \<Rightarrow> [] | Some v \<Rightarrow> fst v) keys)"
  note f = probe_fold [of ar now keys 0, simplified]
  have rows: "map (nth (all_rows ar)) (idx_of (fresh_slot ar now k)) =
      (case memo ar now k of None \<Rightarrow> [] | Some v \<Rightarrow> fst v)" for k
    using fresh_slot_range [OF assms, of now k] slot_rows_nth [where ar = ar]
    by (cases "fresh_slot ar now k") (auto simp: memo_def idx_of_def)
  have par: "replicate (length (idx_of (fresh_slot ar now k))) i =
      (case memo ar now k of None \<Rightarrow> [] | Some v \<Rightarrow> replicate (length (fst v)) i)" for k i
    using arg_cong [OF rows [of k], of length] by (auto split: option.splits)
  have "l < length (all_rows ar)" if "l \<in> set (idx_of (fresh_slot ar now k))" for k l
    using that fresh_slot_range [OF assms, of now k] by (cases "fresh_slot ar now k") (auto simp: idx_of_def)
  then have m: "MaterializeLocked ar (logical ?st) = Some ?rows"
    using Materialize_correct [of ar "logical ?st"] assms rows
    by (auto simp: f arena_inv_def map_concat o_def)
  have pp: "pparent ?st = concat (map (\<lambda>(i, k). case memo ar now k of None \<Rightarrow> [] | Some v \<Rightarrow> replicate (length (fst v)) i)
      (enumerate 0 keys))"
    using f [THEN conjunct2, THEN conjunct1] unfolding par .
  have vals: "fresh_slot ar now k \<noteq> None \<longleftrightarrow> memo ar now k \<noteq> None"
      "ref_of (fresh_slot ar now k) = (case memo ar now k of None \<Rightarrow> - 1 | Some v \<Rightarrow> snd v)" for k
    by (simp_all add: memo_def ref_of_def split: option.split)
  have e: "logical ?st = [] \<Longrightarrow> ?rows = [] \<and> pparent ?st = []"
  proof -
    assume "logical ?st = []"
    then have "idx_of (fresh_slot ar now k) = []" if "k \<in> set keys" for k using that by (auto simp: f)
    then show ?thesis
      using f rows by (auto simp: in_set_enumerate_eq) (metis list.map_disc_iff)+
  qed
  show ?thesis
    using m e f unfolding pp [symmetric] vals [symmetric]
    by (cases "logical ?st = []") (simp_all add: Probe_def Let_def)
qed

definition sample_arena :: "nat arena" where
  "sample_arena = \<lparr>base = Some [10, 20, 30], tail = Some [40], base_rows = 3, tail_rows = 1, dead_rows = 1,
     footprint = 0,
     slots = [(''a'', \<lparr>row_start = 0, slot_len = 2, validator_ref = 0, expires_at = 100, never_expires = False\<rparr>),
              (''b'', \<lparr>row_start = 3, slot_len = 1, validator_ref = - 1, expires_at = 5, never_expires = False\<rparr>)],
     validators = [\<lparr>vscope = ''s'', vetag = ''e'', vlast_modified = [], vrevalidatable = True\<rparr>],
     has_backend = True\<rparr>"

definition sample_specs :: "ArenaStoreSpec list" where
  "sample_specs = [\<lparr>spec_key = ''b'', spec_len = 1, spec_ref = 0\<rparr>, \<lparr>spec_key = ''a'', spec_len = 1, spec_ref = - 1\<rparr>,
     \<lparr>spec_key = ''c'', spec_len = 0, spec_ref = - 1\<rparr>]"

lemma sample_arena_inv: "arena_inv sample_arena"
  by (simp add: arena_inv_def counts_ok_def all_rows_def rows_of_def live_rows_def sample_arena_def)

lemma sample_memo:
  "memo sample_arena 7 k = (if k = ''a'' then Some ([10, 20], 0) else None)"
  by (simp add: memo_def fresh_slot_def slot_rows_def all_rows_def rows_of_def stale_def sample_arena_def)

theorem Probe_correct_witness:
  "arena_inv sample_arena \<and> (\<exists>r. Probe (\<lambda>rows. int (sum_list rows)) sample_arena [''b'', ''a''] 7 = Some r \<and> prows r = [10, 20] \<and>
     parent r = [1, 1] \<and> hit r = [False, True] \<and> pvalidator_ref r = [- 1, 0] \<and> num_hits r = 1)"
  using Probe_correct [OF sample_arena_inv, of "\<lambda>rows. int (sum_list rows)" "[''b'', ''a'']" 7] sample_arena_inv
  by (simp add: sample_memo numeral_2_eq_2)

section \<open>Compaction\<close>

lemma stale_mono: "stale now s \<Longrightarrow> now \<le> now' \<Longrightarrow> stale now' s"
  by (auto simp: stale_def)

lemma stale_row_start [simp]: "stale now (s\<lparr>row_start := r\<rparr>) = stale now s"
  by (simp add: stale_def)

definition placed :: "nat \<Rightarrow> nat list \<Rightarrow> (string \<times> VgiMemoSlot) list \<Rightarrow> string \<Rightarrow> VgiMemoSlot \<Rightarrow> bool" where
  "placed c0 lg kvs' k s \<longleftrightarrow>
     (\<exists>p. (k, s\<lparr>row_start := c0 + p\<rparr>) \<in> set kvs' \<and> p + slot_len s \<le> length lg \<and>
        take (slot_len s) (drop p lg) = map (\<lambda>o'. row_start s + o') [0..<slot_len s])"

definition compacted ::
  "int \<Rightarrow> nat \<Rightarrow> (string \<times> VgiMemoSlot) list \<Rightarrow> nat list \<Rightarrow> (string \<times> VgiMemoSlot) list \<Rightarrow> nat \<Rightarrow> bool" where
  "compacted now c0 kvs lg kvs' c' \<longleftrightarrow>
     c' = c0 + length lg \<and> live_rows kvs' = length lg \<and>
     map fst kvs' = map fst (filter (\<lambda>e. \<not> stale now (snd e)) kvs) \<and>
     (\<forall>k s. (k, s) \<in> set kvs \<longrightarrow> \<not> stale now s \<longrightarrow> placed c0 lg kvs' k s) \<and>
     (\<forall>e\<in>set kvs'. row_start (snd e) + slot_len (snd e) \<le> c') \<and>
     (\<forall>l\<in>set lg. \<exists>e\<in>set kvs. l < row_start (snd e) + slot_len (snd e))"

lemma placed_later:
  assumes "placed (c0 + length l) lg kvs' k s"
  shows "placed c0 (l @ lg) (e # kvs') k s"
proof -
  obtain p where "(k, s\<lparr>row_start := c0 + (length l + p)\<rparr>) \<in> set kvs'" "p + slot_len s \<le> length lg"
      "take (slot_len s) (drop p lg) = map (\<lambda>o'. row_start s + o') [0..<slot_len s]"
    using assms unfolding placed_def add.assoc by blast
  then show ?thesis unfolding placed_def by (intro exI [of _ "length l + p"]) simp
qed

lemma placed_first:
  "placed c0 (map (\<lambda>o'. row_start s + o') [0..<slot_len s] @ lg) ((k, s\<lparr>row_start := c0\<rparr>) # kvs') k s"
  unfolding placed_def by (rule exI [of _ 0]) simp

lemma compacted_skip:
  "stale now s0 \<Longrightarrow> compacted now c0 kvs lg kvs' c' \<Longrightarrow> compacted now c0 ((k0, s0) # kvs) lg kvs' c'"
  by (auto simp: compacted_def)

lemma compacted_keep:
  assumes "\<not> stale now s0" "compacted now (c0 + slot_len s0) kvs lg kvs' c'"
  shows "compacted now c0 ((k0, s0) # kvs) (map (\<lambda>o'. row_start s0 + o') [0..<slot_len s0] @ lg)
    ((k0, s0\<lparr>row_start := c0\<rparr>) # kvs') c'"
  using assms placed_first [of c0 s0 lg k0 kvs'] placed_later [of c0 "map (\<lambda>o'. row_start s0 + o') [0..<slot_len s0]" lg kvs']
  unfolding compacted_def by (auto simp: live_rows_def)

lemma compact_slots_spec:
  "case compact_slots now c0 kvs of (lg, kvs', c') \<Rightarrow> compacted now c0 kvs lg kvs' c'"
proof (induction now c0 kvs rule: compact_slots.induct)
  case (1 now cursor)
  then show ?case by (simp add: compacted_def live_rows_def)
next
  case (2 now cursor k s kvs)
  then show ?case
    by (cases "stale now s") (auto simp: Let_def intro: compacted_skip compacted_keep split: prod.splits)
qed

lemma map_of_distinct: "distinct (map fst m) \<Longrightarrow> (k, v) \<in> set m \<Longrightarrow> map_of m k = Some v"
  by simp

lemma Compact_correct:
  assumes "arena_inv ar"
  shows "\<exists>ar'. CompactLocked now ar = Some ar' \<and> arena_inv ar' \<and> dead_rows ar' = 0 \<and>
    footprint ar' = footprint ar \<and> validators ar' = validators ar \<and> has_backend ar' = has_backend ar \<and>
    (\<forall>now' k. now \<le> now' \<longrightarrow> memo ar' now' k = memo ar now' k)"
proof -
  obtain lg kvs c where cs: "compact_slots now 0 (slots ar) = (lg, kvs, c)" by (metis prod_cases3)
  have cp: "compacted now 0 (slots ar) lg kvs c" using compact_slots_spec [of now 0 "slots ar"] cs by simp
  have rng: "\<forall>l\<in>set lg. l < length (all_rows ar)"
    using cp assms unfolding compacted_def arena_inv_def by (meson less_le_trans)
  let ?nb = "map (nth (all_rows ar)) lg"
  let ?ar = "ar\<lparr>slots := kvs, base := Some ?nb, base_rows := c, tail := None, tail_rows := 0, dead_rows := 0\<rparr>"
  have C: "CompactLocked now ar = Some ?ar"
    using cs Materialize_correct [OF _ rng] assms by (simp add: CompactLocked_def arena_inv_def)
  have all: "all_rows ?ar = ?nb" by (simp add: all_rows_def rows_of_def)
  have dist: "distinct (map fst kvs)" "distinct (map fst (slots ar))"
    using cp assms by (auto simp: compacted_def arena_inv_def distinct_map_filter)
  have kn: "map_of kvs k = None" if "k \<notin> set (map fst (filter (\<lambda>e. \<not> stale now (snd e)) (slots ar)))" for k
  proof -
    have "map fst kvs = map fst (filter (\<lambda>e. \<not> stale now (snd e)) (slots ar))" using cp by (simp add: compacted_def)
    then show ?thesis using that by (metis map_of_eq_None_iff set_map)
  qed
  have inv: "arena_inv ?ar"
    using cp dist(1) by (auto simp: arena_inv_def all_rows_def compacted_def counts_ok_def rows_of_def)
  have "memo ?ar now' k = memo ar now' k" if le: "now \<le> now'" for now' k
  proof (cases "map_of (slots ar) k")
    case None
    then have "k \<notin> set (map fst (filter (\<lambda>e. \<not> stale now (snd e)) (slots ar)))"
      by (force simp: map_of_eq_None_iff)
    with None kn show ?thesis by (simp add: memo_def fresh_slot_def)
  next
    case (Some s)
    show ?thesis
    proof (cases "stale now s")
      case True
      have "k \<notin> set (map fst (filter (\<lambda>e. \<not> stale now (snd e)) (slots ar)))"
        using Some True map_of_distinct [OF dist(2)] by force
      with Some kn stale_mono [OF True le] show ?thesis by (simp add: memo_def fresh_slot_def)
    next
      case False
      then obtain p where p: "(k, s\<lparr>row_start := p\<rparr>) \<in> set kvs" "p + slot_len s \<le> length lg"
          "take (slot_len s) (drop p lg) = map (\<lambda>o'. row_start s + o') [0..<slot_len s]"
        using cp map_of_SomeD [OF Some] unfolding compacted_def placed_def add_0_left by blast
      have r: "row_start s + slot_len s \<le> length (all_rows ar)"
        using assms map_of_SomeD [OF Some] by (auto simp: arena_inv_def)
      have "slot_rows ?ar (s\<lparr>row_start := p\<rparr>) = map (nth (all_rows ar)) (take (slot_len s) (drop p lg))"
        by (simp add: slot_rows_def all take_map drop_map)
      also have "\<dots> = slot_rows ar s" using slot_rows_nth [OF r] p(3) by simp
      finally show ?thesis
        using Some map_of_distinct [OF dist(1) p(1)] by (simp add: memo_def fresh_slot_def)
    qed
  qed
  with C inv show ?thesis by auto
qed

subsection \<open>Store\<close>

text \<open>
  The memo a list of specs asks for: the first spec of the key, with its rows of the batch.
\<close>

fun asked :: "'r list \<Rightarrow> nat \<Rightarrow> ArenaStoreSpec list \<Rightarrow> string \<Rightarrow> ('r list \<times> int) option" where
  "asked batch off [] k = None"
| "asked batch off (sp # sps) k =
     (if spec_key sp = k then Some (take (spec_len sp) (drop off batch), spec_ref sp)
      else asked batch (off + spec_len sp) sps k)"

definition fresh_in :: "int \<Rightarrow> (string \<times> VgiMemoSlot) list \<Rightarrow> string \<Rightarrow> VgiMemoSlot option" where
  "fresh_in now m k = (case map_of m k of None \<Rightarrow> None | Some s \<Rightarrow> if stale now s then None else Some s)"

fun first_slot :: "int \<Rightarrow> bool \<Rightarrow> nat \<Rightarrow> nat \<Rightarrow> ArenaStoreSpec list \<Rightarrow> string \<Rightarrow> VgiMemoSlot option" where
  "first_slot ex never bb off [] k = None"
| "first_slot ex never bb off (sp # sps) k =
     (if spec_key sp = k
      then Some \<lparr>row_start = bb + off, slot_len = spec_len sp, validator_ref = spec_ref sp,
                 expires_at = ex, never_expires = never\<rparr>
      else first_slot ex never bb (off + spec_len sp) sps k)"

definition spec_total :: "ArenaStoreSpec list \<Rightarrow> nat" where
  "spec_total sps = sum_list (map spec_len sps)"

lemma erase_slot_props:
  "distinct (map fst m) \<Longrightarrow> distinct (map fst (erase_slot k m))"
  "map_of (erase_slot k m) = (map_of m)(k := None)"
  "set (erase_slot k m) \<subseteq> set m" "length (erase_slot k m) \<le> length m"
  by (auto simp: erase_slot_def distinct_map_filter map_of_filter_neq)

lemma live_rows_erase:
  assumes "distinct (map fst m)" "map_of m k = Some s"
  shows "live_rows (erase_slot k m) + slot_len s = live_rows m"
  using assms
proof (induction m)
  case (Cons e m)
  show ?case
  proof (cases "fst e = k")
    case True
    then have "erase_slot k m = m" using Cons.prems(1) by (auto simp: erase_slot_def filter_id_conv image_iff)
    then show ?thesis using True Cons.prems by (cases e) (simp add: erase_slot_def live_rows_def)
  next
    case False
    then show ?thesis using Cons by (cases e) (auto simp: erase_slot_def live_rows_def)
  qed
qed simp

text \<open>One step of the publication loop, by case.\<close>

definition slots_ok :: "nat \<Rightarrow> (string \<times> VgiMemoSlot) list \<Rightarrow> bool" where
  "slots_ok bound m \<longleftrightarrow> distinct (map fst m) \<and> (\<forall>e\<in>set m. row_start (snd e) + slot_len (snd e) \<le> bound)"

definition new_slot :: "int \<Rightarrow> bool \<Rightarrow> nat \<Rightarrow> ArenaStoreSpec \<Rightarrow> VgiMemoSlot" where
  "new_slot ex never start sp = \<lparr>row_start = start, slot_len = spec_len sp, validator_ref = spec_ref sp,
     expires_at = ex, never_expires = never\<rparr>"

definition put_slot :: "string \<Rightarrow> VgiMemoSlot \<Rightarrow> (string \<times> VgiMemoSlot) list \<Rightarrow> (string \<times> VgiMemoSlot) list" where
  "put_slot k s m = erase_slot k m @ [(k, s)]"

definition old_len :: "(string \<times> VgiMemoSlot) list \<Rightarrow> string \<Rightarrow> nat" where
  "old_len m k = (case map_of m k of None \<Rightarrow> 0 | Some old \<Rightarrow> slot_len old)"

lemma erase_absent: "map_of m k = None \<Longrightarrow> erase_slot k m = m"
  by (force simp: erase_slot_def map_of_eq_None_iff filter_id_conv)

lemma put_slot_ok:
  assumes "slots_ok bound m" "row_start s + slot_len s \<le> bound"
  shows "slots_ok bound (put_slot k s m)" "live_rows (put_slot k s m) + old_len m k = live_rows m + slot_len s"
    "length (put_slot k s m) \<le> Suc (length m)"
    "fresh_in now (put_slot k s m) k' =
      (if k' = k then (if stale now s then None else Some s) else fresh_in now m k')"
proof -
  show "slots_ok bound (put_slot k s m)"
    using assms erase_slot_props(1) [of m k] erase_slot_props(3) [of k m] by (auto simp: slots_ok_def put_slot_def erase_slot_def)
  show "live_rows (put_slot k s m) + old_len m k = live_rows m + slot_len s"
    using assms(1) live_rows_erase [of m k] erase_absent [of m k]
    by (cases "map_of m k") (auto simp: put_slot_def old_len_def live_rows_def slots_ok_def)
  show "length (put_slot k s m) \<le> Suc (length m)"
    using erase_slot_props(4) [of k m] by (simp add: put_slot_def)
  show "fresh_in now (put_slot k s m) k' =
      (if k' = k then (if stale now s then None else Some s) else fresh_in now m k')"
    by (auto simp: fresh_in_def put_slot_def map_of_append erase_slot_props(2) map_add_def split: option.splits)
qed

lemma publish_step:
  "fresh_in now sl (spec_key sp) = Some s \<Longrightarrow>
     publish backend now ex never bb off (sp # sps) (sl, dead, news) =
       publish backend now ex never bb (off + spec_len sp) sps (sl, dead + spec_len sp, news)"
  "fresh_in now sl (spec_key sp) = None \<Longrightarrow> length sl < kMaxSlots \<Longrightarrow>
     \<exists>news'. publish backend now ex never bb off (sp # sps) (sl, dead, news) =
       publish backend now ex never bb (off + spec_len sp) sps
         (put_slot (spec_key sp) (new_slot ex never (bb + off) sp) sl, dead + old_len sl (spec_key sp), news')"
proof -
  show "fresh_in now sl (spec_key sp) = Some s \<Longrightarrow>
     publish backend now ex never bb off (sp # sps) (sl, dead, news) =
       publish backend now ex never bb (off + spec_len sp) sps (sl, dead + spec_len sp, news)"
    by (auto simp: fresh_in_def Let_def split: option.splits if_splits)
  assume "fresh_in now sl (spec_key sp) = None" "length sl < kMaxSlots"
  moreover have "\<not> kMaxSlots \<le> length (erase_slot (spec_key sp) sl)"
    using calculation(2) erase_slot_props(4) [of "spec_key sp" sl] by simp
  ultimately show "\<exists>news'. publish backend now ex never bb off (sp # sps) (sl, dead, news) =
       publish backend now ex never bb (off + spec_len sp) sps
         (put_slot (spec_key sp) (new_slot ex never (bb + off) sp) sl, dead + old_len sl (spec_key sp), news')"
    using erase_absent [of sl "spec_key sp"]
    by (auto simp: fresh_in_def Let_def put_slot_def new_slot_def old_len_def split: option.splits if_splits)
qed

definition published ::
  "nat \<Rightarrow> int \<Rightarrow> int \<Rightarrow> bool \<Rightarrow> nat \<Rightarrow> nat \<Rightarrow> ArenaStoreSpec list \<Rightarrow> (string \<times> VgiMemoSlot) list \<Rightarrow> nat \<Rightarrow>
     (string \<times> VgiMemoSlot) list \<Rightarrow> nat \<Rightarrow> bool" where
  "published bound now ex never bb off sps sl dead sl' dead' \<longleftrightarrow>
     slots_ok bound sl' \<and> live_rows sl' + dead' = live_rows sl + dead + spec_total sps \<and>
     (\<forall>k. fresh_in now sl' k = (case fresh_in now sl k of Some s \<Rightarrow> Some s
        | None \<Rightarrow> if never \<or> now < ex then first_slot ex never bb off sps k else None))"

lemma publish_spec:
  assumes "slots_ok bound sl" "bb + off + spec_total sps \<le> bound" "length sl + length sps \<le> kMaxSlots"
  shows "case publish backend now ex never bb off sps (sl, dead, news) of (sl', dead', news') \<Rightarrow>
    published bound now ex never bb off sps sl dead sl' dead'"
  using assms
proof (induction sps arbitrary: sl off dead news)
  case Nil
  then show ?case by (auto simp: published_def spec_total_def split: option.split)
next
  case (Cons sp sps)
  let ?k = "spec_key sp" and ?new = "new_slot ex never (bb + off) sp"
  have b: "bb + (off + spec_len sp) + spec_total sps \<le> bound" "row_start ?new + slot_len ?new \<le> bound"
    using Cons.prems(2) by (simp_all add: spec_total_def new_slot_def)
  show ?case
  proof (cases "fresh_in now sl ?k")
    case (Some s)
    have "published bound now ex never bb off (sp # sps) sl dead sl' dead'"
      if "published bound now ex never bb (off + spec_len sp) sps sl (dead + spec_len sp) sl' dead'" for sl' dead'
      unfolding published_def
    proof (intro conjI allI)
      fix k
      show "fresh_in now sl' k = (case fresh_in now sl k of Some s \<Rightarrow> Some s
          | None \<Rightarrow> if never \<or> now < ex then first_slot ex never bb off (sp # sps) k else None)"
        using that Some unfolding published_def by (cases "k = ?k"; cases "fresh_in now sl k") simp_all
    qed (use that in \<open>simp_all add: published_def spec_total_def\<close>)
    with Cons.IH [OF Cons.prems(1) b(1), of "dead + spec_len sp" news] Cons.prems(3) show ?thesis
      unfolding publish_step(1) [where s = s, OF Some] by (simp split: prod.splits)
  next
    case None
    note put = put_slot_ok [OF Cons.prems(1) b(2), where k = ?k]
    have "length sl < kMaxSlots" using Cons.prems(3) by simp
    from publish_step(2) [OF None this] obtain news' where
      step: "publish backend now ex never bb off (sp # sps) (sl, dead, news) =
        publish backend now ex never bb (off + spec_len sp) sps (put_slot ?k ?new sl, dead + old_len sl ?k, news')"
      by blast
    have st: "stale now ?new \<longleftrightarrow> \<not> (never \<or> now < ex)" by (auto simp: stale_def new_slot_def)
    have fr: "fresh_in now (put_slot ?k ?new sl) k =
        (if k = ?k then (if never \<or> now < ex then Some ?new else None) else fresh_in now sl k)" for k
      using put(4) [of now k] st by auto
    have len: "length (put_slot ?k ?new sl) + length sps \<le> kMaxSlots" using put(3) Cons.prems(3) by simp
    have "published bound now ex never bb off (sp # sps) sl dead sl' dead'"
      if "published bound now ex never bb (off + spec_len sp) sps (put_slot ?k ?new sl) (dead + old_len sl ?k) sl' dead'"
      for sl' dead'
      unfolding published_def
    proof (intro conjI allI)
      fix k
      show "fresh_in now sl' k = (case fresh_in now sl k of Some s \<Rightarrow> Some s
          | None \<Rightarrow> if never \<or> now < ex then first_slot ex never bb off (sp # sps) k else None)"
        using that None unfolding published_def fr
        by (cases "k = ?k"; cases "fresh_in now sl k") (simp_all add: new_slot_def)
      show "live_rows sl' + dead' = live_rows sl + dead + spec_total (sp # sps)"
        using that put(2) by (simp add: published_def spec_total_def new_slot_def)
    qed (use that in \<open>simp add: published_def\<close>)
    with Cons.IH [OF put(1) b(1) len, of "dead + old_len sl ?k" news'] show ?thesis
      unfolding step by (simp split: prod.splits)
  qed
qed

lemma append_batch_spec:
  assumes "counts_ok ar"
  shows "counts_ok (append_batch batch ar)" "all_rows (append_batch batch ar) = all_rows ar @ rows_of batch"
    "base_rows (append_batch batch ar) + (tail_rows (append_batch batch ar) - length (rows_of batch)) =
       length (all_rows ar)"
    "slots (append_batch batch ar) = slots ar" "dead_rows (append_batch batch ar) = dead_rows ar"
    "validators (append_batch batch ar) = validators ar" "has_backend (append_batch batch ar) = has_backend ar"
  using assms
  by (auto simp: append_batch_def counts_ok_def all_rows_def rows_of_def ConcatBatches_def Let_def split: option.splits)

lemma first_slot_asked:
  assumes "off + spec_total sps \<le> length batch"
  shows "map_option (\<lambda>s. (take (slot_len s) (drop (row_start s) (old @ batch)), validator_ref s))
      (first_slot ex never (length old) off sps k) = asked batch off sps k"
  using assms by (induction sps arbitrary: off) (auto simp: spec_total_def)

lemma Store_unfold:
  assumes "arena_inv ar" "spec_total specs = length (rows_of batch)" "length (slots ar) + length specs \<le> kMaxSlots"
  obtains sl dead news where
    "publish (has_backend ar) now ex never (length (all_rows ar)) 0 specs (slots ar, dead_rows ar, []) = (sl, dead, news)"
    "arena_inv ((append_batch batch ar)\<lparr>slots := sl, dead_rows := dead\<rparr>)"
    "\<And>k. memo ((append_batch batch ar)\<lparr>slots := sl, dead_rows := dead\<rparr>) now k =
      (case memo ar now k of Some v \<Rightarrow> Some v
       | None \<Rightarrow> if never \<or> now < ex then asked (rows_of batch) 0 specs k else None)"
proof -
  let ?b = "rows_of batch" and ?old = "all_rows ar"
  have c: "counts_ok ar" using assms(1) by (simp add: arena_inv_def)
  note ab = append_batch_spec [OF c, of batch]
  have ok: "slots_ok (length ?old + length ?b) (slots ar)"
    using assms(1) by (force simp: arena_inv_def slots_ok_def)
  obtain sl dead news where
    p: "publish (has_backend ar) now ex never (length ?old) 0 specs (slots ar, dead_rows ar, []) = (sl, dead, news)"
    by (metis prod_cases3)
  have pb: "published (length ?old + length ?b) now ex never (length ?old) 0 specs (slots ar) (dead_rows ar) sl dead"
    using publish_spec [OF ok, where bb = "length ?old" and off = 0 and sps = specs and backend = "has_backend ar" and
      now = now and ex = ex and never = never and dead = "dead_rows ar" and news = "[]"] assms(2,3) p
    by simp
  let ?ar2 = "(append_batch batch ar)\<lparr>slots := sl, dead_rows := dead\<rparr>"
  have all: "all_rows ?ar2 = ?old @ ?b" using ab(2) by (simp add: all_rows_def)
  have inv: "arena_inv ?ar2"
    using pb ab(1) assms(1,2) by (auto simp: arena_inv_def published_def slots_ok_def all counts_ok_def)
  have old: "slot_rows ?ar2 s = slot_rows ar s" if "fresh_slot ar now k = Some s" for k s
    using fresh_slot_range [OF assms(1) that] by (simp add: slot_rows_def all)
  have "memo ?ar2 now k = (case memo ar now k of Some v \<Rightarrow> Some v
       | None \<Rightarrow> if never \<or> now < ex then asked ?b 0 specs k else None)" for k
  proof -
    have "fresh_slot ?ar2 now k = (case fresh_slot ar now k of Some s \<Rightarrow> Some s
        | None \<Rightarrow> if never \<or> now < ex then first_slot ex never (length ?old) 0 specs k else None)"
      using pb by (simp add: published_def fresh_slot_def fresh_in_def)
    then show ?thesis
      using old [of k] first_slot_asked [of 0 specs ?b ?old ex never k] assms(2)
      by (cases "fresh_slot ar now k") (auto simp: memo_def slot_rows_def all)
  qed
  with p inv show ?thesis by (rule that)
qed

text \<open>
  C19. Storing publishes exactly what was missing. On a well-formed arena with room in the slot
  table, \<^verbatim>\<open>Store\<close> succeeds and leaves a well-formed arena in which every memo that was fresh is
  unchanged (the first writer wins), and every other key has the memo of its first spec, with
  exactly the rows laid out for it in the batch; stale memos are replaced, nothing else
  appears, and a compaction that runs on the way changes none of this at any later time.
\<close>

theorem Store_correct:
  assumes "arena_inv ar" "spec_total specs = length (rows_of batch)" "length (slots ar) + length specs \<le> kMaxSlots"
  shows "\<exists>delta ar' ps. Store buffer_size to_ipc now now_unix steady_now batch specs ex never ar = Some (delta, ar', ps) \<and>
    arena_inv ar' \<and> footprint ar' = footprint ar + delta \<and>
    (\<forall>k. memo ar' now k = (case memo ar now k of Some v \<Rightarrow> Some v
       | None \<Rightarrow> if never \<or> now < ex then asked (rows_of batch) 0 specs k else None))"
proof -
  obtain sl dead news where
    p: "publish (has_backend ar) now ex never (length (all_rows ar)) 0 specs (slots ar, dead_rows ar, []) = (sl, dead, news)"
      "arena_inv ((append_batch batch ar)\<lparr>slots := sl, dead_rows := dead\<rparr>)"
      "\<And>k. memo ((append_batch batch ar)\<lparr>slots := sl, dead_rows := dead\<rparr>) now k =
        (case memo ar now k of Some v \<Rightarrow> Some v
         | None \<Rightarrow> if never \<or> now < ex then asked (rows_of batch) 0 specs k else None)"
    using Store_unfold [OF assms] by blast
  let ?ar2 = "(append_batch batch ar)\<lparr>slots := sl, dead_rows := dead\<rparr>"
  have c: "counts_ok ar" using assms(1) by (simp add: arena_inv_def)
  obtain ar3 where ar3: "(if ShouldCompactLocked ?ar2 then CompactLocked now ?ar2 else Some ?ar2) = Some ar3"
      "arena_inv ar3" "\<And>k. memo ar3 now k = memo ?ar2 now k"
    using Compact_correct [OF p(2), of now] p(2) by (cases "ShouldCompactLocked ?ar2") auto
  have f: "arena_inv (ar3\<lparr>footprint := x\<rparr>)" "memo (ar3\<lparr>footprint := x\<rparr>) now k = memo ar3 now k" for x k
    using ar3(2) by (simp_all add: arena_inv_def counts_ok_def all_rows_def memo_def fresh_slot_def slot_rows_def)
  show ?thesis
    using p ar3 f append_batch_spec [OF c, of batch] by (simp add: Store_def Let_def)
qed

theorem Store_correct_witness:
  "arena_inv sample_arena \<and> spec_total sample_specs = length (rows_of (Some [50, 60 :: nat])) \<and>
   length (slots sample_arena) + length sample_specs \<le> kMaxSlots \<and>
   (\<exists>delta ar' ps. Store (\<lambda>rows. int (sum_list rows)) (map char_of) 7 0 0 (Some [50, 60]) sample_specs 200 False sample_arena
        = Some (delta, ar', ps) \<and> arena_inv ar' \<and>
      memo ar' 7 ''a'' = Some ([10, 20], 0) \<and> memo ar' 7 ''b'' = Some ([50], 0) \<and>
      memo ar' 7 ''c'' = Some ([], - 1) \<and> memo ar' 7 ''d'' = None)"
proof -
  have h: "spec_total sample_specs = length (rows_of (Some [50, 60 :: nat]))"
      "length (slots sample_arena) + length sample_specs \<le> kMaxSlots"
    by (simp_all add: spec_total_def sample_specs_def rows_of_def sample_arena_def kMaxSlots_def)
  show ?thesis
    using Store_correct [OF sample_arena_inv h, of "\<lambda>rows. int (sum_list rows)" "map char_of" 7 0 0 200 False]
      sample_arena_inv h
    by (fastforce simp: sample_memo sample_specs_def rows_of_def)
qed

section \<open>A full slot table, and the space held\<close>

lemma publish_step_full:
  "map_of sl (spec_key sp) = None \<Longrightarrow> kMaxSlots \<le> length sl \<Longrightarrow>
     publish backend now ex never bb off (sp # sps) (sl, dead, news) =
       publish backend now ex never bb (off + spec_len sp) sps (sl, dead + spec_len sp, news)"
  by (simp add: Let_def)

lemma length_erase: "map_of m k = Some s \<Longrightarrow> length (erase_slot k m) < length m"
  unfolding erase_slot_def using map_of_SomeD by (fastforce intro!: length_filter_less)

lemma publish_step_replace:
  assumes "map_of sl (spec_key sp) = Some old" "stale now old" "length sl \<le> kMaxSlots"
  shows "\<exists>news'. publish backend now ex never bb off (sp # sps) (sl, dead, news) =
       publish backend now ex never bb (off + spec_len sp) sps
         (put_slot (spec_key sp) (new_slot ex never (bb + off) sp) sl, dead + old_len sl (spec_key sp), news')"
    "length (put_slot (spec_key sp) (new_slot ex never (bb + off) sp) sl) \<le> kMaxSlots"
  using assms length_erase [OF assms(1)] by (auto simp: Let_def put_slot_def new_slot_def old_len_def)

lemma Compact_shape:
  assumes "CompactLocked now ar = Some ar'"
  shows "tail_rows ar' = 0" "length (slots ar') \<le> length (slots ar)"
proof -
  obtain lg kvs c where cs: "compact_slots now 0 (slots ar) = (lg, kvs, c)" by (metis prod_cases3)
  then have "length kvs \<le> length (slots ar)"
    using compact_slots_spec [of now 0 "slots ar"] by (metis compacted_def length_filter_le length_map old.prod.case)
  with assms cs show "tail_rows ar' = 0" "length (slots ar') \<le> length (slots ar)"
    by (auto simp: CompactLocked_def split: option.splits if_splits)
qed

lemma compact_or_keep:
  assumes "arena_inv ar"
  shows "\<exists>ar3. (if ShouldCompactLocked ar then CompactLocked now ar else Some ar) = Some ar3 \<and>
    arena_inv ar3 \<and> (\<forall>k. memo ar3 now k = memo ar now k) \<and> length (slots ar3) \<le> length (slots ar) \<and>
    (dead_rows ar3 * 2 < base_rows ar3 + tail_rows ar3 \<or> base_rows ar3 + tail_rows ar3 = 0) \<and>
    (tail_rows ar3 = 0 \<or> tail_rows ar3 * 2 < base_rows ar3)"
proof (cases "ShouldCompactLocked ar")
  case True
  obtain ar3 where "CompactLocked now ar = Some ar3" "arena_inv ar3" "dead_rows ar3 = 0"
      "\<forall>k. memo ar3 now k = memo ar now k"
    using Compact_correct [OF assms, of now] by blast
  moreover from Compact_shape [OF this(1)] have "tail_rows ar3 = 0" "length (slots ar3) \<le> length (slots ar)" .
  ultimately show ?thesis using True by auto
next
  case False
  then show ?thesis using assms by (auto simp: ShouldCompactLocked_def split: if_splits)
qed

text \<open>The step taken, whatever the state of the table.\<close>

lemma publish_cases:
  assumes "length sl \<le> kMaxSlots"
  obtains (skip) "publish backend now ex never bb off (sp # sps) (sl, dead, news) =
       publish backend now ex never bb (off + spec_len sp) sps (sl, dead + spec_len sp, news)"
  | (insert) news' where "publish backend now ex never bb off (sp # sps) (sl, dead, news) =
       publish backend now ex never bb (off + spec_len sp) sps
         (put_slot (spec_key sp) (new_slot ex never (bb + off) sp) sl, dead + old_len sl (spec_key sp), news')"
      "fresh_in now sl (spec_key sp) = None"
      "length (put_slot (spec_key sp) (new_slot ex never (bb + off) sp) sl) \<le> kMaxSlots"
proof (cases "map_of sl (spec_key sp)")
  case None
  then have f: "fresh_in now sl (spec_key sp) = None" by (simp add: fresh_in_def)
  show ?thesis
  proof (cases "length sl < kMaxSlots")
    case True
    then have "length (put_slot (spec_key sp) (new_slot ex never (bb + off) sp) sl) \<le> kMaxSlots"
      using erase_absent [OF None] by (simp add: put_slot_def)
    with publish_step(2) [OF f True] f show ?thesis using insert by blast
  next
    case False
    then show ?thesis using None publish_step_full skip by simp
  qed
next
  case (Some old)
  show ?thesis
  proof (cases "stale now old")
    case True
    then have "fresh_in now sl (spec_key sp) = None" using Some by (simp add: fresh_in_def)
    with publish_step_replace [OF Some True assms] show ?thesis using insert by blast
  next
    case False
    then have "fresh_in now sl (spec_key sp) = Some old" using Some by (simp add: fresh_in_def)
    then show ?thesis using publish_step(1) skip by blast
  qed
qed

definition kept :: "nat \<Rightarrow> int \<Rightarrow> nat \<Rightarrow> (string \<times> VgiMemoSlot) list \<Rightarrow> nat \<Rightarrow> (string \<times> VgiMemoSlot) list \<Rightarrow> nat \<Rightarrow> bool" where
  "kept bound now n sl dead sl' dead' \<longleftrightarrow>
     slots_ok bound sl' \<and> live_rows sl' + dead' = live_rows sl + dead + n \<and> length sl' \<le> kMaxSlots \<and>
     (\<forall>k s. fresh_in now sl k = Some s \<longrightarrow> fresh_in now sl' k = Some s)"

lemma publish_kept:
  assumes "slots_ok bound sl" "bb + off + spec_total sps \<le> bound" "length sl \<le> kMaxSlots"
  shows "case publish backend now ex never bb off sps (sl, dead, news) of (sl', dead', news') \<Rightarrow>
    kept bound now (spec_total sps) sl dead sl' dead'"
  using assms
proof (induction sps arbitrary: sl off dead news)
  case Nil
  then show ?case by (simp add: kept_def spec_total_def)
next
  case (Cons sp sps)
  let ?k = "spec_key sp" and ?new = "new_slot ex never (bb + off) sp"
  have b: "bb + (off + spec_len sp) + spec_total sps \<le> bound" "row_start ?new + slot_len ?new \<le> bound"
    using Cons.prems(2) by (simp_all add: spec_total_def new_slot_def)
  from Cons.prems(3) show ?case
  proof (cases rule: publish_cases [where sp = sp and now = now and ex = ex and never = never and bb = bb and off = off
      and backend = backend and sps = sps and dead = dead and news = news])
    case skip
    then show ?thesis
      using Cons.IH [OF Cons.prems(1) b(1) Cons.prems(3), of "dead + spec_len sp" news]
      by (auto simp del: publish.simps simp: kept_def spec_total_def split: prod.splits)
  next
    case (insert news')
    note put = put_slot_ok [OF Cons.prems(1) b(2), where k = ?k]
    have fr: "fresh_in now (put_slot ?k ?new sl) k = Some s" if "fresh_in now sl k = Some s" for k s
      using put(4) [of now k] that insert(2) by auto
    have "kept bound now (spec_total (sp # sps)) sl dead sl' dead'"
      if "kept bound now (spec_total sps) (put_slot ?k ?new sl) (dead + old_len sl ?k) sl' dead'" for sl' dead'
      using that fr put(2) by (auto simp: kept_def spec_total_def new_slot_def)
    then show ?thesis
      using Cons.IH [OF put(1) b(1) insert(3), of "dead + old_len sl ?k" news']
      unfolding insert(1) by (simp split: prod.splits)
  qed
qed

text \<open>
  C20. What an arena holds is bounded after every store. \<^verbatim>\<open>Store\<close> always returns, also when the
  slot table is full; the arena stays well formed, the table stays within \<^verbatim>\<open>kMaxSlots\<close>, less than
  half of the rows held are dead, the tail is empty or less than half the base, and no memo
  that was fresh is lost.
\<close>

theorem Store_bounds:
  assumes "arena_inv ar" "spec_total specs = length (rows_of batch)" "length (slots ar) \<le> kMaxSlots"
  shows "\<exists>delta ar' ps. Store buffer_size to_ipc now now_unix steady_now batch specs ex never ar = Some (delta, ar', ps) \<and>
    arena_inv ar' \<and> length (slots ar') \<le> kMaxSlots \<and>
    (dead_rows ar' * 2 < base_rows ar' + tail_rows ar' \<or> base_rows ar' + tail_rows ar' = 0) \<and>
    (tail_rows ar' = 0 \<or> tail_rows ar' * 2 < base_rows ar') \<and>
    (\<forall>k v. memo ar now k = Some v \<longrightarrow> memo ar' now k = Some v)"
proof -
  let ?b = "rows_of batch" and ?old = "all_rows ar"
  have c: "counts_ok ar" using assms(1) by (simp add: arena_inv_def)
  note ab = append_batch_spec [OF c, of batch]
  have ok: "slots_ok (length ?old + length ?b) (slots ar)"
    using assms(1) by (force simp: arena_inv_def slots_ok_def)
  obtain sl dead news where
    p: "publish (has_backend ar) now ex never (length ?old) 0 specs (slots ar, dead_rows ar, []) = (sl, dead, news)"
    by (metis prod_cases3)
  have k: "kept (length ?old + length ?b) now (length ?b) (slots ar) (dead_rows ar) sl dead"
    using publish_kept [OF ok, where bb = "length ?old" and off = 0 and sps = specs and backend = "has_backend ar" and
      now = now and ex = ex and never = never and dead = "dead_rows ar" and news = "[]"] assms(2,3) p
    by simp
  let ?ar2 = "(append_batch batch ar)\<lparr>slots := sl, dead_rows := dead\<rparr>"
  have all: "all_rows ?ar2 = ?old @ ?b" using ab(2) by (simp add: all_rows_def)
  have inv: "arena_inv ?ar2"
    using k ab(1) assms(1,2) by (auto simp: arena_inv_def kept_def slots_ok_def all counts_ok_def)
  have mem: "memo ?ar2 now x = Some v" if "memo ar now x = Some v" for x v
    using that k fresh_slot_range [OF assms(1), of now x]
    by (auto simp: memo_def slot_rows_def all kept_def fresh_slot_def fresh_in_def)
  obtain ar3 where ar3: "(if ShouldCompactLocked ?ar2 then CompactLocked now ?ar2 else Some ?ar2) = Some ar3"
      "arena_inv ar3" "\<And>k. memo ar3 now k = memo ?ar2 now k" "length (slots ar3) \<le> kMaxSlots"
      "dead_rows ar3 * 2 < base_rows ar3 + tail_rows ar3 \<or> base_rows ar3 + tail_rows ar3 = 0"
      "tail_rows ar3 = 0 \<or> tail_rows ar3 * 2 < base_rows ar3"
    using compact_or_keep [OF inv, of now] k by (force simp: kept_def)
  have f: "arena_inv (ar3\<lparr>footprint := x\<rparr>)" "memo (ar3\<lparr>footprint := x\<rparr>) now k = memo ar3 now k" for x k
    using ar3(2) by (simp_all add: arena_inv_def counts_ok_def all_rows_def memo_def fresh_slot_def slot_rows_def)
  show ?thesis
    using p ar3 f mem ab by (simp add: Store_def Let_def)
qed

theorem Store_bounds_witness:
  "arena_inv sample_arena \<and> spec_total sample_specs = length (rows_of (Some [50, 60 :: nat])) \<and>
   length (slots sample_arena) \<le> kMaxSlots \<and>
   (\<exists>delta ar' ps. Store (\<lambda>rows. int (sum_list rows)) (map char_of) 7 0 0 (Some [50, 60]) sample_specs 200 False sample_arena
        = Some (delta, ar', ps) \<and> arena_inv ar' \<and> length (slots ar') \<le> kMaxSlots \<and>
      (tail_rows ar' = 0 \<or> tail_rows ar' * 2 < base_rows ar') \<and> memo ar' 7 ''a'' = Some ([10, 20], 0))"
proof -
  have h: "spec_total sample_specs = length (rows_of (Some [50, 60 :: nat]))" "length (slots sample_arena) \<le> kMaxSlots"
    by (simp_all add: spec_total_def sample_specs_def rows_of_def sample_arena_def kMaxSlots_def)
  show ?thesis
    using Store_bounds [OF sample_arena_inv h, of "\<lambda>rows. int (sum_list rows)" "map char_of" 7 0 0 200 False]
      sample_arena_inv h sample_memo
    by fastforce
qed

section \<open>What is persisted is what is hydrated\<close>

lemma find_validator_Some: "find_validator v vs = Some i \<Longrightarrow> i < length vs \<and> vs ! i = v"
  by (auto simp: find_validator_def find_Some_iff)

lemma ResolveValidator_spec:
  assumes "ResolveValidator v ar = (ref, ar')"
  shows "GetValidator ref ar' = v" "ref < int (length (validators ar'))"
    "r < int (length (validators ar)) \<Longrightarrow> r < int (length (validators ar')) \<and> GetValidator r ar' = GetValidator r ar"
    "slots ar' = slots ar"
    "ar' = ar\<lparr>validators := validators ar'\<rparr>"
  using assms find_validator_Some [of v "validators ar"]
  by (auto simp: ResolveValidator_def GetValidator_def nth_append split: if_splits option.splits)

lemma GetValidator_update [simp]:
  "GetValidator r (ar\<lparr>slots := x\<rparr>) = GetValidator r ar"
  "GetValidator r (ar\<lparr>base := y, base_rows := n\<rparr>) = GetValidator r ar"
  "GetValidator r (ar\<lparr>footprint := f\<rparr>) = GetValidator r ar"
  by (simp_all add: GetValidator_def)

text \<open>How one persisted memo sits in the arena being hydrated.\<close>

definition sits :: "(string \<Rightarrow> 'r list) \<Rightarrow> int \<Rightarrow> int \<Rightarrow> 'r arena \<Rightarrow> 'r list \<Rightarrow> PersistedSlot \<Rightarrow> VgiMemoSlot \<Rightarrow> bool" where
  "sits from_ipc steady_now now_unix ar rows p s \<longleftrightarrow>
     row_start s + slot_len s \<le> length rows \<and>
     take (slot_len s) (drop (row_start s) rows) = from_ipc (ipc p) \<and>
     never_expires s = (expires_unix p < 0) \<and>
     (\<not> never_expires s \<longrightarrow> expires_at s = steady_now + (expires_unix p - now_unix) * 1000000000) \<and>
     validator_ref s < int (length (validators ar)) \<and> GetValidator (validator_ref s) ar = pvalidator p"

definition hydrated ::
  "(string \<Rightarrow> 'r list) \<Rightarrow> int \<Rightarrow> int \<Rightarrow> PersistedSlot list \<Rightarrow> 'r arena \<times> 'r list list \<times> nat \<Rightarrow> bool" where
  "hydrated from_ipc steady_now now_unix ps st \<longleftrightarrow> (case st of (ar, batches, cursor) \<Rightarrow>
     cursor = length (concat batches) \<and> live_rows (slots ar) = cursor \<and>
     map fst (slots ar) = map input_blob ps \<and> tail ar = None \<and> tail_rows ar = 0 \<and> dead_rows ar = 0 \<and>
     (\<forall>i<length ps. sits from_ipc steady_now now_unix ar (concat batches) (ps ! i) (snd (slots ar ! i))))"

lemma sits_later:
  assumes "sits from_ipc steady_now now_unix ar rows p s"
    and "\<And>r. r < int (length (validators ar)) \<Longrightarrow> r < int (length (validators ar')) \<and> GetValidator r ar' = GetValidator r ar"
  shows "sits from_ipc steady_now now_unix ar' (rows @ more') p s"
  using assms(1) assms(2) [of "validator_ref s"] by (auto simp: sits_def)

lemma hydrate_step:
  assumes "hydrated from_ipc steady_now now_unix ps st" "input_blob p \<notin> set (map input_blob ps)"
    and "length (from_ipc (ipc p)) = nrows p"
  shows "hydrated from_ipc steady_now now_unix (ps @ [p]) (hydrate_slot from_ipc steady_now now_unix p st)"
proof -
  obtain ar batches cursor where st: "st = (ar, batches, cursor)" by (metis prod_cases3)
  obtain ref ar1 where r: "ResolveValidator (pvalidator p) ar = (ref, ar1)" by fastforce
  note R = ResolveValidator_spec [OF r]
  let ?b = "from_ipc (ipc p)" and ?never = "expires_unix p < 0"
  define s where "s = \<lparr>row_start = cursor, slot_len = nrows p, validator_ref = ref,
     expires_at = (if ?never then steady_now else steady_now + (expires_unix p - now_unix) * 1000000000),
     never_expires = ?never\<rparr>"
  let ?ar2 = "ar1\<lparr>slots := slots ar @ [(input_blob p, s)]\<rparr>"
  define bs where "bs = (if ?b \<noteq> [] then batches @ [?b] else batches)"
  have h: "cursor = length (concat batches)" "live_rows (slots ar) = cursor" "map fst (slots ar) = map input_blob ps"
      "tail ar = None" "tail_rows ar = 0" "dead_rows ar = 0"
      "\<And>i. i < length ps \<Longrightarrow> sits from_ipc steady_now now_unix ar (concat batches) (ps ! i) (snd (slots ar ! i))"
    using assms(1) by (simp_all add: st hydrated_def)
  have "map_of (slots ar1) (input_blob p) = None"
    using assms(2) h(3) by (metis R(4) list.set_map map_of_eq_None_iff)
  then have step: "hydrate_slot from_ipc steady_now now_unix p st = (?ar2, bs, cursor + nrows p)"
    by (simp add: hydrate_slot_def st r R(4) Let_def s_def bs_def)
  have c: "concat bs = concat batches @ ?b" by (simp add: bs_def)
  have len: "length (slots ar) = length ps" using arg_cong [OF h(3), of length] by simp
  have f: "tail ar1 = tail ar" "tail_rows ar1 = tail_rows ar" "dead_rows ar1 = dead_rows ar"
    by (subst R(5), simp)+
  have v: "r < int (length (validators ?ar2)) \<and> GetValidator r ?ar2 = GetValidator r ar"
    if "r < int (length (validators ar))" for r
    using R(3) [OF that] by simp
  have new: "sits from_ipc steady_now now_unix ?ar2 (concat batches @ ?b) p s"
    using R(1,2) assms(3) h(1) by (simp add: sits_def s_def)
  have "sits from_ipc steady_now now_unix ?ar2 (concat bs) ((ps @ [p]) ! i) (snd (slots ?ar2 ! i))"
    if "i < length (ps @ [p])" for i
  proof (cases "i < length ps")
    case True
    then show ?thesis using sits_later [OF h(7) v, of i "?b"] len by (simp add: c nth_append)
  next
    case False
    then show ?thesis using that new len by (simp add: c nth_append)
  qed
  then show ?thesis
    using h f assms(3) unfolding step hydrated_def by (simp add: live_rows_def c s_def)
qed

lemma hydrate_all:
  assumes "distinct (map input_blob ps)" "\<forall>p\<in>set ps. length (from_ipc (ipc p)) = nrows p"
  shows "hydrated from_ipc steady_now now_unix ps
    (fold (hydrate_slot from_ipc steady_now now_unix) ps (new_arena b, [], 0))"
  using assms
proof (induction ps rule: rev_induct)
  case Nil
  then show ?case by (simp add: hydrated_def new_arena_def live_rows_def)
next
  case (snoc p ps)
  then show ?case using hydrate_step [of from_ipc steady_now now_unix ps _ p] by simp
qed

definition served :: "'r arena \<Rightarrow> int \<Rightarrow> string \<Rightarrow> ('r list \<times> ArenaValidator) option" where
  "served ar t k = map_option (\<lambda>v. (fst v, GetValidator (snd v) ar)) (memo ar t k)"

lemma LoadFromBackend_served:
  assumes "distinct (map input_blob ps)" "\<forall>p\<in>set ps. length (from_ipc (ipc p)) = nrows p"
    and "LoadFromBackend buffer_size from_ipc steady_now now_unix (Some ps) (new_arena True) = (f, ar)"
  shows "arena_inv ar"
    "served ar t k = (case map_of (map (\<lambda>p. (input_blob p, p)) ps) k of
       None \<Rightarrow> None
     | Some p \<Rightarrow> if expires_unix p < 0 \<or> t < steady_now + (expires_unix p - now_unix) * 1000000000
                 then Some (from_ipc (ipc p), pvalidator p) else None)"
proof -
  obtain ar1 batches cursor where
    fo: "fold (hydrate_slot from_ipc steady_now now_unix) ps (new_arena True, [], 0) = (ar1, batches, cursor)"
    by (metis prod_cases3)
  have H: "hydrated from_ipc steady_now now_unix ps (ar1, batches, cursor)"
    using hydrate_all [OF assms(1,2), of steady_now now_unix True] by (simp add: fo)
  have ar: "all_rows ar = concat batches" "slots ar = slots ar1" "counts_ok ar" "dead_rows ar = 0"
      "GetValidator r ar = GetValidator r ar1" for r
    using assms(3) H fo by (auto simp: LoadFromBackend_def Let_def all_rows_def rows_of_def new_arena_def counts_ok_def
      hydrated_def ConcatBatches_def split: if_splits)
  have len: "length (slots ar1) = length ps" and fst': "map fst (slots ar1) = map input_blob ps"
    using H by (auto simp: hydrated_def dest: arg_cong [where f = length])
  have dist: "distinct (map fst (slots ar))" using assms(1) fst' ar(2) by simp
  have sit: "sits from_ipc steady_now now_unix ar1 (concat batches) (ps ! i) (snd (slots ar1 ! i))" if "i < length ps" for i
    using H that by (simp add: hydrated_def)
  have "row_start (snd e) + slot_len (snd e) \<le> length (concat batches)" if "e \<in> set (slots ar)" for e
    using that sit len ar(2) by (metis in_set_conv_nth sits_def)
  then show "arena_inv ar"
    using H dist ar by (simp add: arena_inv_def hydrated_def)
  show "served ar t k = (case map_of (map (\<lambda>p. (input_blob p, p)) ps) k of
       None \<Rightarrow> None
     | Some p \<Rightarrow> if expires_unix p < 0 \<or> t < steady_now + (expires_unix p - now_unix) * 1000000000
                 then Some (from_ipc (ipc p), pvalidator p) else None)"
  proof (cases "k \<in> set (map input_blob ps)")
    case False
    then have "map_of (map (\<lambda>p. (input_blob p, p)) ps) k = None" by (force simp: map_of_eq_None_iff)
    moreover from False have "map_of (slots ar) k = None"
      using fst' ar(2) by (metis list.set_map map_of_eq_None_iff)
    ultimately show ?thesis by (simp add: served_def memo_def fresh_slot_def)
  next
    case True
    then obtain i where i: "i < length ps" "input_blob (ps ! i) = k" by (force simp: in_set_conv_nth)
    have "slots ar1 ! i \<in> set (slots ar)" "fst (slots ar1 ! i) = k"
      using i len ar(2) fst' by (auto dest: arg_cong [where f = "\<lambda>l. l ! i"])
    then have s: "map_of (slots ar) k = Some (snd (slots ar1 ! i))"
      using dist by (metis map_of_is_SomeI prod.collapse)
    have p: "map_of (map (\<lambda>p. (input_blob p, p)) ps) k = Some (ps ! i)"
      using i assms(1) by (intro map_of_is_SomeI) (auto simp: comp_def intro!: image_eqI)
    show ?thesis
      using sit [OF i(1)] unfolding served_def memo_def fresh_slot_def s p
      by (auto simp: stale_def sits_def slot_rows_def ar)
  qed
qed

text \<open>
  C21. Persisting and hydrating is a round trip. Whatever new slots a store persists, a fresh
  arena that hydrates them serves, for every key, exactly the rows the batch holds for it and
  the validator it had, until the wall-clock deadline that was persisted; keys that were not
  persisted are not served.
\<close>

theorem persist_hydrate_roundtrip:
  assumes "distinct (map fst news)" "\<forall>e\<in>set news. row_start (snd e) + slot_len (snd e) \<le> length b"
    and "\<And>rows. from_ipc (to_ipc rows) = rows" "has_backend ar"
    and "\<forall>e\<in>set news. never_expires (snd e) \<or> 0 \<le> u1 + duration_seconds (expires_at (snd e) - s1)"
    and "LoadFromBackend buffer_size from_ipc s2 u2 (Some (PersistNewSlotsLocked to_ipc u1 s1 ar (Some b) news))
           (new_arena True) = (f, ar')"
  shows "arena_inv ar' \<and> (\<forall>t k. served ar' t k = (case map_of news k of
       None \<Rightarrow> None
     | Some s \<Rightarrow>
         if never_expires s \<or> t < s2 + (u1 + duration_seconds (expires_at s - s1) - u2) * 1000000000
         then Some (take (slot_len s) (drop (row_start s) b), GetValidator (validator_ref s) ar) else None))"
proof -
  let ?p = "persist_slot to_ipc u1 s1 (validators ar) b"
  have ps: "PersistNewSlotsLocked to_ipc u1 s1 ar (Some b) news = map ?p news"
    using assms(4) by (simp add: PersistNewSlotsLocked_def)
  have blob: "input_blob (?p e) = fst e" "from_ipc (ipc (?p e)) = take (slot_len (snd e)) (drop (row_start (snd e)) b)"
      "pvalidator (?p e) = GetValidator (validator_ref (snd e)) ar" for e
    using assms(3) by (simp_all add: persist_slot_def Let_def GetValidator_def)
  have d: "distinct (map input_blob (map ?p news))" "\<forall>p\<in>set (map ?p news). length (from_ipc (ipc p)) = nrows p"
    using assms(1,2) blob by (auto simp: comp_def persist_slot_def Let_def)
  note L = LoadFromBackend_served [OF d assms(6) [unfolded ps]]
  have m: "map_of (map (\<lambda>p. (input_blob p, p)) (map ?p news)) k = map_option (\<lambda>s. ?p (k, s)) (map_of news k)" for k
    using blob(1) by (induction news) auto
  have ex: "expires_unix (?p (k, s)) < 0 \<longleftrightarrow> never_expires s"
      "\<not> never_expires s \<Longrightarrow> expires_unix (?p (k, s)) = u1 + duration_seconds (expires_at s - s1)"
    if "map_of news k = Some s" for k s
    using assms(5) map_of_SomeD [OF that] by (auto simp: persist_slot_def Let_def)
  show ?thesis
    using L(1) ex blob unfolding L(2) m by (auto split: option.splits)
qed

text \<open>The witness stores chars, which serialize as themselves.\<close>

theorem persist_hydrate_roundtrip_witness:
  "let news = [(''k'', \<lparr>row_start = 1, slot_len = 2, validator_ref = - 1, expires_at = 9000000000, never_expires = False\<rparr>)];
       ps = PersistNewSlotsLocked id 50 2000000000 (new_arena True) (Some ''xyz'') news;
       ar' = snd (LoadFromBackend (\<lambda>rows. int (length rows)) id 0 51 (Some ps) (new_arena True)) in
   arena_inv ar' \<and> served ar' 5999999999 ''k'' = Some (''yz'', no_validator) \<and> served ar' 6000000000 ''k'' = None \<and>
   served ar' 0 ''j'' = None"
  using persist_hydrate_roundtrip [of "[(''k'', \<lparr>row_start = 1, slot_len = 2, validator_ref = - 1,
      expires_at = 9000000000, never_expires = False\<rparr>)]" "''xyz''" id id "new_arena True" 50 2000000000
      "\<lambda>rows. int (length rows)" 0 51 "fst (LoadFromBackend (\<lambda>rows. int (length rows)) id 0 51 (Some
        (PersistNewSlotsLocked id 50 2000000000 (new_arena True) (Some ''xyz'') [(''k'', \<lparr>row_start = 1, slot_len = 2,
          validator_ref = - 1, expires_at = 9000000000, never_expires = False\<rparr>)])) (new_arena True))"]
  by (simp add: Let_def new_arena_def GetValidator_def duration_seconds_def numeral_2_eq_2)

end
