(* ===== verification/Memo_Registry.thy ===== *)
theory Memo_Registry
  imports Memo_Arena
begin

unbundle bit_operations_syntax

text \<open>
  The arena registry, the second half of \<^verbatim>\<open>src/src/vgi_memo_arena.cpp\<close>. Arenas are shared
  objects: the registry's entries and the queries that hold an arena refer to it by its index
  in a heap of arena objects, so that an evicted arena a query still appends to is a different
  object from its replacement under the same key. Every operation runs under the registry's
  mutex and is atomic; a query's \<^verbatim>\<open>Store\<close> and the \<^verbatim>\<open>NoteFootprintDelta\<close> that follows it are two
  steps, and \<open>reg_step\<close> interleaves them freely. The disk backend is an argument.
\<close>

section \<open>State\<close>

record Entry =
  earena :: nat
  ebytes :: int
  last_used :: u64

record 'b registry =
  total_bytes :: int
  max_bytes :: int
  tick :: u64
  arenas :: "(string \<times> Entry) list"
  backend :: "'b option"
  backend_dir :: string

record ('r, 's) arena_obj =
  obj_schema :: "'s option"
  obj :: "'r arena"

text \<open>The code outside the sources: the disk backend and the serialization of batches.\<close>

record ('r, 's, 'b) reg_env =
  Hydrate :: "'b \<Rightarrow> string \<Rightarrow> int \<Rightarrow> PersistedSlot list option"
  MakeSqliteDiskBackend :: "string \<Rightarrow> 'b option"
  buffer_size :: "'r list \<Rightarrow> int"
  from_ipc :: "string \<Rightarrow> 'r list"
  schema_of :: "string \<Rightarrow> 's"

definition update_at :: "'k \<Rightarrow> ('v \<Rightarrow> 'v) \<Rightarrow> ('k \<times> 'v) list \<Rightarrow> ('k \<times> 'v) list" where
  "update_at k f m = map (\<lambda>e. if fst e = k then (k, f (snd e)) else e) m"

definition erase_at :: "'k \<Rightarrow> ('k \<times> 'v) list \<Rightarrow> ('k \<times> 'v) list" where
  "erase_at k m = filter (\<lambda>e. fst e \<noteq> k) m"

section \<open>Eviction\<close>

text \<open>The scan for the coldest arena other than the kept one; the bound starts at the largest word.\<close>

fun coldest :: "string \<Rightarrow> u64 \<Rightarrow> (string \<times> Entry) option \<Rightarrow> (string \<times> Entry) list \<Rightarrow> (string \<times> Entry) option" where
  "coldest keep oldest victim [] = victim"
| "coldest keep oldest victim (e # es) =
     (if fst e = keep then coldest keep oldest victim es
      else if last_used (snd e) < oldest then coldest keep (last_used (snd e)) (Some e) es
      else coldest keep oldest victim es)"

lemma coldest_mem: "coldest keep oldest victim es = Some v \<Longrightarrow> victim = Some v \<or> v \<in> set es \<and> fst v \<noteq> keep"
  by (induction keep oldest victim es rule: coldest.induct) (auto split: if_splits)

function evict_loop :: "int \<Rightarrow> string \<Rightarrow> int \<Rightarrow> (string \<times> Entry) list \<Rightarrow> int \<times> (string \<times> Entry) list" where
  "evict_loop mx keep tot as =
     (if tot \<le> mx then (tot, as)
      else case coldest keep (- 1) None as of
        None \<Rightarrow> (tot, as)
      | Some v \<Rightarrow> evict_loop mx keep (tot - ebytes (snd v)) (erase_at (fst v) as))"
  by auto

lemma erase_at_less: "(k, v) \<in> set m \<Longrightarrow> length (erase_at k m) < length m"
  unfolding erase_at_def by (rule length_filter_less) auto

termination evict_loop
  by (relation "measure (\<lambda>(_, _, _, as). length as)") (auto dest!: coldest_mem simp: erase_at_less)

declare evict_loop.simps [simp del]

definition EvictToFitLocked :: "string \<Rightarrow> 'b registry \<Rightarrow> 'b registry" where
  "EvictToFitLocked keep r =
     (let r1 = (case map_of (arenas r) keep of
                  None \<Rightarrow> r
                | Some e \<Rightarrow>
                    if ebytes e > max_bytes r
                    then r\<lparr>total_bytes := total_bytes r - ebytes e, arenas := erase_at keep (arenas r)\<rparr> else r);
          (tot, as) = evict_loop (max_bytes r1) keep (total_bytes r1) (arenas r1) in
      r1\<lparr>total_bytes := tot, arenas := as\<rparr>)"

section \<open>Operations\<close>

definition emplace_arena :: "string \<Rightarrow> nat \<Rightarrow> int \<Rightarrow> 'b registry \<Rightarrow> 'b registry" where
  "emplace_arena fp i fp_bytes r =
     (let r1 = r\<lparr>total_bytes := total_bytes r + fp_bytes,
                 arenas := arenas r @ [(fp, \<lparr>earena = i, ebytes = fp_bytes, last_used = tick r\<rparr>)]\<rparr> in
      if total_bytes r1 > max_bytes r1 then EvictToFitLocked fp r1 else r1)"

definition hydrate_obj ::
  "('r, 's, 'b) reg_env \<Rightarrow> int \<Rightarrow> int \<Rightarrow> 'b \<Rightarrow> string \<Rightarrow> 's option \<Rightarrow> int \<times> ('r, 's) arena_obj" where
  "hydrate_obj env steady_now now_unix b fp schema =
     (let ps = Hydrate env b fp now_unix;
          (f, ar) = LoadFromBackend (buffer_size env) (from_ipc env) steady_now now_unix ps (new_arena True);
          sch = (case schema of
                   Some s \<Rightarrow> Some s
                 | None \<Rightarrow> (case ps of Some (p # _) \<Rightarrow> Some (schema_of env (ipc p)) | _ \<Rightarrow> None)) in
      (f, \<lparr>obj_schema = sch, obj = ar\<rparr>))"

definition schema_mismatch :: "'s option \<Rightarrow> 's option \<Rightarrow> bool" where
  "schema_mismatch a b = (case (a, b) of (Some x, Some y) \<Rightarrow> x \<noteq> y | _ \<Rightarrow> False)"

definition GetOrCreate ::
  "('r, 's, 'b) reg_env \<Rightarrow> int \<Rightarrow> int \<Rightarrow> string \<Rightarrow> 's option \<Rightarrow> 'b registry \<Rightarrow> ('r, 's) arena_obj list \<Rightarrow>
     nat option \<times> 'b registry \<times> ('r, 's) arena_obj list" where
  "GetOrCreate env steady_now now_unix fp schema r heap =
     (let r1 = r\<lparr>tick := tick r + 1\<rparr> in
      case map_of (arenas r1) fp of
        Some e \<Rightarrow>
          if schema_mismatch schema (obj_schema (heap ! earena e)) then (None, r1, heap)
          else (Some (earena e), r1\<lparr>arenas := update_at fp (\<lambda>e. e\<lparr>last_used := tick r1\<rparr>) (arenas r1)\<rparr>, heap)
      | None \<Rightarrow>
          let (f, ob) = (case backend r1 of
                None \<Rightarrow> (0, \<lparr>obj_schema = schema, obj = new_arena False\<rparr>)
              | Some b \<Rightarrow> hydrate_obj env steady_now now_unix b fp schema) in
          (Some (length heap), emplace_arena fp (length heap) f r1, heap @ [ob]))"

definition Get ::
  "('r, 's, 'b) reg_env \<Rightarrow> int \<Rightarrow> int \<Rightarrow> string \<Rightarrow> 'b registry \<Rightarrow> ('r, 's) arena_obj list \<Rightarrow>
     nat option \<times> 'b registry \<times> ('r, 's) arena_obj list" where
  "Get env steady_now now_unix fp r heap =
     (case map_of (arenas r) fp of
        Some e \<Rightarrow>
          (Some (earena e),
           r\<lparr>tick := tick r + 1, arenas := update_at fp (\<lambda>e. e\<lparr>last_used := tick r + 1\<rparr>) (arenas r)\<rparr>, heap)
      | None \<Rightarrow>
          (case backend r of
             None \<Rightarrow> (None, r, heap)
           | Some b \<Rightarrow>
               let (f, ob) = hydrate_obj env steady_now now_unix b fp None in
               if fst (GetStats (obj ob)) > 0
               then (Some (length heap), emplace_arena fp (length heap) f (r\<lparr>tick := tick r + 1\<rparr>), heap @ [ob])
               else (None, r, heap)))"

definition NoteFootprintDelta :: "string \<Rightarrow> int \<Rightarrow> nat \<Rightarrow> 'b registry \<Rightarrow> bool \<times> 'b registry" where
  "NoteFootprintDelta fp delta i r =
     (case map_of (arenas r) fp of
        None \<Rightarrow> (False, r)
      | Some e \<Rightarrow>
          if earena e \<noteq> i then (False, r)
          else
            let r1 = r\<lparr>tick := tick r + 1, total_bytes := total_bytes r + delta,
                  arenas := update_at fp (\<lambda>e. e\<lparr>ebytes := ebytes e + delta, last_used := tick r + 1\<rparr>) (arenas r)\<rparr>;
                r2 = (if total_bytes r1 > max_bytes r1 then EvictToFitLocked fp r1 else r1) in
            (map_of (arenas r2) fp \<noteq> None, r2))"

definition SetMaxBytes :: "int \<Rightarrow> 'b registry \<Rightarrow> 'b registry" where
  "SetMaxBytes mx r =
     (let r1 = r\<lparr>max_bytes := mx\<rparr> in if total_bytes r1 > max_bytes r1 then EvictToFitLocked [] r1 else r1)"

definition SetBackend :: "'b option \<Rightarrow> 'b registry \<Rightarrow> 'b registry" where
  "SetBackend b r = r\<lparr>backend := b\<rparr>"

text \<open>The second component is the call made on the backend: its new size cap.\<close>

definition EnsureSqliteBackend :: "('r, 's, 'b) reg_env \<Rightarrow> string \<Rightarrow> int \<Rightarrow> 'b registry \<Rightarrow> 'b registry \<times> ('b \<times> int) option" where
  "EnsureSqliteBackend env dir disk_max_bytes r =
     (let r1 = (if dir \<noteq> backend_dir r
                then r\<lparr>backend := (if dir = [] then None else MakeSqliteDiskBackend env dir), backend_dir := dir,
                       arenas := [], total_bytes := 0\<rparr>
                else r) in
      (r1, map_option (\<lambda>b. (b, disk_max_bytes)) (backend r1)))"

text \<open>The second component is the backend that is flushed or released.\<close>

definition FlushAll :: "'b registry \<Rightarrow> 'b registry \<times> 'b option" where
  "FlushAll r = (r\<lparr>arenas := [], total_bytes := 0\<rparr>, backend r)"

definition ReleaseBackend :: "'b registry \<Rightarrow> 'b registry \<times> 'b option" where
  "ReleaseBackend r = (r\<lparr>arenas := [], total_bytes := 0, backend := None, backend_dir := []\<rparr>, backend r)"

definition Snapshot :: "'b registry \<Rightarrow> ('r, 's) arena_obj list \<Rightarrow> (string \<times> nat \<times> nat \<times> nat \<times> int) list" where
  "Snapshot r heap = map (\<lambda>e. (fst e, GetStats (obj (heap ! earena (snd e))))) (arenas r)"

section \<open>Which arenas are evicted\<close>

definition held_bytes :: "(string \<times> Entry) list \<Rightarrow> int" where
  "held_bytes as = sum_list (map (\<lambda>e. ebytes (snd e)) as)"

lemma coldest_None:
  "coldest keep oldest victim es = None \<Longrightarrow>
    victim = None \<and> (\<forall>e\<in>set es. fst e = keep \<or> oldest \<le> last_used (snd e))"
  by (induction keep oldest victim es rule: coldest.induct) (auto split: if_splits)

lemma coldest_Some:
  assumes "coldest keep oldest victim es = Some v" "\<And>v0. victim = Some v0 \<Longrightarrow> last_used (snd v0) = oldest"
  shows "last_used (snd v) \<le> oldest \<and> (\<forall>e\<in>set es. fst e \<noteq> keep \<longrightarrow> last_used (snd v) \<le> last_used (snd e))"
  using assms by (induction keep oldest victim es rule: coldest.induct) (fastforce split: if_splits)+

lemma erase_at_props:
  "distinct (map fst m) \<Longrightarrow> distinct (map fst (erase_at k m))" "set (erase_at k m) \<subseteq> set m"
  "map_of (erase_at k m) = (map_of m)(k := None)"
  by (auto simp: erase_at_def distinct_map_filter map_of_filter_neq)

lemma held_bytes_erase:
  assumes "distinct (map fst m)" "(k, e) \<in> set m"
  shows "held_bytes (erase_at k m) = held_bytes m - ebytes e"
  using assms
proof (induction m)
  case (Cons a m)
  show ?case
  proof (cases "fst a = k")
    case True
    then have "erase_at k m = m" using Cons.prems(1) by (auto simp: erase_at_def filter_id_conv image_iff)
    moreover have "e = snd a" using eq_key_imp_eq_value [OF Cons.prems, of "snd a"] True by auto
    ultimately show ?thesis using True by (simp add: erase_at_def held_bytes_def)
  next
    case False
    then show ?thesis using Cons by (auto simp: erase_at_def held_bytes_def)
  qed
qed simp

text \<open>What the loop does: it removes whole entries, the coldest first, and only while over budget.\<close>

definition evicted_ok :: "int \<Rightarrow> string \<Rightarrow> (string \<times> Entry) list \<Rightarrow> int \<Rightarrow> (string \<times> Entry) list \<Rightarrow> bool" where
  "evicted_ok mx keep as tot' as' \<longleftrightarrow>
     set as' \<subseteq> set as \<and> distinct (map fst as') \<and> tot' = held_bytes as' \<and>
     (\<forall>e\<in>set as - set as'. fst e \<noteq> keep \<and> (\<forall>s\<in>set as'. fst s \<noteq> keep \<longrightarrow> last_used (snd e) \<le> last_used (snd s))) \<and>
     (set as' \<noteq> set as \<longrightarrow> (\<exists>e\<in>set as - set as'. mx < tot' + ebytes (snd e) \<and>
        (\<forall>w\<in>set as - set as'. last_used (snd w) \<le> last_used (snd e))))"

lemma set_erase_at: "distinct (map fst m) \<Longrightarrow> v \<in> set m \<Longrightarrow> set (erase_at (fst v) m) = set m - {v}"
  by (auto simp: erase_at_def distinct_map inj_on_def)

lemma held_bytes_set:
  assumes "distinct (map fst as)" "distinct (map fst bs)" "set as = set bs"
  shows "held_bytes as = held_bytes bs"
  using assms by (simp add: held_bytes_def sum_list_distinct_conv_sum_set distinct_map)

lemma evict_loop_ok:
  assumes "distinct (map fst as)" "tot = held_bytes as" "evict_loop mx keep tot as = (tot', as')"
  shows "evicted_ok mx keep as tot' as'"
  using assms
proof (induction mx keep tot as rule: evict_loop.induct)
  case (1 mx keep tot as)
  show ?case
  proof (cases "tot \<le> mx \<or> coldest keep (- 1) None as = None")
    case True
    then have "tot' = tot" "as' = as" using 1(4) by (auto simp: evict_loop.simps [of mx keep tot as] split: if_splits)
    then show ?thesis using 1(2,3) by (simp add: evicted_ok_def)
  next
    case False
    then obtain v where v: "coldest keep (- 1) None as = Some v" and over: "\<not> tot \<le> mx" by auto
    have mem: "v \<in> set as" "fst v \<noteq> keep" using coldest_mem [OF v] by auto
    have cold: "\<forall>e\<in>set as. fst e \<noteq> keep \<longrightarrow> last_used (snd v) \<le> last_used (snd e)"
      using coldest_Some [OF v] by simp
    let ?as = "erase_at (fst v) as"
    have s: "set ?as = set as - {v}" by (rule set_erase_at [OF 1(2) mem(1)])
    have tot: "tot - ebytes (snd v) = held_bytes ?as"
      using held_bytes_erase [OF 1(2), of "fst v" "snd v"] mem(1) 1(3) by simp
    have ev: "evict_loop mx keep (tot - ebytes (snd v)) ?as = (tot', as')"
      using 1(4) v over by (simp add: evict_loop.simps [of mx keep tot as])
    have ih: "evicted_ok mx keep ?as tot' as'"
      by (rule 1(1) [OF over v erase_at_props(1) [OF 1(2)] tot ev])
    then have sub: "set as' \<subseteq> set as - {v}" and dist: "distinct (map fst as')" and tot': "tot' = held_bytes as'"
      and rest: "\<And>e s. e \<in> set as \<Longrightarrow> e \<noteq> v \<Longrightarrow> e \<notin> set as' \<Longrightarrow> fst e \<noteq> keep \<and>
        (s \<in> set as' \<longrightarrow> fst s \<noteq> keep \<longrightarrow> last_used (snd e) \<le> last_used (snd s))"
      unfolding evicted_ok_def s by simp_all
    from ih have last: "set as' \<noteq> set as - {v} \<Longrightarrow> \<exists>e\<in>set as - {v} - set as'. mx < tot' + ebytes (snd e) \<and>
        (\<forall>w\<in>set as - {v} - set as'. last_used (snd w) \<le> last_used (snd e))"
      unfolding evicted_ok_def s by (elim conjE) (erule mp)
    have fin: "mx < tot' + ebytes (snd v)" if "set as' = set as - {v}"
      using held_bytes_set [OF dist erase_at_props(1) [OF 1(2), of "fst v"]] that s tot' over tot by simp
    have "\<exists>e\<in>set as - set as'. mx < tot' + ebytes (snd e) \<and>
        (\<forall>w\<in>set as - set as'. last_used (snd w) \<le> last_used (snd e))"
    proof (cases "set as' = set as - {v}")
      case True
      then have "set as - set as' = {v}" using mem(1) by blast
      then show ?thesis using fin [OF True] by simp
    next
      case False
      then obtain e where e: "e \<in> set as" "e \<noteq> v" "e \<notin> set as'" "mx < tot' + ebytes (snd e)"
          "\<And>w. w \<in> set as - {v} - set as' \<Longrightarrow> last_used (snd w) \<le> last_used (snd e)"
        using last [OF False] by blast
      have ve: "last_used (snd v) \<le> last_used (snd e)" using cold e(1) rest [OF e(1-3)] by simp
      have "last_used (snd w) \<le> last_used (snd e)" if "w \<in> set as - set as'" for w
        using that e(5) [of w] ve by (cases "w = v") simp_all
      then show ?thesis using e(1,3,4) by blast
    qed
    moreover have "fst e \<noteq> keep \<and> (\<forall>s\<in>set as'. fst s \<noteq> keep \<longrightarrow> last_used (snd e) \<le> last_used (snd s))"
      if "e \<in> set as - set as'" for e
      using that rest [of e] mem(2) cold sub by (cases "e = v") auto
    moreover have "set as' \<subseteq> set as" using sub by blast
    ultimately show ?thesis using dist tot' unfolding evicted_ok_def by simp
  qed
qed

text \<open>
  The state between operations: one entry per key, the running total is the sum of the
  entries, and no entry carries the tick that the scan uses as its starting bound.
\<close>

definition reg_ok :: "'b registry \<Rightarrow> bool" where
  "reg_ok r \<longleftrightarrow> distinct (map fst (arenas r)) \<and> total_bytes r = held_bytes (arenas r) \<and>
     (\<forall>e\<in>set (arenas r). last_used (snd e) \<noteq> - 1)"

definition within_budget :: "'b registry \<Rightarrow> bool" where
  "within_budget r \<longleftrightarrow> (0 \<le> max_bytes r \<longrightarrow> total_bytes r \<le> max_bytes r)"

lemma evict_loop_within:
  assumes "distinct (map fst as)" "tot = held_bytes as" "evict_loop mx keep tot as = (tot', as')" "0 \<le> mx"
    and "\<forall>e\<in>set as. last_used (snd e) \<noteq> - 1" "\<forall>e\<in>set as. fst e = keep \<longrightarrow> ebytes (snd e) \<le> mx"
  shows "tot' \<le> mx"
  using assms
proof (induction mx keep tot as rule: evict_loop.induct)
  case (1 mx keep tot as)
  show ?case
  proof (cases "tot \<le> mx")
    case True
    then show ?thesis using 1(4) by (simp add: evict_loop.simps [of mx keep tot as])
  next
    case over: False
    show ?thesis
    proof (cases "coldest keep (- 1) None as")
      case None
      then have "\<forall>e\<in>set as. fst e = keep \<or> - 1 \<le> last_used (snd e)" using coldest_None by blast
      then have all: "\<forall>e\<in>set as. fst e = keep" using 1(6) by (metis word_order.extremum_uniqueI)
      have "held_bytes as \<le> mx"
      proof (cases as)
        case (Cons e es)
        with all 1(2) have "es = []" by (cases es) auto
        with Cons 1(7) all show ?thesis by (simp add: held_bytes_def)
      qed (use 1(5) in \<open>simp add: held_bytes_def\<close>)
      with over 1(3) show ?thesis by simp
    next
      case (Some v)
      have mem: "v \<in> set as" using coldest_mem [OF Some] by simp
      have tot: "tot - ebytes (snd v) = held_bytes (erase_at (fst v) as)"
        using held_bytes_erase [OF 1(2), of "fst v" "snd v"] mem 1(3) by simp
      have ev: "evict_loop mx keep (tot - ebytes (snd v)) (erase_at (fst v) as) = (tot', as')"
        using 1(4) Some over by (simp add: evict_loop.simps [of mx keep tot as])
      show ?thesis
        using 1(6,7) erase_at_props(2) [of "fst v" as]
        by (intro 1(1) [OF over Some erase_at_props(1) [OF 1(2)] tot ev 1(5)]) blast+
    qed
  qed
qed

lemma Evict_unfold:
  assumes "reg_ok r"
  obtains tot' as1 as' where "EvictToFitLocked keep r = r\<lparr>total_bytes := tot', arenas := as'\<rparr>"
    "set as1 = {e \<in> set (arenas r). fst e = keep \<longrightarrow> ebytes (snd e) \<le> max_bytes r}"
    "evicted_ok (max_bytes r) keep as1 tot' as'" "0 \<le> max_bytes r \<longrightarrow> tot' \<le> max_bytes r"
proof -
  define as1 where "as1 = (case map_of (arenas r) keep of None \<Rightarrow> arenas r
    | Some e \<Rightarrow> if ebytes e > max_bytes r then erase_at keep (arenas r) else arenas r)"
  have d: "distinct (map fst (arenas r))" "total_bytes r = held_bytes (arenas r)"
      "\<forall>e\<in>set (arenas r). last_used (snd e) \<noteq> - 1" using assms by (simp_all add: reg_ok_def)
  have as1: "distinct (map fst as1)"
      "set as1 = {e \<in> set (arenas r). fst e = keep \<longrightarrow> ebytes (snd e) \<le> max_bytes r}"
    using d(1) map_of_eq_None_iff [of "arenas r" keep] erase_at_props(1) [OF d(1)]
    by (auto simp: as1_def erase_at_def split: option.splits if_splits
      dest!: map_of_SomeD dest: eq_key_imp_eq_value [OF d(1)])
  obtain tot' as' where ev: "evict_loop (max_bytes r) keep (held_bytes as1) as1 = (tot', as')" by fastforce
  have e1: "EvictToFitLocked keep r = r\<lparr>total_bytes := tot', arenas := as'\<rparr>"
    using ev d(2) held_bytes_erase [OF d(1)] map_of_SomeD [of "arenas r" keep]
    by (auto simp: EvictToFitLocked_def as1_def Let_def split: option.splits if_splits)
  have e2: "evicted_ok (max_bytes r) keep as1 tot' as'" by (rule evict_loop_ok [OF as1(1) refl ev])
  have e3: "0 \<le> max_bytes r \<longrightarrow> tot' \<le> max_bytes r"
    by (intro impI evict_loop_within [OF as1(1) refl ev]) (use d(3) as1(2) in auto)
  show ?thesis by (rule that [OF e1 as1(2) e2 e3])
qed

lemma Evict_keeps:
  assumes "reg_ok r"
  shows "reg_ok (EvictToFitLocked keep r)" "within_budget (EvictToFitLocked keep r)"
    "set (arenas (EvictToFitLocked keep r)) \<subseteq> set (arenas r)" "tick (EvictToFitLocked keep r) = tick r"
proof -
  obtain tot' as1 as' where E: "EvictToFitLocked keep r = r\<lparr>total_bytes := tot', arenas := as'\<rparr>"
    "set as1 = {e \<in> set (arenas r). fst e = keep \<longrightarrow> ebytes (snd e) \<le> max_bytes r}"
    "evicted_ok (max_bytes r) keep as1 tot' as'" "0 \<le> max_bytes r \<longrightarrow> tot' \<le> max_bytes r"
    by (rule Evict_unfold [OF assms, of keep])
  have sub: "set as' \<subseteq> set (arenas r)" using E(2,3) unfolding evicted_ok_def by blast
  show "reg_ok (EvictToFitLocked keep r)"
    using assms E(3) sub unfolding reg_ok_def E(1) evicted_ok_def by auto
  show "within_budget (EvictToFitLocked keep r)" using E(4) by (simp add: within_budget_def E(1))
  show "set (arenas (EvictToFitLocked keep r)) \<subseteq> set (arenas r)" "tick (EvictToFitLocked keep r) = tick r"
    using sub by (simp_all add: E(1))
qed

text \<open>
  Eviction is coldest first and no more than needed. When the registry is over budget,
  \<^verbatim>\<open>EvictToFitLocked\<close> leaves it within budget with its total exact; the arena being appended to
  is dropped exactly when it alone exceeds the budget; every other evicted arena was used no
  more recently than every surviving one; and if any other arena was evicted, giving back the
  most recently used of them would exceed the budget again.
\<close>

theorem EvictToFitLocked_coldest:
  assumes "reg_ok r" "0 \<le> max_bytes r"
  shows "let r' = EvictToFitLocked keep r; gone = {e \<in> set (arenas r) - set (arenas r'). fst e \<noteq> keep} in
    reg_ok r' \<and> total_bytes r' \<le> max_bytes r \<and> set (arenas r') \<subseteq> set (arenas r) \<and>
    (\<forall>e\<in>set (arenas r). fst e = keep \<longrightarrow> (e \<in> set (arenas r') \<longleftrightarrow> ebytes (snd e) \<le> max_bytes r)) \<and>
    (\<forall>e\<in>gone. \<forall>s\<in>set (arenas r'). fst s \<noteq> keep \<longrightarrow> last_used (snd e) \<le> last_used (snd s)) \<and>
    (gone \<noteq> {} \<longrightarrow> (\<exists>e\<in>gone. max_bytes r < total_bytes r' + ebytes (snd e) \<and>
       (\<forall>w\<in>gone. last_used (snd w) \<le> last_used (snd e))))"
proof -
  define r' where "r' = EvictToFitLocked keep r"
  define gone where "gone = {e \<in> set (arenas r) - set (arenas r'). fst e \<noteq> keep}"
  have Let: "(let r' = EvictToFitLocked keep r; gone = {e \<in> set (arenas r) - set (arenas r'). fst e \<noteq> keep} in P r' gone) =
      P r' gone" for P :: "_ \<Rightarrow> _ \<Rightarrow> bool"
    by (simp add: r'_def gone_def Let_def)
  obtain tot' as1 as' where E: "EvictToFitLocked keep r = r\<lparr>total_bytes := tot', arenas := as'\<rparr>"
    "set as1 = {e \<in> set (arenas r). fst e = keep \<longrightarrow> ebytes (snd e) \<le> max_bytes r}"
    "evicted_ok (max_bytes r) keep as1 tot' as'" "0 \<le> max_bytes r \<longrightarrow> tot' \<le> max_bytes r"
    by (rule Evict_unfold [OF assms(1), of keep])
  have r': "arenas r' = as'" "total_bytes r' = tot'" by (simp_all add: r'_def E(1))
  have gone': "gone = set as1 - set as'" using E(2,3) unfolding gone_def r' evicted_ok_def by blast
  have "reg_ok r'" "set as' \<subseteq> set (arenas r)" using Evict_keeps [OF assms(1), of keep] r' by (simp_all add: r'_def)
  moreover have "e \<in> set as' \<longleftrightarrow> ebytes (snd e) \<le> max_bytes r" if "e \<in> set (arenas r)" "fst e = keep" for e
    using that E(2,3) unfolding evicted_ok_def by blast
  moreover have "\<forall>e\<in>gone. \<forall>s\<in>set as'. fst s \<noteq> keep \<longrightarrow> last_used (snd e) \<le> last_used (snd s)"
    using E(3) unfolding gone' evicted_ok_def by blast
  moreover have "\<exists>e\<in>gone. max_bytes r < tot' + ebytes (snd e) \<and> (\<forall>w\<in>gone. last_used (snd w) \<le> last_used (snd e))"
    if "gone \<noteq> {}"
  proof -
    have "set as' \<noteq> set as1" using that gone' by blast
    with E(3) show ?thesis unfolding gone' evicted_ok_def by (elim conjE) (erule mp)
  qed
  ultimately show ?thesis using E(4) assms(2) unfolding Let r' by simp
qed

section \<open>The registry and the queries that use it\<close>

text \<open>
  The system state: the registry, the arena objects, the key each object was created for, and
  the footprint changes that queries have been told by \<^verbatim>\<open>Store\<close> and have not yet noted.
\<close>

record ('r, 's, 'b) reg_sys =
  reg :: "'b registry"
  heap :: "('r, 's) arena_obj list"
  born :: "string list"
  pending :: "(string \<times> nat \<times> int) list"

inductive reg_step :: "('r, 's, 'b) reg_env \<Rightarrow> ('r, 's, 'b) reg_sys \<Rightarrow> ('r, 's, 'b) reg_sys \<Rightarrow> bool" for env where
  step_get: "Get env t u fp (reg s) (heap s) = (ans, r', h') \<Longrightarrow>
     reg_step env s (s\<lparr>reg := r', heap := h', born := (if length h' > length (heap s) then born s @ [fp] else born s)\<rparr>)"
| step_create: "GetOrCreate env t u fp schema (reg s) (heap s) = (ans, r', h') \<Longrightarrow>
     reg_step env s (s\<lparr>reg := r', heap := h', born := (if length h' > length (heap s) then born s @ [fp] else born s)\<rparr>)"
| step_resolve: "i < length (heap s) \<Longrightarrow> ResolveValidator v (obj (heap s ! i)) = (ref, ar) \<Longrightarrow>
     reg_step env s (s\<lparr>heap := (heap s)[i := (heap s ! i)\<lparr>obj := ar\<rparr>]\<rparr>)"
| step_store: "i < length (heap s) \<Longrightarrow>
     Store (buffer_size env) to_ipc now u t batch specs ex never (obj (heap s ! i)) = Some (delta, ar, ps) \<Longrightarrow>
     reg_step env s (s\<lparr>heap := (heap s)[i := (heap s ! i)\<lparr>obj := ar\<rparr>], pending := pending s @ [(born s ! i, i, delta)]\<rparr>)"
| step_note: "pending s = xs @ (fp, i, delta) # ys \<Longrightarrow>
     reg_step env s (s\<lparr>reg := snd (NoteFootprintDelta fp delta i (reg s)), pending := xs @ ys\<rparr>)"
| step_set_max: "reg_step env s (s\<lparr>reg := SetMaxBytes mx (reg s)\<rparr>)"
| step_set_backend: "reg_step env s (s\<lparr>reg := SetBackend b (reg s)\<rparr>)"
| step_ensure: "reg_step env s (s\<lparr>reg := fst (EnsureSqliteBackend env dir cap (reg s))\<rparr>)"
| step_flush: "reg_step env s (s\<lparr>reg := fst (FlushAll (reg s))\<rparr>)"
| step_release: "reg_step env s (s\<lparr>reg := fst (ReleaseBackend (reg s))\<rparr>)"

definition init_sys :: "int \<Rightarrow> ('r, 's, 'b) reg_sys" where
  "init_sys mx = \<lparr>reg = \<lparr>total_bytes = 0, max_bytes = mx, tick = 0, arenas = [], backend = None, backend_dir = []\<rparr>,
     heap = [], born = [], pending = []\<rparr>"

inductive reg_reach :: "('r, 's, 'b) reg_env \<Rightarrow> int \<Rightarrow> nat \<Rightarrow> ('r, 's, 'b) reg_sys \<Rightarrow> bool" for env mx where
  reach_init: "reg_reach env mx 0 (init_sys mx)"
| reach_step: "reg_reach env mx n s \<Longrightarrow> reg_step env s s' \<Longrightarrow> reg_reach env mx (Suc n) s'"

definition owed :: "nat \<Rightarrow> (string \<times> nat \<times> int) list \<Rightarrow> int" where
  "owed i ps = sum_list (map (\<lambda>p. if fst (snd p) = i then snd (snd p) else 0) ps)"

definition charged :: "('r, 's, 'b) reg_sys \<Rightarrow> string \<times> Entry \<Rightarrow> bool" where
  "charged s e \<longleftrightarrow> earena (snd e) < length (heap s) \<and> born s ! earena (snd e) = fst e \<and>
     ebytes (snd e) + owed (earena (snd e)) (pending s) = footprint (obj (heap s ! earena (snd e)))"

definition ticks_ok :: "nat \<Rightarrow> 'b registry \<Rightarrow> bool" where
  "ticks_ok n r \<longleftrightarrow> unat (tick r) \<le> n \<and> (\<forall>e\<in>set (arenas r). last_used (snd e) \<le> tick r)"

definition sys_ok :: "nat \<Rightarrow> ('r, 's, 'b) reg_sys \<Rightarrow> bool" where
  "sys_ok n s \<longleftrightarrow> reg_ok (reg s) \<and> within_budget (reg s) \<and> ticks_ok n (reg s) \<and>
     length (born s) = length (heap s) \<and>
     (\<forall>p\<in>set (pending s). fst (snd p) < length (heap s) \<and> born s ! fst (snd p) = fst p) \<and>
     (\<forall>e\<in>set (arenas (reg s)). charged s e)"

lemma set_update_at: "set (update_at k f m) = (\<lambda>e. if fst e = k then (k, f (snd e)) else e) ` set m"
  by (simp add: update_at_def)

lemma update_at_mem:
  assumes "e \<in> set (update_at k f m)"
  shows "(\<exists>v. (k, v) \<in> set m \<and> e = (k, f v)) \<or> fst e \<noteq> k \<and> e \<in> set m"
proof -
  obtain x where "e = (if fst x = k then (k, f (snd x)) else x)" "x \<in> set m"
    using assms unfolding set_update_at by (rule imageE)
  then show ?thesis by (cases x) auto
qed

lemma update_at_keys: "map fst (update_at k f m) = map fst m"
  by (auto simp: update_at_def)

lemma held_bytes_update:
  assumes "distinct (map fst m)" "map_of m k = Some e"
  shows "held_bytes (update_at k f m) = held_bytes m - ebytes e + ebytes (f e)"
  using assms
proof (induction m)
  case (Cons a m)
  show ?case
  proof (cases "fst a = k")
    case True
    then have "k \<notin> fst ` set m" using Cons.prems(1) by simp
    then have "fst x \<noteq> k" if "x \<in> set m" for x using that by blast
    then have "update_at k f m = m" unfolding update_at_def by (intro map_idI) auto
    then show ?thesis using True Cons.prems by (cases a) (simp add: update_at_def held_bytes_def)
  next
    case False
    then show ?thesis using Cons by (cases a) (auto simp: update_at_def held_bytes_def)
  qed
qed simp

lemma fit_keeps:
  fixes r :: "'b registry" and keep :: string
  assumes "reg_ok r"
  defines "r' \<equiv> (if total_bytes r > max_bytes r then EvictToFitLocked keep r else r)"
  shows "reg_ok r'" "within_budget r'" "set (arenas r') \<subseteq> set (arenas r)" "tick r' = tick r"
  using Evict_keeps [OF assms(1), of keep] assms(1) by (auto simp: r'_def within_budget_def)

text \<open>The next tick neither wraps nor reaches the bound of the scan.\<close>

lemma tick_next:
  assumes "ticks_ok n r" "Suc n < 2 ^ 64 - 1"
  shows "unat (tick r + 1) \<le> Suc n" "tick r + 1 \<noteq> - 1" "e \<in> set (arenas r) \<Longrightarrow> last_used (snd e) \<le> tick r + 1"
proof -
  have u: "unat (tick r + 1) = unat (tick r) + 1"
    using assms by (simp add: ticks_ok_def unat_word_ariths)
  show "unat (tick r + 1) \<le> Suc n" using u assms(1) by (simp add: ticks_ok_def)
  have "unat (- 1 :: u64) = 2 ^ 64 - 1" by (simp add: unsigned_minus_1_eq_mask mask_eq_exp_minus_1)
  then have "unat (tick r + 1) \<noteq> unat (- 1 :: u64)" using u assms by (simp add: ticks_ok_def)
  then show "tick r + 1 \<noteq> - 1" by metis
  show "last_used (snd e) \<le> tick r + 1" if "e \<in> set (arenas r)"
    using that assms(1) u by (fastforce simp: ticks_ok_def word_le_nat_alt)
qed

lemma Store_delta:
  assumes "Store bs to_ipc now u t batch specs ex never ar = Some (delta, ar', ps)"
  shows "footprint ar' = footprint ar + delta"
  using assms by (auto simp: Store_def Let_def split: option.splits prod.splits)

lemma Load_footprint:
  assumes "LoadFromBackend bs f t u ps (new_arena b) = (g, ar)"
  shows "footprint ar = g"
  using assms by (auto simp: LoadFromBackend_def new_arena_def Let_def split: if_splits option.splits prod.splits)

lemma owed_simps [simp]:
  "owed i [] = 0" "owed i (p # ps) = (if fst (snd p) = i then snd (snd p) else 0) + owed i ps"
  "owed i (ps @ qs) = owed i ps + owed i qs"
  by (simp_all add: owed_def)

lemma owed_none: "\<forall>p\<in>set ps. fst (snd p) \<noteq> i \<Longrightarrow> owed i ps = 0"
  by (induction ps) auto

text \<open>Entries that carry the same charge, whatever their tick.\<close>

definition same_charge :: "(string \<times> Entry) \<Rightarrow> (string \<times> Entry) \<Rightarrow> bool" where
  "same_charge e e' \<longleftrightarrow> fst e = fst e' \<and> earena (snd e) = earena (snd e') \<and> ebytes (snd e) = ebytes (snd e')"

definition reg_fine :: "nat \<Rightarrow> 'b registry \<Rightarrow> bool" where
  "reg_fine n r \<longleftrightarrow> reg_ok r \<and> within_budget r \<and> ticks_ok n r"

lemma ticks_ok_mono: "ticks_ok n r \<Longrightarrow> ticks_ok (Suc n) r"
  by (simp add: ticks_ok_def)

lemma touch_fine:
  assumes "reg_fine n r" "Suc n < 2 ^ 64 - 1"
    and "r' = r\<lparr>tick := tick r + 1, arenas := update_at fp (\<lambda>e. e\<lparr>last_used := tick r + 1\<rparr>) (arenas r)\<rparr>"
  shows "reg_fine (Suc n) r'" "e \<in> set (arenas r') \<Longrightarrow> \<exists>e0\<in>set (arenas r). same_charge e0 e"
proof -
  note T = tick_next [OF _ assms(2), of r]
  have h: "held_bytes (update_at fp (\<lambda>e. e\<lparr>last_used := tick r + 1\<rparr>) (arenas r)) = held_bytes (arenas r)"
    by (simp add: held_bytes_def update_at_def comp_def if_distrib [of "\<lambda>e. ebytes (snd e)"] cong: if_cong)
  show "reg_fine (Suc n) r'"
    using assms(1) T h
    by (auto simp: reg_fine_def reg_ok_def ticks_ok_def within_budget_def assms(3) update_at_keys set_update_at)
  assume "e \<in> set (arenas r')"
  then have "e \<in> set (update_at fp (\<lambda>e. e\<lparr>last_used := tick r + 1\<rparr>) (arenas r))" by (simp add: assms(3))
  from update_at_mem [OF this] show "\<exists>e0\<in>set (arenas r). same_charge e0 e"
  proof
    assume "\<exists>v. (fp, v) \<in> set (arenas r) \<and> e = (fp, v\<lparr>last_used := tick r + 1\<rparr>)"
    then obtain v where "(fp, v) \<in> set (arenas r)" "e = (fp, v\<lparr>last_used := tick r + 1\<rparr>)" by blast
    then show ?thesis by (intro bexI [of _ "(fp, v)"]) (simp_all add: same_charge_def)
  qed (auto simp: same_charge_def)
qed

lemma emplace_fine:
  assumes "reg_fine n r" "Suc n < 2 ^ 64 - 1" "map_of (arenas r) fp = None"
    and "r' = emplace_arena fp i b (r\<lparr>tick := tick r + 1\<rparr>)"
  shows "reg_fine (Suc n) r'"
    "e \<in> set (arenas r') \<Longrightarrow> e \<in> set (arenas r) \<or> e = (fp, \<lparr>earena = i, ebytes = b, last_used = tick r + 1\<rparr>)"
proof -
  note T = tick_next [OF _ assms(2), of r]
  let ?e = "(fp, \<lparr>earena = i, ebytes = b, last_used = tick r + 1\<rparr>)"
  let ?r = "r\<lparr>tick := tick r + 1, total_bytes := total_bytes r + b, arenas := arenas r @ [?e]\<rparr>"
  have ok: "reg_ok ?r"
    using assms(1,3) T by (auto simp: reg_fine_def reg_ok_def held_bytes_def map_of_eq_None_iff)
  note F = fit_keeps [OF ok, of fp]
  have r': "r' = (if total_bytes ?r > max_bytes ?r then EvictToFitLocked fp ?r else ?r)"
    by (simp add: assms(4) emplace_arena_def Let_def)
  have t: "ticks_ok (Suc n) ?r" using assms(1) T by (auto simp: reg_fine_def ticks_ok_def)
  have sub: "set (arenas r') \<subseteq> set (arenas ?r)" "tick r' = tick ?r" using F(3,4) unfolding r' by blast+
  have "ticks_ok (Suc n) r'" using t sub(1) unfolding ticks_ok_def sub(2) by blast
  then show "reg_fine (Suc n) r'" using F(1,2) unfolding reg_fine_def r' by blast
  show "e \<in> set (arenas r) \<or> e = ?e" if "e \<in> set (arenas r')"
    using that sub(1) by auto
qed

lemma note_fine:
  assumes "reg_fine n r" "Suc n < 2 ^ 64 - 1" "map_of (arenas r) fp = Some e0" "earena e0 = i"
    and "r' = snd (NoteFootprintDelta fp d i r)"
  shows "reg_fine (Suc n) r'"
    "e \<in> set (arenas r') \<Longrightarrow> fst e \<noteq> fp \<and> e \<in> set (arenas r) \<or>
       fst e = fp \<and> earena (snd e) = i \<and> ebytes (snd e) = ebytes e0 + d"
proof -
  note T = tick_next [OF _ assms(2), of r]
  let ?u = "\<lambda>e. e\<lparr>ebytes := ebytes e + d, last_used := tick r + 1\<rparr>"
  let ?r = "r\<lparr>tick := tick r + 1, total_bytes := total_bytes r + d, arenas := update_at fp ?u (arenas r)\<rparr>"
  have dist: "distinct (map fst (arenas r))" using assms(1) by (simp add: reg_fine_def reg_ok_def)
  have ok: "reg_ok ?r"
    using assms(1) T held_bytes_update [OF dist assms(3), of ?u]
    by (auto simp: reg_fine_def reg_ok_def update_at_keys set_update_at)
  note F = fit_keeps [OF ok, of fp]
  have r': "r' = (if total_bytes ?r > max_bytes ?r then EvictToFitLocked fp ?r else ?r)"
    by (simp add: assms(3-5) NoteFootprintDelta_def Let_def)
  have t: "ticks_ok (Suc n) ?r" using assms(1) T by (auto simp: reg_fine_def ticks_ok_def set_update_at)
  have sub: "set (arenas r') \<subseteq> set (arenas ?r)" "tick r' = tick ?r" using F(3,4) unfolding r' by blast+
  have "ticks_ok (Suc n) r'" using t sub(1) unfolding ticks_ok_def sub(2) by blast
  then show "reg_fine (Suc n) r'" using F(1,2) unfolding reg_fine_def r' by blast
  show "fst e \<noteq> fp \<and> e \<in> set (arenas r) \<or> fst e = fp \<and> earena (snd e) = i \<and> ebytes (snd e) = ebytes e0 + d"
    if "e \<in> set (arenas r')"
  proof -
    have "e \<in> set (update_at fp ?u (arenas r))" using that sub(1) by auto
    from update_at_mem [OF this] show ?thesis
    proof
      assume "\<exists>v. (fp, v) \<in> set (arenas r) \<and> e = (fp, ?u v)"
      then obtain v where v: "(fp, v) \<in> set (arenas r)" "e = (fp, ?u v)" by blast
      have "v = e0" by (rule eq_key_imp_eq_value [OF dist v(1) map_of_SomeD [OF assms(3)]])
      with v(2) assms(4) show ?thesis by simp
    qed simp
  qed
qed

lemma charged_same:
  "charged s e0 \<Longrightarrow> same_charge e0 e \<Longrightarrow> heap s' = heap s \<Longrightarrow> born s' = born s \<Longrightarrow> pending s' = pending s \<Longrightarrow> charged s' e"
  by (simp add: charged_def same_charge_def)

lemma same_charge_refl [simp]: "same_charge e e"
  by (simp add: same_charge_def)

text \<open>A step that only touches the registry keeps the accounts when the surviving entries keep their charge.\<close>

lemma sys_ok_reg:
  assumes "sys_ok n s" "reg_fine (Suc n) r'" "\<And>e. e \<in> set (arenas r') \<Longrightarrow> \<exists>e0\<in>set (arenas (reg s)). same_charge e0 e"
  shows "sys_ok (Suc n) (s\<lparr>reg := r'\<rparr>)"
  using assms charged_same [of s _ _ "s\<lparr>reg := r'\<rparr>"] by (fastforce simp: sys_ok_def reg_fine_def)

lemma sys_ok_fine: "sys_ok n s \<Longrightarrow> reg_fine n (reg s)"
  by (simp add: sys_ok_def reg_fine_def)

lemma sys_ok_later: "sys_ok n s \<Longrightarrow> sys_ok (Suc n) s"
  by (simp add: sys_ok_def ticks_ok_mono)

lemma sys_ok_create:
  assumes "sys_ok n s" "Suc n < 2 ^ 64 - 1" "map_of (arenas (reg s)) fp = None" "footprint (obj ob) = b"
  shows "sys_ok (Suc n) (s\<lparr>reg := emplace_arena fp (length (heap s)) b ((reg s)\<lparr>tick := tick (reg s) + 1\<rparr>),
    heap := heap s @ [ob], born := born s @ [fp]\<rparr>)" (is "sys_ok _ ?s")
proof -
  note E = emplace_fine [OF sys_ok_fine [OF assms(1)] assms(2,3) refl, where i = "length (heap s)" and b = b]
  have len: "length (born s) = length (heap s)" and pend: "\<forall>p\<in>set (pending s). fst (snd p) < length (heap s) \<and> born s ! fst (snd p) = fst p"
    and ch: "\<forall>e\<in>set (arenas (reg s)). charged s e"
    using assms(1) by (simp_all add: sys_ok_def)
  have "owed (length (heap s)) (pending s) = 0" by (rule owed_none) (use pend in auto)
  then have new: "charged ?s (fp, \<lparr>earena = length (heap s), ebytes = b, last_used = t\<rparr>)" for t
    using assms(4) len by (simp add: charged_def nth_append)
  have old: "charged ?s e" if "charged s e" for e
    using that len by (simp add: charged_def nth_append)
  have "charged ?s e" if "e \<in> set (arenas (reg ?s))" for e
  proof -
    have "e \<in> set (arenas (reg s)) \<or> e = (fp, \<lparr>earena = length (heap s), ebytes = b, last_used = tick (reg s) + 1\<rparr>)"
      using E(2) [of e] that by simp
    then show ?thesis using ch new old by blast
  qed
  then show ?thesis using E(1) len pend by (auto simp: sys_ok_def reg_fine_def nth_append)
qed

lemma sys_ok_heap:
  assumes "sys_ok n s" "i < length (heap s)" "footprint ar = footprint (obj (heap s ! i)) + owed i qs"
    and "\<forall>p\<in>set qs. fst (snd p) = i \<and> fst p = born s ! i"
  shows "sys_ok (Suc n) (s\<lparr>heap := (heap s)[i := (heap s ! i)\<lparr>obj := ar\<rparr>], pending := pending s @ qs\<rparr>)" (is "sys_ok _ ?s")
proof -
  have other: "owed j qs = 0" if "j \<noteq> i" for j by (rule owed_none) (use assms(4) that in auto)
  have "charged ?s e" if "charged s e" for e
    using that assms(2,3) other [of "earena (snd e)"] by (cases "earena (snd e) = i") (simp_all add: charged_def)
  then show ?thesis using assms(1,2,4) by (auto simp: sys_ok_def ticks_ok_mono)
qed

lemma sys_ok_note:
  assumes "sys_ok n s" "Suc n < 2 ^ 64 - 1" "pending s = xs @ (fp, i, d) # ys"
  shows "sys_ok (Suc n) (s\<lparr>reg := snd (NoteFootprintDelta fp d i (reg s)), pending := xs @ ys\<rparr>)" (is "sys_ok _ ?s")
proof -
  have i: "i < length (heap s)" "born s ! i = fp" and ch: "\<And>e. e \<in> set (arenas (reg s)) \<Longrightarrow> charged s e"
    and dist: "distinct (map fst (arenas (reg s)))"
    using assms(1,3) by (simp_all add: sys_ok_def reg_ok_def)
  have away: "charged ?s e" if "e \<in> set (arenas (reg s))" "earena (snd e) \<noteq> i" for e
    using ch [OF that(1)] that(2) assms(3) by (simp add: charged_def)
  have key: "fst e = fp" if "e \<in> set (arenas (reg s))" "earena (snd e) = i" for e
    using ch [OF that(1)] that(2) i by (simp add: charged_def)
  have rest: "length (born ?s) = length (heap ?s)"
      "\<forall>p\<in>set (pending ?s). fst (snd p) < length (heap ?s) \<and> born ?s ! fst (snd p) = fst p"
    using assms(1,3) by (simp_all add: sys_ok_def)
  show ?thesis
  proof (cases "\<exists>e0. map_of (arenas (reg s)) fp = Some e0 \<and> earena e0 = i")
    case True
    then obtain e0 where e0: "map_of (arenas (reg s)) fp = Some e0" "earena e0 = i" by blast
    note N = note_fine [OF sys_ok_fine [OF assms(1)] assms(2) e0 refl, where d = d]
    have "charged ?s e" if "e \<in> set (arenas (reg ?s))" for e
      using N(2) [of e] that away [of e] key [of e] ch [OF map_of_SomeD [OF e0(1)]] e0(2) assms(3) i
      by (auto simp: charged_def)
    then show ?thesis using N(1) rest by (simp add: sys_ok_def reg_fine_def)
  next
    case False
    then have r: "snd (NoteFootprintDelta fp d i (reg s)) = reg s"
      by (auto simp: NoteFootprintDelta_def split: option.split)
    have "earena (snd e) \<noteq> i" if "e \<in> set (arenas (reg s))" for e
      using False key [OF that] that map_of_is_SomeI [OF dist] by (metis prod.collapse)
    then show ?thesis using away rest assms(1) by (simp add: sys_ok_def r ticks_ok_mono)
  qed
qed

lemma clear_fine:
  "reg_fine n r \<Longrightarrow> reg_fine (Suc n) (r\<lparr>arenas := [], total_bytes := 0\<rparr>)"
  "reg_fine n r \<Longrightarrow> reg_fine (Suc n) (r\<lparr>arenas := [], total_bytes := 0, backend := b, backend_dir := d\<rparr>)"
  "reg_fine n r \<Longrightarrow> reg_fine (Suc n) (r\<lparr>backend := b, backend_dir := d, arenas := [], total_bytes := 0\<rparr>)"
  "reg_fine n r \<Longrightarrow> reg_fine (Suc n) (r\<lparr>backend := b\<rparr>)"
  by (auto simp: reg_fine_def reg_ok_def within_budget_def ticks_ok_def held_bytes_def)

lemma set_max_fine:
  assumes "reg_fine n r"
  shows "reg_fine (Suc n) (SetMaxBytes mx r)" "set (arenas (SetMaxBytes mx r)) \<subseteq> set (arenas r)"
proof -
  have "reg_ok (r\<lparr>max_bytes := mx\<rparr>)" using assms by (simp add: reg_fine_def reg_ok_def)
  note F = fit_keeps [OF this, of "[]"]
  show sub: "set (arenas (SetMaxBytes mx r)) \<subseteq> set (arenas r)" using F(3) by (simp add: SetMaxBytes_def Let_def)
  have "tick (SetMaxBytes mx r) = tick r" using F(4) by (simp add: SetMaxBytes_def Let_def)
  then have "ticks_ok (Suc n) (SetMaxBytes mx r)"
    using assms sub unfolding reg_fine_def ticks_ok_def by (metis le_SucI subsetD)
  then show "reg_fine (Suc n) (SetMaxBytes mx r)" using F(1,2) by (simp add: reg_fine_def SetMaxBytes_def Let_def)
qed

lemma tick_fine:
  assumes "reg_fine n r" "Suc n < 2 ^ 64 - 1"
  shows "reg_fine (Suc n) (r\<lparr>tick := tick r + 1\<rparr>)"
  using assms tick_next [OF _ assms(2), of r] by (auto simp: reg_fine_def reg_ok_def within_budget_def ticks_ok_def)

lemma hydrate_obj_footprint: "hydrate_obj env t u b fp schema = (f, ob) \<Longrightarrow> footprint (obj ob) = f"
  by (auto simp: hydrate_obj_def Let_def Load_footprint split: prod.splits)

lemma new_arena_footprint [simp]: "footprint (new_arena b) = 0"
  by (simp add: new_arena_def)

lemma sys_ok_get:
  assumes "sys_ok n s" "Suc n < 2 ^ 64 - 1" "Get env t u fp (reg s) (heap s) = (ans, r', h')"
  shows "sys_ok (Suc n) (s\<lparr>reg := r', heap := h', born := (if length h' > length (heap s) then born s @ [fp] else born s)\<rparr>)"
proof (cases "map_of (arenas (reg s)) fp")
  case (Some e)
  note T = touch_fine [OF sys_ok_fine [OF assms(1)] assms(2) refl, where fp = fp]
  show ?thesis using sys_ok_reg [OF assms(1) T] assms(3) Some by (auto simp: Get_def)
next
  case None
  show ?thesis
  proof (cases "h' = heap s")
    case True
    then have "r' = reg s" using assms(3) None by (auto simp: Get_def Let_def split: option.splits prod.splits if_splits)
    then show ?thesis using True sys_ok_later [OF assms(1)] by simp
  next
    case False
    then obtain b f ob where "hydrate_obj env t u b fp None = (f, ob)"
        "r' = emplace_arena fp (length (heap s)) f ((reg s)\<lparr>tick := tick (reg s) + 1\<rparr>)" "h' = heap s @ [ob]"
      using assms(3) None by (auto simp: Get_def Let_def split: option.splits prod.splits if_splits)
    then show ?thesis using sys_ok_create [OF assms(1,2) None, of ob f] hydrate_obj_footprint by force
  qed
qed

lemma sys_ok_get_or_create:
  assumes "sys_ok n s" "Suc n < 2 ^ 64 - 1" "GetOrCreate env t u fp schema (reg s) (heap s) = (ans, r', h')"
  shows "sys_ok (Suc n) (s\<lparr>reg := r', heap := h', born := (if length h' > length (heap s) then born s @ [fp] else born s)\<rparr>)"
proof (cases "map_of (arenas (reg s)) fp")
  case (Some e)
  note T = touch_fine [OF sys_ok_fine [OF assms(1)] assms(2) refl, where fp = fp]
  have "sys_ok (Suc n) (s\<lparr>reg := (reg s)\<lparr>tick := tick (reg s) + 1\<rparr>\<rparr>)"
    by (rule sys_ok_reg [OF assms(1) tick_fine [OF sys_ok_fine [OF assms(1)] assms(2)]]) (auto intro: bexI same_charge_refl)
  then show ?thesis
    using sys_ok_reg [OF assms(1) T] assms(3) Some by (auto simp: GetOrCreate_def Let_def split: if_splits)
next
  case None
  then obtain f ob where "footprint (obj ob) = f" "h' = heap s @ [ob]"
      "r' = emplace_arena fp (length (heap s)) f ((reg s)\<lparr>tick := tick (reg s) + 1\<rparr>)"
    using assms(3)
    by (auto simp: GetOrCreate_def Let_def dest!: hydrate_obj_footprint split: option.splits prod.splits)
  then show ?thesis using sys_ok_create [OF assms(1,2) None, of ob f] by simp
qed

lemma reg_step_ok:
  assumes "reg_step env s s'" "sys_ok n s" "Suc n < 2 ^ 64 - 1"
  shows "sys_ok (Suc n) s'"
  using assms(1)
proof cases
  case (step_get t u fp ans r' h')
  then show ?thesis using sys_ok_get [OF assms(2,3)] by blast
next
  case (step_create t u fp schema ans r' h')
  then show ?thesis using sys_ok_get_or_create [OF assms(2,3)] by blast
next
  case (step_resolve i v ref ar)
  have "footprint ar = footprint (obj (heap s ! i)) + owed i []"
    using step_resolve(3) by (auto simp: ResolveValidator_def split: if_splits option.splits)
  from sys_ok_heap [OF assms(2) step_resolve(2) this] show ?thesis by (simp add: step_resolve(1))
next
  case (step_store i to_ipc now u t batch specs ex never delta ar ps)
  have "footprint ar = footprint (obj (heap s ! i)) + owed i [(born s ! i, i, delta)]"
    using Store_delta [OF step_store(3)] by simp
  from sys_ok_heap [OF assms(2) step_store(2) this] show ?thesis by (simp add: step_store(1))
next
  case (step_note xs fp i delta ys)
  then show ?thesis using sys_ok_note [OF assms(2,3)] by blast
next
  case (step_set_max mx)
  note F = set_max_fine [OF sys_ok_fine [OF assms(2)], of mx]
  show ?thesis unfolding step_set_max(1)
    by (rule sys_ok_reg [OF assms(2) F(1)]) (use F(2) in \<open>auto intro: bexI same_charge_refl\<close>)
next
  case (step_set_backend b)
  show ?thesis unfolding step_set_backend(1) SetBackend_def
    by (rule sys_ok_reg [OF assms(2) clear_fine(4) [OF sys_ok_fine [OF assms(2)]]]) (auto intro: bexI same_charge_refl)
next
  case (step_ensure dir cap)
  show ?thesis
  proof (cases "dir = backend_dir (reg s)")
    case True
    then show ?thesis using sys_ok_later [OF assms(2)] by (simp add: step_ensure(1) EnsureSqliteBackend_def Let_def)
  next
    case False
    then show ?thesis
      unfolding step_ensure(1) EnsureSqliteBackend_def Let_def
      using sys_ok_reg [OF assms(2) clear_fine(3) [OF sys_ok_fine [OF assms(2)]]] by simp
  qed
next
  case step_flush
  show ?thesis unfolding step_flush FlushAll_def
    using sys_ok_reg [OF assms(2) clear_fine(1) [OF sys_ok_fine [OF assms(2)]]] by simp
next
  case step_release
  show ?thesis unfolding step_release ReleaseBackend_def
    using sys_ok_reg [OF assms(2) clear_fine(2) [OF sys_ok_fine [OF assms(2)]]] by simp
qed

lemma reg_reach_ok: "reg_reach env mx n s \<Longrightarrow> n < 2 ^ 64 - 1 \<Longrightarrow> sys_ok n s"
proof (induction rule: reg_reach.induct)
  case reach_init
  show ?case
    by (simp add: sys_ok_def init_sys_def reg_ok_def within_budget_def ticks_ok_def held_bytes_def)
next
  case (reach_step n s s')
  then show ?case using reg_step_ok [of env s s' n] by simp
qed

text \<open>
  C23. The byte budget is exact under every interleaving of queries and settings (fewer than
  \<open>2 ^ 64 - 1\<close> of them, so that the use tick does not wrap). Each retained arena is charged its
  footprint less the changes its users have not reported yet, reports for arenas that were
  evicted or replaced are ignored, the total is the sum of the charges, no key is retained
  twice, and after every operation the total is within the budget.
\<close>

theorem registry_accounts:
  assumes "reg_reach env mx n s" "n < 2 ^ 64 - 1"
  shows "distinct (map fst (arenas (reg s))) \<and>
    total_bytes (reg s) = (\<Sum>e\<leftarrow>arenas (reg s). ebytes (snd e)) \<and>
    (0 \<le> max_bytes (reg s) \<longrightarrow> total_bytes (reg s) \<le> max_bytes (reg s)) \<and>
    (\<forall>(fp, e)\<in>set (arenas (reg s)). earena e < length (heap s) \<and>
       ebytes e + owed (earena e) (pending s) = footprint (obj (heap s ! earena e)))"
  using reg_reach_ok [OF assms]
  by (auto simp: sys_ok_def reg_ok_def within_budget_def held_bytes_def charged_def)

definition sample_env :: "(nat, unit, unit) reg_env" where
  "sample_env = \<lparr>Hydrate = (\<lambda>_ _ _. None), MakeSqliteDiskBackend = (\<lambda>_. None), buffer_size = (\<lambda>rows. int (length rows)),
     from_ipc = map of_char, schema_of = (\<lambda>_. ())\<rparr>"

definition sample_sys :: "(nat, unit, unit) reg_sys" where
  "sample_sys = \<lparr>reg = \<lparr>total_bytes = 0, max_bytes = 1000, tick = 1,
       arenas = [(''f'', \<lparr>earena = 0, ebytes = 0, last_used = 1\<rparr>)], backend = None, backend_dir = []\<rparr>,
     heap = [\<lparr>obj_schema = Some (), obj = new_arena False\<rparr>], born = [''f''], pending = []\<rparr>"

theorem registry_accounts_witness:
  "reg_reach sample_env 1000 1 sample_sys \<and> (1 :: nat) < 2 ^ 64 - 1 \<and>
   ebytes (snd (arenas (reg sample_sys) ! 0)) + owed 0 (pending sample_sys) = footprint (obj (heap sample_sys ! 0)) \<and>
   total_bytes (reg sample_sys) \<le> 1000"
proof -
  have "reg_step sample_env (init_sys 1000) sample_sys"
    using step_create [of sample_env 0 0 "''f''" "Some ()" "init_sys 1000"]
    by (simp add: GetOrCreate_def emplace_arena_def init_sys_def sample_sys_def)
  then have r: "reg_reach sample_env 1000 1 sample_sys"
    using reach_step [OF reach_init [of sample_env 1000]] by simp
  then show ?thesis
    using registry_accounts [OF r] by (simp add: sample_sys_def)
qed

definition sample_reg :: "unit registry" where
  "sample_reg = \<lparr>total_bytes = 9, max_bytes = 5, tick = 3,
     arenas = [(''a'', \<lparr>earena = 0, ebytes = 4, last_used = 2\<rparr>), (''b'', \<lparr>earena = 1, ebytes = 3, last_used = 1\<rparr>),
               (''c'', \<lparr>earena = 2, ebytes = 2, last_used = 3\<rparr>)], backend = None, backend_dir = []\<rparr>"

theorem EvictToFitLocked_coldest_witness:
  "reg_ok sample_reg \<and> 0 \<le> max_bytes sample_reg \<and> reg_ok (EvictToFitLocked ''c'' sample_reg) \<and>
   total_bytes (EvictToFitLocked ''c'' sample_reg) \<le> 5 \<and>
   (''c'', \<lparr>earena = 2, ebytes = 2, last_used = 3\<rparr>) \<in> set (arenas (EvictToFitLocked ''c'' sample_reg))"
proof -
  have h: "reg_ok sample_reg" "0 \<le> max_bytes sample_reg" by (simp_all add: sample_reg_def reg_ok_def held_bytes_def)
  show ?thesis
    using EvictToFitLocked_coldest [OF h, of "''c''"] h by (simp add: Let_def sample_reg_def)
qed

end
