(* ===== verification/Input_Dedup.thy ===== *)
theory Input_Dedup
  imports Vgi_Prelude
begin

unbundle bit_operations_syntax

text \<open>
  Input deduplication, \<^verbatim>\<open>src/src/vgi_input_dedup.cpp\<close>: the rows of a chunk are grouped by the tuple
  of their key columns with an open-addressing table, under budgets of bytes and comparisons.
  A key column is DuckDB's unified format: the physical index of every row, and per index the
  validity, the bytes of the value and the address of its payload. DuckDB's value hash, the
  library's string hash and DuckDB's sort keys are arguments (\<open>dedup_env\<close>). A computation ends
  with a value, with the budget exception, or not at all (\<open>Spin\<close>: a probe of a table without
  a free slot); the theorems show that the last never happens.
\<close>

section \<open>Outcomes and budgets\<close>

datatype 'a outcome = Done 'a | BudgetExceeded | Spin

fun obind :: "'a outcome \<Rightarrow> ('a \<Rightarrow> 'b outcome) \<Rightarrow> 'b outcome" where
  "obind (Done x) f = f x"
| "obind BudgetExceeded f = BudgetExceeded"
| "obind Spin f = Spin"

record budget =
  bytes_left :: nat
  comparisons_left :: nat

record KeyColumn =
  kwidth :: nat
  ksel :: "nat list"
  kvalid :: "bool list"
  kdata :: "string list"
  kptr :: "nat list"

record dedup_env =
  HashT :: "nat \<Rightarrow> string \<Rightarrow> u64"
  hash_view :: "string \<Rightarrow> u64"
  CreateSortKey :: "nat \<Rightarrow> KeyColumn list \<Rightarrow> KeyColumn"

definition Charge :: "nat \<Rightarrow> budget \<Rightarrow> budget outcome" where
  "Charge bytes b =
     (if bytes > bytes_left b then BudgetExceeded else Done (b\<lparr>bytes_left := bytes_left b - bytes\<rparr>))"

section \<open>Row hashes\<close>

definition combine_hash :: "u64 \<Rightarrow> u64 \<Rightarrow> u64" where
  "combine_hash h part = h XOR (part + 0x9e3779b9 + push_bit 6 h + drop_bit 2 h)"

definition fixed_width :: "nat \<Rightarrow> bool" where
  "fixed_width w \<longleftrightarrow> w \<in> {1, 2, 4, 8, 16}"

definition HashFixedColumn :: "dedup_env \<Rightarrow> KeyColumn \<Rightarrow> nat \<Rightarrow> u64 list \<Rightarrow> u64 list" where
  "HashFixedColumn env c n hashes =
     map (\<lambda>row.
       let index = ksel c ! row;
           part = (if kvalid c ! index then HashT env (kwidth c) (kdata c ! index) else 0x9e3779b9) in
       combine_hash (hashes ! row) part) [0..<n]"

fun hash_strings :: "dedup_env \<Rightarrow> KeyColumn \<Rightarrow> nat list \<Rightarrow> u64 list \<Rightarrow> budget \<Rightarrow> (u64 list \<times> budget) outcome" where
  "hash_strings env c [] hashes b = Done (hashes, b)"
| "hash_strings env c (row # rows) hashes b =
     (let index = ksel c ! row in
      if kvalid c ! index then
        obind (Charge (length (kdata c ! index)) b) (\<lambda>b'.
          hash_strings env c rows
            (hashes[row := combine_hash (hashes ! row) (hash_view env (kdata c ! index))]) b')
      else hash_strings env c rows (hashes[row := combine_hash (hashes ! row) 0x9e3779b9]) b)"

fun hash_columns :: "dedup_env \<Rightarrow> nat \<Rightarrow> KeyColumn list \<Rightarrow> u64 list \<Rightarrow> budget \<Rightarrow> (u64 list \<times> budget) outcome" where
  "hash_columns env n [] hashes b = Done (hashes, b)"
| "hash_columns env n (c # cs) hashes b =
     obind (Charge n b) (\<lambda>b'.
       if fixed_width (kwidth c) then hash_columns env n cs (HashFixedColumn env c n hashes) b'
       else obind (hash_strings env c [0..<n] hashes b') (\<lambda>(hashes', b''). hash_columns env n cs hashes' b''))"

definition HashAll :: "dedup_env \<Rightarrow> KeyColumn list \<Rightarrow> nat \<Rightarrow> budget \<Rightarrow> (u64 list \<times> budget) outcome" where
  "HashAll env cols n b = hash_columns env n cols (replicate n 0) b"

text \<open>Widths other than 1, 2, 4 and 8 are read as 16-byte values.\<close>

definition HashFixed :: "dedup_env \<Rightarrow> string \<Rightarrow> nat \<Rightarrow> u64" where
  "HashFixed env v w = HashT env (if w \<in> {1, 2, 4, 8} then w else 16) v"

fun hash_row :: "dedup_env \<Rightarrow> nat \<Rightarrow> KeyColumn list \<Rightarrow> u64 \<Rightarrow> budget \<Rightarrow> (u64 \<times> budget) outcome" where
  "hash_row env row [] h b = Done (h, b)"
| "hash_row env row (c # cs) h b =
     obind (Charge 1 b) (\<lambda>b'.
       let index = ksel c ! row in
       if \<not> kvalid c ! index then hash_row env row cs (combine_hash h 0x9e3779b9) b'
       else if kwidth c \<noteq> 0 then hash_row env row cs (combine_hash h (HashFixed env (kdata c ! index) (kwidth c))) b'
       else obind (Charge (length (kdata c ! index)) b') (\<lambda>b''.
              hash_row env row cs (combine_hash h (hash_view env (kdata c ! index))) b''))"

definition HashRow :: "dedup_env \<Rightarrow> KeyColumn list \<Rightarrow> nat \<Rightarrow> budget \<Rightarrow> (u64 \<times> budget) outcome" where
  "HashRow env cols row b = hash_row env row cols 0 b"

section \<open>Row equality\<close>

fun equal_columns :: "nat \<Rightarrow> nat \<Rightarrow> KeyColumn list \<Rightarrow> budget \<Rightarrow> (bool \<times> budget) outcome" where
  "equal_columns left right [] b = Done (True, b)"
| "equal_columns left right (c # cs) b =
     obind (Charge 1 b) (\<lambda>b'.
       let l = ksel c ! left; r = ksel c ! right; lv = kvalid c ! l; rv = kvalid c ! r in
       if lv \<noteq> rv then Done (False, b')
       else if \<not> lv \<or> l = r then equal_columns left right cs b'
       else if kwidth c \<noteq> 0 then
         (if kdata c ! l \<noteq> kdata c ! r then Done (False, b') else equal_columns left right cs b')
       else if length (kdata c ! l) \<noteq> length (kdata c ! r) then Done (False, b')
       else if kptr c ! l = kptr c ! r then equal_columns left right cs b'
       else obind (Charge (length (kdata c ! l)) b') (\<lambda>b''.
              if kdata c ! l \<noteq> kdata c ! r then Done (False, b'') else equal_columns left right cs b''))"

definition EqualRows :: "KeyColumn list \<Rightarrow> nat \<Rightarrow> nat \<Rightarrow> budget \<Rightarrow> (bool \<times> budget) outcome" where
  "EqualRows cols left right b =
     (if comparisons_left b = 0 then BudgetExceeded
      else equal_columns left right cols (b\<lparr>comparisons_left := comparisons_left b - 1\<rparr>))"

section \<open>The table of distinct tuples\<close>

record distinct_table =
  tslots :: "(u32 \<times> u32) list"
  tmask :: nat
  treps :: "nat list"

definition kEmpty :: u32 where "kEmpty = - 1"

text \<open>The doubling loop starts at 16; at 0 it would not advance, so the loop is closed there.\<close>

function grow_capacity :: "nat \<Rightarrow> nat \<Rightarrow> nat" where
  "grow_capacity expected capacity =
     (if capacity < expected * 2 \<and> capacity \<noteq> 0 then grow_capacity expected (capacity * 2) else capacity)"
  by auto
termination by (relation "measure (\<lambda>(e, c). e * 2 - c)") auto

declare grow_capacity.simps [simp del]

definition DistinctTable :: "nat \<Rightarrow> distinct_table" where
  "DistinctTable expected =
     (let capacity = grow_capacity expected 16 in
      \<lparr>tslots = replicate capacity (0, kEmpty), tmask = capacity - 1, treps = []\<rparr>)"

definition Spread :: "u64 \<Rightarrow> u64" where
  "Spread h =
     (let h1 = h XOR drop_bit 33 h; h2 = h1 * 0xff51afd7ed558ccd in h2 XOR drop_bit 33 h2)"

fun find_loop ::
  "nat \<Rightarrow> KeyColumn list \<Rightarrow> u32 \<Rightarrow> nat \<Rightarrow> nat \<Rightarrow> distinct_table \<Rightarrow> budget \<Rightarrow> (nat \<times> distinct_table \<times> budget) outcome" where
  "find_loop 0 cols tag row i t b = Spin"
| "find_loop (Suc fuel) cols tag row i t b =
     (let s = tslots t ! i; i' = (i + 1) AND tmask t in
      if snd s = kEmpty then
        Done (length (treps t),
              t\<lparr>tslots := (tslots t)[i := (tag, of_nat (length (treps t)))], treps := treps t @ [row mod 2 ^ 32]\<rparr>, b)
      else if fst s = tag then
        obind (EqualRows cols (treps t ! unat (snd s)) row b) (\<lambda>(eq, b').
          if eq then Done (unat (snd s), t, b') else find_loop fuel cols tag row i' t b')
      else find_loop fuel cols tag row i' t b)"

text \<open>After as many steps as there are slots the probe is back where it began.\<close>

definition FindOrInsert ::
  "KeyColumn list \<Rightarrow> nat \<Rightarrow> u64 \<Rightarrow> distinct_table \<Rightarrow> budget \<Rightarrow> (nat \<times> distinct_table \<times> budget) outcome" where
  "FindOrInsert cols row row_hash t b =
     (let h = Spread row_hash in
      find_loop (length (tslots t)) cols (ucast (drop_bit 32 h)) row (unat h AND tmask t) t b)"

section \<open>Sampling\<close>

record InputDedupOptions =
  large_input_bytes :: nat
  sample_work_bytes :: nat
  max_work_bytes :: nat
  max_comparisons :: nat

definition default_options :: InputDedupOptions where
  "default_options = \<lparr>large_input_bytes = 4 * 1024 * 1024, sample_work_bytes = 8 * 1024 * 1024,
     max_work_bytes = 512 * 1024 * 1024, max_comparisons = 65536\<rparr>"

definition next_random :: "u64 \<Rightarrow> u64" where
  "next_random r =
     (let r1 = r XOR push_bit 13 r; r2 = r1 XOR drop_bit 7 r1 in r2 XOR push_bit 17 r2)"

fun sample_loop ::
  "dedup_env \<Rightarrow> KeyColumn list \<Rightarrow> nat \<Rightarrow> nat \<Rightarrow> nat list \<Rightarrow> u64 \<Rightarrow> distinct_table \<Rightarrow> budget \<Rightarrow>
     (distinct_table \<times> budget) outcome" where
  "sample_loop env cols n samples [] random t b = Done (t, b)"
| "sample_loop env cols n samples (i # is) random t b =
     (let random' = next_random random;
          lo = i * n div samples; hi = (i + 1) * n div samples;
          row = lo + unat random' mod (hi - lo) in
      obind (HashRow env cols row b) (\<lambda>(h, b').
        obind (FindOrInsert cols row h t b') (\<lambda>(_, t', b'').
          sample_loop env cols n samples is random' t' b'')))"

definition SampleWorthwhile :: "dedup_env \<Rightarrow> KeyColumn list \<Rightarrow> nat \<Rightarrow> InputDedupOptions \<Rightarrow> bool outcome" where
  "SampleWorthwhile env cols n options =
     (let samples = min 64 n in
      obind (sample_loop env cols n samples [0..<samples] 0x6a09e667f3bcc909 (DistinctTable samples)
          \<lparr>bytes_left = sample_work_bytes options, comparisons_left = max_comparisons options\<rparr>)
        (\<lambda>(t, _). Done ((samples - length (treps t)) * 8 \<ge> samples)))"

section \<open>Building the mapping\<close>

record InputDedup =
  dn :: nat
  dk :: nat
  trivial :: bool
  distinct_rows :: "nat list"
  orig_to_distinct :: "nat list"
  group_offsets :: "nat list"
  group_rows :: "nat list"

definition Group :: "InputDedup \<Rightarrow> nat \<Rightarrow> nat list" where
  "Group d g = take (group_offsets d ! (g + 1) - group_offsets d ! g) (drop (group_offsets d ! g) (group_rows d))"

definition TrivialDedup :: "nat \<Rightarrow> InputDedup" where
  "TrivialDedup n =
     \<lparr>dn = n, dk = n, trivial = True, distinct_rows = [0..<n], orig_to_distinct = [0..<n],
      group_offsets = [0..<n + 1], group_rows = [0..<n]\<rparr>"

datatype LogicalTypeId =
    BOOLEAN | TINYINT | SMALLINT | INTEGER | BIGINT | HUGEINT | UTINYINT | USMALLINT | UINTEGER | UBIGINT
  | UHUGEINT | DATE | TIME | TIMESTAMP | TIMESTAMP_SEC | TIMESTAMP_MS | TIMESTAMP_NS | TIMESTAMP_TZ
  | DECIMAL | UUID | ENUM | VARCHAR | BLOB | OTHER_TYPE nat

fun HasBitwiseEquality :: "LogicalTypeId \<Rightarrow> bool" where
  "HasBitwiseEquality VARCHAR = False"
| "HasBitwiseEquality BLOB = False"
| "HasBitwiseEquality (OTHER_TYPE _) = False"
| "HasBitwiseEquality _ = True"

text \<open>An input vector: its type, the size of its physical type and its unified format.\<close>

record InputVector =
  vtype :: LogicalTypeId
  vsize :: nat
  vformat :: KeyColumn

fun scan_payload :: "KeyColumn \<Rightarrow> nat list \<Rightarrow> bool \<Rightarrow> nat \<Rightarrow> bool \<times> nat" where
  "scan_payload c [] large left = (large, left)"
| "scan_payload c (row # rows) large left =
     (if large then (large, left)
      else
        let index = ksel c ! row in
        if kvalid c ! index then
          (let size = length (kdata c ! index) in
           if size > left then scan_payload c rows True left else scan_payload c rows large (left - size))
        else scan_payload c rows large left)"

fun collect_columns ::
  "InputVector list \<Rightarrow> nat \<Rightarrow> nat list \<Rightarrow> KeyColumn list \<Rightarrow> KeyColumn list \<Rightarrow> bool \<Rightarrow> nat \<Rightarrow>
     KeyColumn list \<times> KeyColumn list \<times> bool" where
  "collect_columns chunk n [] cols canonical large left = (cols, canonical, large)"
| "collect_columns chunk n (c # cs) cols canonical large left =
     (let v = chunk ! c in
      if HasBitwiseEquality (vtype v) then
        collect_columns chunk n cs (cols @ [(vformat v)\<lparr>kwidth := vsize v\<rparr>]) canonical large left
      else if vtype v \<noteq> VARCHAR \<and> vtype v \<noteq> BLOB then
        collect_columns chunk n cs cols (canonical @ [vformat v]) large left
      else
        let k = (vformat v)\<lparr>kwidth := 0\<rparr>; (large', left') = scan_payload k [0..<n] large left in
        collect_columns chunk n cs (cols @ [k]) canonical large' left')"

fun assign_rows ::
  "KeyColumn list \<Rightarrow> u64 list \<Rightarrow> nat list \<Rightarrow> nat list \<Rightarrow> distinct_table \<Rightarrow> budget \<Rightarrow>
     (nat list \<times> distinct_table) outcome" where
  "assign_rows cols hashes [] orig t b = Done (orig, t)"
| "assign_rows cols hashes (row # rows) orig t b =
     obind (FindOrInsert cols row (hashes ! row) t b) (\<lambda>(d, t', b').
       assign_rows cols hashes rows (orig[row := d]) t' b')"

definition count_groups :: "nat \<Rightarrow> nat \<Rightarrow> nat list \<Rightarrow> nat list" where
  "count_groups n k orig =
     fold (\<lambda>row off. off[orig ! row + 1 := off ! (orig ! row + 1) + 1]) [0..<n] (replicate (k + 1) 0)"

definition prefix_sums :: "nat \<Rightarrow> nat list \<Rightarrow> nat list" where
  "prefix_sums k off = fold (\<lambda>i off. off[i + 1 := off ! (i + 1) + off ! i]) [0..<k] off"

definition scatter_rows :: "nat \<Rightarrow> nat list \<Rightarrow> nat list \<Rightarrow> nat list" where
  "scatter_rows n orig off =
     snd (fold (\<lambda>row (nxt, rows). (nxt[orig ! row := nxt ! (orig ! row) + 1], rows[nxt ! (orig ! row) := row]))
       [0..<n] (butlast off, replicate n 0))"

definition finish_dedup :: "nat \<Rightarrow> nat list \<Rightarrow> nat list \<Rightarrow> InputDedup" where
  "finish_dedup n orig reps =
     (let k = length reps; off = prefix_sums k (count_groups n k orig) in
      \<lparr>dn = n, dk = k, trivial = (k = n), distinct_rows = reps, orig_to_distinct = orig,
       group_offsets = off, group_rows = scatter_rows n orig off\<rparr>)"

definition dedup_rows :: "dedup_env \<Rightarrow> KeyColumn list \<Rightarrow> bool \<Rightarrow> nat \<Rightarrow> InputDedupOptions \<Rightarrow> InputDedup outcome" where
  "dedup_rows env cols large n options =
     obind (if large then SampleWorthwhile env cols n options else Done True) (\<lambda>worthwhile.
       if \<not> worthwhile then Done (TrivialDedup n)
       else
         obind (HashAll env cols n \<lparr>bytes_left = max_work_bytes options, comparisons_left = max_comparisons options\<rparr>)
           (\<lambda>(hashes, b).
              obind (assign_rows cols hashes [0..<n] (replicate n 0) (DistinctTable n) b) (\<lambda>(orig, t).
                Done (finish_dedup n orig (treps t)))))"

definition key_columns :: "dedup_env \<Rightarrow> InputVector list \<Rightarrow> nat \<Rightarrow> nat list \<Rightarrow> nat \<Rightarrow> KeyColumn list \<times> bool" where
  "key_columns env chunk n key_cols left =
     (let (cols, canonical, large) = collect_columns chunk n key_cols [] [] False left in
      (if canonical = [] then cols else cols @ [(CreateSortKey env n canonical)\<lparr>kwidth := 0\<rparr>], large))"

text \<open>\<^const>\<open>None\<close> is a call that does not return.\<close>

definition BuildInputDedup ::
  "dedup_env \<Rightarrow> InputVector list \<Rightarrow> nat \<Rightarrow> nat list \<Rightarrow> InputDedupOptions \<Rightarrow> InputDedup option" where
  "BuildInputDedup env chunk n key_cols options =
     (if n = 0 \<or> key_cols = [] \<or> n > 65536 \<or> length key_cols > 2048 then Some (TrivialDedup n)
      else
        let (cols, large) = key_columns env chunk n key_cols (large_input_bytes options) in
        (case dedup_rows env cols large n options of
           Done d \<Rightarrow> Some d
         | BudgetExceeded \<Rightarrow> Some (TrivialDedup n)
         | Spin \<Rightarrow> None))"

section \<open>Keys, hashes and equality\<close>

definition col_key :: "KeyColumn \<Rightarrow> nat \<Rightarrow> string option" where
  "col_key c row = (if kvalid c ! (ksel c ! row) then Some (kdata c ! (ksel c ! row)) else None)"

definition row_key :: "KeyColumn list \<Rightarrow> nat \<Rightarrow> string option list" where
  "row_key cols row = map (\<lambda>c. col_key c row) cols"

text \<open>
  What the formats promise: a known width, and payloads at one address with one length hold
  the same bytes.
\<close>

definition col_ok :: "nat \<Rightarrow> KeyColumn \<Rightarrow> bool" where
  "col_ok n c \<longleftrightarrow> kwidth c \<in> {0, 1, 2, 4, 8, 16} \<and>
     (\<forall>a<n. \<forall>b<n. kptr c ! (ksel c ! a) = kptr c ! (ksel c ! b) \<longrightarrow>
        length (kdata c ! (ksel c ! a)) = length (kdata c ! (ksel c ! b)) \<longrightarrow>
        kdata c ! (ksel c ! a) = kdata c ! (ksel c ! b))"

definition part_of :: "dedup_env \<Rightarrow> KeyColumn \<Rightarrow> string option \<Rightarrow> u64" where
  "part_of env c v = (case v of None \<Rightarrow> 0x9e3779b9
     | Some s \<Rightarrow> if fixed_width (kwidth c) then HashT env (kwidth c) s else hash_view env s)"

definition hash_from :: "dedup_env \<Rightarrow> KeyColumn list \<Rightarrow> nat \<Rightarrow> u64 \<Rightarrow> u64" where
  "hash_from env cols row h = fold (\<lambda>c h. combine_hash h (part_of env c (col_key c row))) cols h"

abbreviation row_hash :: "dedup_env \<Rightarrow> KeyColumn list \<Rightarrow> nat \<Rightarrow> u64" where
  "row_hash env cols row \<equiv> hash_from env cols row 0"

named_theorems ends \<open>how a computation under budgets can end\<close>

definition yields :: "'a outcome \<Rightarrow> ('a \<Rightarrow> bool) \<Rightarrow> bool" where
  "yields m P \<longleftrightarrow> (case m of Done x \<Rightarrow> P x | BudgetExceeded \<Rightarrow> True | Spin \<Rightarrow> False)"

lemma yields_simps [simp]: "yields (Done x) P = P x" "yields BudgetExceeded P" "\<not> yields Spin P"
  by (simp_all add: yields_def)

lemma yields_bind: "yields m Q \<Longrightarrow> (\<And>x. Q x \<Longrightarrow> yields (f x) P) \<Longrightarrow> yields (obind m f) P"
  by (cases m) simp_all

lemma yields_mono: "yields m Q \<Longrightarrow> (\<And>x. Q x \<Longrightarrow> P x) \<Longrightarrow> yields m P"
  by (cases m) simp_all

lemma yields_Charge [ends]: "yields (Charge k b) (\<lambda>_. True)"
  by (simp add: Charge_def)

lemma charge_bind: "(\<And>b'. yields (f b') P) \<Longrightarrow> yields (obind (Charge k b) f) P"
  by (rule yields_bind [OF yields_Charge])

lemma hash_row_yields:
  assumes "\<forall>c\<in>set cols. col_ok n c"
  shows "yields (hash_row env row cols h b) (\<lambda>r. fst r = hash_from env cols row h)"
  using assms
proof (induction cols arbitrary: h b)
  case Nil
  then show ?case by (simp add: hash_from_def)
next
  case (Cons c cs)
  have "HashFixed env v (kwidth c) = HashT env (kwidth c) v \<and> fixed_width (kwidth c)" if "kwidth c \<noteq> 0" for v
    using Cons.prems that by (auto simp: col_ok_def HashFixed_def fixed_width_def)
  then show ?case
    using Cons by (auto simp: Let_def hash_from_def part_of_def col_key_def fixed_width_def intro!: charge_bind)
qed

lemma hash_strings_yields:
  assumes "\<not> fixed_width (kwidth c)" "distinct rows" "\<forall>r\<in>set rows. r < length hs"
  shows "yields (hash_strings env c rows hs b) (\<lambda>(hs', _). length hs' = length hs \<and>
    (\<forall>r<length hs. hs' ! r = (if r \<in> set rows then combine_hash (hs ! r) (part_of env c (col_key c r)) else hs ! r)))"
  using assms
proof (induction rows arbitrary: hs b)
  case (Cons row rows)
  have step: "yields (hash_strings env c rows (hs[row := combine_hash (hs ! row) p]) b')
      (\<lambda>(hs', _). length hs' = length hs \<and>
        (\<forall>r<length hs. hs' ! r = (if r \<in> set (row # rows) then combine_hash (hs ! r) (part_of env c (col_key c r)) else hs ! r)))"
    if "p = part_of env c (col_key c row)" for p b'
    using Cons.prems that
    by (intro yields_mono [OF Cons.IH]) (auto simp: nth_list_update)
  show ?case
  proof (cases "kvalid c ! (ksel c ! row)")
    case True
    then have "hash_view env (kdata c ! (ksel c ! row)) = part_of env c (col_key c row)"
      using Cons.prems(1) by (simp add: part_of_def col_key_def)
    then show ?thesis
      unfolding hash_strings.simps Let_def if_P [OF True] by (intro charge_bind step)
  next
    case False
    then have "0x9e3779b9 = part_of env c (col_key c row)" by (simp add: part_of_def col_key_def)
    then show ?thesis unfolding hash_strings.simps Let_def if_not_P [OF False] by (rule step)
  qed
qed simp

lemma hash_columns_yields:
  assumes "length hs = n"
  shows "yields (hash_columns env n cols hs b)
    (\<lambda>r. fst r = map (\<lambda>row. hash_from env cols row (hs ! row)) [0..<n])"
  using assms
proof (induction cols arbitrary: hs b)
  case Nil
  then show ?case by (auto simp: hash_from_def intro: nth_equalityI)
next
  case (Cons c cs)
  have fx: "HashFixedColumn env c n hs = map (\<lambda>row. combine_hash (hs ! row) (part_of env c (col_key c row))) [0..<n]"
    if "fixed_width (kwidth c)"
    using that by (simp add: HashFixedColumn_def Let_def part_of_def col_key_def if_distrib)
  have next': "yields (hash_columns env n cs hs' b')
      (\<lambda>r. fst r = map (\<lambda>row. hash_from env (c # cs) row (hs ! row)) [0..<n])"
    if "length hs' = n" "\<And>r. r < n \<Longrightarrow> hs' ! r = combine_hash (hs ! r) (part_of env c (col_key c r))" for hs' b'
    using yields_mono [OF Cons.IH [OF that(1), of b']] that(2) by (simp add: hash_from_def)
  have str: "yields (obind (hash_strings env c [0..<n] hs b') (\<lambda>(hs', b''). hash_columns env n cs hs' b''))
      (\<lambda>r. fst r = map (\<lambda>row. hash_from env (c # cs) row (hs ! row)) [0..<n])" if "\<not> fixed_width (kwidth c)" for b'
  proof (rule yields_bind [OF hash_strings_yields [OF that]])
    fix x :: "u64 list \<times> budget"
    assume "case x of (hs', _) \<Rightarrow> length hs' = length hs \<and> (\<forall>r<length hs. hs' ! r =
      (if r \<in> set [0..<n] then combine_hash (hs ! r) (part_of env c (col_key c r)) else hs ! r))"
    then show "yields (case x of (hs', b'') \<Rightarrow> hash_columns env n cs hs' b'')
        (\<lambda>r. fst r = map (\<lambda>row. hash_from env (c # cs) row (hs ! row)) [0..<n])"
      using next' Cons.prems by (cases x) simp
  qed (use Cons.prems in simp_all)
  show ?case using Cons.prems fx next' str by (auto intro!: charge_bind)
qed

lemma HashAll_yields [ends]: "yields (HashAll env cols n b) (\<lambda>r. fst r = map (row_hash env cols) [0..<n])"
  unfolding HashAll_def by (rule yields_mono [OF hash_columns_yields]) simp_all

lemma row_hash_cong: "row_key cols a = row_key cols b \<Longrightarrow> hash_from env cols a h = hash_from env cols b h"
  by (induction cols arbitrary: h) (simp_all add: row_key_def hash_from_def)

lemma equal_columns_yields:
  assumes "\<forall>c\<in>set cols. col_ok n c" "l < n" "r < n"
  shows "yields (equal_columns l r cols b) (\<lambda>x. fst x = (row_key cols l = row_key cols r))"
  using assms(1)
proof (induction cols arbitrary: b)
  case (Cons c cs)
  have p: "kptr c ! (ksel c ! l) = kptr c ! (ksel c ! r) \<Longrightarrow>
      length (kdata c ! (ksel c ! l)) = length (kdata c ! (ksel c ! r)) \<Longrightarrow>
      kdata c ! (ksel c ! l) = kdata c ! (ksel c ! r)"
    using Cons.prems assms(2,3) by (simp add: col_ok_def)
  have "yields (equal_columns l r cs b') (\<lambda>x. fst x = (row_key (c # cs) l = row_key (c # cs) r))"
    if "col_key c l = col_key c r" for b'
    using yields_mono [OF Cons.IH [of b']] Cons.prems that by (simp add: row_key_def)
  moreover have "row_key (c # cs) l \<noteq> row_key (c # cs) r" if "col_key c l \<noteq> col_key c r"
    using that by (simp add: row_key_def)
  ultimately show ?case
    using p by (auto simp: Let_def col_key_def intro!: charge_bind)
qed (simp add: row_key_def)

lemma EqualRows_yields [ends]:
  assumes "\<forall>c\<in>set cols. col_ok n c" "l < n" "r < n"
  shows "yields (EqualRows cols l r b) (\<lambda>x. fst x = (row_key cols l = row_key cols r))"
  using equal_columns_yields [OF assms] by (simp add: EqualRows_def)

section \<open>The table finds every tuple it holds\<close>

text \<open>
  The table invariant over the rows \<open>< n\<close>: every occupied slot holds the id and the tag of one
  representative; every representative is found from the start of its probe without crossing
  a free slot; representatives have different keys.
\<close>

definition probe_tag :: "u64 \<Rightarrow> u32" where
  "probe_tag h = ucast (drop_bit 32 (Spread h))"

definition pos :: "nat \<Rightarrow> u64 \<Rightarrow> nat \<Rightarrow> nat" where
  "pos cap h j = (unat (Spread h) + j) mod cap"

definition occupied :: "distinct_table \<Rightarrow> nat set" where
  "occupied t = {p. p < length (tslots t) \<and> snd (tslots t ! p) \<noteq> kEmpty}"

definition table_ok :: "nat \<Rightarrow> KeyColumn list \<Rightarrow> (nat \<Rightarrow> u64) \<Rightarrow> distinct_table \<Rightarrow> bool" where
  "table_ok n cols H t \<longleftrightarrow>
     (\<exists>k. length (tslots t) = 2 ^ k \<and> tmask t = 2 ^ k - 1) \<and>
     (\<forall>r\<in>set (treps t). r < n) \<and>
     inj_on (\<lambda>d. row_key cols (treps t ! d)) {..<length (treps t)} \<and>
     card (occupied t) \<le> length (treps t) \<and>
     (\<forall>p\<in>occupied t. unat (snd (tslots t ! p)) < length (treps t) \<and>
        fst (tslots t ! p) = probe_tag (H (treps t ! unat (snd (tslots t ! p))))) \<and>
     (\<forall>d<length (treps t). \<exists>j<length (tslots t).
        snd (tslots t ! pos (length (tslots t)) (H (treps t ! d)) j) = of_nat d \<and>
        (\<forall>i\<le>j. pos (length (tslots t)) (H (treps t ! d)) i \<in> occupied t))"

lemma and_mask_mod: "x AND (2 ^ k - 1) = x mod (2 ^ k :: nat)"
  by (metis mask_eq_exp_minus_1 take_bit_eq_mask take_bit_eq_mod)

lemma pos_next:
  assumes "length (tslots t) = 2 ^ k" "tmask t = 2 ^ k - 1"
  shows "(pos (2 ^ k) h j + 1) AND tmask t = pos (2 ^ k) h (Suc j)" "unat (Spread h) AND tmask t = pos (2 ^ k) h 0"
    "pos (2 ^ k) h j < 2 ^ k"
  unfolding assms(2) and_mask_mod by (simp_all add: pos_def mod_Suc_eq)

lemma pos_onto:
  assumes "p < cap"
  shows "\<exists>j<cap. pos cap h j = p"
proof -
  define s where "s = unat (Spread h) mod cap"
  have s: "s < cap" using assms by (simp add: s_def)
  define j where "j = (if s \<le> p then p - s else cap - s + p)"
  have "(s + j) mod cap = p"
    using assms s by (auto simp: j_def)
  then have "pos cap h j = p" by (simp add: pos_def s_def mod_add_left_eq)
  moreover have "j < cap" using assms s by (auto simp: j_def)
  ultimately show ?thesis by blast
qed

definition found :: "nat \<Rightarrow> KeyColumn list \<Rightarrow> (nat \<Rightarrow> u64) \<Rightarrow> nat \<Rightarrow> distinct_table \<Rightarrow> nat \<times> distinct_table \<times> budget \<Rightarrow> bool" where
  "found n cols H row t x \<longleftrightarrow> (case x of (d, t', _) \<Rightarrow>
     table_ok n cols H t' \<and> length (tslots t') = length (tslots t) \<and>
     d < length (treps t') \<and> row_key cols (treps t' ! d) = row_key cols row \<and>
     (treps t' = treps t \<or> treps t' = treps t @ [row] \<and> d = length (treps t)))"

lemma table_insert:
  assumes ok: "table_ok n cols H t" and row: "row < n" and small: "n \<le> 2 ^ 31"
    and j: "j < length (tslots t)" and p: "p = pos (length (tslots t)) (H row) j" "p \<notin> occupied t"
    and before: "\<forall>i<j. pos (length (tslots t)) (H row) i \<in> occupied t"
    and new: "\<forall>d<length (treps t). row_key cols (treps t ! d) \<noteq> row_key cols row"
    and room: "length (treps t) < n"
    and t': "t' = t\<lparr>tslots := (tslots t)[p := (probe_tag (H row), of_nat (length (treps t)))], treps := treps t @ [row]\<rparr>"
  shows "table_ok n cols H t'"
proof -
  let ?cap = "length (tslots t)" and ?m = "length (treps t)"
  have "0 < ?cap" using j by linarith
  then have pc: "p < ?cap" by (simp only: p(1) pos_def mod_less_divisor)
  have um: "unat (of_nat ?m :: u32) = ?m" using room small by (simp add: unsigned_of_nat take_bit_eq_mod)
  have ne: "of_nat ?m \<noteq> kEmpty"
  proof
    assume "of_nat ?m = kEmpty"
    then have "unat (of_nat ?m :: u32) = 2 ^ 32 - 1"
      by (simp add: kEmpty_def unsigned_minus_1_eq_mask mask_eq_exp_minus_1)
    then show False using um room small by simp
  qed
  have occ: "occupied t' = insert p (occupied t)"
    using pc ne by (auto simp: occupied_def t' nth_list_update split: if_splits)
  have slot: "tslots t' ! q = tslots t ! q" if "q \<in> occupied t" for q
    using that p(2) by (cases "q = p") (simp_all add: t')
  have reps: "treps t' ! d = treps t ! d" if "d < ?m" for d using that by (simp add: t' nth_append)
  have len: "length (tslots t') = ?cap" "length (treps t') = Suc ?m" by (simp_all add: t')
  have inj: "inj_on (\<lambda>d. row_key cols (treps t' ! d)) {..<length (treps t')}"
    using ok new by (auto simp: table_ok_def t' inj_on_def nth_append less_Suc_eq)
  have card: "card (occupied t') \<le> length (treps t')"
  proof -
    have "finite (occupied t)" by (simp add: occupied_def)
    then show ?thesis using ok p(2) unfolding occ len by (simp add: table_ok_def)
  qed
  have ids: "unat (snd (tslots t' ! q)) < length (treps t') \<and>
      fst (tslots t' ! q) = probe_tag (H (treps t' ! unat (snd (tslots t' ! q))))" if "q \<in> occupied t'" for q
  proof (cases "q = p")
    case True
    then show ?thesis using pc um by (simp add: t')
  next
    case False
    then have q: "q \<in> occupied t" using that by (simp add: occ)
    then have "unat (snd (tslots t ! q)) < ?m" "fst (tslots t ! q) = probe_tag (H (treps t ! unat (snd (tslots t ! q))))"
      using ok by (simp_all add: table_ok_def)
    then show ?thesis using slot [OF q] reps by (simp add: len)
  qed
  have path: "\<exists>j<length (tslots t'). snd (tslots t' ! pos (length (tslots t')) (H (treps t' ! d)) j) = of_nat d \<and>
      (\<forall>i\<le>j. pos (length (tslots t')) (H (treps t' ! d)) i \<in> occupied t')" if "d < length (treps t')" for d
  proof (cases "d < ?m")
    case True
    then obtain i where "i < ?cap" "snd (tslots t ! pos ?cap (H (treps t ! d)) i) = of_nat d"
        "\<forall>i'\<le>i. pos ?cap (H (treps t ! d)) i' \<in> occupied t"
      using ok by (auto simp: table_ok_def)
    then show ?thesis using slot by (intro exI [of _ i]) (simp add: len occ reps [OF True])
  next
    case False
    then have d: "d = ?m" using that by (simp add: len)
    have d2: "treps t' ! d = row" by (simp add: t' d)
    have "snd (tslots t' ! p) = of_nat ?m" using pc by (simp add: t')
    then show ?thesis
      unfolding d2 using j before by (intro exI [of _ j]) (auto simp: len occ p(1) d order_le_less)
  qed
  have "(\<exists>k. length (tslots t') = 2 ^ k \<and> tmask t' = 2 ^ k - 1)" "\<forall>r\<in>set (treps t'). r < n"
    using ok row by (simp_all add: table_ok_def t')
  with inj card ids path show ?thesis unfolding table_ok_def by blast
qed

text \<open>A representative with the key of the probed row lies ahead of the probe, before any free slot.\<close>

lemma table_ahead:
  assumes ok: "table_ok n cols H t" and cong: "\<And>a b. row_key cols a = row_key cols b \<Longrightarrow> H a = H b"
    and d: "d < length (treps t)" "row_key cols (treps t ! d) = row_key cols row"
    and small: "n \<le> 2 ^ 31" "length (treps t) \<le> n"
    and before: "\<forall>i<j. row_key cols (treps t ! unat (snd (tslots t ! pos (length (tslots t)) (H row) i))) \<noteq> row_key cols row"
  shows "pos (length (tslots t)) (H row) j \<in> occupied t"
proof -
  have h: "H (treps t ! d) = H row" by (rule cong [OF d(2)])
  obtain i where i: "snd (tslots t ! pos (length (tslots t)) (H row) i) = of_nat d"
      "\<forall>i'\<le>i. pos (length (tslots t)) (H row) i' \<in> occupied t"
    using ok d(1) h by (auto simp: table_ok_def)
  have "unat (of_nat d :: u32) = d" using d(1) small by (simp add: unsigned_of_nat take_bit_eq_mod)
  then have "\<not> i < j" using before i(1) d(2) by auto
  then show ?thesis using i(2) by simp
qed

lemma find_loop_yields:
  assumes ok: "table_ok n cols H t" and cols: "\<forall>c\<in>set cols. col_ok n c"
    and cong: "\<And>a b. row_key cols a = row_key cols b \<Longrightarrow> H a = H b"
    and row: "row < n" and small: "n \<le> 2 ^ 31" and room: "length (treps t) < n" "length (treps t) < length (tslots t)"
    and steps: "j + fuel = length (tslots t)"
    and before: "\<forall>i<j. pos (length (tslots t)) (H row) i \<in> occupied t \<and>
      row_key cols (treps t ! unat (snd (tslots t ! pos (length (tslots t)) (H row) i))) \<noteq> row_key cols row"
  shows "yields (find_loop fuel cols (probe_tag (H row)) row (pos (length (tslots t)) (H row) j) t b) (found n cols H row t)"
  using steps before
proof (induction fuel arbitrary: j b)
  case 0
  let ?cap = "length (tslots t)"
  have "{..<?cap} \<subseteq> occupied t"
    using 0 pos_onto [of _ ?cap "H row"] by (metis add_0_right lessThan_iff subsetI)
  then have "?cap \<le> card (occupied t)"
    using card_mono [of "occupied t" "{..<?cap}"] by (simp add: occupied_def)
  then show ?case using ok room(2) by (simp add: table_ok_def)
next
  case (Suc fuel)
  let ?cap = "length (tslots t)" and ?p = "pos (length (tslots t)) (H row) j"
  obtain k where k: "?cap = 2 ^ k" "tmask t = 2 ^ k - 1" using ok by (auto simp: table_ok_def)
  have pc: "?p < ?cap" using pos_next(3) [OF k] k(1) by simp
  have nxt: "Suc ?p AND tmask t = pos ?cap (H row) (Suc j)" using pos_next(1) [OF k] k(1) by simp
  have jc: "j < ?cap" using Suc.prems(1) by simp
  have bef: "\<forall>i<j. row_key cols (treps t ! unat (snd (tslots t ! pos ?cap (H row) i))) \<noteq> row_key cols row"
    using Suc.prems(2) by blast
  have go: "yields (find_loop fuel cols (probe_tag (H row)) row (Suc ?p AND tmask t) t b') (found n cols H row t)"
    if "?p \<in> occupied t" "row_key cols (treps t ! unat (snd (tslots t ! ?p))) \<noteq> row_key cols row" for b'
    unfolding nxt using Suc.prems that by (intro Suc.IH) (auto simp: less_Suc_eq)
  show ?case
  proof (cases "?p \<in> occupied t")
    case False
    then have empty: "snd (tslots t ! ?p) = kEmpty" using pc by (simp add: occupied_def)
    have new: "\<forall>d<length (treps t). row_key cols (treps t ! d) \<noteq> row_key cols row"
      using table_ahead [OF ok cong _ _ small less_imp_le [OF room(1)] bef] False by blast
    have m: "row mod 4294967296 = row" using row small by simp
    have "table_ok n cols H (t\<lparr>tslots := (tslots t)[?p := (probe_tag (H row), of_nat (length (treps t)))],
        treps := treps t @ [row]\<rparr>)"
      using Suc.prems(2) by (intro table_insert [OF ok row small jc refl False _ new room(1) refl]) blast
    then show ?thesis by (simp add: empty found_def Let_def m)
  next
    case True
    then have ne: "snd (tslots t ! ?p) \<noteq> kEmpty"
      and id: "unat (snd (tslots t ! ?p)) < length (treps t)"
        "fst (tslots t ! ?p) = probe_tag (H (treps t ! unat (snd (tslots t ! ?p))))"
      using ok by (auto simp: occupied_def table_ok_def)
    let ?r = "treps t ! unat (snd (tslots t ! ?p))"
    show ?thesis
    proof (cases "fst (tslots t ! ?p) = probe_tag (H row)")
      case False
      then have "row_key cols ?r \<noteq> row_key cols row" using id(2) cong by metis
      from go [OF True this] show ?thesis using ne False by (simp add: Let_def)
    next
      case tag: True
      have r: "?r < n" using ok id(1) by (simp add: table_ok_def)
      have "yields (obind (EqualRows cols ?r row b) (\<lambda>(eq, b').
          if eq then Done (unat (snd (tslots t ! ?p)), t, b')
          else find_loop fuel cols (probe_tag (H row)) row (Suc ?p AND tmask t) t b')) (found n cols H row t)"
      proof (rule yields_bind [OF EqualRows_yields [OF cols r row]])
        fix x :: "bool \<times> budget"
        assume "fst x = (row_key cols ?r = row_key cols row)"
        then show "yields (case x of (eq, b') \<Rightarrow> if eq then Done (unat (snd (tslots t ! ?p)), t, b')
            else find_loop fuel cols (probe_tag (H row)) row (Suc ?p AND tmask t) t b') (found n cols H row t)"
          using go [OF True] ok id(1) by (cases x) (auto simp: found_def)
      qed
      then show ?thesis using ne tag by (simp add: Let_def)
    qed
  qed
qed

lemma FindOrInsert_yields [ends]:
  assumes "table_ok n cols H t" "\<forall>c\<in>set cols. col_ok n c" "\<And>a b. row_key cols a = row_key cols b \<Longrightarrow> H a = H b"
    and "row < n" "n \<le> 2 ^ 31" "length (treps t) < n" "length (treps t) < length (tslots t)"
  shows "yields (FindOrInsert cols row (H row) t b) (found n cols H row t)"
proof -
  obtain k where k: "length (tslots t) = 2 ^ k" "tmask t = 2 ^ k - 1" using assms(1) by (auto simp: table_ok_def)
  have "unat (Spread (H row)) AND tmask t = pos (length (tslots t)) (H row) 0" using pos_next(2) [OF k] k(1) by simp
  then show ?thesis
    using find_loop_yields [OF assms, of 0 "length (tslots t)" b] by (simp add: FindOrInsert_def Let_def probe_tag_def)
qed

section \<open>The whole mapping\<close>

lemma grow_capacity_spec:
  assumes "c = 2 ^ i"
  shows "\<exists>k. grow_capacity e c = 2 ^ k" "e * 2 \<le> grow_capacity e c" "c \<le> grow_capacity e c"
proof -
  have "(\<exists>k. grow_capacity e c = 2 ^ k) \<and> e * 2 \<le> grow_capacity e c \<and> c \<le> grow_capacity e c"
    using assms
  proof (induction e c arbitrary: i rule: grow_capacity.induct)
    case (1 e c)
    show ?case
    proof (cases "c < e * 2")
      case True
      have "c * 2 = 2 ^ Suc i" using 1(2) by simp
      moreover have "c \<noteq> 0" using 1(2) by simp
      ultimately show ?thesis using 1(1) [of "Suc i"] True grow_capacity.simps [of e c] by auto
    next
      case False
      then show ?thesis using 1(2) grow_capacity.simps [of e c] by auto
    qed
  qed
  then show "\<exists>k. grow_capacity e c = 2 ^ k" "e * 2 \<le> grow_capacity e c" "c \<le> grow_capacity e c" by blast+
qed

lemma table_ok_new:
  "table_ok n cols H (DistinctTable e)" "treps (DistinctTable e) = []" "e \<le> length (tslots (DistinctTable e))"
  "length (tslots (DistinctTable e)) \<ge> 16"
proof -
  note g = grow_capacity_spec [of 16 4 e]
  have "occupied (DistinctTable e) = {}" by (auto simp: occupied_def DistinctTable_def Let_def)
  then show "table_ok n cols H (DistinctTable e)"
    using g(1) by (auto simp: table_ok_def DistinctTable_def Let_def)
  show "treps (DistinctTable e) = []" by (simp add: DistinctTable_def Let_def)
  show "e \<le> length (tslots (DistinctTable e))" "length (tslots (DistinctTable e)) \<ge> 16"
    using g(2,3) by (simp_all add: DistinctTable_def Let_def)
qed

text \<open>
  The state after the rows \<open>0, ..., m - 1\<close>: every one of them is mapped to a representative
  with its key, and the representatives are first occurrences in ascending order.
\<close>

definition assigned :: "nat \<Rightarrow> KeyColumn list \<Rightarrow> nat \<Rightarrow> nat list \<Rightarrow> nat list \<Rightarrow> bool" where
  "assigned n cols m orig reps \<longleftrightarrow> length orig = n \<and> length reps \<le> m \<and>
     (\<forall>r<m. orig ! r < length reps \<and> row_key cols (reps ! (orig ! r)) = row_key cols r) \<and>
     (\<forall>r\<in>set reps. r < m) \<and> sorted_wrt (<) reps"

lemma assigned_step:
  assumes "assigned n cols m orig (treps t)" "m < n" "found n cols H m t (d, t', b')"
  shows "assigned n cols (Suc m) (orig[m := d]) (treps t')"
proof -
  have t': "treps t' = treps t \<or> treps t' = treps t @ [m]" and d: "d < length (treps t')"
      "row_key cols (treps t' ! d) = row_key cols m"
    using assms(3) by (auto simp: found_def)
  have len: "length orig = n" using assms(1) by (simp add: assigned_def)
  have "(orig[m := d]) ! r < length (treps t') \<and> row_key cols (treps t' ! ((orig[m := d]) ! r)) = row_key cols r"
    if "r < Suc m" for r
  proof (cases "r = m")
    case True
    then show ?thesis using d assms(2) len by simp
  next
    case False
    then have "r < m" using that by simp
    then have o: "orig ! r < length (treps t)" "row_key cols (treps t ! (orig ! r)) = row_key cols r"
      using assms(1) by (simp_all add: assigned_def)
    then show ?thesis using t' False by (auto simp: nth_append)
  qed
  moreover have "(\<forall>r\<in>set (treps t'). r < Suc m) \<and> sorted_wrt (<) (treps t') \<and> length (treps t') \<le> Suc m"
    using t' assms(1) by (auto simp: assigned_def sorted_wrt_append less_SucI)
  ultimately show ?thesis using len by (simp add: assigned_def)
qed

lemma assign_rows_yields:
  assumes "table_ok n cols H t" "\<forall>c\<in>set cols. col_ok n c" "\<And>a b. row_key cols a = row_key cols b \<Longrightarrow> H a = H b"
    and "n \<le> 2 ^ 31" "assigned n cols m orig (treps t)" "m \<le> n" "n \<le> length (tslots t)"
    and "hashes = map H [0..<n]"
  shows "yields (assign_rows cols hashes [m..<n] orig t b)
    (\<lambda>(orig', t'). table_ok n cols H t' \<and> assigned n cols n orig' (treps t'))"
  using assms(1,5,6,7)
proof (induction "n - m" arbitrary: m orig t b)
  case 0
  then show ?case by simp
next
  case (Suc k)
  then have m: "m < n" and upt: "[m..<n] = m # [Suc m..<n]" by (simp_all add: upt_rec)
  have room: "length (treps t) < n" "length (treps t) < length (tslots t)"
    using Suc.prems(2,4) m by (auto simp: assigned_def)
  have h: "hashes ! m = H m" using m by (simp add: assms(8))
  show ?case
    unfolding upt assign_rows.simps h
  proof (rule yields_bind [OF FindOrInsert_yields [OF Suc.prems(1) assms(2,3) m assms(4) room]])
    fix x :: "nat \<times> distinct_table \<times> budget"
    assume f: "found n cols H m t x"
    obtain d t' b' where x: "x = (d, t', b')" by (metis prod_cases3)
    have "table_ok n cols H t'" "length (tslots t') = length (tslots t)" using f by (simp_all add: x found_def)
    with Suc.hyps(1) [of "Suc m" t' "orig[m := d]" b'] Suc.hyps(2) Suc.prems(4) m
      assigned_step [OF Suc.prems(2) m f [unfolded x]]
    show "yields (case x of (d, t', b') \<Rightarrow> assign_rows cols hashes [Suc m..<n] (orig[m := d]) t' b')
        (\<lambda>(orig', t'). table_ok n cols H t' \<and> assigned n cols n orig' (treps t'))"
      by (simp add: x)
  qed
qed

section \<open>The counting sort\<close>

definition group_of :: "nat \<Rightarrow> nat list \<Rightarrow> nat \<Rightarrow> nat list" where
  "group_of n orig d = filter (\<lambda>row. orig ! row = d) [0..<n]"

definition offset :: "nat \<Rightarrow> nat list \<Rightarrow> nat \<Rightarrow> nat" where
  "offset n orig d = (\<Sum>g<d. length (group_of n orig g))"

lemma group_of_Suc: "group_of (Suc m) orig d = group_of m orig d @ (if orig ! m = d then [m] else [])"
  by (simp add: group_of_def)

lemma count_groups_spec:
  assumes "\<forall>r<n. orig ! r < k"
  shows "length (count_groups n k orig) = k + 1" "count_groups n k orig ! 0 = 0"
    "d < k \<Longrightarrow> count_groups n k orig ! (d + 1) = length (group_of n orig d)"
proof -
  define F where "F m = fold (\<lambda>row off. off[orig ! row + 1 := off ! (orig ! row + 1) + 1]) [0..<m] (replicate (k + 1) (0 :: nat))" for m
  have F: "F 0 = replicate (k + 1) 0" "F (Suc m) = (F m)[orig ! m + 1 := F m ! (orig ! m + 1) + 1]" for m
    by (simp_all add: F_def)
  have "m \<le> n \<Longrightarrow> length (F m) = k + 1 \<and> F m ! 0 = 0 \<and> (\<forall>d<k. F m ! (d + 1) = length (group_of m orig d))" for m
  proof (induction m)
    case 0
    then show ?case by (simp add: group_of_def F(1) del: replicate_Suc)
  next
    case (Suc m)
    then show ?case using assms by (auto simp: group_of_Suc nth_list_update F(2))
  qed
  from this [of n] show "length (count_groups n k orig) = k + 1" "count_groups n k orig ! 0 = 0"
    "d < k \<Longrightarrow> count_groups n k orig ! (d + 1) = length (group_of n orig d)"
    by (simp_all add: count_groups_def F_def)
qed

lemma prefix_sums_spec:
  assumes "length off = k + 1" "off ! 0 = 0"
  shows "length (prefix_sums k off) = k + 1" "d \<le> k \<Longrightarrow> prefix_sums k off ! d = (\<Sum>g<d. off ! (g + 1))"
proof -
  have "m \<le> k \<Longrightarrow>
      length (fold (\<lambda>i off. off[i + 1 := off ! (i + 1) + off ! i]) [0..<m] off) = k + 1 \<and>
      (\<forall>d\<le>k. fold (\<lambda>i off. off[i + 1 := off ! (i + 1) + off ! i]) [0..<m] off ! d =
        (if d \<le> m then (\<Sum>g<d. off ! (g + 1)) else off ! d))" for m
  proof (induction m)
    case 0
    then show ?case using assms by simp
  next
    case (Suc m)
    then show ?case using assms by (auto simp: nth_list_update le_Suc_eq)
  qed
  from this [of k] show "length (prefix_sums k off) = k + 1"
    "d \<le> k \<Longrightarrow> prefix_sums k off ! d = (\<Sum>g<d. off ! (g + 1))"
    by (auto simp: prefix_sums_def)
qed

lemma offset_step: "offset n orig (Suc d) = offset n orig d + length (group_of n orig d)"
  by (simp add: offset_def)

lemma offset_mono: "d \<le> e \<Longrightarrow> offset n orig d \<le> offset n orig e"
  unfolding offset_def by (rule sum_mono2) auto

lemma group_total:
  assumes "\<forall>r<n. orig ! r < k"
  shows "offset n orig k = n"
proof -
  have "m \<le> n \<Longrightarrow> (\<Sum>g<k. length (group_of m orig g)) = m" for m
  proof (induction m)
    case (Suc m)
    have "(\<Sum>g<k. length (if orig ! m = g then [m] else [])) = 1"
      using assms Suc.prems by (simp add: if_distrib sum.delta' cong: if_cong)
    then show ?case using Suc by (simp add: group_of_Suc sum.distrib)
  qed (simp add: group_of_def)
  then show ?thesis by (simp add: offset_def)
qed

lemma group_prefix: "m \<le> n \<Longrightarrow> \<exists>zs. group_of n orig d = group_of m orig d @ zs"
  unfolding group_of_def by (metis filter_append le_add_diff_inverse upt_add_eq_append zero_le)

text \<open>
  While the rows are scattered, group \<open>d\<close> holds its rows so far from its offset on, and the
  next position of the group is right behind them.
\<close>

definition scattered :: "nat \<Rightarrow> nat \<Rightarrow> nat list \<Rightarrow> nat \<Rightarrow> nat list \<times> nat list \<Rightarrow> bool" where
  "scattered n k orig m st \<longleftrightarrow> length (fst st) = k \<and> length (snd st) = n \<and>
     (\<forall>d<k. fst st ! d = offset n orig d + length (group_of m orig d) \<and>
        (\<forall>i<length (group_of m orig d). snd st ! (offset n orig d + i) = group_of m orig d ! i))"

lemma scattered_step:
  assumes "scattered n k orig m st" "m < n" "\<forall>r<n. orig ! r < k"
  shows "scattered n k orig (Suc m)
    ((fst st)[orig ! m := fst st ! (orig ! m) + 1], (snd st)[fst st ! (orig ! m) := m])"
proof -
  let ?o = "orig ! m" and ?len = "\<lambda>d. length (group_of m orig d)"
  have o: "?o < k" using assms(2,3) by simp
  have nx: "fst st ! d = offset n orig d + ?len d" if "d < k" for d using assms(1) that by (simp add: scattered_def)
  have lt: "?len d < length (group_of n orig d)" if "d = ?o" for d
    using group_prefix [of "Suc m" n orig d] assms(2) that by (auto simp: group_of_Suc)
  have le: "?len d \<le> length (group_of n orig d)" for d
    using group_prefix [of m n orig d] assms(2) by auto
  have away: "offset n orig d + i \<noteq> fst st ! ?o" if "d < k" "d \<noteq> ?o" "i < ?len d" for d i
  proof (cases "d < ?o")
    case True
    then show ?thesis using offset_mono [of "Suc d" ?o n orig] that(3) le [of d] nx [OF o] by (simp add: offset_step)
  next
    case False
    then show ?thesis using offset_mono [of "Suc ?o" d n orig] that(2) lt [of ?o] nx [OF o] by (simp add: offset_step)
  qed
  have pos: "fst st ! ?o < n"
    using offset_mono [of "Suc ?o" k n orig] o group_total [OF assms(3)] lt [of ?o] nx [OF o] by (simp add: offset_step)
  have len: "length (fst st) = k" "length (snd st) = n"
    and old: "\<And>d i. d < k \<Longrightarrow> i < ?len d \<Longrightarrow> snd st ! (offset n orig d + i) = group_of m orig d ! i"
    using assms(1) by (simp_all add: scattered_def)
  have "(fst st)[?o := fst st ! ?o + 1] ! d = offset n orig d + length (group_of (Suc m) orig d) \<and>
      (\<forall>i<length (group_of (Suc m) orig d).
         (snd st)[fst st ! ?o := m] ! (offset n orig d + i) = group_of (Suc m) orig d ! i)" if d: "d < k" for d
  proof (cases "d = ?o")
    case True
    have "(snd st)[fst st ! ?o := m] ! (offset n orig d + i) = (group_of m orig d @ [m]) ! i" if "i < Suc (?len d)" for i
      using that old [OF d, of i] nx [OF o] pos len True by (cases "i = ?len d") (simp_all add: nth_append)
    then show ?thesis using True nx [OF o] len d by (simp add: group_of_Suc)
  next
    case False
    have "(snd st)[fst st ! ?o := m] ! (offset n orig d + i) = group_of m orig d ! i" if "i < ?len d" for i
      using old [OF d that] away [OF d False that] by (metis nth_list_update_neq)
    then show ?thesis using nx [OF d] False by (simp add: group_of_Suc)
  qed
  then show ?thesis using len by (simp add: scattered_def)
qed

lemma scatter_rows_spec:
  assumes "\<forall>r<n. orig ! r < k" "length off = k + 1" "\<And>d. d < k \<Longrightarrow> off ! d = offset n orig d"
  shows "length (scatter_rows n orig off) = n"
    "d < k \<Longrightarrow> i < length (group_of n orig d) \<Longrightarrow> scatter_rows n orig off ! (offset n orig d + i) = group_of n orig d ! i"
proof -
  let ?f = "\<lambda>row (nxt, rows). (nxt[orig ! row := nxt ! (orig ! row) + 1], rows[nxt ! (orig ! row) := row])"
  have "m \<le> n \<Longrightarrow> scattered n k orig m (fold ?f [0..<m] (butlast off, replicate n 0))" for m
  proof (induction m)
    case 0
    then show ?case using assms(2,3) by (simp add: scattered_def group_of_def nth_butlast)
  next
    case (Suc m)
    then show ?case using scattered_step [of n k orig m "fold ?f [0..<m] (butlast off, replicate n 0)"] assms(1)
      by (simp add: case_prod_unfold)
  qed
  from this [of n] show "length (scatter_rows n orig off) = n"
    "d < k \<Longrightarrow> i < length (group_of n orig d) \<Longrightarrow> scatter_rows n orig off ! (offset n orig d + i) = group_of n orig d ! i"
    by (simp_all add: scattered_def scatter_rows_def)
qed

section \<open>Correctness of the mapping\<close>

lemma sample_row:
  assumes "i < samples" "samples \<le> n"
  shows "i * n div samples + x mod ((i + 1) * n div samples - i * n div samples) < (n :: nat)"
proof -
  have "i * n div samples + 1 \<le> (i * n + n) div samples"
    using assms by (metis add.commute add_leD2 div_add_self2 div_le_mono less_or_eq_imp_le
      mult_is_0 nat_add_left_cancel_le not_less0 plus_1_eq_Suc)
  then have lt: "0 < (i + 1) * n div samples - i * n div samples" by (simp add: algebra_simps)
  have "(i + 1) * n div samples \<le> samples * n div samples"
    using assms(1) by (intro div_le_mono mult_le_mono1) simp
  then have "(i + 1) * n div samples \<le> n" using assms(1) by simp
  then show ?thesis using mod_less_divisor [OF lt, of x] by linarith
qed

lemma sample_loop_yields:
  assumes "\<forall>c\<in>set cols. col_ok n c" "n \<le> 2 ^ 31" "table_ok n cols (row_hash env cols) t" "samples \<le> n"
    and "\<forall>i\<in>set is. i < samples" "length (treps t) + length is \<le> samples" "samples \<le> length (tslots t)"
  shows "yields (sample_loop env cols n samples is random t b) (\<lambda>_. True)"
  using assms(3,5-7)
proof (induction "is" arbitrary: random t b)
  case (Cons i "is")
  define row where "row = i * n div samples + unat (next_random random) mod ((i + 1) * n div samples - i * n div samples)"
  have row: "row < n" unfolding row_def using Cons.prems(2) assms(4) by (intro sample_row) auto
  have room: "length (treps t) < n" "length (treps t) < length (tslots t)"
    using Cons.prems(3,4) assms(4) by simp_all
  have "yields (obind (FindOrInsert cols row (row_hash env cols row) t b') (\<lambda>(_, t', b'').
      sample_loop env cols n samples is (next_random random) t' b'')) (\<lambda>_. True)" for b'
  proof (rule yields_bind [OF FindOrInsert_yields [OF Cons.prems(1) assms(1) row_hash_cong row assms(2) room]])
    fix x :: "nat \<times> distinct_table \<times> budget"
    assume f: "found n cols (row_hash env cols) row t x"
    obtain d t' b'' where x: "x = (d, t', b'')" by (metis prod_cases3)
    have "table_ok n cols (row_hash env cols) t'" "length (tslots t') = length (tslots t)"
        "length (treps t') \<le> Suc (length (treps t))"
      using f by (auto simp: x found_def)
    then show "yields (case x of (_, t', b'') \<Rightarrow> sample_loop env cols n samples is (next_random random) t' b'') (\<lambda>_. True)"
      using Cons.IH Cons.prems by (simp add: x)
  qed
  then have "yields (obind (HashRow env cols row b) (\<lambda>(h, b'). obind (FindOrInsert cols row h t b') (\<lambda>(_, t', b'').
      sample_loop env cols n samples is (next_random random) t' b''))) (\<lambda>_. True)"
    unfolding HashRow_def by (intro yields_bind [OF hash_row_yields [OF assms(1)]]) (auto split: prod.split)
  then show ?case by (simp add: Let_def row_def)
qed simp

lemma SampleWorthwhile_yields:
  assumes "\<forall>c\<in>set cols. col_ok n c" "n \<le> 2 ^ 31"
  shows "yields (SampleWorthwhile env cols n options) (\<lambda>_. True)"
  unfolding SampleWorthwhile_def Let_def
  using assms table_ok_new(1) [of n cols "row_hash env cols" "min 64 n"] table_ok_new(2,3) [of "min 64 n"]
  by (intro yields_bind [OF sample_loop_yields]) (auto split: prod.split)

text \<open>
  What a mapping must satisfy: the ids cover \<open>0, ..., k - 1\<close>, a row and the representative of
  its id have the same key, and the flat groups list, for every id, its rows in ascending order.
\<close>

definition mapping_ok :: "nat \<Rightarrow> KeyColumn list \<Rightarrow> InputDedup \<Rightarrow> bool" where
  "mapping_ok n cols d \<longleftrightarrow> dn d = n \<and> dk d \<le> n \<and> length (distinct_rows d) = dk d \<and> length (orig_to_distinct d) = n \<and>
     (\<forall>r\<in>set (distinct_rows d). r < n) \<and> sorted_wrt (<) (distinct_rows d) \<and>
     (\<forall>r<n. orig_to_distinct d ! r < dk d \<and> row_key cols (distinct_rows d ! (orig_to_distinct d ! r)) = row_key cols r) \<and>
     (\<forall>g<dk d. Group d g = filter (\<lambda>r. orig_to_distinct d ! r = g) [0..<n])"

lemma mapping_ok_trivial: "mapping_ok n cols (TrivialDedup n)"
proof -
  have "take 1 (drop g [0..<n]) = filter (\<lambda>r. [0..<n] ! r = g) [0..<n]" if "g < n" for g
  proof -
    have "filter (\<lambda>r. [0..<n] ! r = g) [0..<n] = filter (\<lambda>r. r = g) [0..<n]" by (rule filter_cong) auto
    also have "\<dots> = [g]"
      using that by (induction n) (auto simp: less_Suc_eq filter_empty_conv)
    finally show ?thesis using that by (simp add: take_Suc_conv_app_nth)
  qed
  moreover have "Group (TrivialDedup n) g = take 1 (drop g [0..<n])" if "g < n" for g
    using that by (simp add: Group_def TrivialDedup_def del: upt_Suc)
  ultimately show ?thesis by (simp add: mapping_ok_def TrivialDedup_def del: upt_Suc)
qed

lemma mapping_ok_finish:
  assumes "assigned n cols n orig reps"
  shows "mapping_ok n cols (finish_dedup n orig reps)"
proof -
  let ?k = "length reps" and ?d = "finish_dedup n orig reps"
  have o: "\<forall>r<n. orig ! r < ?k" using assms by (simp add: assigned_def)
  note C = count_groups_spec [OF o] and P = prefix_sums_spec [OF count_groups_spec(1,2) [OF o]]
  have off: "group_offsets ?d ! g = offset n orig g" if "g \<le> ?k" for g
    using P(2) [OF that] C(3) that by (simp add: finish_dedup_def Let_def offset_def)
  have "length (group_offsets ?d) = ?k + 1" using P(1) by (simp add: finish_dedup_def Let_def)
  note S = scatter_rows_spec [OF o this off [OF less_imp_le]]
  have rows: "group_rows ?d = scatter_rows n orig (group_offsets ?d)" by (simp add: finish_dedup_def Let_def)
  have "Group ?d g = group_of n orig g" if g: "g < ?k" for g
  proof -
    have sz: "group_offsets ?d ! (g + 1) - group_offsets ?d ! g = length (group_of n orig g)"
      using g off [of "g + 1"] off [of g] by (simp add: offset_step)
    have "offset n orig g + length (group_of n orig g) \<le> n"
      using offset_mono [of "Suc g" ?k n orig] g group_total [OF o] by (simp add: offset_step)
    then show ?thesis
      unfolding Group_def sz rows using S g off [of g] by (intro nth_equalityI) simp_all
  qed
  then show ?thesis
    using assms by (simp add: mapping_ok_def assigned_def finish_dedup_def Let_def group_of_def)
qed

lemma dedup_rows_yields:
  assumes "\<forall>c\<in>set cols. col_ok n c" "n \<le> 2 ^ 31"
  shows "yields (dedup_rows env cols large n options) (\<lambda>d. mapping_ok n cols d \<and>
    (d = TrivialDedup n \<or> inj_on (\<lambda>g. row_key cols (distinct_rows d ! g)) {..<dk d}))"
proof -
  let ?P = "\<lambda>d. mapping_ok n cols d \<and> (d = TrivialDedup n \<or> inj_on (\<lambda>g. row_key cols (distinct_rows d ! g)) {..<dk d})"
  have asg: "yields (obind (assign_rows cols hs [0..<n] (replicate n 0) (DistinctTable n) b) (\<lambda>(orig, t).
      Done (finish_dedup n orig (treps t)))) ?P" if "hs = map (row_hash env cols) [0..<n]" for hs b
  proof (rule yields_bind [OF assign_rows_yields [OF table_ok_new(1) assms(1) row_hash_cong assms(2) _ le0 table_ok_new(3) that]])
    show "assigned n cols 0 (replicate n 0) (treps (DistinctTable n))"
      by (simp add: assigned_def table_ok_new(2))
    fix x :: "nat list \<times> distinct_table"
    assume "case x of (orig', t') \<Rightarrow> table_ok n cols (row_hash env cols) t' \<and> assigned n cols n orig' (treps t')"
    then show "yields (case x of (orig, t) \<Rightarrow> Done (finish_dedup n orig (treps t))) ?P"
      using mapping_ok_finish by (cases x) (auto simp: table_ok_def finish_dedup_def Let_def)
  qed
  have hash: "yields (obind (HashAll env cols n b) (\<lambda>(hs, b).
      obind (assign_rows cols hs [0..<n] (replicate n 0) (DistinctTable n) b) (\<lambda>(orig, t).
        Done (finish_dedup n orig (treps t))))) ?P" for b
    using asg by (intro yields_bind [OF HashAll_yields]) (auto split: prod.split)
  have "yields (if large then SampleWorthwhile env cols n options else Done True) (\<lambda>_. True)"
    using SampleWorthwhile_yields [OF assms] by simp
  then show ?thesis
    unfolding dedup_rows_def using hash mapping_ok_trivial by (auto intro!: yields_bind)
qed

text \<open>
  C24. Deduplication never changes a result. \<^verbatim>\<open>BuildInputDedup\<close> always returns, and the mapping it
  returns lets every row be served from its representative: a worker function that depends
  on the key columns alone, run on the \<open>k\<close> representatives and scattered by \<^verbatim>\<open>orig_to_distinct\<close>,
  gives what it gives on all \<open>n\<close> rows; and the groups partition the rows, each group being the
  rows of its id in ascending order. When the mapping is not the identity it was bypassed to,
  no tuple is shipped twice. Hash collisions, aliased payloads and exhausted budgets
  included; the formats promise only \<^const>\<open>col_ok\<close>.
\<close>

theorem BuildInputDedup_correct:
  assumes "(cols, large) = key_columns env chunk n key_cols (large_input_bytes options)" "\<forall>c\<in>set cols. col_ok n c"
  shows "\<exists>d. BuildInputDedup env chunk n key_cols options = Some d \<and> dn d = n \<and> dk d \<le> n \<and>
    (\<forall>worker. map (\<lambda>r. map (\<lambda>g. worker (row_key cols (distinct_rows d ! g))) [0..<dk d] ! (orig_to_distinct d ! r)) [0..<n] =
       map (\<lambda>r. worker (row_key cols r)) [0..<n]) \<and>
    (\<forall>g<dk d. Group d g = filter (\<lambda>r. orig_to_distinct d ! r = g) [0..<n]) \<and>
    (d = TrivialDedup n \<or> distinct (map (row_key cols) (distinct_rows d)))"
proof -
  let ?P = "\<lambda>d. mapping_ok n cols d \<and> (d = TrivialDedup n \<or> inj_on (\<lambda>g. row_key cols (distinct_rows d ! g)) {..<dk d})"
  have "\<exists>d. BuildInputDedup env chunk n key_cols options = Some d \<and> ?P d"
  proof (cases "n = 0 \<or> key_cols = [] \<or> n > 65536 \<or> length key_cols > 2048")
    case True
    then show ?thesis using mapping_ok_trivial by (auto simp: BuildInputDedup_def)
  next
    case False
    then have "yields (dedup_rows env cols large n options) ?P" using dedup_rows_yields [OF assms(2)] by simp
    then show ?thesis
      using False mapping_ok_trivial
      by (auto simp: BuildInputDedup_def yields_def assms(1) [symmetric] split: outcome.splits)
  qed
  then obtain d where d: "BuildInputDedup env chunk n key_cols options = Some d" "?P d" by blast
  have "distinct (map (row_key cols) (distinct_rows d))" if "inj_on (\<lambda>g. row_key cols (distinct_rows d ! g)) {..<dk d}"
    using that d(2) by (auto simp: distinct_conv_nth inj_on_def mapping_ok_def)
  with d show ?thesis by (intro exI [of _ d]) (auto simp: mapping_ok_def)
qed

definition sample_dedup_env :: dedup_env where
  "sample_dedup_env = \<lparr>HashT = (\<lambda>_ _. 0), hash_view = (\<lambda>_. 0), CreateSortKey = (\<lambda>_ cs. cs ! 0)\<rparr>"

text \<open>Three rows of one string column, the first and the last with the same value; all hashes collide.\<close>

definition sample_chunk :: "InputVector list" where
  "sample_chunk = [\<lparr>vtype = VARCHAR, vsize = 16,
     vformat = \<lparr>kwidth = 0, ksel = [0, 1, 2], kvalid = [True, True, True], kdata = [''x'', ''y'', ''x''], kptr = [1, 2, 3]\<rparr>\<rparr>]"

theorem BuildInputDedup_correct_witness:
  "let cols = fst (key_columns sample_dedup_env sample_chunk 3 [0] (large_input_bytes default_options)) in
   (\<forall>c\<in>set cols. col_ok 3 c) \<and>
   (\<exists>d. BuildInputDedup sample_dedup_env sample_chunk 3 [0] default_options = Some d \<and>
      map (\<lambda>r. map (\<lambda>g. row_key cols (distinct_rows d ! g)) [0..<dk d] ! (orig_to_distinct d ! r)) [0..<3] =
        [[Some ''x''], [Some ''y''], [Some ''x'']])"
proof -
  let ?c = "\<lparr>kwidth = 0, ksel = [0, 1, 2], kvalid = [True, True, True], kdata = [''x'', ''y'', ''x''], kptr = [1, 2, 3]\<rparr>"
  have k: "key_columns sample_dedup_env sample_chunk 3 [0] (large_input_bytes default_options) = ([?c], False)"
    by (simp add: key_columns_def sample_chunk_def default_options_def upt_rec)
  have ok: "\<forall>c\<in>set [?c]. col_ok 3 c"
    by (auto simp: col_ok_def numeral_3_eq_3 less_Suc_eq)
  obtain d where d: "BuildInputDedup sample_dedup_env sample_chunk 3 [0] default_options = Some d"
      "\<And>worker :: string option list \<Rightarrow> string option list.
        map (\<lambda>r. map (\<lambda>g. worker (row_key [?c] (distinct_rows d ! g))) [0..<dk d] ! (orig_to_distinct d ! r)) [0..<3] =
        map (\<lambda>r. worker (row_key [?c] r)) [0..<3]"
    using BuildInputDedup_correct [OF k [symmetric] ok] by blast
  have "map (row_key [?c]) [0..<3] = [[Some ''x''], [Some ''y''], [Some ''x'']]"
    by (simp add: row_key_def col_key_def upt_rec)
  from trans [OF d(2) [of "\<lambda>x. x"] this] show ?thesis
    unfolding k Let_def fst_conv by (intro conjI exI [of _ d] d(1) ok)
qed

end
