(* ===== verification/Cache_Key.thy ===== *)
theory Cache_Key
  imports Codec_Interface
begin

unbundle bit_operations_syntax

text \<open>
  The result-cache key and the cache-control advertisement, \<^verbatim>\<open>src/src/vgi_result_cache.cpp\<close> and
  \<^verbatim>\<open>src/src/include/vgi_cache_control.hpp\<close>: numbers and hexadecimal digests of the disk tier, the key
  with its equality, bucket hash and fingerprint, and the parser of \<^verbatim>\<open>vgi.cache.*\<close> metadata.
  The library's string hash and SHA-256 are arguments.
\<close>

section \<open>Numbers and digests\<close>

definition ParseInt :: "string \<Rightarrow> int \<Rightarrow> int" where
  "ParseInt s fallback =
     (if s = [] then fallback
      else case scan_integer s of
        None \<Rightarrow> fallback
      | Some v \<Rightarrow> if - (2 ^ 63) \<le> v \<and> v < 2 ^ 63 then v else fallback)"

definition hex_digit :: "nat \<Rightarrow> char" where
  "hex_digit d = ''0123456789abcdef'' ! d"

definition HexEncode :: "string \<Rightarrow> string" where
  "HexEncode raw =
     concat (map (\<lambda>c. [hex_digit (drop_bit 4 (of_char c :: nat) AND 15), hex_digit ((of_char c :: nat) AND 15)]) raw)"

definition IsHex64 :: "string \<Rightarrow> bool" where
  "IsHex64 s \<longleftrightarrow> length s = 64 \<and>
     list_all (\<lambda>c. 48 \<le> (of_char c :: nat) \<and> (of_char c :: nat) \<le> 57 \<or>
                   97 \<le> (of_char c :: nat) \<and> (of_char c :: nat) \<le> 102) s"

lemma ParseInt_show [simp]: "- (2 ^ 63) \<le> i \<Longrightarrow> i < 2 ^ 63 \<Longrightarrow> ParseInt (show_int i) f = i"
proof -
  assume "- (2 ^ 63) \<le> i" "i < 2 ^ 63"
  moreover have "show_int i \<noteq> []" by (simp add: show_int_def)
  ultimately show ?thesis by (simp add: ParseInt_def)
qed

lemma ParseInt_range: "- (2 ^ 63) \<le> f \<Longrightarrow> f < 2 ^ 63 \<Longrightarrow> - (2 ^ 63) \<le> ParseInt s f \<and> ParseInt s f < 2 ^ 63"
  by (simp add: ParseInt_def split: option.split)

section \<open>The key\<close>

record VgiResultCacheKey =
  identity_scope :: string
  worker_path :: string
  function_name :: string
  schema_name :: string
  canonical_arguments :: string
  canonical_settings :: string
  attach_options :: string
  projection :: string
  attached_data_version :: string
  implementation_version :: string
  catalog_version :: int
  at_unit :: string
  at_value :: string
  filter_bytes :: string
  order_by_hint :: string
  sample_hint :: string
  transaction_id :: string
  input_hash :: string
  shape_key :: string
  secret_scope :: string

definition key_equal :: "VgiResultCacheKey \<Rightarrow> VgiResultCacheKey \<Rightarrow> bool" where
  "key_equal k o' \<longleftrightarrow>
     identity_scope k = identity_scope o' \<and> worker_path k = worker_path o' \<and>
     function_name k = function_name o' \<and> schema_name k = schema_name o' \<and>
     canonical_arguments k = canonical_arguments o' \<and>
     canonical_settings k = canonical_settings o' \<and> attach_options k = attach_options o' \<and>
     projection k = projection o' \<and> attached_data_version k = attached_data_version o' \<and>
     implementation_version k = implementation_version o' \<and> catalog_version k = catalog_version o' \<and>
     at_unit k = at_unit o' \<and> at_value k = at_value o' \<and> filter_bytes k = filter_bytes o' \<and>
     order_by_hint k = order_by_hint o' \<and> sample_hint k = sample_hint o' \<and>
     transaction_id k = transaction_id o' \<and> input_hash k = input_hash o' \<and> shape_key k = shape_key o' \<and>
     secret_scope k = secret_scope o'"

definition HashCombine :: "u64 \<Rightarrow> u64 \<Rightarrow> u64" where
  "HashCombine seed v = seed XOR (v + (0x9e3779b97f4a7c15 + push_bit 6 seed + drop_bit 2 seed))"

definition HashStr :: "(string \<Rightarrow> u64) \<Rightarrow> u64 \<Rightarrow> string \<Rightarrow> u64" where
  "HashStr std_hash seed s = HashCombine seed (std_hash s)"

definition Hash :: "(string \<Rightarrow> u64) \<Rightarrow> VgiResultCacheKey \<Rightarrow> u64" where
  "Hash std_hash k =
     (let s0 = 0xcbf29ce484222325;
          s1 = foldl (HashStr std_hash) s0
            [identity_scope k, worker_path k, function_name k, schema_name k, canonical_arguments k,
             canonical_settings k, attach_options k, projection k, attached_data_version k, implementation_version k];
          s2 = HashCombine s1 (word_of_int (catalog_version k)) in
      foldl (HashStr std_hash) s2
        [at_unit k, at_value k, filter_bytes k, order_by_hint k, sample_hint k, transaction_id k,
         input_hash k, shape_key k, secret_scope k])"

text \<open>The conversion \<^verbatim>\<open>%016llx\<close>: sixteen digits, the most significant first.\<close>

definition HexDigest :: "(string \<Rightarrow> u64) \<Rightarrow> VgiResultCacheKey \<Rightarrow> string" where
  "HexDigest std_hash k =
     (let h = Hash std_hash k in map (\<lambda>i. hex_digit (unat (drop_bit (4 * (15 - i)) h AND 15))) [0..<16])"

section \<open>The fingerprint\<close>

definition add_field :: "string \<Rightarrow> string" where
  "add_field s = show_nat (length s) @ '':'' @ s"

definition key_preimage :: "VgiResultCacheKey \<Rightarrow> string" where
  "key_preimage k =
     concat (map add_field
       ([identity_scope k, worker_path k, function_name k, schema_name k, canonical_arguments k,
         canonical_settings k, attach_options k, projection k, attached_data_version k, implementation_version k,
         show_int (catalog_version k), at_unit k, at_value k, filter_bytes k, order_by_hint k, sample_hint k,
         transaction_id k, input_hash k, shape_key k] @
        (if secret_scope k \<noteq> [] then [secret_scope k] else [])))"

definition Fingerprint :: "(string \<Rightarrow> string) \<Rightarrow> VgiResultCacheKey \<Rightarrow> string" where
  "Fingerprint Sha256Hex k = Sha256Hex (key_preimage k)"

text \<open>The length-prefixed fields can be peeled off one by one.\<close>

interpretation key_field: prefix_free add_field "\<lambda>_. True"
proof
  fix x y r s
  assume eq: "add_field x @ r = add_field y @ s"
  have split: "split_first (CHR '':'') (add_field z @ q) = (show_nat (length z), Some (z @ q))" for z q
    by (simp add: add_field_def show_nat_no_sep)
  from arg_cong [OF eq, of "split_first (CHR '':'')"]
  have "length x = length y" "x @ r = y @ s" by (simp_all add: split)
  then show "x = y \<and> r = s" by simp
qed

lemma add_field_ne: "add_field s \<noteq> []"
  by (simp add: add_field_def)

text \<open>
  C25. The fingerprint names one key. The bytes that are hashed determine every field of the key,
  the catalog version and the absence of a secret included, so two keys that differ anywhere
  have different pre-images and, SHA-256 being collision free on them, different on-disk names.
\<close>

theorem key_preimage_inj: "key_preimage k = key_preimage k' \<longleftrightarrow> key_equal k k'"
proof
  assume eq: "key_preimage k = key_preimage k'"
  let ?fs = "\<lambda>k. [identity_scope k, worker_path k, function_name k, schema_name k, canonical_arguments k,
         canonical_settings k, attach_options k, projection k, attached_data_version k, implementation_version k,
         show_int (catalog_version k), at_unit k, at_value k, filter_bytes k, order_by_hint k, sample_hint k,
         transaction_id k, input_hash k, shape_key k] @ (if secret_scope k \<noteq> [] then [secret_scope k] else [])"
  have "?fs k = ?fs k'"
    by (rule key_field.concat_inj [OF add_field_ne _ _ eq [unfolded key_preimage_def]]) (simp_all add: list_all_iff)
  then show "key_equal k k'" by (simp add: key_equal_def split: if_splits)
next
  assume "key_equal k k'"
  then show "key_preimage k = key_preimage k'" by (simp add: key_equal_def key_preimage_def)
qed

lemma key_equal_eq: "key_equal k k' \<longleftrightarrow> k = k'"
  by (auto simp: key_equal_def)

section \<open>Cache control\<close>

record VgiCacheControl =
  present :: bool
  no_store :: bool
  ttl_seconds :: "int option"
  expires_rfc3339 :: string
  cc_scope :: string
  cc_etag :: string
  cc_last_modified :: string
  cc_revalidatable :: bool
  stale_while_revalidate :: "int option"
  stale_if_error :: "int option"
  not_modified :: bool
  partition_scope :: bool
  per_value :: bool

definition VGI_CACHE_MAX_TTL_SECONDS :: int where "VGI_CACHE_MAX_TTL_SECONDS = 315360000"

definition no_cache_control :: VgiCacheControl where
  "no_cache_control = \<lparr>present = False, no_store = False, ttl_seconds = None, expires_rfc3339 = [],
     cc_scope = ''catalog'', cc_etag = [], cc_last_modified = [], cc_revalidatable = False,
     stale_while_revalidate = None, stale_if_error = None, not_modified = False, partition_scope = False,
     per_value = False\<rparr>"

text \<open>\<^verbatim>\<open>FindKey\<close> returns the first pair with the key.\<close>

definition get_meta :: "(string \<times> string) list \<Rightarrow> string \<Rightarrow> (string \<Rightarrow> VgiCacheControl \<Rightarrow> VgiCacheControl) \<Rightarrow>
    VgiCacheControl \<Rightarrow> VgiCacheControl" where
  "get_meta md key f cc = (case map_of md key of None \<Rightarrow> cc | Some v \<Rightarrow> f v (cc\<lparr>present := True\<rparr>))"

definition clamp_ttl :: "int \<Rightarrow> int" where
  "clamp_ttl t = (if t < 0 then 0 else if t > VGI_CACHE_MAX_TTL_SECONDS then VGI_CACHE_MAX_TTL_SECONDS else t)"

definition ParseVgiCacheControl :: "(string \<times> string) list option \<Rightarrow> VgiCacheControl" where
  "ParseVgiCacheControl metadata =
     (case metadata of
        None \<Rightarrow> no_cache_control
      | Some md \<Rightarrow>
          fold (\<lambda>(key, f) cc. get_meta md key f cc)
            [(''vgi.cache.ttl'', \<lambda>v cc. cc\<lparr>ttl_seconds := Some (clamp_ttl (ParseInt v 0))\<rparr>),
             (''vgi.cache.expires'', \<lambda>v cc. cc\<lparr>expires_rfc3339 := v\<rparr>),
             (''vgi.cache.no_store'', \<lambda>v cc. cc\<lparr>no_store := (v = ''1'')\<rparr>),
             (''vgi.cache.scope'', \<lambda>v cc. if v \<noteq> [] then cc\<lparr>cc_scope := v\<rparr> else cc),
             (''vgi.cache.etag'', \<lambda>v cc. cc\<lparr>cc_etag := v\<rparr>),
             (''vgi.cache.last_modified'', \<lambda>v cc. cc\<lparr>cc_last_modified := v\<rparr>),
             (''vgi.cache.revalidatable'', \<lambda>v cc. cc\<lparr>cc_revalidatable := (v = ''1'')\<rparr>),
             (''vgi.cache.stale_while_revalidate'', \<lambda>v cc. cc\<lparr>stale_while_revalidate := Some (ParseInt v 0)\<rparr>),
             (''vgi.cache.stale_if_error'', \<lambda>v cc. cc\<lparr>stale_if_error := Some (ParseInt v 0)\<rparr>),
             (''vgi.cache.not_modified'', \<lambda>v cc. cc\<lparr>not_modified := (v = ''1'')\<rparr>),
             (''vgi.cache.partition_scope'', \<lambda>v cc. cc\<lparr>partition_scope := (v = ''1'')\<rparr>),
             (''vgi.cache.per_value'', \<lambda>v cc. cc\<lparr>per_value := (v = ''1'')\<rparr>)]
            no_cache_control)"

definition Cacheable :: "VgiCacheControl \<Rightarrow> bool" where
  "Cacheable cc \<longleftrightarrow> present cc \<and> \<not> no_store cc \<and> (ttl_seconds cc \<noteq> None \<or> expires_rfc3339 cc \<noteq> [])"

definition TransactionScoped :: "VgiCacheControl \<Rightarrow> bool" where
  "TransactionScoped cc \<longleftrightarrow> cc_scope cc = ''transaction''"

text \<open>A step that does not write a field keeps it.\<close>

lemma get_meta_frame:
  assumes "\<And>v cc. g (f v cc) = g cc" "\<And>cc. g (cc\<lparr>present := True\<rparr>) = g cc"
  shows "g (get_meta md k f cc) = g cc"
  using assms by (simp add: get_meta_def split: option.split)

lemma get_meta_present:
  "(\<And>v cc. present (f v cc) = present cc) \<Longrightarrow> present (get_meta md k f cc) = (present cc \<or> map_of md k \<noteq> None)"
  by (auto simp: get_meta_def split: option.split)

lemmas cache_frames = get_meta_frame [where g = ttl_seconds] get_meta_frame [where g = no_store]
  get_meta_frame [where g = expires_rfc3339] get_meta_present

lemma cache_control_ttl:
  "ttl_seconds (ParseVgiCacheControl (Some md)) = map_option (\<lambda>v. clamp_ttl (ParseInt v 0)) (map_of md ''vgi.cache.ttl'')"
  unfolding ParseVgiCacheControl_def option.case fold_simps comp_def case_prod_conv
  by (simp add: cache_frames, simp add: get_meta_def no_cache_control_def split: option.split)

text \<open>
  C26. A worker cannot advertise an unsafe lifetime, and silence is never cached. For every
  metadata, whatever text the worker put there, the lifetime is absent exactly when the worker
  sent none and otherwise lies between 0 and ten years, so that adding it in nanoseconds to any
  clock value below \<open>2 ^ 62\<close> stays a 64-bit value; a result is cacheable exactly when a freshness
  key was sent and \<^verbatim>\<open>no_store\<close> is not \<^verbatim>\<open>1\<close>.
\<close>

theorem ParseVgiCacheControl_safe:
  "(ttl_seconds (ParseVgiCacheControl (Some md)) = None \<longleftrightarrow> map_of md ''vgi.cache.ttl'' = None) \<and>
   (\<forall>t now. ttl_seconds (ParseVgiCacheControl (Some md)) = Some t \<longrightarrow> 0 \<le> now \<longrightarrow> now < 2 ^ 62 \<longrightarrow>
      0 \<le> t \<and> t \<le> VGI_CACHE_MAX_TTL_SECONDS \<and> now + t * 1000000000 < 2 ^ 63) \<and>
   (Cacheable (ParseVgiCacheControl (Some md)) \<longleftrightarrow>
      map_of md ''vgi.cache.no_store'' \<noteq> Some ''1'' \<and>
      (map_of md ''vgi.cache.ttl'' \<noteq> None \<or> map_of md ''vgi.cache.expires'' \<notin> {None, Some []})) \<and>
   ParseVgiCacheControl None = no_cache_control \<and> \<not> Cacheable no_cache_control"
proof -
  let ?cc = "ParseVgiCacheControl (Some md)"
  note ttl = cache_control_ttl [of md]
  have ns: "no_store ?cc \<longleftrightarrow> map_of md ''vgi.cache.no_store'' = Some ''1''"
    and ex: "expires_rfc3339 ?cc = (case map_of md ''vgi.cache.expires'' of None \<Rightarrow> [] | Some v \<Rightarrow> v)"
    and pr: "map_of md ''vgi.cache.ttl'' \<noteq> None \<or> map_of md ''vgi.cache.expires'' \<noteq> None \<Longrightarrow> present ?cc"
    unfolding ParseVgiCacheControl_def option.case fold_simps comp_def case_prod_conv
    by (simp_all add: cache_frames, simp_all add: get_meta_def no_cache_control_def split: option.split)
  have cl: "0 \<le> clamp_ttl x \<and> clamp_ttl x \<le> 315360000" for x
    by (simp add: clamp_ttl_def VGI_CACHE_MAX_TTL_SECONDS_def)
  have "0 \<le> t \<and> t \<le> VGI_CACHE_MAX_TTL_SECONDS \<and> now + t * 1000000000 < 2 ^ 63"
    if t: "ttl_seconds ?cc = Some t" and now: "0 \<le> now" "now < 2 ^ 62" for t now
  proof -
    obtain x where "t = clamp_ttl x" using t by (auto simp: ttl)
    then have "0 \<le> t" "t \<le> 315360000" using cl [of x] by simp_all
    then show ?thesis using now by (simp add: VGI_CACHE_MAX_TTL_SECONDS_def)
  qed
  moreover have "Cacheable ?cc \<longleftrightarrow> map_of md ''vgi.cache.no_store'' \<noteq> Some ''1'' \<and>
      (map_of md ''vgi.cache.ttl'' \<noteq> None \<or> map_of md ''vgi.cache.expires'' \<notin> {None, Some []})"
    unfolding Cacheable_def ttl ns ex using pr
    by (cases "map_of md ''vgi.cache.ttl''"; cases "map_of md ''vgi.cache.expires''") auto
  moreover have "ParseVgiCacheControl None = no_cache_control" by (simp add: ParseVgiCacheControl_def)
  moreover have "\<not> Cacheable no_cache_control" by (simp add: Cacheable_def no_cache_control_def)
  ultimately show ?thesis unfolding ttl by simp
qed

theorem ParseVgiCacheControl_safe_witness:
  "ttl_seconds (ParseVgiCacheControl (Some [(''vgi.cache.ttl'', ''99999999999'')])) = Some VGI_CACHE_MAX_TTL_SECONDS \<and>
   Cacheable (ParseVgiCacheControl (Some [(''vgi.cache.ttl'', ''99999999999'')])) \<and>
   1000 + VGI_CACHE_MAX_TTL_SECONDS * 1000000000 < (2 :: int) ^ 63"
proof -
  have t: "ttl_seconds (ParseVgiCacheControl (Some [(''vgi.cache.ttl'', ''99999999999'')])) = Some VGI_CACHE_MAX_TTL_SECONDS"
    by (simp add: cache_control_ttl ParseInt_def scan_integer_def digits_value_def is_digit_def c_space_def
      clamp_ttl_def VGI_CACHE_MAX_TTL_SECONDS_def Let_def)
  show ?thesis
    using ParseVgiCacheControl_safe [of "[(''vgi.cache.ttl'', ''99999999999'')]"] t by simp
qed

end
