(* ===== verification/Entry_Codec.thy ===== *)
theory Entry_Codec
  imports Cache_Key "HOL-Library.Monad_Syntax"
begin

unbundle bit_operations_syntax

text \<open>
  The byte formats of the result cache's disk tier, \<^verbatim>\<open>src/src/vgi_result_cache.cpp\<close>: the flat entry
  blob and the records of a pack file. Positions are \<^verbatim>\<open>size_t\<close>: sums are taken modulo \<open>2 ^ 64\<close>, as
  the sources take them. The loops that read to the end of a buffer carry fuel; \<^const>\<open>None\<close> for
  every fuel is a loop that does not end. Re-encoding a batch with the disk codec is an argument.
\<close>

section \<open>Entries\<close>

record VgiCachedBatch =
  cb_ipc :: "string option"
  cb_rows :: int
  cb_index :: u64
  cb_has_index :: bool
  cb_pv :: string
  cb_disk_offset :: int
  cb_disk_length :: int

record CachedStream =
  batches :: "VgiCachedBatch list"
  sbytes :: int
  srows :: int

record VgiResultCacheEntry =
  ekey :: VgiResultCacheKey
  streams :: "CachedStream list"
  etotal_bytes :: int
  erows :: int
  stored_at :: int
  eexpires_at :: int
  enever_expires :: bool
  escope :: string
  eetag :: string
  elast_modified :: string
  erevalidatable :: bool
  catalog_name :: string
  hits :: u64
  partition_label :: string
  disk_backed :: bool
  disk_path :: string

definition IsStale :: "int \<Rightarrow> VgiResultCacheEntry \<Rightarrow> bool" where
  "IsStale now e \<longleftrightarrow> \<not> enever_expires e \<and> eexpires_at e \<le> now"

definition wrap_pos :: "nat \<Rightarrow> nat" where "wrap_pos p = p mod 2 ^ 64"

abbreviation int64 :: "int \<Rightarrow> bool" where
  "int64 i \<equiv> - (2 ^ 63) \<le> i \<and> i < 2 ^ 63"

definition u64_of :: "int \<Rightarrow> u64" where "u64_of i = word_of_int i"

definition i64_of :: "u64 \<Rightarrow> int" where "i64_of w = sint w"

lemma i64_of_u64_of [simp]: "int64 i \<Longrightarrow> i64_of (u64_of i) = i"
  by (simp add: i64_of_def u64_of_def sint_sbintrunc' signed_take_bit_int_eq_self)

section \<open>The entry blob\<close>

definition batch_header :: "VgiCachedBatch \<Rightarrow> nat \<Rightarrow> string" where
  "batch_header cb ipc_len =
     put_le 8 ((if cb_has_index cb then 1 else 0) :: u64) @ put_le 8 (cb_index cb) @ put_le 8 (u64_of (cb_rows cb)) @
     put_le 8 (of_nat (length (cb_pv cb)) :: u64) @ cb_pv cb @ put_le 8 (of_nat ipc_len :: u64)"

definition SerializeEntryBlob ::
  "(string option \<Rightarrow> string \<Rightarrow> u64 \<Rightarrow> string option) \<Rightarrow> VgiResultCacheEntry \<Rightarrow> string \<Rightarrow> u64 \<Rightarrow> string" where
  "SerializeEntryBlob transcode e codec level =
     ''VRC1'' @ concat (map (\<lambda>s. concat (map (\<lambda>cb.
       let payload = transcode (cb_ipc cb) codec level;
           body = (case payload of None \<Rightarrow> [] | Some p \<Rightarrow> p) in
       batch_header cb (length body) @ body) (batches s))) (streams e))"

text \<open>Failures of the reader: a missing magic, a read past the end of the buffer, a \<^verbatim>\<open>substr\<close> that throws.\<close>

datatype blob_error = BadMagic | Overread | OutOfRange

definition GetU64 :: "string \<Rightarrow> nat \<Rightarrow> blob_error + (u64 \<times> nat)" where
  "GetU64 b pos =
     (if pos + 8 \<le> length b + 1 then Inr (get_le 8 (drop pos b @ [char_of (0 :: nat)]), wrap_pos (pos + 8))
      else Inl Overread)"

definition substr :: "string \<Rightarrow> nat \<Rightarrow> nat \<Rightarrow> blob_error + string" where
  "substr b pos n = (if pos > length b then Inl OutOfRange else Inr (take n (drop pos b)))"

fun sum_bind :: "'e + 'a \<Rightarrow> ('a \<Rightarrow> 'e + 'b) \<Rightarrow> 'e + 'b" where
  "sum_bind (Inl e) f = Inl e"
| "sum_bind (Inr x) f = f x"

definition read_blob_batch :: "string \<Rightarrow> nat \<Rightarrow> blob_error + (VgiCachedBatch \<times> u64 \<times> nat)" where
  "read_blob_batch blob pos =
     sum_bind (GetU64 blob pos) (\<lambda>(has_index, p1).
     sum_bind (GetU64 blob p1) (\<lambda>(batch_index, p2).
     sum_bind (GetU64 blob p2) (\<lambda>(rows, p3).
     sum_bind (GetU64 blob p3) (\<lambda>(pv_len, p4).
     sum_bind (substr blob p4 (unat pv_len)) (\<lambda>pv.
     let p5 = wrap_pos (p4 + unat pv_len) in
     sum_bind (GetU64 blob p5) (\<lambda>(ipc_len, p6).
     sum_bind (substr blob p6 (unat ipc_len)) (\<lambda>ipc.
     Inr (\<lparr>cb_ipc = Some ipc, cb_rows = i64_of rows, cb_index = batch_index, cb_has_index = (has_index \<noteq> 0),
           cb_pv = pv, cb_disk_offset = - 1, cb_disk_length = 0\<rparr>, ipc_len, wrap_pos (p6 + unat ipc_len)))))))))"

definition add_batch :: "VgiCachedBatch \<Rightarrow> u64 \<Rightarrow> CachedStream \<times> int \<Rightarrow> CachedStream \<times> int" where
  "add_batch cb ipc_len st =
     (case st of (s, tot) \<Rightarrow>
        (s\<lparr>srows := srows s + cb_rows cb, sbytes := sbytes s + i64_of ipc_len, batches := batches s @ [cb]\<rparr>,
         tot + i64_of ipc_len))"

fun read_blob_batches :: "nat \<Rightarrow> string \<Rightarrow> nat \<Rightarrow> CachedStream \<times> int \<Rightarrow> (blob_error + (CachedStream \<times> int)) option" where
  "read_blob_batches 0 blob pos st = None"
| "read_blob_batches (Suc fuel) blob pos st =
     (if pos < length blob then
        (case read_blob_batch blob pos of
           Inl e \<Rightarrow> Some (Inl e)
         | Inr (cb, ipc_len, pos') \<Rightarrow> read_blob_batches fuel blob pos' (add_batch cb ipc_len st))
      else Some (Inr st))"

definition empty_stream :: CachedStream where
  "empty_stream = \<lparr>batches = [], sbytes = 0, srows = 0\<rparr>"

definition ParseEntryBlobIntoStream :: "nat \<Rightarrow> string \<Rightarrow> (blob_error + (CachedStream \<times> int)) option" where
  "ParseEntryBlobIntoStream fuel blob =
     (if length blob < 4 \<or> take 4 blob \<noteq> ''VRC1'' then Some (Inl BadMagic)
      else read_blob_batches fuel blob 4 (empty_stream, 0))"

section \<open>Pack records\<close>

definition duration_s :: "int \<Rightarrow> int" where
  "duration_s ns = (if ns \<ge> 0 then ns div 1000000000 else - ((- ns) div 1000000000))"

definition ComputeExpiresUnix :: "int \<Rightarrow> VgiResultCacheEntry \<Rightarrow> int" where
  "ComputeExpiresUnix now_unix e =
     (if enever_expires e then 2 ^ 63 - 1 else now_unix + duration_s (eexpires_at e - stored_at e))"

definition puts :: "string \<Rightarrow> string" where
  "puts s = put_le 4 (of_nat (length s) :: u32) @ s"

definition BuildRecord :: "int \<Rightarrow> VgiResultCacheEntry \<Rightarrow> string \<Rightarrow> string \<Rightarrow> string \<Rightarrow> string" where
  "BuildRecord now_unix e blob content_sha keyfp =
     ''VPK1'' @ keyfp @ content_sha @ [if input_hash (ekey e) = [] then char_of (0 :: nat) else char_of (1 :: nat)] @
     put_le 8 (u64_of (ComputeExpiresUnix now_unix e)) @ put_le 8 (u64_of (erows e)) @ put_le 8 (u64_of (etotal_bytes e)) @
     puts (escope e) @ puts (eetag e) @ puts (elast_modified e) @ puts (catalog_name e) @
     put_le 8 (of_nat (length blob) :: u64) @ blob"

record Rec =
  rkeyfp :: string
  rcontent_sha :: string
  rscope :: string
  retag :: string
  rlm :: string
  rcatalog :: string
  rblob :: string
  rflags :: nat
  rexpires :: int
  rrows :: int
  rlogical :: u64

text \<open>The bound check and the read that follows it; the sum of the check wraps.\<close>

definition getb :: "string \<Rightarrow> nat \<Rightarrow> nat \<Rightarrow> nat \<Rightarrow> (string \<times> nat) option" where
  "getb buf end' n pos =
     (if wrap_pos (pos + n) \<le> end' then Some (take n (drop pos buf), wrap_pos (pos + n)) else None)"

definition gets :: "string \<Rightarrow> nat \<Rightarrow> nat \<Rightarrow> (string \<times> nat) option" where
  "gets buf end' pos = do {
     (b, p) \<leftarrow> getb buf end' 4 pos;
     getb buf end' (unat (get_le 4 b :: u32)) p }"

definition ParseRecord :: "string \<Rightarrow> nat \<Rightarrow> nat \<Rightarrow> (Rec \<times> nat) option" where
  "ParseRecord buf pos end' = do {
     (magic, p) \<leftarrow> getb buf end' 4 pos;
     if magic \<noteq> ''VPK1'' then None else do {
     (keyfp, p) \<leftarrow> getb buf end' 64 p;
     (content_sha, p) \<leftarrow> getb buf end' 64 p;
     (flags, p) \<leftarrow> getb buf end' 1 p;
     (ex, p) \<leftarrow> getb buf end' 8 p;
     (rows, p) \<leftarrow> getb buf end' 8 p;
     (logical, p) \<leftarrow> getb buf end' 8 p;
     (scope, p) \<leftarrow> gets buf end' p;
     (etag, p) \<leftarrow> gets buf end' p;
     (lm, p) \<leftarrow> gets buf end' p;
     (catalog, p) \<leftarrow> gets buf end' p;
     (bl, p) \<leftarrow> getb buf end' 8 p;
     (blob, p) \<leftarrow> getb buf end' (unat (get_le 8 bl :: u64)) p;
     Some (\<lparr>rkeyfp = keyfp, rcontent_sha = content_sha, rscope = scope, retag = etag, rlm = lm, rcatalog = catalog,
            rblob = blob, rflags = of_char (flags ! 0), rexpires = i64_of (get_le 8 ex), rrows = i64_of (get_le 8 rows),
            rlogical = get_le 8 logical\<rparr>, p) }}"

text \<open>The scan that rebuilds a pack's index: the records with their offsets and lengths.\<close>

fun scan_pack :: "nat \<Rightarrow> string \<Rightarrow> nat \<Rightarrow> (nat \<times> nat \<times> Rec) list \<Rightarrow> (nat \<times> nat \<times> Rec) list option" where
  "scan_pack 0 buf pos acc = None"
| "scan_pack (Suc fuel) buf pos acc =
     (if pos < length buf then
        (case ParseRecord buf pos (length buf) of
           None \<Rightarrow> Some acc
         | Some (r, pos') \<Rightarrow> scan_pack fuel buf pos' (acc @ [(pos, pos' - pos, r)]))
      else Some acc)"

section \<open>Reading back a blob\<close>

lemma wrap_pos_id [simp]: "p < 2 ^ 64 \<Longrightarrow> wrap_pos p = p"
  by (simp add: wrap_pos_def)

lemma unat_of_nat_len [simp]: "n < 2 ^ 64 \<Longrightarrow> unat (of_nat n :: u64) = n"
  by (simp add: unat_of_nat take_bit_nat_eq_self)

lemma GetU64_put:
  "length pre + 8 + length post < 2 ^ 64 \<Longrightarrow>
   GetU64 (pre @ put_le 8 v @ post) (length pre) = Inr (v, length pre + 8)"
  by (simp add: GetU64_def)

lemma substr_mid: "n = length s \<Longrightarrow> substr (pre @ s @ post) (length pre) n = Inr s"
  by (simp add: substr_def)

text \<open>The batch that is read back: its payload is present, even when the written one was null.\<close>

definition stored_batch :: "VgiCachedBatch \<Rightarrow> string \<Rightarrow> VgiCachedBatch" where
  "stored_batch cb body = cb\<lparr>cb_ipc := Some body, cb_disk_offset := - 1, cb_disk_length := 0\<rparr>"

lemma read_blob_batch_header:
  assumes "length pre + 40 + length (cb_pv cb) + length body + length post < 2 ^ 64" "int64 (cb_rows cb)"
  shows "read_blob_batch (pre @ batch_header cb (length body) @ body @ post) (length pre) =
    Inr (stored_batch cb body, of_nat (length body), length pre + length (batch_header cb (length body) @ body))"
proof -
  let ?h = "put_le 8 ((if cb_has_index cb then 1 else 0) :: u64)" and ?i = "put_le 8 (cb_index cb)"
    and ?r = "put_le 8 (u64_of (cb_rows cb))" and ?l = "put_le 8 (of_nat (length (cb_pv cb)) :: u64)"
    and ?n = "put_le 8 (of_nat (length body) :: u64)" and ?pv = "cb_pv cb"
  define b where "b = pre @ ?h @ ?i @ ?r @ ?l @ ?pv @ ?n @ body @ post"
  have eq: "pre @ batch_header cb (length body) @ body @ post = b" by (simp add: b_def batch_header_def)
  have r1: "GetU64 b (length pre) = Inr (if cb_has_index cb then 1 else 0, length pre + 8)"
    unfolding b_def using assms(1) by (intro GetU64_put) simp
  have r2: "GetU64 b (length pre + 8) = Inr (cb_index cb, length pre + 16)"
    using GetU64_put [of "pre @ ?h" "?r @ ?l @ ?pv @ ?n @ body @ post" "cb_index cb"] assms(1) by (simp add: b_def)
  have r3: "GetU64 b (length pre + 16) = Inr (u64_of (cb_rows cb), length pre + 24)"
    using GetU64_put [of "pre @ ?h @ ?i" "?l @ ?pv @ ?n @ body @ post" "u64_of (cb_rows cb)"] assms(1) by (simp add: b_def)
  have r4: "GetU64 b (length pre + 24) = Inr (of_nat (length ?pv), length pre + 32)"
    using GetU64_put [of "pre @ ?h @ ?i @ ?r" "?pv @ ?n @ body @ post" "of_nat (length ?pv)"] assms(1) by (simp add: b_def)
  have r5: "substr b (length pre + 32) (length ?pv) = Inr ?pv"
    using substr_mid [of "length ?pv" ?pv "pre @ ?h @ ?i @ ?r @ ?l" "?n @ body @ post"] by (simp add: b_def)
  have r6: "GetU64 b (length pre + 32 + length ?pv) = Inr (of_nat (length body), length pre + 40 + length ?pv)"
    using GetU64_put [of "pre @ ?h @ ?i @ ?r @ ?l @ ?pv" "body @ post" "of_nat (length body)"] assms(1)
    by (simp add: b_def algebra_simps)
  have r7: "substr b (length pre + 40 + length ?pv) (length body) = Inr body"
    using substr_mid [of "length body" body "pre @ ?h @ ?i @ ?r @ ?l @ ?pv @ ?n" post] by (simp add: b_def algebra_simps)
  have w: "unat (of_nat (length ?pv) :: u64) = length ?pv" "unat (of_nat (length body) :: u64) = length body"
    "wrap_pos (length pre + 32 + length ?pv) = length pre + 32 + length ?pv"
    "wrap_pos (length pre + 40 + length ?pv + length body) = length pre + 40 + length ?pv + length body"
    using assms(1) by simp_all
  have len: "length (batch_header cb (length body)) = 40 + length ?pv" by (simp add: batch_header_def)
  show ?thesis
    unfolding eq read_blob_batch_def r1 sum_bind.simps case_prod_conv r2 r3 r4 w r5 Let_def r6 r7
    using assms(2) len by (simp add: stored_batch_def)
qed

text \<open>The bytes stored for a batch, and the batches of an entry in the order they are written.\<close>

definition payload_bytes :: "(string option \<Rightarrow> string \<Rightarrow> u64 \<Rightarrow> string option) \<Rightarrow> string \<Rightarrow> u64 \<Rightarrow> VgiCachedBatch \<Rightarrow> string" where
  "payload_bytes transcode codec level cb =
     (case transcode (cb_ipc cb) codec level of None \<Rightarrow> [] | Some p \<Rightarrow> p)"

definition all_batches :: "VgiResultCacheEntry \<Rightarrow> VgiCachedBatch list" where
  "all_batches e = concat (map batches (streams e))"

lemma concat_map_concat: "concat (map f (concat xss)) = concat (map (\<lambda>xs. concat (map f xs)) xss)"
  by (induction xss) simp_all

lemma VRC1_length: "length ''VRC1'' = 4"
  by simp

lemma SerializeEntryBlob_flat:
  "SerializeEntryBlob transcode e codec level =
   ''VRC1'' @ concat (map (\<lambda>cb. batch_header cb (length (payload_bytes transcode codec level cb)) @
                                   payload_bytes transcode codec level cb) (all_batches e))"
  by (simp add: SerializeEntryBlob_def all_batches_def payload_bytes_def concat_map_concat comp_def Let_def)

lemma i64_of_length: "n < 2 ^ 63 \<Longrightarrow> i64_of (of_nat n :: u64) = int n"
  using i64_of_u64_of [of "int n"] by (simp add: u64_of_def)

lemma read_blob_batches_concat:
  assumes "length pre + length (concat (map (\<lambda>cb. batch_header cb (length (f cb)) @ f cb) cbs)) < 2 ^ 63"
    and "\<forall>cb \<in> set cbs. int64 (cb_rows cb)" and "length cbs < fuel"
  shows "read_blob_batches fuel (pre @ concat (map (\<lambda>cb. batch_header cb (length (f cb)) @ f cb) cbs)) (length pre) (s, t) =
    Some (Inr (s\<lparr>batches := batches s @ map (\<lambda>cb. stored_batch cb (f cb)) cbs,
                 sbytes := sbytes s + (\<Sum>cb\<leftarrow>cbs. int (length (f cb))),
                 srows := srows s + (\<Sum>cb\<leftarrow>cbs. cb_rows cb)\<rparr>, t + (\<Sum>cb\<leftarrow>cbs. int (length (f cb)))))"
  using assms
proof (induction cbs arbitrary: pre s t fuel)
  case Nil
  then show ?case by (cases fuel) simp_all
next
  case (Cons cb cbs)
  define rest where "rest = concat (map (\<lambda>cb. batch_header cb (length (f cb)) @ f cb) cbs)"
  define pre' where "pre' = pre @ batch_header cb (length (f cb)) @ f cb"
  obtain fuel' where fuel: "fuel = Suc fuel'" using Cons.prems(3) by (cases fuel) auto
  have len: "length (batch_header cb (length (f cb))) = 40 + length (cb_pv cb)" by (simp add: batch_header_def)
  have tot: "length pre + 40 + length (cb_pv cb) + length (f cb) + length rest < 2 ^ 63"
    using Cons.prems(1) len by (simp add: rest_def)
  have rd: "read_blob_batch (pre @ batch_header cb (length (f cb)) @ f cb @ rest) (length pre) =
      Inr (stored_batch cb (f cb), of_nat (length (f cb)), length pre')"
    using read_blob_batch_header [of pre cb "f cb" rest] tot Cons.prems(2) by (simp add: pre'_def)
  have st: "add_batch (stored_batch cb (f cb)) (of_nat (length (f cb))) (s, t) =
     (s\<lparr>batches := batches s @ [stored_batch cb (f cb)], sbytes := sbytes s + int (length (f cb)),
        srows := srows s + cb_rows cb\<rparr>, t + int (length (f cb)))"
    using tot by (simp add: add_batch_def i64_of_length stored_batch_def)
  have ih: "read_blob_batches fuel' (pre' @ rest) (length pre') (s', t') =
    Some (Inr (s'\<lparr>batches := batches s' @ map (\<lambda>cb. stored_batch cb (f cb)) cbs,
                 sbytes := sbytes s' + (\<Sum>cb\<leftarrow>cbs. int (length (f cb))),
                 srows := srows s' + (\<Sum>cb\<leftarrow>cbs. cb_rows cb)\<rparr>, t' + (\<Sum>cb\<leftarrow>cbs. int (length (f cb)))))" for s' t'
    unfolding rest_def by (rule Cons.IH) (use tot len Cons.prems fuel in \<open>simp_all add: pre'_def rest_def\<close>)
  have ne: "length pre < length (pre @ batch_header cb (length (f cb)) @ f cb @ rest)" using len by simp
  have "read_blob_batches fuel (pre @ batch_header cb (length (f cb)) @ f cb @ rest) (length pre) (s, t) =
    read_blob_batches fuel' (pre' @ rest) (length pre') (s\<lparr>batches := batches s @ [stored_batch cb (f cb)],
      sbytes := sbytes s + int (length (f cb)), srows := srows s + cb_rows cb\<rparr>, t + int (length (f cb)))"
    unfolding fuel read_blob_batches.simps if_P [OF ne] rd sum.case case_prod_conv st by (simp add: pre'_def)
  then show ?case unfolding ih by (simp add: rest_def add_ac)
qed

lemma parse_serialized:
  assumes "length (SerializeEntryBlob transcode e codec level) < 2 ^ 63"
    and "\<forall>cb \<in> set (all_batches e). int64 (cb_rows cb)" and "length (all_batches e) < fuel"
  shows "ParseEntryBlobIntoStream fuel (SerializeEntryBlob transcode e codec level) =
    Some (Inr (\<lparr>batches = map (\<lambda>cb. stored_batch cb (payload_bytes transcode codec level cb)) (all_batches e),
                sbytes = (\<Sum>cb\<leftarrow>all_batches e. int (length (payload_bytes transcode codec level cb))),
                srows = (\<Sum>cb\<leftarrow>all_batches e. cb_rows cb)\<rparr>,
               (\<Sum>cb\<leftarrow>all_batches e. int (length (payload_bytes transcode codec level cb)))))"
  using read_blob_batches_concat [of "''VRC1''" "payload_bytes transcode codec level" "all_batches e" fuel empty_stream 0,
      unfolded VRC1_length] assms
  unfolding SerializeEntryBlob_flat ParseEntryBlobIntoStream_def by (simp add: empty_stream_def)

text \<open>
  C27. What the disk tier stores is what it serves. Whatever codec the batches were re-encoded with,
  reading a serialized entry ends, and gives one stream with every batch of every stream in order,
  its rows, batch index and partition values unchanged and the stored payload, with the row and byte
  counts of the batches; a shorter or foreign text is refused.
\<close>

theorem entry_blob_roundtrip:
  assumes "length (SerializeEntryBlob transcode e codec level) < 2 ^ 63"
    and "\<forall>cb \<in> set (all_batches e). int64 (cb_rows cb)" and "length (all_batches e) < fuel"
  shows "ParseEntryBlobIntoStream fuel (SerializeEntryBlob transcode e codec level) =
    Some (Inr (\<lparr>batches = map (\<lambda>cb. stored_batch cb (payload_bytes transcode codec level cb)) (all_batches e),
                sbytes = (\<Sum>cb\<leftarrow>all_batches e. int (length (payload_bytes transcode codec level cb))),
                srows = (\<Sum>cb\<leftarrow>all_batches e. cb_rows cb)\<rparr>,
               (\<Sum>cb\<leftarrow>all_batches e. int (length (payload_bytes transcode codec level cb))))) \<and>
   (\<forall>blob. take 4 blob \<noteq> ''VRC1'' \<longrightarrow> ParseEntryBlobIntoStream fuel blob = Some (Inl BadMagic))"
  using parse_serialized [OF assms] by (auto simp: ParseEntryBlobIntoStream_def)

definition blank_key :: VgiResultCacheKey where
  "blank_key = \<lparr>identity_scope = [], worker_path = [], function_name = [], schema_name = [], canonical_arguments = [],
     canonical_settings = [], attach_options = [], projection = [], attached_data_version = [],
     implementation_version = [], catalog_version = 0, at_unit = [], at_value = [], filter_bytes = [],
     order_by_hint = [], sample_hint = [], transaction_id = [], input_hash = [], shape_key = [], secret_scope = []\<rparr>"

definition blank_entry :: "VgiResultCacheKey \<Rightarrow> VgiResultCacheEntry" where
  "blank_entry k = \<lparr>ekey = k, streams = [], etotal_bytes = 0, erows = 0, stored_at = 0, eexpires_at = 0,
     enever_expires = False, escope = ''catalog'', eetag = [], elast_modified = [], erevalidatable = False,
     catalog_name = [], hits = 0, partition_label = [], disk_backed = False, disk_path = []\<rparr>"

definition sample_batch :: VgiCachedBatch where
  "sample_batch = \<lparr>cb_ipc = Some ''abc'', cb_rows = 2, cb_index = 7, cb_has_index = True, cb_pv = ''p'',
     cb_disk_offset = - 1, cb_disk_length = 0\<rparr>"

theorem entry_blob_roundtrip_witness:
  "ParseEntryBlobIntoStream 9 (SerializeEntryBlob (\<lambda>p _ _. p)
     (blank_entry blank_key\<lparr>streams := [\<lparr>batches = [sample_batch], sbytes = 3, srows = 2\<rparr>]\<rparr>) ''none'' 0) =
   Some (Inr (\<lparr>batches = [sample_batch], sbytes = 3, srows = 2\<rparr>, 3))"
  using entry_blob_roundtrip [of "\<lambda>p _ _. p"
     "blank_entry blank_key\<lparr>streams := [\<lparr>batches = [sample_batch], sbytes = 3, srows = 2\<rparr>]\<rparr>" "''none''" 0 9]
  by (simp add: SerializeEntryBlob_flat all_batches_def payload_bytes_def batch_header_def sample_batch_def
      stored_batch_def)

section \<open>Reading back pack records\<close>

lemma getb_step:
  assumes "drop p buf = s @ rest" "length s = n" "p + n \<le> e" "e < 2 ^ 64"
  shows "getb buf e n p = Some (s, p + n)" and "drop (p + n) buf = rest"
proof -
  show "getb buf e n p = Some (s, p + n)" using assms by (simp add: getb_def)
  show "drop (p + n) buf = rest" using assms(1,2) by (metis add.commute append_eq_conv_conj drop_drop)
qed

lemma length_puts [simp]: "length (puts s) = 4 + length s"
  by (simp add: puts_def)

lemma gets_step:
  assumes "drop p buf = puts s @ rest" "length s < 2 ^ 32" "p + length (puts s) \<le> e" "e < 2 ^ 64"
  shows "gets buf e p = Some (s, p + length (puts s))" and "drop (p + length (puts s)) buf = rest"
proof -
  note a = getb_step [of p buf "put_le 4 (of_nat (length s) :: u32)" "s @ rest" 4 e]
  have 1: "getb buf e 4 p = Some (put_le 4 (of_nat (length s) :: u32), p + 4)" "drop (p + 4) buf = s @ rest"
    using a assms by (simp_all add: puts_def)
  have n: "unat (get_le 4 (put_le 4 (of_nat (length s) :: u32)) :: u32) = length s"
    using assms(2) get_put_u32 [of "of_nat (length s)" "[]"] by (simp add: unat_of_nat take_bit_nat_eq_self)
  have 2: "getb buf e (length s) (p + 4) = Some (s, p + 4 + length s)" "drop (p + 4 + length s) buf = rest"
    using getb_step [OF 1(2) refl, of e] assms by simp_all
  show "gets buf e p = Some (s, p + length (puts s))" using 1 2 n by (simp add: gets_def)
  show "drop (p + length (puts s)) buf = rest" using 2 by (simp add: add.assoc)
qed

text \<open>What a record says of the entry it was built from.\<close>

definition rec_of :: "int \<Rightarrow> VgiResultCacheEntry \<Rightarrow> string \<Rightarrow> string \<Rightarrow> string \<Rightarrow> Rec" where
  "rec_of now e blob content_sha keyfp =
     \<lparr>rkeyfp = keyfp, rcontent_sha = content_sha, rscope = escope e, retag = eetag e, rlm = elast_modified e,
      rcatalog = catalog_name e, rblob = blob, rflags = (if input_hash (ekey e) = [] then 0 else 1),
      rexpires = ComputeExpiresUnix now e, rrows = erows e, rlogical = u64_of (etotal_bytes e)\<rparr>"

definition record_ok :: "int \<Rightarrow> VgiResultCacheEntry \<Rightarrow> string \<Rightarrow> string \<Rightarrow> string \<Rightarrow> bool" where
  "record_ok now e blob content_sha keyfp \<longleftrightarrow>
     length keyfp = 64 \<and> length content_sha = 64 \<and> length (escope e) < 2 ^ 32 \<and> length (eetag e) < 2 ^ 32 \<and>
     length (elast_modified e) < 2 ^ 32 \<and> length (catalog_name e) < 2 ^ 32 \<and> length blob < 2 ^ 64 \<and>
     int64 (ComputeExpiresUnix now e) \<and> int64 (erows e)"

lemma get_put_u64_nil [simp]: "get_le 8 (put_le 8 v) = (v :: u64)"
  using get_put_u64 [of v "[]"] by simp

lemma getb_bind:
  assumes "drop p buf = s @ rest" "length s = n" "p + n \<le> e" "e < 2 ^ 64"
    and "drop (p + n) buf = rest \<Longrightarrow> f s (p + n) = y"
  shows "getb buf e n p \<bind> (\<lambda>(b, p). f b p) = y"
  using getb_step [OF assms(1-4)] assms(5) by simp

lemma gets_bind:
  assumes "drop p buf = puts s @ rest" "length s < 2 ^ 32" "p + length (puts s) \<le> e" "e < 2 ^ 64"
    and "drop (p + length (puts s)) buf = rest \<Longrightarrow> f s (p + length (puts s)) = y"
  shows "gets buf e p \<bind> (\<lambda>(b, p). f b p) = y"
  using gets_step [OF assms(1-4)] assms(5) by simp

lemma ParseRecord_BuildRecord:
  assumes at: "drop p buf = BuildRecord now e blob content_sha keyfp @ rest" and ok: "record_ok now e blob content_sha keyfp"
    and le: "p + length (BuildRecord now e blob content_sha keyfp) \<le> end'" and end': "end' < 2 ^ 64"
  shows "ParseRecord buf p end' =
    Some (rec_of now e blob content_sha keyfp, p + length (BuildRecord now e blob content_sha keyfp))"
proof -
  have lens: "length keyfp = 64" "length content_sha = 64" "length (escope e) < 2 ^ 32" "length (eetag e) < 2 ^ 32"
    "length (elast_modified e) < 2 ^ 32" "length (catalog_name e) < 2 ^ 32" "length blob < 2 ^ 64"
    "int64 (ComputeExpiresUnix now e)" "int64 (erows e)"
    using ok by (simp_all add: record_ok_def)
  have total: "length (BuildRecord now e blob content_sha keyfp) =
    181 + length (escope e) + length (eetag e) + length (elast_modified e) + length (catalog_name e) + length blob"
    using lens(1,2) by (simp add: BuildRecord_def)
  have le': "p + (181 + length (escope e) + length (eetag e) + length (elast_modified e) + length (catalog_name e)
      + length blob) \<le> end'" using le total by simp
  have len_n: "unat (get_le 8 (put_le 8 (of_nat (length blob) :: u64)) :: u64) = length blob" using lens(7) by simp
  note at' = at [unfolded BuildRecord_def append_assoc]
  show ?thesis
    unfolding ParseRecord_def total
    apply (rule getb_bind [OF at' _ _ end'])
    using le' lens apply (simp, simp)
    apply (simp only: simp_thms if_False)
    apply (rule getb_bind [OF _ _ _ end'], assumption, use le' lens in simp, use le' in simp)+
    apply (rule gets_bind [OF _ _ _ end'], assumption, use lens in simp, use le' in simp)+
    apply (rule getb_bind [OF _ _ _ end'], assumption, simp, use le' in simp)
    apply (subst len_n, rule getb_bind [OF _ _ _ end'], assumption, simp, use le' in simp)
    using lens apply (simp add: rec_of_def)
    done
qed

section \<open>A torn tail\<close>

text \<open>
  A read that succeeds within the first bytes of a file succeeds the same way when the file is longer.
  \<open>extends\<close> is this for the reads that cannot wrap, \<open>lands\<close> for the position after the last one.
\<close>

definition extends :: "nat \<Rightarrow> (string \<times> nat) option \<Rightarrow> (string \<times> nat) option \<Rightarrow> bool" where
  "extends L m m' \<longleftrightarrow> (\<forall>x p. m = Some (x, p) \<longrightarrow> m' = Some (x, p) \<and> p \<le> L)"

definition lands :: "nat \<Rightarrow> ('a \<times> nat) option \<Rightarrow> ('a \<times> nat) option \<Rightarrow> bool" where
  "lands L m m' \<longleftrightarrow> (\<forall>x p. m = Some (x, p) \<longrightarrow> (\<exists>x'. m' = Some (x', p)) \<and> p \<le> L)"

lemma extends_bind:
  "extends L m m' \<Longrightarrow> (\<And>x p. p \<le> L \<Longrightarrow> lands L (f x p) (f' x p)) \<Longrightarrow>
   lands L (m \<bind> (\<lambda>(x, p). f x p)) (m' \<bind> (\<lambda>(x, p). f' x p))"
  by (cases m) (auto simp: extends_def lands_def)

lemma extends_getb:
  assumes "length b < 2 ^ 63" "p \<le> length b" "n < 2 ^ 63"
  shows "extends (length b) (getb b (length b) n p) (getb (b @ u) (length (b @ u)) n p)"
  using assms by (auto simp: extends_def getb_def)

lemma extends_gets:
  assumes "length b < 2 ^ 63" "p \<le> length b"
  shows "extends (length b) (gets b (length b) p) (gets (b @ u) (length (b @ u)) p)"
proof -
  have n: "unat (w :: u32) < 2 ^ 63" for w
    by (rule less_le_trans [OF unsigned_less]) simp
  have "extends (length b) (case r of (x, q) \<Rightarrow> getb b (length b) (unat (get_le 4 x :: u32)) q)
      (case r of (x, q) \<Rightarrow> getb (b @ u) (length (b @ u)) (unat (get_le 4 x :: u32)) q)" if "snd r \<le> length b" for r
    unfolding case_prod_beta by (rule extends_getb [OF assms(1) that n])
  then show ?thesis
    using extends_getb [OF assms, of 4 u] unfolding gets_def extends_def
    by (cases "getb b (length b) 4 p") (auto simp del: length_append)
qed

lemma lands_last:
  "lands (length b) (getb b (length b) n p \<bind> (\<lambda>(x, q). Some (f x, q)))
     (getb (b @ u) (length (b @ u)) n p \<bind> (\<lambda>(x, q). Some (f' x, q)))"
  by (simp add: lands_def getb_def)

lemma lands_if: "lands L m m' \<Longrightarrow> lands L (if c then None else m) (if c then None else m')"
  by (simp add: lands_def)

lemma ParseRecord_lands:
  assumes "length b < 2 ^ 63" "p \<le> length b"
  shows "lands (length b) (ParseRecord b p (length b)) (ParseRecord (b @ u) p (length (b @ u)))"
  unfolding ParseRecord_def
  by (intro extends_bind lands_if lands_last extends_getb extends_gets assms) simp_all

text \<open>An append that was cut short is not taken for a record.\<close>

lemma ParseRecord_torn:
  assumes ok: "record_ok now e blob content_sha keyfp" and m: "m < length (BuildRecord now e blob content_sha keyfp)"
    and len: "length pre + length (BuildRecord now e blob content_sha keyfp) < 2 ^ 63"
  shows "ParseRecord (pre @ take m (BuildRecord now e blob content_sha keyfp)) (length pre)
     (length (pre @ take m (BuildRecord now e blob content_sha keyfp))) = None"
proof -
  let ?r = "BuildRecord now e blob content_sha keyfp"
  have full: "ParseRecord (pre @ ?r) (length pre) (length (pre @ ?r)) =
      Some (rec_of now e blob content_sha keyfp, length pre + length ?r)"
    by (rule ParseRecord_BuildRecord [OF _ ok, of _ _ "[]"]) (use len in simp_all)
  have "lands (length (pre @ take m ?r)) (ParseRecord (pre @ take m ?r) (length pre) (length (pre @ take m ?r)))
      (ParseRecord ((pre @ take m ?r) @ drop m ?r) (length pre) (length ((pre @ take m ?r) @ drop m ?r)))"
    by (rule ParseRecord_lands) (use len m in simp_all)
  then show ?thesis using m unfolding append_assoc append_take_drop_id full lands_def
    by (cases "ParseRecord (pre @ take m ?r) (length pre) (length (pre @ take m ?r))") auto
qed

text \<open>The records of a file, each with the clock and the arguments it was built with.\<close>

type_synonym pack_item = "int \<times> VgiResultCacheEntry \<times> string \<times> string \<times> string"

definition item_bytes :: "pack_item \<Rightarrow> string" where
  "item_bytes = (\<lambda>(now, e, blob, content_sha, keyfp). BuildRecord now e blob content_sha keyfp)"

definition item_rec :: "pack_item \<Rightarrow> Rec" where
  "item_rec = (\<lambda>(now, e, blob, content_sha, keyfp). rec_of now e blob content_sha keyfp)"

definition item_ok :: "pack_item \<Rightarrow> bool" where
  "item_ok = (\<lambda>(now, e, blob, content_sha, keyfp). record_ok now e blob content_sha keyfp)"

fun located :: "nat \<Rightarrow> pack_item list \<Rightarrow> (nat \<times> nat \<times> Rec) list" where
  "located off [] = []"
| "located off (x # xs) = (off, length (item_bytes x), item_rec x) # located (off + length (item_bytes x)) xs"

lemma item_bytes_nonempty: "item_bytes x \<noteq> []"
  by (cases x) (simp add: item_bytes_def BuildRecord_def)

lemma scan_pack_torn:
  assumes "list_all item_ok xs" "item_ok x" "m < length (item_bytes x)" "length xs < fuel"
    "length pre + length (concat (map item_bytes xs)) + length (item_bytes x) < 2 ^ 63"
  shows "scan_pack fuel (pre @ concat (map item_bytes xs) @ take m (item_bytes x)) (length pre) acc =
    Some (acc @ located (length pre) xs)"
  using assms
proof (induction xs arbitrary: pre fuel acc)
  case Nil
  then obtain f where fuel: "fuel = Suc f" by (cases fuel) auto
  obtain now e blob sha fp where x: "x = (now, e, blob, sha, fp)" by (cases x)
  have "ParseRecord (pre @ take m (item_bytes x)) (length pre) (length (pre @ take m (item_bytes x))) = None"
    unfolding x item_bytes_def case_prod_conv
    by (rule ParseRecord_torn) (use Nil.prems in \<open>simp_all add: x item_ok_def item_bytes_def\<close>)
  then show ?case unfolding fuel by simp
next
  case (Cons y ys)
  obtain f where fuel: "fuel = Suc f" using Cons.prems(4) by (cases fuel) auto
  obtain now e blob sha fp where y: "y = (now, e, blob, sha, fp)" by (cases y)
  define rest where "rest = concat (map item_bytes ys) @ take m (item_bytes x)"
  define buf where "buf = pre @ item_bytes y @ rest"
  have lb: "length buf < 2 ^ 63" using Cons.prems(3,5) by (simp add: buf_def rest_def)
  have p: "ParseRecord buf (length pre) (length buf) = Some (item_rec y, length (pre @ item_bytes y))"
    unfolding item_rec_def y case_prod_conv item_bytes_def length_append
    by (rule ParseRecord_BuildRecord [where rest = rest])
       (use lb Cons.prems in \<open>simp_all add: buf_def y item_ok_def item_bytes_def\<close>)
  have "scan_pack f ((pre @ item_bytes y) @ rest) (length (pre @ item_bytes y)) acc' =
      Some (acc' @ located (length (pre @ item_bytes y)) ys)" for acc'
    unfolding rest_def by (rule Cons.IH) (use Cons.prems fuel in simp_all)
  moreover have "length pre < length buf" using item_bytes_nonempty [of y] by (simp add: buf_def)
  ultimately show ?case using p unfolding fuel by (simp add: buf_def rest_def)
qed

text \<open>
  C28. A pack file survives a crash during an append. Take the file of any number of completely
  written records, of which the last append may be cut anywhere: the scan ends, finds exactly the
  complete records, each with its offset, its length and all its fields, and nothing of the torn one.
\<close>

theorem pack_scan_crash_safe:
  assumes "list_all item_ok (xs @ [x])" "m < length (item_bytes x)" "length xs < fuel"
    "length (concat (map item_bytes (xs @ [x]))) < 2 ^ 63"
  shows "scan_pack fuel (take (length (concat (map item_bytes xs)) + m) (concat (map item_bytes (xs @ [x])))) 0 [] =
    Some (located 0 xs)"
  using scan_pack_torn [of xs x m fuel "[]" "[]"] assms by simp

definition sample_item :: pack_item where
  "sample_item = (100, blank_entry blank_key, ''VRC1'', replicate 64 CHR ''a'', replicate 64 CHR ''b'')"

lemma sample_item_ok: "item_ok sample_item" "length (item_bytes sample_item) = 192"
proof -
  show "item_ok sample_item"
    by (simp add: item_ok_def sample_item_def record_ok_def blank_entry_def ComputeExpiresUnix_def duration_s_def)
  show "length (item_bytes sample_item) = 192"
    by (simp add: item_bytes_def sample_item_def BuildRecord_def blank_entry_def)
qed

theorem pack_scan_crash_safe_witness:
  "scan_pack 2 (take (192 + 100) (item_bytes sample_item @ item_bytes sample_item)) 0 [] =
   Some [(0, 192, item_rec sample_item)]"
  using pack_scan_crash_safe [of "[sample_item]" sample_item 100 2] by (simp add: sample_item_ok)

text \<open>
  A record's blob length is added to the position without a check for wrap-around. This record of
  181 bytes carries the length that brings the position back to the record's own start, so the scan
  of a file that holds only it never ends.
\<close>

definition wrapping_record :: string where
  "wrapping_record = ''VPK1'' @ replicate 64 CHR ''0'' @ replicate 64 CHR ''0'' @ [char_of (0 :: nat)] @
     put_le 8 (0 :: u64) @ put_le 8 (0 :: u64) @ put_le 8 (0 :: u64) @ puts [] @ puts [] @ puts [] @ puts [] @
     put_le 8 (of_nat (2 ^ 64 - 181) :: u64)"

lemma ParseRecord_wraps: "\<exists>r. ParseRecord wrapping_record 0 181 = Some (r, 0)"
proof -
  have at: "drop 0 wrapping_record = ''VPK1'' @ replicate 64 CHR ''0'' @ replicate 64 CHR ''0'' @ [char_of (0 :: nat)] @
     put_le 8 (0 :: u64) @ put_le 8 (0 :: u64) @ put_le 8 (0 :: u64) @ puts [] @ puts [] @ puts [] @ puts [] @
     put_le 8 (of_nat (2 ^ 64 - 181) :: u64) @ []" by (simp add: wrapping_record_def)
  have e: "(181 :: nat) < 2 ^ 64" by simp
  have n: "unat (get_le 8 (put_le 8 (of_nat (2 ^ 64 - 181) :: u64)) :: u64) = 2 ^ 64 - 181"
    unfolding get_put_u64_nil by (rule unat_of_nat_len) simp
  have last: "getb wrapping_record 181 (2 ^ 64 - 181) 181 = Some (take (2 ^ 64 - 181) (drop 181 wrapping_record), 0)"
    by (simp add: getb_def wrap_pos_def)
  show ?thesis
    unfolding ParseRecord_def
    apply (intro exI)
    apply (rule getb_bind [OF at _ _ e], simp, simp)
    apply (simp only: simp_thms if_False)
    apply (rule getb_bind [OF _ _ _ e], assumption, simp, simp)+
    apply (rule gets_bind [OF _ _ _ e], assumption, simp, simp)+
    apply (rule getb_bind [OF _ _ _ e], assumption, simp, simp)
    apply (subst n)
    apply (simp add: last del: power_numeral)
    done
qed

theorem pack_scan_may_not_end: "scan_pack fuel wrapping_record 0 acc = None"
proof (induction fuel arbitrary: acc)
  case 0
  show ?case by simp
next
  case (Suc fuel)
  have "length wrapping_record = 181" by (simp add: wrapping_record_def)
  then show ?case using Suc ParseRecord_wraps by auto
qed

end
