(* ===== verification/Result_Cache.thy ===== *)
theory Result_Cache
  imports Entry_Codec
begin

text \<open>
  The memory tier of the result cache, \<^verbatim>\<open>src/src/vgi_result_cache.cpp\<close>. The MRU-ordered
  \<^verbatim>\<open>std::list\<close> is a list of nodes, each an identity with its entry; the index maps a key to a node
  identity, as the map of iterators does. Every critical section of the cache's mutex is one
  definition, and the operations compose them with the disk tier, whose functions are the fields of a
  record: other threads may run between two critical sections of one operation. Times of the
  monotonic clock are in nanoseconds; the wall clock is in seconds.
\<close>

section \<open>State\<close>

record Settings =
  max_bytes :: u64
  max_entry_bytes :: u64
  max_entries :: u64
  max_inflight_bytes :: u64
  s_disk_dir :: string
  s_disk_max_bytes :: u64
  disk_reap_interval_seconds :: u64
  s_disk_compression :: string
  s_disk_compression_level :: u64
  exchange_disk_max_refs :: u64
  pack :: bool
  pack_max_entry_bytes :: u64
  pack_target_bytes :: u64
  pack_compaction_dead_pct :: u64

record VgiResultCache =
  lru :: "(nat \<times> VgiResultCacheEntry) list"
  index :: "VgiResultCacheKey \<rightharpoonup> nat"
  total_bytes :: int
  settings :: Settings
  disk_dir :: string
  disk_max_bytes :: u64
  disk_compression :: string
  disk_compression_level :: u64
  config_signature :: u64
  next_node :: nat
  c_hits :: u64
  c_misses :: u64
  c_inserts :: u64
  evictions_lru :: u64
  evictions_ttl :: u64

definition DiskEnabledLocked :: "VgiResultCache \<Rightarrow> bool" where
  "DiskEnabledLocked c \<longleftrightarrow> disk_dir c \<noteq> [] \<and> 0 < disk_max_bytes c"

section \<open>List and index primitives\<close>

definition erase_node :: "nat \<Rightarrow> (nat \<times> VgiResultCacheEntry) list \<Rightarrow> (nat \<times> VgiResultCacheEntry) list" where
  "erase_node n l = filter (\<lambda>(m, _). m \<noteq> n) l"

text \<open>Drop the node an index entry points to; move it to the front and count a hit; add a new node.\<close>

definition drop_node :: "VgiResultCacheKey \<Rightarrow> nat \<Rightarrow> VgiResultCacheEntry \<Rightarrow> VgiResultCache \<Rightarrow> VgiResultCache" where
  "drop_node k n e c =
     c\<lparr>total_bytes := total_bytes c - etotal_bytes e, lru := erase_node n (lru c), index := (index c)(k := None)\<rparr>"

definition touch_node :: "VgiResultCacheKey \<Rightarrow> nat \<Rightarrow> VgiResultCacheEntry \<Rightarrow> VgiResultCache \<Rightarrow> VgiResultCache" where
  "touch_node k n e c =
     c\<lparr>lru := (n, e\<lparr>hits := hits e + 1\<rparr>) # erase_node n (lru c), index := (index c)(k \<mapsto> n), c_hits := c_hits c + 1\<rparr>"

definition push_front :: "VgiResultCacheEntry \<Rightarrow> VgiResultCacheKey \<Rightarrow> VgiResultCache \<Rightarrow> VgiResultCache" where
  "push_front e k c =
     c\<lparr>total_bytes := total_bytes c + etotal_bytes e, lru := (next_node c, e) # lru c,
       index := (index c)(k \<mapsto> next_node c), next_node := next_node c + 1\<rparr>"

section \<open>Eviction\<close>

definition over_cap :: "int \<Rightarrow> bool \<Rightarrow> VgiResultCache \<Rightarrow> bool" where
  "over_cap incoming admitting c \<longleftrightarrow>
     incoming > i64_of (max_bytes (settings c)) \<or>
     total_bytes c > i64_of (max_bytes (settings c)) - incoming \<or>
     (0 < max_entries (settings c) \<and>
      length (lru c) + (if admitting then 1 else 0) > unat (max_entries (settings c)))"

definition pop_back :: "VgiResultCache \<Rightarrow> VgiResultCache" where
  "pop_back c =
     (let victim = snd (last (lru c)) in
      c\<lparr>total_bytes := total_bytes c - etotal_bytes victim, index := (index c)(ekey victim := None),
        lru := butlast (lru c), evictions_lru := evictions_lru c + 1\<rparr>)"

function EvictToFitLocked :: "int \<Rightarrow> bool \<Rightarrow> VgiResultCache \<Rightarrow> VgiResultCache" where
  "EvictToFitLocked incoming admitting c =
     (if lru c \<noteq> [] \<and> over_cap incoming admitting c
      then EvictToFitLocked incoming admitting (pop_back c) else c)"
  by pat_completeness auto
termination
  by (relation "measure (\<lambda>(_, _, c). length (lru c))") (auto simp: pop_back_def Let_def)

declare EvictToFitLocked.simps [simp del]

section \<open>Critical sections\<close>

text \<open>
  The first section of a lookup: the served entry, or none together with the snapshot of the disk
  directory and the entry cap. An index entry without its node would be a dangling iterator; the
  invariant below rules it out.
\<close>

definition find_node :: "VgiResultCacheKey \<Rightarrow> VgiResultCache \<Rightarrow> (nat \<times> VgiResultCacheEntry) option" where
  "find_node k c = (case index c k of None \<Rightarrow> None | Some n \<Rightarrow> map_option (Pair n) (map_of (lru c) n))"

definition lookup_locked ::
  "VgiResultCacheKey \<Rightarrow> int \<Rightarrow> VgiResultCache \<Rightarrow> VgiResultCacheEntry option \<times> (string \<times> u64) \<times> VgiResultCache" where
  "lookup_locked k now c =
     (let snap = (\<lambda>c. if DiskEnabledLocked c then (disk_dir c, max_entry_bytes (settings c)) else ([], 0)) in
      case find_node k c of
        None \<Rightarrow> (None, snap c, c)
      | Some (n, e) \<Rightarrow>
          if IsStale now e then
            let c1 = (drop_node k n e c)\<lparr>evictions_ttl := evictions_ttl c + 1\<rparr> in (None, snap c1, c1)
          else (Some (e\<lparr>hits := hits e + 1\<rparr>), ([], 0), touch_node k n e c))"

definition count_miss :: "VgiResultCache \<Rightarrow> VgiResultCache" where
  "count_miss c = c\<lparr>c_misses := c_misses c + 1\<rparr>"

text \<open>The second section: an entry found on disk is adopted unless the key came back meanwhile.\<close>

definition adopt :: "VgiResultCacheKey \<Rightarrow> VgiResultCacheEntry \<Rightarrow> VgiResultCache \<Rightarrow> VgiResultCacheEntry \<times> VgiResultCache" where
  "adopt k p c =
     (let (p1, c1) =
        (if index c k = None \<and> etotal_bytes p \<le> i64_of (max_entry_bytes (settings c)) \<and>
            etotal_bytes p \<le> i64_of (max_bytes (settings c))
         then let p1 = p\<lparr>hits := hits p + 1\<rparr> in
              (p1, push_front p1 k (EvictToFitLocked (etotal_bytes p) True c))
         else (p, c))
      in (p1, c1\<lparr>c_hits := c_hits c1 + 1\<rparr>))"

definition batch_one ::
  "int \<Rightarrow> VgiResultCacheKey \<Rightarrow> VgiResultCache \<Rightarrow> VgiResultCacheEntry option \<times> VgiResultCache" where
  "batch_one now k c =
     (case find_node k c of
        None \<Rightarrow> (None, count_miss c)
      | Some (n, e) \<Rightarrow>
          if IsStale now e then (None, count_miss ((drop_node k n e c)\<lparr>evictions_ttl := evictions_ttl c + 1\<rparr>))
          else (Some (e\<lparr>hits := hits e + 1\<rparr>), touch_node k n e c))"

fun LookupBatch ::
  "VgiResultCacheKey list \<Rightarrow> int \<Rightarrow> VgiResultCache \<Rightarrow> VgiResultCacheEntry option list \<times> VgiResultCache" where
  "LookupBatch [] now c = ([], c)"
| "LookupBatch (k # ks) now c =
     (let (r, c1) = batch_one now k c; (rs, c2) = LookupBatch ks now c1 in (r # rs, c2))"

definition LookupForRevalidation :: "VgiResultCacheKey \<Rightarrow> int \<Rightarrow> VgiResultCache \<Rightarrow> VgiResultCacheEntry option" where
  "LookupForRevalidation k now c =
     (case find_node k c of None \<Rightarrow> None
      | Some (n, e) \<Rightarrow> if IsStale now e \<and> erevalidatable e then Some e else None)"

text \<open>What the locked part of an insertion hands to the disk tier; an empty directory is none.\<close>

record insert_plan =
  p_retained :: bool
  p_dir :: string
  p_disk_max :: u64
  p_codec :: string
  p_level :: u64
  p_use_pack :: bool
  p_target :: u64

definition drop_existing :: "VgiResultCacheKey \<Rightarrow> VgiResultCache \<Rightarrow> VgiResultCache" where
  "drop_existing k c = (case find_node k c of None \<Rightarrow> c | Some (n, e) \<Rightarrow> drop_node k n e c)"

definition insert_locked ::
  "VgiResultCacheEntry \<Rightarrow> bool \<Rightarrow> VgiResultCache \<Rightarrow> insert_plan option \<times> VgiResultCache" where
  "insert_locked e allow_disk c =
     (if etotal_bytes e > i64_of (max_entry_bytes (settings c)) then (None, c)
      else
        let c1 = drop_existing (ekey e) c;
            retained = (etotal_bytes e \<le> i64_of (max_bytes (settings c)));
            c2 = (if retained then push_front e (ekey e) (EvictToFitLocked (etotal_bytes e) True c1) else c1);
            disk = (allow_disk \<and> DiskEnabledLocked c);
            use_pack = (disk \<and> pack (settings c) \<and> input_hash (ekey e) \<noteq> [] \<and>
                        etotal_bytes e < i64_of (pack_max_entry_bytes (settings c)));
            plan = \<lparr>p_retained = retained, p_dir = (if disk then disk_dir c else []),
                    p_disk_max = (if disk then disk_max_bytes c else 0),
                    p_codec = (if disk then disk_compression c else []),
                    p_level = (if disk then disk_compression_level c else 1),
                    p_use_pack = use_pack, p_target = (if use_pack then pack_target_bytes (settings c) else 0)\<rparr>
        in (Some plan, if retained \<or> p_dir plan \<noteq> [] then c2\<lparr>c_inserts := c_inserts c2 + 1\<rparr> else c2))"

definition flush_all_locked :: "VgiResultCache \<Rightarrow> nat \<times> VgiResultCache" where
  "flush_all_locked c = (length (lru c), c\<lparr>index := Map.empty, lru := [], total_bytes := 0\<rparr>)"

text \<open>The loop that erases, in one pass over the list, every entry a test selects.\<close>

fun sweep :: "(VgiResultCacheEntry \<Rightarrow> bool) \<Rightarrow> (nat \<times> VgiResultCacheEntry) list \<Rightarrow> VgiResultCache \<Rightarrow> nat \<times> VgiResultCache" where
  "sweep P [] c = (0, c)"
| "sweep P ((n, e) # rest) c =
     (if P e then
        let (k, c1) = sweep P rest (drop_node (ekey e) n e c) in (k + 1, c1)
      else sweep P rest c)"

definition flush_catalog_locked :: "string \<Rightarrow> VgiResultCache \<Rightarrow> nat \<times> VgiResultCache" where
  "flush_catalog_locked catalog c = sweep (\<lambda>e. catalog_name e = catalog) (lru c) c"

definition ReapStaleLocked :: "int \<Rightarrow> VgiResultCache \<Rightarrow> nat \<times> VgiResultCache" where
  "ReapStaleLocked now c =
     (let (n, c1) = sweep (\<lambda>e. IsStale now e \<and> \<not> erevalidatable e) (lru c) c
      in (n, c1\<lparr>evictions_ttl := evictions_ttl c1 + of_nat n\<rparr>))"

section \<open>Configuration\<close>

definition SettingsSignature :: "(string \<Rightarrow> u64) \<Rightarrow> Settings \<Rightarrow> u64" where
  "SettingsSignature std_hash s =
     (let nums = [max_bytes s, max_entry_bytes s, max_entries s, max_inflight_bytes s, s_disk_max_bytes s,
                  disk_reap_interval_seconds s, s_disk_compression_level s, exchange_disk_max_refs s,
                  (if pack s then 1 else 0), pack_max_entry_bytes s, pack_target_bytes s, pack_compaction_dead_pct s];
          seed = foldl HashCombine 0xcbf29ce484222325 nums
      in HashStr std_hash (HashStr std_hash seed (s_disk_dir s)) (s_disk_compression s))"

definition Configure :: "(string \<Rightarrow> u64) \<Rightarrow> Settings \<Rightarrow> VgiResultCache \<Rightarrow> VgiResultCache" where
  "Configure std_hash s c =
     (let c1 = c\<lparr>settings := s, disk_dir := s_disk_dir s, disk_max_bytes := s_disk_max_bytes s,
                 disk_compression := s_disk_compression s, disk_compression_level := s_disk_compression_level s\<rparr>
      in (EvictToFitLocked 0 False c1)\<lparr>config_signature := SettingsSignature std_hash s\<rparr>)"

definition ConfigureIfChanged :: "(string \<Rightarrow> u64) \<Rightarrow> Settings \<Rightarrow> VgiResultCache \<Rightarrow> VgiResultCache" where
  "ConfigureIfChanged std_hash s c =
     (if config_signature c = SettingsSignature std_hash s then c else Configure std_hash s c)"

section \<open>Operations over both tiers\<close>

text \<open>The functions of the disk tier that the cache calls, on a disk state of any type.\<close>

record 'd disk_tier =
  pack_lookup :: "string \<Rightarrow> VgiResultCacheKey \<Rightarrow> int \<Rightarrow> 'd \<Rightarrow> VgiResultCacheEntry option \<times> 'd"
  peek_ref :: "VgiResultCacheKey \<Rightarrow> string \<Rightarrow> 'd \<Rightarrow> int"
  load_streaming :: "VgiResultCacheKey \<Rightarrow> string \<Rightarrow> 'd \<Rightarrow> VgiResultCacheEntry option \<times> 'd"
  load_disk :: "VgiResultCacheKey \<Rightarrow> string \<Rightarrow> 'd \<Rightarrow> VgiResultCacheEntry option \<times> 'd"
  pack_persist :: "string \<Rightarrow> VgiResultCacheEntry \<Rightarrow> string \<Rightarrow> string \<Rightarrow> u64 \<Rightarrow> 'd \<Rightarrow> 'd"
  loose_persist :: "VgiResultCacheEntry \<Rightarrow> string \<Rightarrow> u64 \<Rightarrow> string \<Rightarrow> u64 \<Rightarrow> 'd \<Rightarrow> 'd"
  resolve_codec :: "string \<Rightarrow> string"
  serialize :: "VgiResultCacheEntry \<Rightarrow> string \<Rightarrow> u64 \<Rightarrow> string"
  sha256_hex :: "string \<Rightarrow> string"
  invalidate_all :: "'d \<Rightarrow> 'd"
  remove_directory :: "string \<Rightarrow> 'd \<Rightarrow> 'd"
  flush_shard :: "string \<Rightarrow> string \<Rightarrow> 'd \<Rightarrow> 'd"
  reap_disk :: "string \<Rightarrow> u64 \<Rightarrow> u64 \<Rightarrow> int \<Rightarrow> 'd \<Rightarrow> nat \<times> 'd"
  reap_packs :: "string \<Rightarrow> int \<Rightarrow> u64 \<Rightarrow> u64 \<Rightarrow> 'd \<Rightarrow> nat \<times> 'd"

definition Lookup ::
  "'d disk_tier \<Rightarrow> VgiResultCacheKey \<Rightarrow> int \<Rightarrow> int \<Rightarrow> VgiResultCache \<times> 'd \<Rightarrow>
   VgiResultCacheEntry option \<times> VgiResultCache \<times> 'd" where
  "Lookup D k now now_unix st =
     (case st of (c, d) \<Rightarrow>
      case lookup_locked k now c of
        (Some e, _, c1) \<Rightarrow> (Some e, c1, d)
      | (None, (dir, cap), c1) \<Rightarrow>
          if dir = [] then (None, count_miss c1, d)
          else (case pack_lookup D dir k now_unix d of
                  (Some p, d1) \<Rightarrow> (let (p1, c2) = adopt k p c1 in (Some p1, c2, d1))
                | (None, d1) \<Rightarrow>
                    let ref_bytes = peek_ref D k dir d1 in
                    if ref_bytes \<ge> 0 \<and> ref_bytes > i64_of cap then
                      (case load_streaming D k dir d1 of
                         (Some s, d2) \<Rightarrow> (Some s, c1\<lparr>c_hits := c_hits c1 + 1\<rparr>, d2)
                       | (None, d2) \<Rightarrow> (None, count_miss c1, d2))
                    else if ref_bytes \<ge> 0 then
                      (case load_disk D k dir d1 of
                         (Some p, d2) \<Rightarrow> (let (p1, c2) = adopt k p c1 in (Some p1, c2, d2))
                       | (None, d2) \<Rightarrow> (None, count_miss c1, d2))
                    else (None, count_miss c1, d1)))"

definition Insert ::
  "'d disk_tier \<Rightarrow> VgiResultCacheEntry option \<Rightarrow> bool \<Rightarrow> VgiResultCache \<times> 'd \<Rightarrow> bool \<times> VgiResultCache \<times> 'd" where
  "Insert D entry allow_disk st =
     (case (entry, st) of
        (None, st) \<Rightarrow> (False, st)
      | (Some e, c, d) \<Rightarrow>
          case insert_locked e allow_disk c of
            (None, c1) \<Rightarrow> (False, c1, d)
          | (Some p, c1) \<Rightarrow>
              (p_retained p \<or> p_dir p \<noteq> [], c1,
               if p_dir p = [] then d
               else if p_use_pack p then
                 (let blob = serialize D e (resolve_codec D (p_codec p)) (p_level p) in
                  if length blob \<le> unat (p_disk_max p)
                  then pack_persist D (p_dir p) e blob (sha256_hex D blob) (p_target p) d else d)
               else loose_persist D e (p_dir p) (p_disk_max p) (p_codec p) (p_level p) d))"

definition FlushAll :: "'d disk_tier \<Rightarrow> VgiResultCache \<times> 'd \<Rightarrow> nat \<times> VgiResultCache \<times> 'd" where
  "FlushAll D st =
     (case st of (c, d) \<Rightarrow>
      let (n, c1) = flush_all_locked c in
      (n, c1, if DiskEnabledLocked c then remove_directory D (disk_dir c) (invalidate_all D d) else d))"

definition FlushCatalog :: "'d disk_tier \<Rightarrow> string \<Rightarrow> string \<Rightarrow> VgiResultCache \<times> 'd \<Rightarrow> nat \<times> VgiResultCache \<times> 'd" where
  "FlushCatalog D catalog scope st =
     (case st of (c, d) \<Rightarrow>
      let (n, c1) = flush_catalog_locked catalog c in
      (n, c1, if DiskEnabledLocked c1 \<and> scope \<noteq> [] then flush_shard D scope (disk_dir c1) d else d))"

definition ReapNow ::
  "'d disk_tier \<Rightarrow> int \<Rightarrow> int \<Rightarrow> int \<Rightarrow> VgiResultCache \<times> 'd \<Rightarrow> (nat \<times> nat) \<times> VgiResultCache \<times> 'd" where
  "ReapNow D now now_unix advance st =
     (case st of (c, d) \<Rightarrow>
      let (m, c1) = ReapStaleLocked (now + advance * 1000000000) c in
      if DiskEnabledLocked c1 then
        let (r, d1) = reap_disk D (disk_dir c1) (disk_max_bytes c1) (exchange_disk_max_refs (settings c1)) (now_unix + advance) d;
            (q, d2) = reap_packs D (disk_dir c1) (now_unix + advance) (disk_max_bytes c1)
                        (pack_compaction_dead_pct (settings c1)) d1
        in ((m, r + q), c1, d2)
      else ((m, 0), c1, d))"

section \<open>The invariant\<close>

definition keys_of :: "(nat \<times> VgiResultCacheEntry) list \<Rightarrow> VgiResultCacheKey list" where
  "keys_of l = map (\<lambda>(_, e). ekey e) l"

definition bytes_of :: "(nat \<times> VgiResultCacheEntry) list \<Rightarrow> int" where
  "bytes_of l = (\<Sum>(_, e)\<leftarrow>l. etotal_bytes e)"

definition cache_wf :: "VgiResultCache \<Rightarrow> bool" where
  "cache_wf c \<longleftrightarrow>
     distinct (map fst (lru c)) \<and> distinct (keys_of (lru c)) \<and> (\<forall>n \<in> fst ` set (lru c). n < next_node c) \<and>
     (\<forall>k n. index c k = Some n \<longleftrightarrow> (\<exists>e. (n, e) \<in> set (lru c) \<and> ekey e = k)) \<and>
     total_bytes c = bytes_of (lru c) \<and> (\<forall>(n, e) \<in> set (lru c). 0 \<le> etotal_bytes e)"

definition within_caps :: "VgiResultCache \<Rightarrow> bool" where
  "within_caps c \<longleftrightarrow>
     total_bytes c \<le> max 0 (i64_of (max_bytes (settings c))) \<and>
     (0 < max_entries (settings c) \<longrightarrow> length (lru c) \<le> unat (max_entries (settings c)))"

lemma cache_wfD:
  assumes "cache_wf c"
  shows "distinct (map fst (lru c))" "distinct (keys_of (lru c))" "\<forall>n \<in> fst ` set (lru c). n < next_node c"
    "\<And>k n. index c k = Some n \<longleftrightarrow> (\<exists>e. (n, e) \<in> set (lru c) \<and> ekey e = k)"
    "total_bytes c = bytes_of (lru c)" "\<forall>(n, e) \<in> set (lru c). 0 \<le> etotal_bytes e"
  using assms by (auto simp: cache_wf_def)

lemma find_node_iff:
  assumes "cache_wf c"
  shows "find_node k c = Some (n, e) \<longleftrightarrow> (n, e) \<in> set (lru c) \<and> ekey e = k"
proof -
  note wf = cache_wfD [OF assms]
  have "map_of (lru c) n = Some e" if "(n, e) \<in> set (lru c)" for n e using that wf(1) by simp
  then show ?thesis unfolding find_node_def using wf(4) [of k]
    by (auto split: option.split dest: map_of_SomeD) (metis option.inject not_None_eq)+
qed

lemma find_node_None:
  assumes "cache_wf c"
  shows "find_node k c = None \<longleftrightarrow> index c k = None" "find_node k c = None \<longleftrightarrow> k \<notin> set (keys_of (lru c))"
proof -
  show 2: "find_node k c = None \<longleftrightarrow> k \<notin> set (keys_of (lru c))"
  proof
    assume "find_node k c = None"
    then have "\<not> ((n, e) \<in> set (lru c) \<and> ekey e = k)" for n e using find_node_iff [OF assms, of k n e] by simp
    then show "k \<notin> set (keys_of (lru c))" by (auto simp: keys_of_def)
  next
    assume "k \<notin> set (keys_of (lru c))"
    then have "find_node k c \<noteq> Some (n, e)" for n e
      unfolding find_node_iff [OF assms] by (force simp: keys_of_def)
    then show "find_node k c = None" by (cases "find_node k c") auto
  qed
  show "find_node k c = None \<longleftrightarrow> index c k = None"
    unfolding 2 using cache_wfD(4) [OF assms, of k] by (cases "index c k") (fastforce simp: keys_of_def)+
qed

lemma same_key_same_node:
  "distinct (keys_of l) \<Longrightarrow> (n, e) \<in> set l \<Longrightarrow> (m, f) \<in> set l \<Longrightarrow> ekey e = ekey f \<Longrightarrow> (m, f) = (n, e)"
  unfolding keys_of_def distinct_map by (auto dest: inj_onD [of _ "set l" "(m, f)" "(n, e)"])

lemma bytes_of_simps [simp]: "bytes_of [] = 0" "bytes_of ((n, e) # l) = etotal_bytes e + bytes_of l"
  "bytes_of (l @ l') = bytes_of l + bytes_of l'"
  by (simp_all add: bytes_of_def)

lemma bytes_of_nonneg: "\<forall>(n, e) \<in> set l. 0 \<le> etotal_bytes e \<Longrightarrow> 0 \<le> bytes_of l"
  by (induction l) auto

lemma erase_node_none: "n \<notin> fst ` set l \<Longrightarrow> erase_node n l = l"
  by (force simp: erase_node_def filter_id_conv)

lemma bytes_of_erase: "distinct (map fst l) \<Longrightarrow> (n, e) \<in> set l \<Longrightarrow> bytes_of (erase_node n l) = bytes_of l - etotal_bytes e"
proof (induction l)
  case (Cons x l)
  show ?case
  proof (cases "x = (n, e)")
    case True
    then show ?thesis using Cons.prems(1) erase_node_none [of n l] by (simp add: erase_node_def)
  next
    case False
    then have "(n, e) \<in> set l" using Cons.prems(2) by auto
    moreover from this have "n \<in> set (map fst l)" by force
    then have "fst x \<noteq> n" using Cons.prems(1) by auto
    ultimately show ?thesis using Cons by (cases x) (simp add: erase_node_def)
  qed
qed simp

lemma set_erase_node [simp]: "(m, f) \<in> set (erase_node n l) \<longleftrightarrow> (m, f) \<in> set l \<and> m \<noteq> n"
  by (auto simp: erase_node_def)

lemma distinct_erase:
  "distinct (map fst l) \<Longrightarrow> distinct (map fst (erase_node n l))"
  "distinct (keys_of l) \<Longrightarrow> distinct (keys_of (erase_node n l))"
  by (simp_all add: erase_node_def keys_of_def distinct_map_filter)

lemma fst_erase: "m \<in> fst ` set (erase_node n l) \<Longrightarrow> m \<in> fst ` set l \<and> m \<noteq> n"
  by force

lemma cache_wf_drop:
  assumes wf: "cache_wf c" and n: "(n, e) \<in> set (lru c)" "ekey e = k"
  shows "cache_wf (drop_node k n e c)"
proof -
  note w = cache_wfD [OF wf]
  have key: "m = n" if "(m, f) \<in> set (lru c)" "ekey f = k" for m f
    using same_key_same_node [OF w(2) n(1) that(1)] n(2) that(2) by simp
  have fresh: "f = e" if "(n, f) \<in> set (lru c)" for f
    using that n w(1) eq_key_imp_eq_value by fast
  have "((index c)(k := None)) k' = Some m \<longleftrightarrow> (\<exists>f. (m, f) \<in> set (erase_node n (lru c)) \<and> ekey f = k')" for k' m
  proof (cases "k' = k")
    case True
    then show ?thesis using key by auto
  next
    case False
    then have "\<not> (\<exists>f. (n, f) \<in> set (lru c) \<and> ekey f = k')" using fresh n(2) by auto
    then show ?thesis using w(4) [of k' m] False by auto
  qed
  moreover have "total_bytes c - etotal_bytes e = bytes_of (erase_node n (lru c))"
    using bytes_of_erase [OF w(1) n(1)] w(5) by simp
  moreover have "\<forall>m \<in> fst ` set (erase_node n (lru c)). m < next_node c" using w(3) fst_erase by metis
  moreover have "\<forall>(m, f) \<in> set (erase_node n (lru c)). 0 \<le> etotal_bytes f" using w(6) by auto
  ultimately show ?thesis using distinct_erase w(1,2) by (simp add: cache_wf_def drop_node_def)
qed

lemma cache_wf_counters [simp]:
  "cache_wf (c\<lparr>c_hits := x\<rparr>) = cache_wf c" "cache_wf (c\<lparr>c_misses := x\<rparr>) = cache_wf c"
  "cache_wf (c\<lparr>c_inserts := x\<rparr>) = cache_wf c" "cache_wf (c\<lparr>evictions_lru := x\<rparr>) = cache_wf c"
  "cache_wf (c\<lparr>evictions_ttl := x\<rparr>) = cache_wf c" "cache_wf (c\<lparr>config_signature := x\<rparr>) = cache_wf c"
  "cache_wf (c\<lparr>settings := s, disk_dir := dd, disk_max_bytes := dm, disk_compression := dc, disk_compression_level := dl\<rparr>)
    = cache_wf c"
  by (simp_all add: cache_wf_def)

lemma within_caps_counters [simp]:
  "within_caps (c\<lparr>c_hits := x\<rparr>) = within_caps c" "within_caps (c\<lparr>c_misses := x\<rparr>) = within_caps c"
  "within_caps (c\<lparr>c_inserts := x\<rparr>) = within_caps c" "within_caps (c\<lparr>evictions_lru := x\<rparr>) = within_caps c"
  "within_caps (c\<lparr>evictions_ttl := x\<rparr>) = within_caps c" "within_caps (c\<lparr>config_signature := x\<rparr>) = within_caps c"
  by (simp_all add: within_caps_def)

lemma cache_wf_cons:
  assumes wf: "cache_wf c" and k: "k \<notin> set (keys_of (lru c))" "ekey e = k" and n: "n \<notin> fst ` set (lru c)"
    and nn: "n < nn" "next_node c \<le> nn" and e: "0 \<le> etotal_bytes e"
  shows "cache_wf (c\<lparr>total_bytes := total_bytes c + etotal_bytes e, lru := (n, e) # lru c,
    index := (index c)(k \<mapsto> n), next_node := nn\<rparr>)"
proof -
  note w = cache_wfD [OF wf]
  have no: "(m, f) \<notin> set (lru c)" if "ekey f = k" for m f using k(1) that by (force simp: keys_of_def)
  have nn': "(n, f) \<notin> set (lru c)" for f using n by force
  have "((index c)(k \<mapsto> n)) k' = Some m \<longleftrightarrow> (\<exists>f. (m, f) \<in> set ((n, e) # lru c) \<and> ekey f = k')" for k' m
  proof (cases "k' = k")
    case True
    then show ?thesis using no k(2) by auto
  next
    case False
    then show ?thesis using w(4) [of k' m] k(2) by auto
  qed
  moreover have "\<forall>m \<in> fst ` set (lru c). m < nn" using w(3) nn(2) by force
  moreover have "k \<notin> set (map (\<lambda>(_, e). ekey e) (lru c))" using k(1) by (simp add: keys_of_def)
  ultimately show ?thesis using w(1,2,5,6) k(2) n nn(1) e
    by (simp add: cache_wf_def keys_of_def del: fun_upd_apply)
qed

lemma erase_keys:
  assumes "distinct (keys_of l)" "(n, e) \<in> set l"
  shows "ekey e \<notin> set (keys_of (erase_node n l))"
  using same_key_same_node [OF assms] by (fastforce simp: keys_of_def)

lemma cache_wf_touch:
  assumes wf: "cache_wf c" and n: "(n, e) \<in> set (lru c)" "ekey e = k"
  shows "cache_wf (touch_node k n e c)"
proof -
  note w = cache_wfD [OF wf]
  let ?d = "drop_node k n e c"
  have "cache_wf (?d\<lparr>total_bytes := total_bytes ?d + etotal_bytes (e\<lparr>hits := hits e + 1\<rparr>),
      lru := (n, e\<lparr>hits := hits e + 1\<rparr>) # lru ?d, index := (index ?d)(k \<mapsto> n), next_node := next_node c\<rparr>)"
  proof (rule cache_wf_cons [OF cache_wf_drop [OF wf n]])
    show "k \<notin> set (keys_of (lru ?d))" using erase_keys [OF w(2) n(1)] n(2) by (simp add: drop_node_def)
    show "n \<notin> fst ` set (lru ?d)" by (auto simp: drop_node_def)
    show "n < next_node c" using w(3) n(1) by force
    show "0 \<le> etotal_bytes (e\<lparr>hits := hits e + 1\<rparr>)" using w(6) n(1) by auto
  qed (simp_all add: n drop_node_def)
  moreover have "touch_node k n e c = (?d\<lparr>total_bytes := total_bytes ?d + etotal_bytes (e\<lparr>hits := hits e + 1\<rparr>),
      lru := (n, e\<lparr>hits := hits e + 1\<rparr>) # lru ?d, index := (index ?d)(k \<mapsto> n), next_node := next_node c\<rparr>)
      \<lparr>c_hits := c_hits c + 1\<rparr>"
    by (simp add: touch_node_def drop_node_def)
  ultimately show ?thesis by simp
qed

lemma cache_wf_push:
  assumes wf: "cache_wf c" and k: "k \<notin> set (keys_of (lru c))" "ekey e = k" and e: "0 \<le> etotal_bytes e"
  shows "cache_wf (push_front e k c)"
  unfolding push_front_def
  by (rule cache_wf_cons [OF wf k _ _ _ e]) (use cache_wfD(3) [OF wf] in auto)

lemma pop_back_drop:
  assumes wf: "cache_wf c" and ne: "lru c \<noteq> []"
  shows "pop_back c = (drop_node (ekey (snd (last (lru c)))) (fst (last (lru c))) (snd (last (lru c))) c)
    \<lparr>evictions_lru := evictions_lru c + 1\<rparr>"
proof -
  define l x where "l = butlast (lru c)" and "x = last (lru c)"
  then have l: "lru c = l @ [x]" using ne by simp
  have "fst x \<notin> fst ` set l" using cache_wfD(1) [OF wf] l by auto
  then have "erase_node (fst x) (lru c) = l" using erase_node_none [of "fst x" l] l
    by (simp add: erase_node_def case_prod_beta)
  then show ?thesis using l by (simp add: pop_back_def drop_node_def Let_def)
qed

lemma cache_wf_pop: "cache_wf c \<Longrightarrow> lru c \<noteq> [] \<Longrightarrow> cache_wf (pop_back c)"
  unfolding pop_back_drop by (simp add: cache_wf_drop)

text \<open>Eviction removes a tail of the list, keeps everything else and ends under the caps or empty.\<close>

lemma EvictToFitLocked_wf: "cache_wf c \<Longrightarrow> cache_wf (EvictToFitLocked i a c)"
proof (induction i a c rule: EvictToFitLocked.induct)
  case (1 i a c)
  then show ?case using cache_wf_pop by (subst EvictToFitLocked.simps) auto
qed

lemma EvictToFitLocked_frame_conj:
  "settings (EvictToFitLocked i a c) = settings c \<and> next_node (EvictToFitLocked i a c) = next_node c \<and>
   disk_dir (EvictToFitLocked i a c) = disk_dir c \<and> disk_max_bytes (EvictToFitLocked i a c) = disk_max_bytes c \<and>
   c_hits (EvictToFitLocked i a c) = c_hits c"
proof (induction i a c rule: EvictToFitLocked.induct)
  case (1 i a c)
  then show ?case by (subst (1 2 3 4 5) EvictToFitLocked.simps) (auto simp: pop_back_def Let_def)
qed

lemmas EvictToFitLocked_frame [simp] = EvictToFitLocked_frame_conj [THEN conjunct1]
  EvictToFitLocked_frame_conj [THEN conjunct2, THEN conjunct1]
  EvictToFitLocked_frame_conj [THEN conjunct2, THEN conjunct2, THEN conjunct1]
  EvictToFitLocked_frame_conj [THEN conjunct2, THEN conjunct2, THEN conjunct2, THEN conjunct1]

lemma EvictToFitLocked_done:
  "lru (EvictToFitLocked i a c) = [] \<or> \<not> over_cap i a (EvictToFitLocked i a c)"
proof (induction i a c rule: EvictToFitLocked.induct)
  case (1 i a c)
  then show ?case by (subst EvictToFitLocked.simps, subst (2) EvictToFitLocked.simps) auto
qed

definition keep_first :: "nat \<Rightarrow> VgiResultCache \<Rightarrow> VgiResultCache" where
  "keep_first j c = c\<lparr>lru := take j (lru c), total_bytes := bytes_of (take j (lru c))\<rparr>"

lemma over_cap_cong:
  "lru c = lru c' \<Longrightarrow> total_bytes c = total_bytes c' \<Longrightarrow> settings c = settings c' \<Longrightarrow> over_cap i a c = over_cap i a c'"
  by (simp add: over_cap_def)

lemma EvictToFitLocked_take:
  assumes "cache_wf c"
  shows "\<exists>m \<le> length (lru c). lru (EvictToFitLocked i a c) = take m (lru c) \<and>
    (\<forall>j. m < j \<and> j \<le> length (lru c) \<longrightarrow> over_cap i a (keep_first j c))"
  using assms
proof (induction i a c rule: EvictToFitLocked.induct)
  case (1 i a c)
  show ?case
  proof (cases "lru c \<noteq> [] \<and> over_cap i a c")
    case False
    then have "EvictToFitLocked i a c = c" by (subst EvictToFitLocked.simps) auto
    then show ?thesis by (intro exI [of _ "length (lru c)"]) auto
  next
    case True
    let ?p = "pop_back c"
    have lp: "lru ?p = butlast (lru c)" "settings ?p = settings c" by (simp_all add: pop_back_def Let_def)
    obtain m where m: "m \<le> length (lru ?p)" "lru (EvictToFitLocked i a ?p) = take m (lru ?p)"
      and ov: "\<And>j. m < j \<Longrightarrow> j \<le> length (lru ?p) \<Longrightarrow> over_cap i a (keep_first j ?p)"
      using "1.IH" [OF True cache_wf_pop [OF "1.prems"]] True by blast
    have e: "EvictToFitLocked i a c = EvictToFitLocked i a ?p" using True by (subst EvictToFitLocked.simps) simp
    have t: "take j (butlast (lru c)) = take j (lru c)" if "j \<le> length (lru ?p)" for j
      using that unfolding lp butlast_conv_take by simp
    have "over_cap i a (keep_first j c)" if j: "m < j" "j \<le> length (lru c)" for j
    proof (cases "j \<le> length (lru ?p)")
      case le: True
      have "over_cap i a (keep_first j ?p) = over_cap i a (keep_first j c)"
        by (rule over_cap_cong) (simp_all add: keep_first_def lp t [OF le])
      then show ?thesis using ov [OF j(1) le] by simp
    next
      case False
      then have "j = length (lru c)" using j lp by simp
      then have "over_cap i a (keep_first j c) = over_cap i a c"
        by (intro over_cap_cong) (simp_all add: keep_first_def cache_wfD(5) [OF "1.prems"])
      then show ?thesis using True by simp
    qed
    moreover have "lru (EvictToFitLocked i a c) = take m (lru c)" using m t e lp by simp
    moreover have "m \<le> length (lru c)" using m(1) lp by simp
    ultimately show ?thesis by blast
  qed
qed

lemma EvictToFitLocked_subset:
  assumes "cache_wf c"
  shows "set (lru (EvictToFitLocked i a c)) \<subseteq> set (lru c)" "k \<notin> set (keys_of (lru c)) \<Longrightarrow> k \<notin> set (keys_of (lru (EvictToFitLocked i a c)))"
proof -
  show s: "set (lru (EvictToFitLocked i a c)) \<subseteq> set (lru c)"
    using EvictToFitLocked_take [OF assms, of i a] set_take_subset by metis
  show "k \<notin> set (keys_of (lru (EvictToFitLocked i a c)))" if "k \<notin> set (keys_of (lru c))"
    using that s by (auto simp: keys_of_def)
qed

lemma within_caps_admit:
  assumes wf: "cache_wf c" and e: "etotal_bytes e \<le> i64_of (max_bytes (settings c))" "0 \<le> etotal_bytes e"
  shows "within_caps (push_front e k (EvictToFitLocked (etotal_bytes e) True c))"
proof -
  let ?d = "EvictToFitLocked (etotal_bytes e) True c"
  have wf': "cache_wf ?d" using EvictToFitLocked_wf [OF wf] .
  have "lru ?d = [] \<or> \<not> over_cap (etotal_bytes e) True ?d" by (rule EvictToFitLocked_done)
  then show ?thesis
  proof
    assume "lru ?d = []"
    then show ?thesis using cache_wfD(5) [OF wf'] e
      by (simp add: within_caps_def push_front_def) (simp add: word_less_nat_alt)
  next
    assume "\<not> over_cap (etotal_bytes e) True ?d"
    then show ?thesis using e by (simp add: within_caps_def push_front_def over_cap_def) linarith
  qed
qed

lemma within_caps_drop:
  assumes wf: "cache_wf c" and n: "(n, e) \<in> set (lru c)" and caps: "within_caps c"
  shows "within_caps (drop_node k n e c)"
proof -
  have "0 \<le> etotal_bytes e" using cache_wfD(6) [OF wf] n by auto
  moreover have "length (erase_node n (lru c)) \<le> length (lru c)" by (simp add: erase_node_def)
  ultimately show ?thesis using caps unfolding within_caps_def drop_node_def by simp linarith
qed

lemma length_erase_node: "distinct (map fst l) \<Longrightarrow> (n, e) \<in> set l \<Longrightarrow> Suc (length (erase_node n l)) = length l"
proof (induction l)
  case (Cons x l)
  show ?case
  proof (cases "fst x = n")
    case True
    then have "n \<notin> fst ` set l" using Cons.prems(1) by auto
    then have "erase_node n (x # l) = l" using erase_node_none [of n l] True by (cases x) (simp add: erase_node_def)
    then show ?thesis by simp
  next
    case False
    then have "(n, e) \<in> set l" using Cons.prems(2) by auto
    then show ?thesis using Cons False by (cases x) (simp add: erase_node_def)
  qed
qed simp

lemma within_caps_touch:
  assumes wf: "cache_wf c" and n: "(n, e) \<in> set (lru c)" and caps: "within_caps c"
  shows "within_caps (touch_node k n e c)"
  using caps length_erase_node [OF cache_wfD(1) [OF wf] n] by (simp add: within_caps_def touch_node_def)

section \<open>Every critical section keeps the invariant\<close>

definition cache_inv :: "VgiResultCache \<Rightarrow> bool" where
  "cache_inv c \<longleftrightarrow> cache_wf c \<and> within_caps c"

lemma cache_inv_counters [simp]:
  "cache_inv (c\<lparr>c_hits := x\<rparr>) = cache_inv c" "cache_inv (c\<lparr>c_misses := x\<rparr>) = cache_inv c"
  "cache_inv (c\<lparr>c_inserts := x\<rparr>) = cache_inv c" "cache_inv (c\<lparr>evictions_ttl := x\<rparr>) = cache_inv c"
  "cache_inv (c\<lparr>config_signature := x\<rparr>) = cache_inv c" "cache_inv (count_miss c) = cache_inv c"
  by (simp_all add: cache_inv_def count_miss_def)

lemma cache_inv_drop:
  "cache_inv c \<Longrightarrow> find_node k c = Some (n, e) \<Longrightarrow> cache_inv (drop_node k n e c)"
  by (simp add: cache_inv_def find_node_iff cache_wf_drop within_caps_drop)

lemma cache_inv_touch:
  "cache_inv c \<Longrightarrow> find_node k c = Some (n, e) \<Longrightarrow> cache_inv (touch_node k n e c)"
  by (simp add: cache_inv_def find_node_iff cache_wf_touch within_caps_touch)

lemma cache_inv_admit:
  assumes "cache_inv c" "k \<notin> set (keys_of (lru c))" "ekey e = k" "0 \<le> etotal_bytes e"
    "etotal_bytes e \<le> i64_of (max_bytes (settings c))"
  shows "cache_inv (push_front e k (EvictToFitLocked (etotal_bytes e) True c))"
  using assms unfolding cache_inv_def
  by (simp add: within_caps_admit cache_wf_push EvictToFitLocked_wf EvictToFitLocked_subset(2))

lemma drop_existing_inv:
  assumes "cache_inv c"
  shows "cache_inv (drop_existing k c)" "k \<notin> set (keys_of (lru (drop_existing k c)))" "settings (drop_existing k c) = settings c"
proof -
  have wf: "cache_wf c" using assms by (simp add: cache_inv_def)
  show "cache_inv (drop_existing k c)"
    using assms by (auto simp: drop_existing_def cache_inv_drop split: option.split)
  show "settings (drop_existing k c) = settings c" by (simp add: drop_existing_def drop_node_def split: option.split)
  show "k \<notin> set (keys_of (lru (drop_existing k c)))"
  proof (cases "find_node k c")
    case None
    then show ?thesis using find_node_None(2) [OF wf, of k] by (simp add: drop_existing_def)
  next
    case (Some x)
    obtain n e where x: "x = (n, e)" by (cases x)
    then have n: "(n, e) \<in> set (lru c)" "ekey e = k" using Some find_node_iff [OF wf] by simp_all
    show ?thesis using erase_keys [OF cache_wfD(2) [OF wf] n(1)] n(2) by (simp add: drop_existing_def Some x drop_node_def)
  qed
qed

lemma lookup_locked_inv: "cache_inv c \<Longrightarrow> cache_inv (snd (snd (lookup_locked k now c)))"
  by (auto simp: lookup_locked_def Let_def cache_inv_drop cache_inv_touch split: option.split)

lemma batch_one_inv: "cache_inv c \<Longrightarrow> cache_inv (snd (batch_one now k c))"
  by (auto simp: batch_one_def cache_inv_drop cache_inv_touch split: option.split)

lemma LookupBatch_inv: "cache_inv c \<Longrightarrow> cache_inv (snd (LookupBatch ks now c))"
proof (induction ks arbitrary: c)
  case (Cons k ks)
  then show ?case using batch_one_inv [of c now k] by (auto simp: Let_def case_prod_beta)
qed simp

lemma adopt_inv:
  assumes "cache_inv c" "ekey p = k" "0 \<le> etotal_bytes p"
  shows "cache_inv (snd (adopt k p c))"
proof -
  have "index c k = None \<Longrightarrow> k \<notin> set (keys_of (lru c))"
    using assms(1) find_node_None [of c k] by (simp add: cache_inv_def)
  then show ?thesis
    using assms cache_inv_admit [of c k "p\<lparr>hits := hits p + 1\<rparr>"] by (simp add: adopt_def Let_def)
qed

lemma insert_locked_inv:
  assumes "cache_inv c" "0 \<le> etotal_bytes e"
  shows "cache_inv (snd (insert_locked e allow c))"
proof -
  let ?d = "drop_existing (ekey e) c"
  note d = drop_existing_inv [OF assms(1), of "ekey e"]
  have "cache_inv (push_front e (ekey e) (EvictToFitLocked (etotal_bytes e) True ?d))"
    if "etotal_bytes e \<le> i64_of (max_bytes (settings c))"
    using cache_inv_admit [OF d(1,2) refl assms(2)] that d(3) by simp
  then show ?thesis using assms(1) d(1) by (simp add: insert_locked_def Let_def)
qed

lemma flush_all_inv: "cache_inv (snd (flush_all_locked c))"
  by (simp add: flush_all_locked_def cache_inv_def cache_wf_def within_caps_def keys_of_def)

lemma within_caps_empty_or:
  assumes "cache_wf c" "lru c = [] \<or> \<not> over_cap 0 False c"
  shows "within_caps c"
  using assms(2) cache_wfD(5) [OF assms(1)] by (auto simp: within_caps_def over_cap_def)

lemma Configure_inv:
  assumes "cache_wf c"
  shows "cache_inv (Configure std_hash s c)"
proof -
  let ?c = "c\<lparr>settings := s, disk_dir := s_disk_dir s, disk_max_bytes := s_disk_max_bytes s,
                 disk_compression := s_disk_compression s, disk_compression_level := s_disk_compression_level s\<rparr>"
  have wf: "cache_wf (EvictToFitLocked 0 False ?c)" by (rule EvictToFitLocked_wf) (simp add: assms)
  then show ?thesis
    using within_caps_empty_or [OF wf EvictToFitLocked_done] by (simp add: Configure_def Let_def cache_inv_def)
qed

lemma sweep_correct:
  assumes "cache_inv c" "set l \<subseteq> set (lru c)" "distinct (map fst l)"
  shows "cache_inv (snd (sweep P l c)) \<and> lru (snd (sweep P l c)) = filter (\<lambda>x. \<not> (x \<in> set l \<and> P (snd x))) (lru c) \<and>
    fst (sweep P l c) = length (filter (\<lambda>x. P (snd x)) l) \<and> settings (snd (sweep P l c)) = settings c"
  using assms
proof (induction l arbitrary: c)
  case (Cons x l)
  obtain n e where x: "x = (n, e)" by (cases x)
  have wf: "cache_wf c" using Cons.prems(1) by (simp add: cache_inv_def)
  have n: "(n, e) \<in> set (lru c)" using Cons.prems(2) x by simp
  have nl: "n \<notin> fst ` set l" using Cons.prems(3) x by simp
  show ?case
  proof (cases "P e")
    case False
    then have "(\<lambda>y. \<not> (y \<in> set (x # l) \<and> P (snd y))) = (\<lambda>y. \<not> (y \<in> set l \<and> P (snd y)))" using x by auto
    then show ?thesis using Cons False x by simp
  next
    case True
    let ?d = "drop_node (ekey e) n e c"
    have lru: "lru ?d = erase_node n (lru c)" "settings ?d = settings c" by (simp_all add: drop_node_def)
    have inv: "cache_inv ?d" by (rule cache_inv_drop [OF Cons.prems(1)]) (simp add: find_node_iff [OF wf] n)
    have sub: "set l \<subseteq> set (lru ?d)" using Cons.prems(2) nl by (force simp: lru)
    note ih = Cons.IH [OF inv sub]
    have u: "y = (n, e)" if "y \<in> set (lru c)" "fst y = n" for y
      using eq_key_imp_eq_value [OF cache_wfD(1) [OF wf] n, of "snd y"] that prod.collapse [of y] by simp
    have "filter (\<lambda>y. \<not> (y \<in> set l \<and> P (snd y))) (erase_node n (lru c)) =
        filter (\<lambda>y. \<not> (y \<in> set (x # l) \<and> P (snd y))) (lru c)"
      unfolding erase_node_def filter_filter by (rule filter_cong [OF refl]) (use u True x in auto)
    then show ?thesis using ih Cons.prems(3) True x lru by (simp add: case_prod_beta)
  qed
qed simp

section \<open>Interleaved queries\<close>

text \<open>
  One step is one critical section of some thread, with the entry it brings arbitrary up to a
  nonnegative size; an adopted entry has the key it was looked up for. The sequence of sections of
  several operations on several threads is a path of steps.
\<close>

inductive cache_step :: "(string \<Rightarrow> u64) \<Rightarrow> VgiResultCache \<Rightarrow> VgiResultCache \<Rightarrow> bool" for std_hash where
  lookup: "cache_step std_hash c (snd (snd (lookup_locked k now c)))"
| miss: "cache_step std_hash c (count_miss c)"
| hit: "cache_step std_hash c (c\<lparr>c_hits := c_hits c + 1\<rparr>)"
| adopted: "ekey p = k \<Longrightarrow> 0 \<le> etotal_bytes p \<Longrightarrow> cache_step std_hash c (snd (adopt k p c))"
| batch: "cache_step std_hash c (snd (LookupBatch ks now c))"
| inserted: "0 \<le> etotal_bytes e \<Longrightarrow> cache_step std_hash c (snd (insert_locked e allow c))"
| configured: "cache_step std_hash c (ConfigureIfChanged std_hash s c)"
| flushed: "cache_step std_hash c (snd (flush_all_locked c))"
| flushed_catalog: "cache_step std_hash c (snd (flush_catalog_locked cat c))"
| reaped: "cache_step std_hash c (snd (ReapStaleLocked now c))"

definition new_cache :: "Settings \<Rightarrow> VgiResultCache" where
  "new_cache s = \<lparr>lru = [], index = Map.empty, total_bytes = 0, settings = s, disk_dir = [], disk_max_bytes = 0,
     disk_compression = ''zstd'', disk_compression_level = 1, config_signature = 0, next_node = 0, c_hits = 0,
     c_misses = 0, c_inserts = 0, evictions_lru = 0, evictions_ttl = 0\<rparr>"

lemma new_cache_inv: "cache_inv (new_cache s)"
  by (simp add: cache_inv_def cache_wf_def within_caps_def new_cache_def keys_of_def)

lemma sweep_inv: "cache_inv c \<Longrightarrow> cache_inv (snd (sweep P (lru c) c))"
  using sweep_correct [of c "lru c" P] cache_wfD(1) [of c] by (simp add: cache_inv_def)

lemma ReapStaleLocked_eq:
  "snd (ReapStaleLocked now c) = (let r = sweep (\<lambda>e. IsStale now e \<and> \<not> erevalidatable e) (lru c) c in
     (snd r)\<lparr>evictions_ttl := evictions_ttl (snd r) + of_nat (fst r)\<rparr>)"
  by (simp add: ReapStaleLocked_def case_prod_beta Let_def)

lemma cache_step_inv: "cache_step std_hash c c' \<Longrightarrow> cache_inv c \<Longrightarrow> cache_inv c'"
  by (induction rule: cache_step.induct)
     (auto simp: lookup_locked_inv adopt_inv LookupBatch_inv insert_locked_inv ConfigureIfChanged_def flush_all_inv
        flush_catalog_locked_def sweep_inv ReapStaleLocked_eq Let_def Configure_inv [OF cache_inv_def [THEN iffD1, THEN conjunct1]])

text \<open>
  C29. The memory tier stays consistent and bounded, whatever queries run on it and however their
  critical sections interleave. From a new cache, after any number of steps: the list has no
  node and no key twice; the index maps exactly the keys of the list, each to its own node, so no
  iterator dangles; the byte count is the sum over the entries; and it is within the byte cap, as
  the number of entries is within the entry cap.
\<close>

theorem cache_consistent_and_bounded:
  assumes "(cache_step std_hash)\<^sup>*\<^sup>* (new_cache s) c"
  shows "cache_wf c \<and> within_caps c \<and> (\<forall>k. (index c k \<noteq> None) = (find_node k c \<noteq> None))"
proof -
  have "cache_inv c" using assms
    by (induction rule: rtranclp_induct) (auto simp: new_cache_inv intro: cache_step_inv)
  then show ?thesis using find_node_None(1) [of c] by (auto simp: cache_inv_def)
qed

definition small_settings :: Settings where
  "small_settings = \<lparr>max_bytes = 10, max_entry_bytes = 8, max_entries = 2, max_inflight_bytes = 0, s_disk_dir = [],
     s_disk_max_bytes = 0, disk_reap_interval_seconds = 60, s_disk_compression = ''zstd'', s_disk_compression_level = 1,
     exchange_disk_max_refs = 0, pack = True, pack_max_entry_bytes = 4, pack_target_bytes = 100,
     pack_compaction_dead_pct = 50\<rparr>"

definition sized_entry :: "string \<Rightarrow> int \<Rightarrow> VgiResultCacheEntry" where
  "sized_entry f n = (blank_entry (blank_key\<lparr>function_name := f\<rparr>))\<lparr>etotal_bytes := n, enever_expires := True\<rparr>"

definition one_insert :: VgiResultCache where
  "one_insert = snd (insert_locked (sized_entry ''f'' 6) False (new_cache small_settings))"

lemma small_i64 [simp]: "i64_of 10 = 10" "i64_of 8 = 8" "i64_of 4 = 4"
  by (simp_all add: i64_of_def)

lemma EvictToFitLocked_stop: "lru c = [] \<or> \<not> over_cap i a c \<Longrightarrow> EvictToFitLocked i a c = c"
  by (subst EvictToFitLocked.simps) auto

lemma one_insert_eq:
  "one_insert = (new_cache small_settings)\<lparr>lru := [(0, sized_entry ''f'' 6)],
     index := [blank_key\<lparr>function_name := ''f''\<rparr> \<mapsto> 0], total_bytes := 6, next_node := 1, c_inserts := 1\<rparr>"
proof -
  have "EvictToFitLocked 6 True (new_cache small_settings) = new_cache small_settings"
    by (rule EvictToFitLocked_stop) (simp add: new_cache_def)
  then show ?thesis
    by (simp add: one_insert_def insert_locked_def Let_def drop_existing_def find_node_def push_front_def
        sized_entry_def blank_entry_def) (simp add: new_cache_def small_settings_def)
qed

lemma one_insert_reachable: "(cache_step (\<lambda>_. 0))\<^sup>*\<^sup>* (new_cache small_settings) one_insert"
  unfolding one_insert_def by (rule r_into_rtranclp, rule cache_step.inserted) (simp add: sized_entry_def)

lemma one_insert_wf: "cache_wf one_insert"
  using insert_locked_inv [OF new_cache_inv, of "sized_entry ''f'' 6" False small_settings]
  by (simp add: one_insert_def cache_inv_def sized_entry_def)

theorem cache_consistent_and_bounded_witness:
  "cache_wf one_insert \<and> within_caps one_insert \<and> total_bytes one_insert = 6 \<and>
   find_node (blank_key\<lparr>function_name := ''f''\<rparr>) one_insert \<noteq> None"
proof -
  have "index one_insert (blank_key\<lparr>function_name := ''f''\<rparr>) \<noteq> None" "total_bytes one_insert = 6"
    by (simp_all add: one_insert_eq)
  then show ?thesis using cache_consistent_and_bounded [OF one_insert_reachable] by blast
qed

text \<open>
  C30. Eviction is least-recently-used and minimal. On a consistent cache, what remains is a
  prefix of the list, the most recently used entries in their order; every longer prefix would
  still exceed a cap together with what comes in; and the prefix that remains exceeds none, unless
  it is empty.
\<close>

theorem EvictToFitLocked_minimal_lru:
  assumes "cache_wf c"
  shows "\<exists>m \<le> length (lru c). lru (EvictToFitLocked incoming admitting c) = take m (lru c) \<and>
    (\<forall>j. m < j \<and> j \<le> length (lru c) \<longrightarrow> over_cap incoming admitting (keep_first j c)) \<and>
    (m = 0 \<or> \<not> over_cap incoming admitting (keep_first m c))"
proof -
  let ?d = "EvictToFitLocked incoming admitting c"
  obtain m where m: "m \<le> length (lru c)" "lru ?d = take m (lru c)"
    and ov: "\<forall>j. m < j \<and> j \<le> length (lru c) \<longrightarrow> over_cap incoming admitting (keep_first j c)"
    using EvictToFitLocked_take [OF assms] by blast
  have "over_cap incoming admitting (keep_first m c) = over_cap incoming admitting ?d"
    using cache_wfD(5) [OF EvictToFitLocked_wf [OF assms]] m by (intro over_cap_cong) (simp_all add: keep_first_def)
  then have "m = 0 \<or> \<not> over_cap incoming admitting (keep_first m c)"
    using EvictToFitLocked_done [of incoming admitting c] m by auto
  then show ?thesis using m ov by blast
qed

theorem EvictToFitLocked_minimal_lru_witness:
  "\<exists>m \<le> 1. lru (EvictToFitLocked 7 True one_insert) = take m [(0, sized_entry ''f'' 6)] \<and>
    (\<forall>j. m < j \<and> j \<le> 1 \<longrightarrow> over_cap 7 True (keep_first j one_insert)) \<and>
    (m = 0 \<or> \<not> over_cap 7 True (keep_first m one_insert))"
  using EvictToFitLocked_minimal_lru [OF one_insert_wf, of 7 True] by (simp add: one_insert_eq)

section \<open>What the cache promises: a map that may forget\<close>

definition strip :: "VgiResultCacheEntry \<Rightarrow> VgiResultCacheEntry" where
  "strip e = e\<lparr>hits := 0\<rparr>"

definition contents :: "VgiResultCache \<Rightarrow> VgiResultCacheKey \<rightharpoonup> VgiResultCacheEntry" where
  "contents c k = map_option (\<lambda>(n, e). strip e) (find_node k c)"

definition fresh :: "int \<Rightarrow> VgiResultCacheEntry option \<Rightarrow> VgiResultCacheEntry option" where
  "fresh now r = (case r of None \<Rightarrow> None | Some e \<Rightarrow> if IsStale now e then None else Some e)"

lemma strip_simps [simp]:
  "strip (e\<lparr>hits := x\<rparr>) = strip e" "ekey (strip e) = ekey e" "IsStale now (strip e) = IsStale now e"
  "catalog_name (strip e) = catalog_name e" "erevalidatable (strip e) = erevalidatable e"
  by (simp_all add: strip_def IsStale_def)

lemma contents_iff:
  assumes "cache_wf c"
  shows "contents c k = Some f \<longleftrightarrow> (\<exists>n e. (n, e) \<in> set (lru c) \<and> ekey e = k \<and> f = strip e)"
  using find_node_iff [OF assms, of k] by (auto simp: contents_def)

lemma contents_cong: "index c = index c' \<Longrightarrow> lru c = lru c' \<Longrightarrow> contents c = contents c'"
  by (simp add: contents_def find_node_def fun_eq_iff split: option.split)

lemma contents_eqI:
  assumes "cache_wf c" and "\<And>k f. m k = Some f \<longleftrightarrow> (\<exists>n e. (n, e) \<in> set (lru c) \<and> ekey e = k \<and> f = strip e)"
  shows "contents c = m"
proof
  fix k
  show "contents c k = m k" using contents_iff [OF assms(1), of k] assms(2) [of k] by (metis not_None_eq)
qed

lemma contents_drop:
  assumes wf: "cache_wf c" and f: "find_node k c = Some (n, e)"
  shows "contents (drop_node k n e c) = (contents c)(k := None)"
proof (rule contents_eqI)
  have n: "(n, e) \<in> set (lru c)" "ekey e = k" using f find_node_iff [OF wf] by simp_all
  show "cache_wf (drop_node k n e c)" using wf n by (rule cache_wf_drop)
  fix k' f
  have "(m, g) \<in> set (lru (drop_node k n e c)) \<longleftrightarrow> (m, g) \<in> set (lru c) \<and> ekey g \<noteq> k" for m g
    using same_key_same_node [OF cache_wfD(2) [OF wf] n(1), of m g] eq_key_imp_eq_value [OF cache_wfD(1) [OF wf] n(1), of g] n
    by (auto simp: drop_node_def)
  then show "((contents c)(k := None)) k' = Some f \<longleftrightarrow>
      (\<exists>m g. (m, g) \<in> set (lru (drop_node k n e c)) \<and> ekey g = k' \<and> f = strip g)"
    using contents_iff [OF wf, of k' f] by (cases "k' = k") auto
qed

lemma contents_push:
  assumes wf: "cache_wf c" and k: "k \<notin> set (keys_of (lru c))" "ekey e = k" "0 \<le> etotal_bytes e"
  shows "contents (push_front e k c) = (contents c)(k \<mapsto> strip e)"
proof (rule contents_eqI)
  show "cache_wf (push_front e k c)" using assms by (rule cache_wf_push)
  fix k' f
  have "(m, g) \<in> set (lru c) \<Longrightarrow> ekey g \<noteq> k" for m g using k(1) by (force simp: keys_of_def)
  then show "((contents c)(k \<mapsto> strip e)) k' = Some f \<longleftrightarrow>
      (\<exists>m g. (m, g) \<in> set (lru (push_front e k c)) \<and> ekey g = k' \<and> f = strip g)"
    using contents_iff [OF wf, of k' f] k(2) by (cases "k' = k") (auto simp: push_front_def)
qed

lemma contents_touch:
  assumes wf: "cache_wf c" and f: "find_node k c = Some (n, e)"
  shows "contents (touch_node k n e c) = contents c"
proof (rule contents_eqI)
  have n: "(n, e) \<in> set (lru c)" "ekey e = k" using f find_node_iff [OF wf] by simp_all
  show "cache_wf (touch_node k n e c)" using wf n by (rule cache_wf_touch)
  fix k' f
  have u: "g = e" if "(n, g) \<in> set (lru c)" for g using eq_key_imp_eq_value [OF cache_wfD(1) [OF wf] n(1) that] by simp
  have "(\<exists>m g. (m, g) \<in> set (lru (touch_node k n e c)) \<and> ekey g = k' \<and> f = strip g) \<longleftrightarrow>
      (k' = k \<and> f = strip e) \<or> (\<exists>m g. (m, g) \<in> set (lru c) \<and> m \<noteq> n \<and> ekey g = k' \<and> f = strip g)"
    (is "?l \<longleftrightarrow> ?r")
  proof
    show "?l \<Longrightarrow> ?r" using n(2) by (auto simp: touch_node_def)
    have "?l" if "k' = k" "f = strip e" using that n(2)
      by (intro exI [of _ n] exI [of _ "e\<lparr>hits := hits e + 1\<rparr>"]) (simp add: touch_node_def)
    then show "?r \<Longrightarrow> ?l" by (auto simp: touch_node_def)
  qed
  also have "\<dots> \<longleftrightarrow> (\<exists>m g. (m, g) \<in> set (lru c) \<and> ekey g = k' \<and> f = strip g)" using u n by blast
  finally show "contents c k' = Some f \<longleftrightarrow>
      (\<exists>m g. (m, g) \<in> set (lru (touch_node k n e c)) \<and> ekey g = k' \<and> f = strip g)"
    using contents_iff [OF wf] by simp
qed

lemma contents_subset:
  assumes "cache_wf c" "cache_wf d" "set (lru d) \<subseteq> set (lru c)"
  shows "contents d \<subseteq>\<^sub>m contents c"
  unfolding map_le_def
proof
  fix k
  assume "k \<in> dom (contents d)"
  then obtain f where f: "contents d k = Some f" by auto
  then have "contents c k = Some f" using contents_iff [OF assms(2)] contents_iff [OF assms(1)] assms(3) by blast
  then show "contents d k = contents c k" using f by simp
qed

lemma contents_evict: "cache_wf c \<Longrightarrow> contents (EvictToFitLocked i a c) \<subseteq>\<^sub>m contents c"
  by (rule contents_subset) (simp_all add: EvictToFitLocked_wf EvictToFitLocked_subset)

lemma contents_drop_existing: "cache_wf c \<Longrightarrow> contents (drop_existing k c) = (contents c)(k := None)"
  by (auto simp: drop_existing_def contents_drop contents_def fun_upd_idem split: option.split)

lemma contents_counters [simp]:
  "contents (c\<lparr>c_hits := x\<rparr>) = contents c" "contents (c\<lparr>c_inserts := x\<rparr>) = contents c"
  "contents (c\<lparr>evictions_ttl := x\<rparr>) = contents c" "contents (c\<lparr>config_signature := x\<rparr>) = contents c"
  "contents (count_miss c) = contents c"
  by (rule contents_cong; simp add: count_miss_def)+

lemma contents_find: "contents c k = None \<longleftrightarrow> find_node k c = None"
  by (simp add: contents_def)

lemma fresh_contents:
  "fresh now (contents c k) = (case find_node k c of None \<Rightarrow> None
     | Some (n, e) \<Rightarrow> if IsStale now e then None else Some (strip e))"
  by (simp add: fresh_def contents_def split: option.split)

lemma lookup_locked_refines:
  assumes "cache_wf c"
  shows "map_option strip (fst (lookup_locked k now c)) = fresh now (contents c k)"
    "contents (snd (snd (lookup_locked k now c))) =
       (if fresh now (contents c k) = None then (contents c)(k := None) else contents c)"
  using contents_drop [OF assms, of k] contents_touch [OF assms, of k] contents_find [of c k]
  unfolding fresh_contents lookup_locked_def
  by (auto simp: Let_def fun_upd_idem_iff split: option.split)

lemma batch_one_refines:
  assumes "cache_wf c"
  shows "map_option strip (fst (batch_one now k c)) = fresh now (contents c k)"
    "contents (snd (batch_one now k c)) =
       (if fresh now (contents c k) = None then (contents c)(k := None) else contents c)"
  using contents_drop [OF assms, of k] contents_touch [OF assms, of k] contents_find [of c k]
  unfolding fresh_contents batch_one_def
  by (auto simp: Let_def fun_upd_idem_iff split: option.split)

lemma LookupBatch_refines:
  assumes "cache_inv c"
  shows "map (map_option strip) (fst (LookupBatch ks now c)) = map (\<lambda>k. fresh now (contents c k)) ks \<and>
    (\<forall>k. fresh now (contents (snd (LookupBatch ks now c)) k) = fresh now (contents c k))"
  using assms
proof (induction ks arbitrary: c)
  case (Cons k ks)
  let ?d = "snd (batch_one now k c)"
  have wf: "cache_wf c" using Cons.prems by (simp add: cache_inv_def)
  note one = batch_one_refines [OF wf, of now k]
  have same: "fresh now (contents ?d k') = fresh now (contents c k')" for k'
    unfolding one(2) by (cases "k' = k") (simp_all add: fresh_def)
  show ?case using Cons.IH [OF batch_one_inv [OF Cons.prems]] one(1) same
    by (simp add: case_prod_beta Let_def)
qed simp

lemma insert_locked_refines:
  assumes inv: "cache_inv c" and e: "0 \<le> etotal_bytes e"
  shows "fst (insert_locked e allow c) = None \<Longrightarrow> snd (insert_locked e allow c) = c"
    and "fst (insert_locked e allow c) = Some p \<Longrightarrow>
      contents (snd (insert_locked e allow c)) \<subseteq>\<^sub>m
        (contents c)(ekey e := if p_retained p then Some (strip e) else None) \<and>
      contents (snd (insert_locked e allow c)) (ekey e) = (if p_retained p then Some (strip e) else None)"
proof -
  show "snd (insert_locked e allow c) = c" if "fst (insert_locked e allow c) = None"
    using that by (simp add: insert_locked_def Let_def split: if_splits)
  assume p: "fst (insert_locked e allow c) = Some p"
  let ?d = "drop_existing (ekey e) c" and ?r = "etotal_bytes e \<le> i64_of (max_bytes (settings c))"
  note d = drop_existing_inv [OF inv, of "ekey e"]
  have wfd: "cache_wf ?d" and wfc: "cache_wf c" using d(1) inv by (simp_all add: cache_inv_def)
  have ret: "p_retained p = ?r" using p by (auto simp: insert_locked_def Let_def split: if_splits)
  have c': "contents (snd (insert_locked e allow c)) =
      (if ?r then contents (push_front e (ekey e) (EvictToFitLocked (etotal_bytes e) True ?d)) else contents ?d)"
    using p by (simp add: insert_locked_def Let_def split: if_splits)
  have "contents (push_front e (ekey e) (EvictToFitLocked (etotal_bytes e) True ?d)) =
      (contents (EvictToFitLocked (etotal_bytes e) True ?d))(ekey e \<mapsto> strip e)"
    by (rule contents_push) (simp_all add: EvictToFitLocked_wf wfd EvictToFitLocked_subset d e)
  moreover have "contents (EvictToFitLocked (etotal_bytes e) True ?d) \<subseteq>\<^sub>m (contents c)(ekey e := None)"
    using contents_evict [OF wfd] by (simp add: contents_drop_existing [OF wfc])
  then have "(contents (EvictToFitLocked (etotal_bytes e) True ?d))(ekey e \<mapsto> strip e) \<subseteq>\<^sub>m
      (contents c)(ekey e \<mapsto> strip e)" by (auto simp: map_le_def split: if_splits)
  ultimately show "contents (snd (insert_locked e allow c)) \<subseteq>\<^sub>m
        (contents c)(ekey e := if p_retained p then Some (strip e) else None) \<and>
      contents (snd (insert_locked e allow c)) (ekey e) = (if p_retained p then Some (strip e) else None)"
    unfolding c' ret by (simp add: contents_drop_existing [OF wfc])
qed

lemma contents_sweep:
  assumes "cache_inv c" and P: "\<And>e. P (strip e) = P e"
  shows "contents (snd (sweep P (lru c) c)) = (\<lambda>k. case contents c k of None \<Rightarrow> None | Some e \<Rightarrow> if P e then None else Some e)"
proof (rule contents_eqI)
  have wf: "cache_wf c" using assms(1) by (simp add: cache_inv_def)
  note s = sweep_correct [OF assms(1) subset_refl cache_wfD(1) [OF wf], of P]
  show "cache_wf (snd (sweep P (lru c) c))" using s by (simp add: cache_inv_def)
  fix k f
  have "(case contents c k of None \<Rightarrow> None | Some e \<Rightarrow> if P e then None else Some e) = Some f \<longleftrightarrow>
      contents c k = Some f \<and> \<not> P f" by (auto split: option.split)
  also have "\<dots> \<longleftrightarrow> (\<exists>n e. (n, e) \<in> set (lru c) \<and> ekey e = k \<and> f = strip e) \<and> \<not> P f" unfolding contents_iff [OF wf] ..
  also have "\<dots> \<longleftrightarrow> (\<exists>n e. (n, e) \<in> set (lru (snd (sweep P (lru c) c))) \<and> ekey e = k \<and> f = strip e)"
    using s P by auto
  finally show "(case contents c k of None \<Rightarrow> None | Some e \<Rightarrow> if P e then None else Some e) = Some f \<longleftrightarrow>
     (\<exists>n e. (n, e) \<in> set (lru (snd (sweep P (lru c) c))) \<and> ekey e = k \<and> f = strip e)" .
qed

text \<open>
  C31. The memory tier implements a map from keys to entries that may forget but never invents.
  Seen as that map (hit counters aside): a lookup returns the fresh entry of exactly its key and
  drops a stale one; a batched lookup returns for every key what a lookup would; an insertion that
  is not refused either makes its entry the one found under its key or, when it is over the byte
  cap, removes the key, and all other keys keep their entry or are evicted; flushing a catalog
  removes exactly that catalog's entries, and the reaper exactly the stale entries that cannot be
  revalidated.
\<close>

theorem cache_refines_map:
  assumes "cache_inv c" "0 \<le> etotal_bytes e"
  shows "(map_option strip (fst (lookup_locked k now c)) = fresh now (contents c k) \<and>
      contents (snd (snd (lookup_locked k now c))) =
        (if fresh now (contents c k) = None then (contents c)(k := None) else contents c)) \<and>
    map (map_option strip) (fst (LookupBatch ks now c)) = map (\<lambda>k. fresh now (contents c k)) ks \<and>
    (case fst (insert_locked e allow c) of
       None \<Rightarrow> contents (snd (insert_locked e allow c)) = contents c
     | Some p \<Rightarrow> contents (snd (insert_locked e allow c)) \<subseteq>\<^sub>m
           (contents c)(ekey e := if p_retained p then Some (strip e) else None) \<and>
         contents (snd (insert_locked e allow c)) (ekey e) = (if p_retained p then Some (strip e) else None)) \<and>
    contents (snd (flush_catalog_locked cat c)) =
      (\<lambda>k. case contents c k of None \<Rightarrow> None | Some f \<Rightarrow> if catalog_name f = cat then None else Some f) \<and>
    contents (snd (ReapStaleLocked now c)) =
      (\<lambda>k. case contents c k of None \<Rightarrow> None | Some f \<Rightarrow> if IsStale now f \<and> \<not> erevalidatable f then None else Some f)"
proof (intro conjI)
  have wf: "cache_wf c" using assms by (simp add: cache_inv_def)
  show "map_option strip (fst (lookup_locked k now c)) = fresh now (contents c k)"
    "contents (snd (snd (lookup_locked k now c))) =
      (if fresh now (contents c k) = None then (contents c)(k := None) else contents c)"
    by (rule lookup_locked_refines [OF wf])+
  show "map (map_option strip) (fst (LookupBatch ks now c)) = map (\<lambda>k. fresh now (contents c k)) ks"
    using LookupBatch_refines [OF assms(1)] by blast
  show "case fst (insert_locked e allow c) of
       None \<Rightarrow> contents (snd (insert_locked e allow c)) = contents c
     | Some p \<Rightarrow> contents (snd (insert_locked e allow c)) \<subseteq>\<^sub>m
           (contents c)(ekey e := if p_retained p then Some (strip e) else None) \<and>
         contents (snd (insert_locked e allow c)) (ekey e) = (if p_retained p then Some (strip e) else None)"
  proof (cases "fst (insert_locked e allow c)")
    case None
    then show ?thesis using insert_locked_refines(1) [OF assms None] by simp
  next
    case (Some p)
    show ?thesis unfolding Some option.case by (rule insert_locked_refines(2) [OF assms Some])
  qed
qed (simp_all add: flush_catalog_locked_def ReapStaleLocked_eq Let_def contents_sweep assms)

theorem cache_refines_map_witness:
  "fst (lookup_locked (blank_key\<lparr>function_name := ''f''\<rparr>) 5 one_insert) \<noteq> None \<and>
   map_option strip (fst (lookup_locked (blank_key\<lparr>function_name := ''f''\<rparr>) 5 one_insert)) =
     Some (strip (sized_entry ''f'' 6))"
proof -
  have "fresh 5 (contents one_insert (blank_key\<lparr>function_name := ''f''\<rparr>)) = Some (strip (sized_entry ''f'' 6))"
    by (simp add: fresh_def contents_def find_node_def one_insert_eq IsStale_def strip_def) (simp add: sized_entry_def)
  moreover have inv: "cache_inv one_insert"
    using insert_locked_inv [OF new_cache_inv, of "sized_entry ''f'' 6" False small_settings]
    by (simp add: one_insert_def sized_entry_def)
  have nn: "0 \<le> etotal_bytes (sized_entry ''f'' 6)" by (simp add: sized_entry_def)
  note cache_refines_map [OF inv nn, THEN conjunct1, THEN conjunct1, of "blank_key\<lparr>function_name := ''f''\<rparr>" 5]
  ultimately show ?thesis by auto
qed

end
