(* ===== verification/Capture_Budget.thy ===== *)
theory Capture_Budget
  imports Entry_Codec "HOL-Library.Multiset"
begin

text \<open>
  The budget of bytes that concurrent captures may hold, \<^verbatim>\<open>TryReserveInflightCapture\<close> and
  \<^verbatim>\<open>ReleaseInflightCapture\<close> of \<^verbatim>\<open>src/src/vgi_result_cache.cpp\<close>. The counter is atomic and the
  callers run concurrently, so one step is one atomic access: the load, one pass of the
  compare-and-swap loop, which may fail spuriously, and the subtraction. The reservations granted and
  not yet released are kept beside the counter.
\<close>

definition reserve_limit :: "u64 \<Rightarrow> int" where
  "reserve_limit budget = (if budget = 0 then 2 ^ 63 - 1 else i64_of budget)"

definition reserve_refused :: "int \<Rightarrow> int \<Rightarrow> int \<Rightarrow> bool" where
  "reserve_refused bytes limit previous \<longleftrightarrow> bytes > limit \<or> previous > limit - bytes"

text \<open>A caller is idle or in the loop, with its bytes, the limit it read and the value it last saw.\<close>

datatype caller = Idle | Trying int int int

record budget_state =
  inflight_capture_bytes :: int
  granted :: "int multiset"
  callers :: "nat \<Rightarrow> caller"

datatype answer = Pending | Answer bool

text \<open>Entering the function, and one pass of the loop; \<open>spurious\<close> is a weak exchange that fails on equal values.\<close>

definition reserve_begin :: "nat \<Rightarrow> int \<Rightarrow> u64 \<Rightarrow> budget_state \<Rightarrow> answer \<times> budget_state" where
  "reserve_begin t bytes budget s =
     (if bytes \<le> 0 then (Answer True, s)
      else (Pending, s\<lparr>callers := (callers s)(t := Trying bytes (reserve_limit budget) (inflight_capture_bytes s))\<rparr>))"

definition reserve_pass :: "nat \<Rightarrow> bool \<Rightarrow> budget_state \<Rightarrow> answer \<times> budget_state" where
  "reserve_pass t spurious s =
     (case callers s t of
        Idle \<Rightarrow> (Pending, s)
      | Trying bytes limit previous \<Rightarrow>
          if reserve_refused bytes limit previous then (Answer False, s\<lparr>callers := (callers s)(t := Idle)\<rparr>)
          else if previous = inflight_capture_bytes s \<and> \<not> spurious then
            (Answer True, s\<lparr>inflight_capture_bytes := previous + bytes, granted := add_mset bytes (granted s),
                            callers := (callers s)(t := Idle)\<rparr>)
          else (Pending, s\<lparr>callers := (callers s)(t := Trying bytes limit (inflight_capture_bytes s))\<rparr>))"

definition ReleaseInflightCapture :: "int multiset \<Rightarrow> budget_state \<Rightarrow> budget_state" where
  "ReleaseInflightCapture rs s =
     (let bytes = sum_mset rs in
      if bytes > 0 then s\<lparr>inflight_capture_bytes := inflight_capture_bytes s - bytes, granted := granted s - rs\<rparr> else s)"

text \<open>A release gives back reservations that were granted.\<close>

inductive budget_step :: "u64 \<Rightarrow> budget_state \<Rightarrow> budget_state \<Rightarrow> bool" for budget where
  enter: "callers s t = Idle \<Longrightarrow> budget_step budget s (snd (reserve_begin t bytes budget s))"
| pass: "budget_step budget s (snd (reserve_pass t spurious s))"
| release: "rs \<subseteq># granted s \<Longrightarrow> budget_step budget s (ReleaseInflightCapture rs s)"

definition no_captures :: budget_state where
  "no_captures = \<lparr>inflight_capture_bytes = 0, granted = {#}, callers = (\<lambda>_. Idle)\<rparr>"

definition budget_inv :: "u64 \<Rightarrow> budget_state \<Rightarrow> bool" where
  "budget_inv budget s \<longleftrightarrow>
     inflight_capture_bytes s = sum_mset (granted s) \<and> (\<forall>b \<in># granted s. 0 < b) \<and>
     inflight_capture_bytes s \<le> max 0 (reserve_limit budget) \<and>
     (\<forall>t. case callers s t of Idle \<Rightarrow> True | Trying b l p \<Rightarrow> 0 < b \<and> l = reserve_limit budget)"

lemma sum_mset_pos: "(\<forall>b \<in># M. 0 < b) \<Longrightarrow> 0 \<le> sum_mset (M :: int multiset)"
  by (induction M) auto



lemma budget_step_inv:
  assumes "budget_step budget s s'" "budget_inv budget s"
  shows "budget_inv budget s'"
  using assms
proof (induction rule: budget_step.induct)
  case (enter s t bytes)
  then show ?case by (auto simp: budget_inv_def reserve_begin_def split: caller.splits)
next
  case (pass s t spurious)
  show ?case
  proof (cases "callers s t")
    case Idle
    then show ?thesis using pass by (simp add: reserve_pass_def)
  next
    case (Trying b l p)
    have "case callers s t of Idle \<Rightarrow> True | Trying b l p \<Rightarrow> 0 < b \<and> l = reserve_limit budget"
      using pass unfolding budget_inv_def by blast
    then have t: "0 < b" "l = reserve_limit budget" using Trying by simp_all
    then show ?thesis using pass Trying
      by (auto simp: budget_inv_def reserve_pass_def reserve_refused_def split: caller.splits)
  qed
next
  case (release rs s)
  have pos: "\<forall>b \<in># rs. 0 < b" using release by (auto simp: budget_inv_def dest: mset_subset_eqD)
  have "sum_mset (granted s - rs) = sum_mset (granted s) - sum_mset rs"
    using release(1) by (metis add_diff_cancel_right' subset_mset.diff_add sum_mset.union)
  moreover have "\<forall>b \<in># granted s - rs. 0 < b" using release(2) by (auto simp: budget_inv_def dest: in_diffD)
  ultimately show ?case using release(2) sum_mset_pos [OF pos] by (auto simp: budget_inv_def ReleaseInflightCapture_def Let_def)
qed

lemma no_captures_inv: "budget_inv budget no_captures"
  by (simp add: budget_inv_def no_captures_def)

text \<open>
  C32. Concurrent captures never hold more than the budget. Whatever captures run, however their
  atomic accesses interleave and however often an exchange fails spuriously, the counter is exactly
  the sum of the reservations granted and not released, it is never negative, it never exceeds the
  budget (the largest 64-bit value when the budget is 0, and nothing at all is granted when the
  budget does not fit a signed value), and no addition to it overflows.
\<close>

theorem capture_budget_safe:
  assumes "(budget_step budget)\<^sup>*\<^sup>* no_captures s"
  shows "inflight_capture_bytes s = sum_mset (granted s) \<and> 0 \<le> inflight_capture_bytes s \<and>
    inflight_capture_bytes s \<le> max 0 (reserve_limit budget) \<and> inflight_capture_bytes s < 2 ^ 63"
proof -
  have inv: "budget_inv budget s" using assms
    by (induction rule: rtranclp_induct)
       (use no_captures_inv budget_step_inv in blast)+
  have "reserve_limit budget < 2 ^ 63"
    using sint_lt [of budget] by (simp add: reserve_limit_def i64_of_def)
  then show ?thesis using inv sum_mset_pos [of "granted s"] by (auto simp: budget_inv_def)
qed

theorem capture_budget_safe_witness:
  "let s = snd (reserve_pass 1 False (snd (reserve_begin 1 60 100 no_captures))) in
   inflight_capture_bytes s = 60 \<and> inflight_capture_bytes s \<le> max 0 (reserve_limit 100) \<and>
   fst (reserve_pass 2 False (snd (reserve_begin 2 60 100 s))) = Answer False"
proof -
  let ?a = "snd (reserve_begin 1 60 100 no_captures)" and ?s = "snd (reserve_pass 1 False (snd (reserve_begin 1 60 100 no_captures)))"
  have lim: "reserve_limit 100 = 100" by (simp add: reserve_limit_def i64_of_def)
  have "budget_step 100 no_captures ?a" by (rule budget_step.enter) (simp add: no_captures_def)
  then have "(budget_step 100)\<^sup>*\<^sup>* no_captures ?s" using budget_step.pass [of 100 ?a 1 False] by (meson r_into_rtranclp rtranclp.rtrancl_into_rtrancl)
  note capture_budget_safe [OF this]
  moreover have "inflight_capture_bytes ?s = 60"
    by (simp add: reserve_begin_def reserve_pass_def reserve_refused_def no_captures_def lim)
  moreover from this have "fst (reserve_pass 2 False (snd (reserve_begin 2 60 100 ?s))) = Answer False"
    by (simp add: reserve_pass_def reserve_begin_def [of 2] reserve_refused_def lim)
  ultimately show ?thesis unfolding Let_def by blast
qed

section \<open>Reservations as atomic operations\<close>

text \<open>A run is the list of the states it goes through, the last one at the end.\<close>

inductive budget_run :: "u64 \<Rightarrow> budget_state list \<Rightarrow> bool" for budget where
  idle: "budget_run budget [no_captures]"
| more: "budget_run budget ss \<Longrightarrow> budget_step budget (last ss) s \<Longrightarrow> budget_run budget (ss @ [s])"

lemma budget_run_nonempty: "budget_run budget ss \<Longrightarrow> ss \<noteq> []"
  by (induction rule: budget_run.induct) simp_all

lemma budget_run_inv:
  assumes "budget_run budget ss"
  shows "\<forall>s \<in> set ss. budget_inv budget s"
  using assms
proof (induction rule: budget_run.induct)
  case (more ss s)
  then have "budget_inv budget (last ss)" using budget_run_nonempty by simp
  then show ?case using more budget_step_inv by auto
qed (simp add: no_captures_inv)

text \<open>What one step does to the call of a caller \<open>t\<close>: it stays as it is, or it has just read the counter.\<close>

lemma budget_step_caller:
  assumes "budget_step budget s s'" "callers s' t = Trying b l p"
  shows "callers s t = Trying b l p \<or> p = inflight_capture_bytes s'"
  using assms
proof (induction rule: budget_step.induct)
  case (enter s u bytes)
  then show ?case by (auto simp: reserve_begin_def split: if_splits)
next
  case (pass s u spurious)
  then show ?case by (cases "callers s u") (auto simp: reserve_pass_def split: if_splits)
next
  case (release rs s)
  then show ?case by (simp add: ReleaseInflightCapture_def Let_def split: if_splits)
qed

text \<open>The value a caller holds was the counter's at some moment since which its call has been waiting.\<close>

lemma last_value_seen:
  assumes "budget_run budget ss" "callers (last ss) t = Trying b l p"
  shows "\<exists>i < length ss. inflight_capture_bytes (ss ! i) = p \<and>
    (\<forall>j. i \<le> j \<and> j < length ss \<longrightarrow> callers (ss ! j) t = Trying b l p)"
  using assms
proof (induction arbitrary: b l p rule: budget_run.induct)
  case idle
  then show ?case by (simp add: no_captures_def)
next
  case (more ss s)
  have s: "callers s t = Trying b l p" using more(4) by simp
  consider "callers (last ss) t = Trying b l p" | "p = inflight_capture_bytes s"
    using budget_step_caller [OF more(2) s] by blast
  then show ?case
  proof cases
    case 1
    then obtain i where "i < length ss" "inflight_capture_bytes (ss ! i) = p"
      "\<forall>j. i \<le> j \<and> j < length ss \<longrightarrow> callers (ss ! j) t = Trying b l p" using more(3) by blast
    then show ?thesis using s by (intro exI [of _ i]) (auto simp: nth_append less_Suc_eq)
  next
    case 2
    then show ?thesis using s by (intro exI [of _ "length ss"]) (auto simp: nth_append less_Suc_eq)
  qed
qed

text \<open>
  C33. A reservation behaves as one atomic operation and the loop is lock-free. Take any run of
  concurrent captures and a call that is inside the loop at its end. There is a moment of the run
  since which this call has been waiting, such that its next pass, if it answers, grants exactly when
  the bytes fitted beside what was reserved at that moment; a grant is decided at the moment of the
  pass itself and adds the bytes there, a refusal leaves every reservation as it is. If the pass does
  not answer, the exchange failed spuriously or another call took or released a reservation since
  that moment.
\<close>

theorem capture_reserve_linearizable:
  assumes "budget_run budget ss" "callers (last ss) t = Trying bytes limit previous"
  shows "\<exists>i < length ss. (\<forall>j. i \<le> j \<and> j < length ss \<longrightarrow> callers (ss ! j) t = Trying bytes limit previous) \<and>
    (let s = last ss; s' = snd (reserve_pass t spurious s) in
     case fst (reserve_pass t spurious s) of
       Answer granted_it \<Rightarrow>
         (granted_it \<longleftrightarrow> inflight_capture_bytes (ss ! i) + bytes \<le> reserve_limit budget) \<and>
         callers s' t = Idle \<and> granted s' = (if granted_it then add_mset bytes (granted s) else granted s) \<and>
         (granted_it \<longrightarrow> inflight_capture_bytes s + bytes \<le> reserve_limit budget)
     | Pending \<Rightarrow> granted s' = granted s \<and> (spurious \<or> granted (last ss) \<noteq> granted (ss ! i)))"
proof -
  obtain i where i: "i < length ss" "inflight_capture_bytes (ss ! i) = previous"
    "\<forall>j. i \<le> j \<and> j < length ss \<longrightarrow> callers (ss ! j) t = Trying bytes limit previous"
    using last_value_seen [OF assms] by blast
  have inv: "budget_inv budget (last ss)" "budget_inv budget (ss ! i)"
    using budget_run_inv [OF assms(1)] budget_run_nonempty [OF assms(1)] i(1) by simp_all
  then have v: "0 \<le> previous" "inflight_capture_bytes (last ss) = sum_mset (granted (last ss))"
      "previous = sum_mset (granted (ss ! i))"
    using sum_mset_pos [of "granted (ss ! i)"] i(2) by (auto simp: budget_inv_def)
  have "case callers (last ss) t of Idle \<Rightarrow> True | Trying b l p \<Rightarrow> 0 < b \<and> l = reserve_limit budget"
    using inv(1) unfolding budget_inv_def by blast
  then have l: "limit = reserve_limit budget" "0 < bytes" using assms(2) by simp_all
  have "spurious \<or> granted (last ss) \<noteq> granted (ss ! i)" if "\<not> (previous = inflight_capture_bytes (last ss) \<and> \<not> spurious)"
    using that v(2,3) by auto
  then show ?thesis using i v(1) l assms(2)
    by (intro exI [of _ i]) (simp add: reserve_pass_def reserve_refused_def Let_def; linarith)
qed

text \<open>Three calls for a budget of 100: the third has seen 60 reserved and refuses 50 although the
  60 were released in the meantime; it is decided at the moment it read the counter.\<close>

theorem capture_reserve_linearizable_witness:
  "let a = snd (reserve_begin 1 60 100 no_captures); b = snd (reserve_pass 1 False a);
       c = snd (reserve_begin 2 50 100 b); d = ReleaseInflightCapture {#60#} c in
   \<exists>i < 5. inflight_capture_bytes ([no_captures, a, b, c, d] ! i) + 50 > 100 \<and> inflight_capture_bytes d = 0 \<and>
     fst (reserve_pass 2 False d) = Answer False"
proof -
  define a where "a = snd (reserve_begin 1 60 100 no_captures)"
  define b where "b = snd (reserve_pass 1 False a)"
  define c where "c = snd (reserve_begin 2 50 100 b)"
  define d where "d = ReleaseInflightCapture {#60#} c"
  have lim: "reserve_limit 100 = 100" by (simp add: reserve_limit_def i64_of_def)
  have a: "a = \<lparr>inflight_capture_bytes = 0, granted = {#}, callers = (\<lambda>_. Idle)(1 := Trying 60 100 0)\<rparr>"
    by (simp add: a_def reserve_begin_def no_captures_def lim)
  have b: "b = \<lparr>inflight_capture_bytes = 60, granted = {#60#}, callers = (\<lambda>_. Idle)\<rparr>"
    by (simp add: b_def a reserve_pass_def reserve_refused_def fun_eq_iff)
  have c: "c = \<lparr>inflight_capture_bytes = 60, granted = {#60#}, callers = (\<lambda>_. Idle)(2 := Trying 50 100 60)\<rparr>"
    by (simp add: c_def b reserve_begin_def lim)
  have d: "d = \<lparr>inflight_capture_bytes = 0, granted = {#}, callers = (\<lambda>_. Idle)(2 := Trying 50 100 60)\<rparr>"
    by (simp add: d_def c ReleaseInflightCapture_def)
  have "budget_step 100 no_captures a" unfolding a_def by (rule budget_step.enter) (simp add: no_captures_def)
  moreover have "budget_step 100 a b" unfolding b_def by (rule budget_step.pass)
  moreover have "budget_step 100 b c" unfolding c_def by (rule budget_step.enter) (simp add: b)
  moreover have "budget_step 100 c d" unfolding d_def by (rule budget_step.release) (simp add: c)
  ultimately have run: "budget_run 100 [no_captures, a, b, c, d]"
    using budget_run.more [of 100 "[no_captures, a, b, c]" d] budget_run.more [of 100 "[no_captures, a, b]" c]
      budget_run.more [of 100 "[no_captures, a]" b] budget_run.more [OF budget_run.idle, of 100 a] by simp
  have ans: "fst (reserve_pass 2 False d) = Answer False" by (simp add: d reserve_pass_def reserve_refused_def)
  have "callers (last [no_captures, a, b, c, d]) 2 = Trying 50 100 60" by (simp add: d)
  from capture_reserve_linearizable [OF run this, of False] ans
  obtain i where "i < length [no_captures, a, b, c, d]" "\<not> inflight_capture_bytes ([no_captures, a, b, c, d] ! i) + 50 \<le> 100"
    by (auto simp: Let_def lim)
  then show ?thesis using ans unfolding Let_def a_def [symmetric] b_def [symmetric] c_def [symmetric] d_def [symmetric]
    by (intro exI [of _ i]) (simp add: d)
qed

end
