(* ===== verification/Disk_Store.thy ===== *)
theory Disk_Store
  imports Entry_Codec
begin

text \<open>
  The loose files of the result cache's disk tier, \<^verbatim>\<open>src/src/vgi_result_cache.cpp\<close>: one object
  file per content digest and one ref file per key. The file system is DuckDB's, so its functions are
  the fields of a record that every operation takes, on a state of any type; a write that throws is
  \<^const>\<open>None\<close>. \<open>fs_create\<close> opens a file under an unused name, writes all its bytes and syncs it. SHA-256, the codec and the clocks are arguments too.
\<close>

section \<open>The file system\<close>

record 'fs file_system =
  fs_read :: "'fs \<Rightarrow> string \<Rightarrow> string option"
  fs_create :: "'fs \<Rightarrow> string \<Rightarrow> string \<Rightarrow> 'fs option"
  fs_move :: "'fs \<Rightarrow> string \<Rightarrow> string \<Rightarrow> 'fs option"
  fs_mkdir :: "'fs \<Rightarrow> string \<Rightarrow> 'fs option"
  fs_dir_exists :: "'fs \<Rightarrow> string \<Rightarrow> bool"
  fs_list :: "'fs \<Rightarrow> string \<Rightarrow> (string \<times> bool) list"
  fs_remove :: "'fs \<Rightarrow> string \<Rightarrow> bool \<times> 'fs"
  fs_mtime :: "'fs \<Rightarrow> string \<Rightarrow> int option"
  fs_open :: "'fs \<Rightarrow> string \<Rightarrow> 'fs option"
  fs_write :: "'fs \<Rightarrow> string \<Rightarrow> nat \<Rightarrow> string \<Rightarrow> int \<times> 'fs"

definition MkdirP :: "'fs file_system \<Rightarrow> string \<Rightarrow> 'fs \<Rightarrow> 'fs option" where
  "MkdirP F path s = (if fs_dir_exists F s path then Some s else fs_mkdir F s path)"

text \<open>A writer returns whether it completed, and the state it leaves; a failed rename leaves the temporary file.\<close>

definition WriteFileAtomic :: "'fs file_system \<Rightarrow> string \<Rightarrow> string \<Rightarrow> string \<Rightarrow> 'fs \<Rightarrow> bool \<times> 'fs" where
  "WriteFileAtomic F final_path bytes tmp_suffix s =
     (let tmp = final_path @ ''.tmp-'' @ tmp_suffix in
      case fs_create F s tmp bytes of
        None \<Rightarrow> (False, s)
      | Some s1 \<Rightarrow> (case fs_move F s1 tmp final_path of None \<Rightarrow> (False, s1) | Some s2 \<Rightarrow> (True, s2)))"

definition ReadFileAll :: "'fs file_system \<Rightarrow> string \<Rightarrow> 'fs \<Rightarrow> string option" where
  "ReadFileAll F path s = fs_read F s path"

section \<open>Ref files\<close>

abbreviation nl :: char where "nl \<equiv> CHR 0x0A"

definition ref_line :: "string \<Rightarrow> string \<Rightarrow> string" where
  "ref_line k v = k @ CHR ''='' # v @ [nl]"

definition ref_text :: "string \<Rightarrow> string \<Rightarrow> int \<Rightarrow> VgiResultCacheEntry \<Rightarrow> string \<Rightarrow> string" where
  "ref_text fp content_sha expires_unix meta codec =
     ref_line ''keyfp'' fp @ ref_line ''content'' content_sha @ ref_line ''expires_unix'' (show_int expires_unix) @
     ref_line ''scope'' (escope meta) @ ref_line ''etag'' (eetag meta) @ ref_line ''last_modified'' (elast_modified meta) @
     ref_line ''rows'' (show_int (erows meta)) @ ref_line ''bytes'' (show_int (etotal_bytes meta)) @
     ref_line ''catalog'' (catalog_name meta) @ ref_line ''function'' (function_name (ekey meta)) @
     ref_line ''codec'' codec @ (if input_hash (ekey meta) \<noteq> [] then ref_line ''exch'' ''1'' else [])"

definition WriteRef ::
  "'fs file_system \<Rightarrow> string \<Rightarrow> string \<Rightarrow> string \<Rightarrow> int \<Rightarrow> VgiResultCacheEntry \<Rightarrow> string \<Rightarrow> string \<Rightarrow> 'fs \<Rightarrow> bool \<times> 'fs" where
  "WriteRef F refs_dir fp content_sha expires_unix meta codec tmp_suffix s =
     WriteFileAtomic F (refs_dir @ ''/'' @ fp @ ''.ref'') (ref_text fp content_sha expires_unix meta codec) tmp_suffix s"

text \<open>The loop over the lines of a ref; a line ends at a newline or at the end of the text.\<close>

function ref_lines :: "string \<Rightarrow> string list" where
  "ref_lines s =
     (if s = [] then []
      else case split_first nl s of (line, None) \<Rightarrow> [line] | (line, Some rest) \<Rightarrow> line # ref_lines rest)"
  by pat_completeness auto
termination
  by (relation "measure length") (auto dest!: split_first_shorter [OF sym])

declare ref_lines.simps [simp del]

record ref_fields =
  rf_keyfp :: string
  rf_content :: string
  rf_scope :: string
  rf_etag :: string
  rf_last_modified :: string
  rf_catalog :: string
  rf_expires :: int
  rf_rows :: int

definition ref_assign :: "ref_fields \<Rightarrow> string \<Rightarrow> ref_fields" where
  "ref_assign r line =
     (case split_first CHR ''='' line of
        (k, None) \<Rightarrow> r
      | (k, Some v) \<Rightarrow>
          if k = ''keyfp'' then r\<lparr>rf_keyfp := v\<rparr>
          else if k = ''content'' then r\<lparr>rf_content := v\<rparr>
          else if k = ''expires_unix'' then r\<lparr>rf_expires := ParseInt v 0\<rparr>
          else if k = ''scope'' then r\<lparr>rf_scope := v\<rparr>
          else if k = ''etag'' then r\<lparr>rf_etag := v\<rparr>
          else if k = ''last_modified'' then r\<lparr>rf_last_modified := v\<rparr>
          else if k = ''rows'' then r\<lparr>rf_rows := ParseInt v 0\<rparr>
          else if k = ''catalog'' then r\<lparr>rf_catalog := v\<rparr>
          else r)"

definition no_fields :: ref_fields where
  "no_fields = \<lparr>rf_keyfp = [], rf_content = [], rf_scope = ''catalog'', rf_etag = [], rf_last_modified = [],
     rf_catalog = [], rf_expires = 0, rf_rows = 0\<rparr>"

definition parse_ref :: "string \<Rightarrow> ref_fields" where
  "parse_ref text = foldl ref_assign no_fields (ref_lines text)"

section \<open>Operations\<close>

definition shard_dir :: "(string \<Rightarrow> string) \<Rightarrow> string \<Rightarrow> VgiResultCacheKey \<Rightarrow> string" where
  "shard_dir sha dir k = dir @ ''/'' @ sha (identity_scope k)"

definition ref_path :: "(string \<Rightarrow> string) \<Rightarrow> string \<Rightarrow> VgiResultCacheKey \<Rightarrow> string" where
  "ref_path sha dir k = shard_dir sha dir k @ ''/refs/'' @ Fingerprint sha k @ ''.ref''"

definition object_path :: "(string \<Rightarrow> string) \<Rightarrow> string \<Rightarrow> VgiResultCacheKey \<Rightarrow> string \<Rightarrow> string" where
  "object_path sha dir k content = shard_dir sha dir k @ ''/objects/'' @ content @ ''.vrc''"

text \<open>Persisting is best effort: on an exception what was done so far stays.\<close>

fun mkdirs :: "'fs file_system \<Rightarrow> string list \<Rightarrow> 'fs \<Rightarrow> bool \<times> 'fs" where
  "mkdirs F [] s = (True, s)"
| "mkdirs F (p # ps) s = (case MkdirP F p s of None \<Rightarrow> (False, s) | Some s1 \<Rightarrow> mkdirs F ps s1)"

definition make_shard :: "'fs file_system \<Rightarrow> (string \<Rightarrow> string) \<Rightarrow> string \<Rightarrow> VgiResultCacheKey \<Rightarrow> 'fs \<Rightarrow> bool \<times> 'fs" where
  "make_shard F sha dir k s =
     mkdirs F [dir, shard_dir sha dir k, shard_dir sha dir k @ ''/objects'', shard_dir sha dir k @ ''/refs''] s"

definition PersistToDisk ::
  "'fs file_system \<Rightarrow> (string \<Rightarrow> string) \<Rightarrow> (string option \<Rightarrow> string \<Rightarrow> u64 \<Rightarrow> string option) \<Rightarrow> (string \<Rightarrow> string) \<Rightarrow>
   int \<Rightarrow> string \<times> string \<Rightarrow> VgiResultCacheEntry \<Rightarrow> string \<Rightarrow> u64 \<Rightarrow> string \<Rightarrow> u64 \<Rightarrow> 'fs \<Rightarrow> 'fs" where
  "PersistToDisk F sha transcode resolve now_unix tmps e dir max_bytes codec level s =
     (if dir = [] \<or> max_bytes = 0 then s
      else let fp = Fingerprint sha (ekey e) in
      if fp = [] then s
      else case make_shard F sha dir (ekey e) s of
        (False, s1) \<Rightarrow> s1
      | (True, s1) \<Rightarrow>
          let eff_codec = resolve codec;
              blob = SerializeEntryBlob transcode e eff_codec level in
          if length blob > unat max_bytes then s1
          else
            let content_sha = sha blob;
                obj = object_path sha dir (ekey e) content_sha in
            case (if fs_read F s1 obj = None then WriteFileAtomic F obj blob (fst tmps) s1 else (True, s1)) of
              (False, s2) \<Rightarrow> s2
            | (True, s2) \<Rightarrow> snd (WriteRef F (shard_dir sha dir (ekey e) @ ''/refs'') fp content_sha
                                 (ComputeExpiresUnix now_unix e) e eff_codec (snd tmps) s2))"

text \<open>
  Loading: an entry, a miss, or undefined behaviour, which is the parser reading past the end of a
  blob; the parser's exceptions are caught and are a miss.
\<close>

datatype load_result = Served VgiResultCacheEntry | Missing | Undefined

text \<open>
  The expiry instant is computed in 64-bit nanoseconds, where a lifetime of 292 years and more
  overflows; the overflow is undefined in the language and wraps around on the machine, and so it
  does here.
\<close>

definition expiry_fields :: "int \<Rightarrow> int \<Rightarrow> int \<Rightarrow> VgiResultCacheEntry \<Rightarrow> VgiResultCacheEntry" where
  "expiry_fields expires_unix now_unix now e =
     (if expires_unix = 2 ^ 63 - 1 then e\<lparr>stored_at := now, enever_expires := True\<rparr>
      else e\<lparr>stored_at := now, eexpires_at := i64_of (u64_of (now + (expires_unix - now_unix) * 1000000000))\<rparr>)"

definition LoadFromDisk ::
  "'fs file_system \<Rightarrow> (string \<Rightarrow> string) \<Rightarrow> nat \<Rightarrow> int \<Rightarrow> int \<Rightarrow> VgiResultCacheKey \<Rightarrow> string \<Rightarrow> 'fs \<Rightarrow> load_result option" where
  "LoadFromDisk F sha fuel now_unix now k dir s =
     (let fp = Fingerprint sha k in
      if dir = [] \<or> fp = [] then Some Missing
      else case ReadFileAll F (ref_path sha dir k) s of
        None \<Rightarrow> Some Missing
      | Some text \<Rightarrow>
          let r = parse_ref text in
          if rf_keyfp r \<noteq> fp then Some Missing
          else if \<not> IsHex64 (rf_content r) then Some Missing
          else if rf_expires r \<noteq> 2 ^ 63 - 1 \<and> now_unix \<ge> rf_expires r then Some Missing
          else case ReadFileAll F (object_path sha dir k (rf_content r)) s of
            None \<Rightarrow> Some Missing
          | Some blob \<Rightarrow>
              if sha blob \<noteq> rf_content r then Some Missing
              else case ParseEntryBlobIntoStream fuel blob of
                None \<Rightarrow> None
              | Some (Inl Overread) \<Rightarrow> Some Undefined
              | Some (Inl _) \<Rightarrow> Some Missing
              | Some (Inr (stream, total_b)) \<Rightarrow>
                  Some (Served (expiry_fields (rf_expires r) now_unix now
                    (blank_entry k\<lparr>streams := [stream], etotal_bytes := total_b, erows := rf_rows r, escope := rf_scope r,
                       eetag := rf_etag r, elast_modified := rf_last_modified r, catalog_name := rf_catalog r\<rparr>))))"

fun peek_lines :: "string list \<Rightarrow> int" where
  "peek_lines [] = - 1"
| "peek_lines (l # ls) = (if take 6 l = ''bytes='' then ParseInt (drop 6 l) (- 1) else peek_lines ls)"

definition PeekDiskRefBytes :: "'fs file_system \<Rightarrow> (string \<Rightarrow> string) \<Rightarrow> VgiResultCacheKey \<Rightarrow> string \<Rightarrow> 'fs \<Rightarrow> int" where
  "PeekDiskRefBytes F sha k dir s =
     (if dir = [] \<or> Fingerprint sha k = [] then - 1
      else case ReadFileAll F (ref_path sha dir k) s of None \<Rightarrow> - 1 | Some text \<Rightarrow> peek_lines (ref_lines text))"

section \<open>What is served\<close>

lemma IsHex64_chars: "IsHex64 s \<Longrightarrow> c \<in> set s \<Longrightarrow> c \<noteq> CHR ''/'' \<and> c \<noteq> CHR ''.'' \<and> c \<noteq> nl"
  by (auto simp: IsHex64_def list_all_iff)

lemma expiry_fields_simps [simp]:
  "ekey (expiry_fields x nu now e) = ekey e" "streams (expiry_fields x nu now e) = streams e"
  "etotal_bytes (expiry_fields x nu now e) = etotal_bytes e"
  by (simp_all add: expiry_fields_def)

lemma expiry_fields_fresh:
  assumes "x = 2 ^ 63 - 1 \<or> nu < x" "x = 2 ^ 63 - 1 \<or> int64 (now + (x - nu) * 1000000000)" "enever_expires e = False"
  shows "\<not> IsStale now (expiry_fields x nu now e)"
proof (cases "x = 2 ^ 63 - 1")
  case True
  then show ?thesis by (simp add: expiry_fields_def IsStale_def)
next
  case False
  then have "i64_of (u64_of (now + (x - nu) * 1000000000)) = now + (x - nu) * 1000000000"
    using assms(2) by (intro i64_of_u64_of) simp
  then show ?thesis using False assms(1,3) by (simp add: expiry_fields_def IsStale_def)
qed

text \<open>An expiry 293 years ahead: the ref is live and the entry loaded from it has expired long ago.\<close>

lemma far_expiry_stale: "IsStale 0 (expiry_fields (t + 9223372037) t 0 (blank_entry k))" if "t < 2 ^ 62"
  using that by (simp add: expiry_fields_def IsStale_def blank_entry_def i64_of_def u64_of_def)

text \<open>
  C34. The disk tier serves nothing but intact, fresh results of the key asked for, whatever bytes
  are on the disk. If an entry is served, the ref of exactly that key names the key's fingerprint,
  the object it names is inside the shard's object directory (its name has neither a slash nor a
  dot), the object's bytes hash to that name, the entry is the parse of those bytes and carries the
  key. The ref has not expired, and neither has the entry, as long as the expiry instant is within
  the range of the 64-bit nanosecond clock.
\<close>

theorem LoadFromDisk_integrity:
  assumes "LoadFromDisk F sha fuel now_unix now k dir s = Some (Served e)"
  shows "\<exists>body blob stream. fs_read F s (ref_path sha dir k) = Some body \<and>
    rf_keyfp (parse_ref body) = Fingerprint sha k \<and> rf_content (parse_ref body) = sha blob \<and>
    IsHex64 (sha blob) \<and> CHR ''/'' \<notin> set (sha blob) \<and> CHR ''.'' \<notin> set (sha blob) \<and>
    fs_read F s (object_path sha dir k (sha blob)) = Some blob \<and>
    ParseEntryBlobIntoStream fuel blob = Some (Inr (stream, etotal_bytes e)) \<and> streams e = [stream] \<and>
    ekey e = k \<and> (let x = rf_expires (parse_ref body) in
      (x = 2 ^ 63 - 1 \<or> now_unix < x) \<and>
      (x = 2 ^ 63 - 1 \<or> int64 (now + (x - now_unix) * 1000000000) \<longrightarrow> \<not> IsStale now e))"
proof -
  let ?r = "\<lambda>body. parse_ref body"
  from assms obtain body where body: "fs_read F s (ref_path sha dir k) = Some body"
    by (auto simp: LoadFromDisk_def Let_def ReadFileAll_def split: if_splits option.splits)
  from assms body have c: "rf_keyfp (?r body) = Fingerprint sha k" "IsHex64 (rf_content (?r body))"
    "rf_expires (?r body) = 2 ^ 63 - 1 \<or> now_unix < rf_expires (?r body)"
    by (auto simp: LoadFromDisk_def Let_def ReadFileAll_def split: if_splits)
  from assms body c obtain blob where blob: "fs_read F s (object_path sha dir k (rf_content (?r body))) = Some blob"
    by (auto simp: LoadFromDisk_def Let_def ReadFileAll_def split: if_splits option.splits)
  from assms body c blob have h: "sha blob = rf_content (?r body)"
    by (auto simp: LoadFromDisk_def Let_def ReadFileAll_def split: if_splits)
  obtain stream tot where p: "ParseEntryBlobIntoStream fuel blob = Some (Inr (stream, tot))"
    and e: "e = expiry_fields (rf_expires (?r body)) now_unix now
       (blank_entry k\<lparr>streams := [stream], etotal_bytes := tot, erows := rf_rows (?r body), escope := rf_scope (?r body),
          eetag := rf_etag (?r body), elast_modified := rf_last_modified (?r body), catalog_name := rf_catalog (?r body)\<rparr>)"
    using assms body c blob h
    by (auto simp: LoadFromDisk_def Let_def ReadFileAll_def split: if_splits option.splits sum.splits blob_error.splits)
  have "\<not> IsStale now e" if "rf_expires (?r body) = 2 ^ 63 - 1 \<or> int64 (now + (rf_expires (?r body) - now_unix) * 1000000000)"
    unfolding e by (rule expiry_fields_fresh [OF c(3) that]) (simp add: blank_entry_def)
  then show ?thesis using body c blob h p IsHex64_chars [OF c(2)] unfolding Let_def
    by (intro exI [of _ body] exI [of _ blob] exI [of _ stream] conjI) (auto simp: e blank_entry_def)
qed

section \<open>Persisting and loading\<close>

text \<open>
  What the operations rely on in the file system: a created file holds the bytes written, a rename
  moves them, and nothing else changes; \<open>fs_up\<close> says that no call throws.
\<close>

definition fs_laws :: "'fs file_system \<Rightarrow> bool" where
  "fs_laws F \<longleftrightarrow>
     (\<forall>s p b s'. fs_create F s p b = Some s' \<longrightarrow> fs_read F s' = (fs_read F s)(p \<mapsto> b)) \<and>
     (\<forall>s p q s'. fs_move F s p q = Some s' \<longrightarrow> p \<noteq> q \<longrightarrow> fs_read F s' = (fs_read F s)(q := fs_read F s p, p := None)) \<and>
     (\<forall>s p s'. fs_mkdir F s p = Some s' \<longrightarrow> fs_read F s' = fs_read F s)"

definition fs_up :: "'fs file_system \<Rightarrow> bool" where
  "fs_up F \<longleftrightarrow> (\<forall>s p b. fs_create F s p b \<noteq> None) \<and> (\<forall>s p q. fs_move F s p q \<noteq> None) \<and> (\<forall>s p. fs_mkdir F s p \<noteq> None)"

lemma WriteFileAtomic_reads:
  assumes "fs_laws F" "fs_up F"
  shows "fst (WriteFileAtomic F p b t s)"
    "fs_read F (snd (WriteFileAtomic F p b t s)) = (fs_read F s)(p \<mapsto> b, p @ ''.tmp-'' @ t := None)"
proof -
  let ?t = "p @ ''.tmp-'' @ t"
  obtain s1 where c: "fs_create F s ?t b = Some s1" using assms(2) unfolding fs_up_def by (meson not_None_eq)
  obtain s2 where m: "fs_move F s1 ?t p = Some s2" using assms(2) unfolding fs_up_def by (meson not_None_eq)
  have r1: "fs_read F s1 = (fs_read F s)(?t \<mapsto> b)" using assms(1) c by (simp add: fs_laws_def)
  have "?t \<noteq> p" by simp
  then have r2: "fs_read F s2 = (fs_read F s1)(p := fs_read F s1 ?t, ?t := None)" using assms(1) m by (simp add: fs_laws_def)
  have "fs_read F s2 = (fs_read F s)(p \<mapsto> b, ?t := None)" unfolding r2 r1 by (simp add: fun_upd_twist)
  then show "fs_read F (snd (WriteFileAtomic F p b t s)) = (fs_read F s)(p \<mapsto> b, ?t := None)"
    "fst (WriteFileAtomic F p b t s)" using c m by (simp_all add: WriteFileAtomic_def Let_def)
qed

lemma mkdirs_reads:
  assumes "fs_laws F" "fs_up F"
  shows "fst (mkdirs F ps s) \<and> fs_read F (snd (mkdirs F ps s)) = fs_read F s"
proof (induction ps arbitrary: s)
  case (Cons p ps)
  obtain s1 where m: "MkdirP F p s = Some s1"
    using assms(2) unfolding fs_up_def MkdirP_def by (cases "fs_dir_exists F s p") (simp, meson not_None_eq)
  then have "fs_read F s1 = fs_read F s" using assms(1) by (auto simp: MkdirP_def fs_laws_def split: if_splits)
  then show ?case using Cons m by simp
qed simp

lemma ref_lines_line: "nl \<notin> set k \<Longrightarrow> nl \<notin> set v \<Longrightarrow> ref_lines (ref_line k v @ rest) = (k @ CHR ''='' # v) # ref_lines rest"
  using split_first_append [of nl "k @ CHR ''='' # v" rest]
  by (subst ref_lines.simps) (simp add: ref_line_def)

lemma ref_assign_line: "CHR ''='' \<notin> set k \<Longrightarrow> split_first CHR ''='' (k @ CHR ''='' # v) = (k, Some v)"
  by simp

definition one_line :: "string \<Rightarrow> bool" where "one_line s \<longleftrightarrow> nl \<notin> set s"

lemma show_int_one_line: "one_line (show_int i)"
proof -
  have "nl \<notin> set (show_nat n)" for n using show_nat_digits [of nl n] by (auto simp: is_digit_def)
  then show ?thesis by (simp add: one_line_def show_int_def)
qed

lemma ref_assign_keys:
  "ref_assign r (''keyfp'' @ CHR ''='' # v) = r\<lparr>rf_keyfp := v\<rparr>"
  "ref_assign r (''content'' @ CHR ''='' # v) = r\<lparr>rf_content := v\<rparr>"
  "ref_assign r (''expires_unix'' @ CHR ''='' # v) = r\<lparr>rf_expires := ParseInt v 0\<rparr>"
  "ref_assign r (''scope'' @ CHR ''='' # v) = r\<lparr>rf_scope := v\<rparr>"
  "ref_assign r (''etag'' @ CHR ''='' # v) = r\<lparr>rf_etag := v\<rparr>"
  "ref_assign r (''last_modified'' @ CHR ''='' # v) = r\<lparr>rf_last_modified := v\<rparr>"
  "ref_assign r (''rows'' @ CHR ''='' # v) = r\<lparr>rf_rows := ParseInt v 0\<rparr>"
  "ref_assign r (''bytes'' @ CHR ''='' # v) = r"
  "ref_assign r (''catalog'' @ CHR ''='' # v) = r\<lparr>rf_catalog := v\<rparr>"
  "ref_assign r (''function'' @ CHR ''='' # v) = r"
  "ref_assign r (''codec'' @ CHR ''='' # v) = r"
  "ref_assign r (''exch'' @ CHR ''='' # v) = r"
  unfolding ref_assign_def by (subst ref_assign_line; simp)+

lemma parse_ref_text:
  assumes "one_line fp" "one_line content" "one_line (escope e)" "one_line (eetag e)" "one_line (elast_modified e)"
    "one_line (catalog_name e)" "one_line (function_name (ekey e))" "one_line codec" "int64 x" "int64 (erows e)"
  shows "parse_ref (ref_text fp content x e codec) =
    \<lparr>rf_keyfp = fp, rf_content = content, rf_scope = escope e, rf_etag = eetag e, rf_last_modified = elast_modified e,
     rf_catalog = catalog_name e, rf_expires = x, rf_rows = erows e\<rparr>"
proof -
  have l: "ref_lines (ref_line k v @ rest) = (k @ CHR ''='' # v) # ref_lines rest" if "one_line k" "one_line v" for k v rest
    using that ref_lines_line by (simp add: one_line_def)
  have k: "one_line ''keyfp''" "one_line ''content''" "one_line ''expires_unix''" "one_line ''scope''" "one_line ''etag''"
    "one_line ''last_modified''" "one_line ''rows''" "one_line ''bytes''" "one_line ''catalog''" "one_line ''function''"
    "one_line ''codec''" "one_line ''exch''" "one_line ''1''"
    by (simp_all add: one_line_def)
  have nil: "ref_lines [] = []" by (simp add: ref_lines.simps)
  define tl where "tl = (if input_hash (ekey e) \<noteq> [] then ref_line ''exch'' ''1'' else [])"
  have "ref_lines (ref_text fp content x e codec) =
    [''keyfp'' @ CHR ''='' # fp, ''content'' @ CHR ''='' # content, ''expires_unix'' @ CHR ''='' # show_int x,
     ''scope'' @ CHR ''='' # escope e, ''etag'' @ CHR ''='' # eetag e, ''last_modified'' @ CHR ''='' # elast_modified e,
     ''rows'' @ CHR ''='' # show_int (erows e), ''bytes'' @ CHR ''='' # show_int (etotal_bytes e),
     ''catalog'' @ CHR ''='' # catalog_name e, ''function'' @ CHR ''='' # function_name (ekey e),
     ''codec'' @ CHR ''='' # codec] @ ref_lines tl"
    unfolding ref_text_def tl_def [symmetric] using assms k show_int_one_line by (simp only: l append.simps)
  moreover have "ref_lines tl = (if input_hash (ekey e) \<noteq> [] then [''exch'' @ CHR ''='' # ''1''] else [])"
    using l [OF k(12,13), of "[]"] nil by (simp add: tl_def)
  ultimately have "parse_ref (ref_text fp content x e codec) = foldl ref_assign no_fields
    ([''keyfp'' @ CHR ''='' # fp, ''content'' @ CHR ''='' # content, ''expires_unix'' @ CHR ''='' # show_int x,
     ''scope'' @ CHR ''='' # escope e, ''etag'' @ CHR ''='' # eetag e, ''last_modified'' @ CHR ''='' # elast_modified e,
     ''rows'' @ CHR ''='' # show_int (erows e), ''bytes'' @ CHR ''='' # show_int (etotal_bytes e),
     ''catalog'' @ CHR ''='' # catalog_name e, ''function'' @ CHR ''='' # function_name (ekey e),
     ''codec'' @ CHR ''='' # codec] @ (if input_hash (ekey e) \<noteq> [] then [''exch'' @ CHR ''='' # ''1''] else []))"
    by (simp only: parse_ref_def)
  also have "\<dots> = \<lparr>rf_keyfp = fp, rf_content = content, rf_scope = escope e, rf_etag = eetag e,
      rf_last_modified = elast_modified e, rf_catalog = catalog_name e, rf_expires = x, rf_rows = erows e\<rparr>"
    using assms(9,10)
    by (cases "input_hash (ekey e) = []") (simp_all only: foldl_append foldl.simps ref_assign_keys if_True if_False simp_thms,
      simp_all add: no_fields_def)
  finally show ?thesis .
qed

text \<open>An entry whose text fields fit on a line of a ref and whose numbers are 64-bit values.\<close>

definition ref_safe :: "int \<Rightarrow> VgiResultCacheEntry \<Rightarrow> bool" where
  "ref_safe t e \<longleftrightarrow> one_line (escope e) \<and> one_line (eetag e) \<and> one_line (elast_modified e) \<and> one_line (catalog_name e) \<and>
     one_line (function_name (ekey e)) \<and> int64 (ComputeExpiresUnix t e) \<and> int64 (erows e)"

lemma paths_differ:
  "object_path sha dir k c \<noteq> shard_dir sha dir k @ ''/refs'' @ x"
  "object_path sha dir k c \<noteq> ref_path sha dir k @ x"
  "ref_path sha dir k \<noteq> object_path sha dir k c @ x"
  by (simp_all add: object_path_def ref_path_def)

lemma PersistToDisk_reads:
  fixes t :: int and tmps :: "string \<times> string"
  assumes F: "fs_laws F" "fs_up F" and d: "dir \<noteq> []" "Fingerprint sha (ekey e) \<noteq> []"
    and fit: "length (SerializeEntryBlob transcode e (resolve codec) level) \<le> unat max_bytes"
  defines "blob \<equiv> SerializeEntryBlob transcode e (resolve codec) level"
  assumes same: "fs_read F s (object_path sha dir (ekey e) (sha blob)) \<in> {None, Some blob}"
  defines "s' \<equiv> PersistToDisk F sha transcode resolve t tmps e dir max_bytes codec level s"
  shows "fs_read F s' (object_path sha dir (ekey e) (sha blob)) = Some blob"
    and "fs_read F s' (ref_path sha dir (ekey e)) =
      Some (ref_text (Fingerprint sha (ekey e)) (sha blob) (ComputeExpiresUnix t e) e (resolve codec))"
proof -
  let ?k = "ekey e" and ?obj = "object_path sha dir (ekey e) (sha blob)"
  obtain s1 where s1: "make_shard F sha dir ?k s = (True, s1)" "fs_read F s1 = fs_read F s"
    using mkdirs_reads [OF F] unfolding make_shard_def by (metis prod.collapse)
  define w where "w = (if fs_read F s1 ?obj = None then WriteFileAtomic F ?obj blob (fst tmps) s1 else (True, s1))"
  have w: "fst w" "fs_read F (snd w) ?obj = Some blob"
    using WriteFileAtomic_reads [OF F, of ?obj blob "fst tmps" s1] same s1(2) by (auto simp: w_def)
  have mb: "max_bytes \<noteq> 0" using fit by (auto simp: SerializeEntryBlob_def)
  define rt where "rt = ref_text (Fingerprint sha ?k) (sha blob) (ComputeExpiresUnix t e) e (resolve codec)"
  have rp: "(shard_dir sha dir ?k @ ''/refs'') @ ''/'' @ Fingerprint sha ?k @ ''.ref'' = ref_path sha dir ?k"
    by (simp add: ref_path_def)
  have "s' = snd (WriteFileAtomic F (ref_path sha dir ?k) rt (snd tmps) (snd w))"
  proof -
    obtain b where b: "w = (True, b)" using w(1) by (cases w) auto
    then have wb: "(if fs_read F s1 ?obj = None then WriteFileAtomic F ?obj blob (fst tmps) s1 else (True, s1)) = (True, b)"
      by (simp only: w_def)
    have "\<not> length blob > unat max_bytes" using fit by (simp add: blob_def)
    then show ?thesis
      using d mb unfolding s'_def PersistToDisk_def Let_def blob_def [symmetric] s1(1) WriteRef_def rp rt_def b
      by (simp only: if_False if_True simp_thms case_prod_conv bool.case wb snd_conv)
  qed
  then have r: "fs_read F s' = (fs_read F (snd w))(ref_path sha dir ?k \<mapsto> rt, ref_path sha dir ?k @ ''.tmp-'' @ snd tmps := None)"
    using WriteFileAtomic_reads(2) [OF F] by simp
  show "fs_read F s' ?obj = Some blob"
    unfolding r using w(2) paths_differ(2) [of sha dir ?k "sha blob" "[]"] paths_differ(2) [of sha dir ?k "sha blob" "''.tmp-'' @ snd tmps"]
    by simp
  show "fs_read F s' (ref_path sha dir ?k) =
      Some (ref_text (Fingerprint sha ?k) (sha blob) (ComputeExpiresUnix t e) e (resolve codec))"
    unfolding r rt_def by simp
qed

text \<open>
  C35. What is persisted is what is loaded, by this or another process, now or after a restart.
  On a file system that obeys its contract, with a digest of 64 hex characters, an entry whose text
  fields contain no newline is read back under its key until it expires, with every batch, its row
  count, scope, validators and catalog, and with the lifetime it had left (reckoned in
  64-bit nanoseconds, as the loader does).
\<close>

theorem persist_load_roundtrip:
  assumes F: "fs_laws F" "fs_up F" and sha: "\<forall>b. IsHex64 (sha b)" and dir: "dir \<noteq> []"
    and e: "ref_safe t e" "one_line (resolve codec)"
    and fit: "length (SerializeEntryBlob transcode e (resolve codec) level) \<le> unat max_bytes"
      "length (SerializeEntryBlob transcode e (resolve codec) level) < 2 ^ 63"
    and rows: "\<forall>cb \<in> set (all_batches e). int64 (cb_rows cb)" "length (all_batches e) < fuel"
    and same: "fs_read F s (object_path sha dir (ekey e) (sha (SerializeEntryBlob transcode e (resolve codec) level))) \<in>
      {None, Some (SerializeEntryBlob transcode e (resolve codec) level)}"
    and live: "enever_expires e \<or> now_unix < ComputeExpiresUnix t e"
  shows "\<exists>stream. ParseEntryBlobIntoStream fuel (SerializeEntryBlob transcode e (resolve codec) level) =
      Some (Inr (stream, sbytes stream)) \<and>
    batches stream = map (\<lambda>cb. stored_batch cb (payload_bytes transcode (resolve codec) level cb)) (all_batches e) \<and>
    LoadFromDisk F sha fuel now_unix now (ekey e) dir
      (PersistToDisk F sha transcode resolve t tmps e dir max_bytes codec level s) =
    Some (Served (expiry_fields (ComputeExpiresUnix t e) now_unix now
      (blank_entry (ekey e)\<lparr>streams := [stream], etotal_bytes := sbytes stream, erows := erows e, escope := escope e,
         eetag := eetag e, elast_modified := elast_modified e, catalog_name := catalog_name e\<rparr>)))"
proof -
  let ?blob = "SerializeEntryBlob transcode e (resolve codec) level" and ?k = "ekey e"
  have fp: "Fingerprint sha ?k \<noteq> []" "one_line (Fingerprint sha ?k)" "one_line (sha ?blob)"
  proof -
    show "Fingerprint sha ?k \<noteq> []"
      using sha [rule_format, of "key_preimage ?k"] by (auto simp: Fingerprint_def IsHex64_def)
    show "one_line (Fingerprint sha ?k)" "one_line (sha ?blob)"
      using sha IsHex64_chars by (auto simp: Fingerprint_def one_line_def)
  qed
  note r = PersistToDisk_reads [where sha = sha and resolve = resolve and codec = codec and t = t and tmps = tmps,
      OF F dir fp(1) fit(1) same]
  note p = parse_ref_text [OF fp(2,3), of e "resolve codec" "ComputeExpiresUnix t e"]
  have live': "ComputeExpiresUnix t e = 2 ^ 63 - 1 \<or> now_unix < ComputeExpiresUnix t e"
    using live by (auto simp: ComputeExpiresUnix_def)
  define stream where "stream = \<lparr>batches = map (\<lambda>cb. stored_batch cb (payload_bytes transcode (resolve codec) level cb)) (all_batches e),
    sbytes = (\<Sum>cb\<leftarrow>all_batches e. int (length (payload_bytes transcode (resolve codec) level cb))),
    srows = (\<Sum>cb\<leftarrow>all_batches e. cb_rows cb)\<rparr>"
  have st: "ParseEntryBlobIntoStream fuel ?blob = Some (Inr (stream, sbytes stream))"
    "batches stream = map (\<lambda>cb. stored_batch cb (payload_bytes transcode (resolve codec) level cb)) (all_batches e)"
    using parse_serialized [OF fit(2) rows] by (simp_all add: stream_def)
  show ?thesis
  proof (intro exI conjI)
    show "LoadFromDisk F sha fuel now_unix now ?k dir (PersistToDisk F sha transcode resolve t tmps e dir max_bytes codec level s) =
    Some (Served (expiry_fields (ComputeExpiresUnix t e) now_unix now
      (blank_entry ?k\<lparr>streams := [stream], etotal_bytes := sbytes stream, erows := erows e, escope := escope e,
         eetag := eetag e, elast_modified := elast_modified e, catalog_name := catalog_name e\<rparr>)))"
      using e dir fp(1) sha live' p unfolding LoadFromDisk_def ReadFileAll_def r(2) Let_def
      by (simp add: ref_safe_def r(1) st(1) not_le)
  qed (rule st)+
qed

text \<open>A file system that is a map from paths to bytes, on which every call succeeds, and a digest of 64 digits.\<close>

definition map_files :: "(string \<rightharpoonup> string) file_system" where
  "map_files = \<lparr>fs_read = (\<lambda>s. s), fs_create = (\<lambda>s p b. Some (s(p \<mapsto> b))),
     fs_move = (\<lambda>s p q. Some (if p = q then s else s(q := s p, p := None))),
     fs_mkdir = (\<lambda>s p. Some s), fs_dir_exists = (\<lambda>s p. False), fs_list = (\<lambda>s p. []),
     fs_remove = (\<lambda>s p. (s p \<noteq> None, s(p := None))), fs_mtime = (\<lambda>s p. Some 0),
     fs_open = (\<lambda>s p. Some (if s p = None then s(p \<mapsto> []) else s)),
     fs_write = (\<lambda>s p pos b. (int (length b), s(p := map_option (\<lambda>c. memcpy c pos b) (s p))))\<rparr>"

definition constant_digest :: "string \<Rightarrow> string" where
  "constant_digest b = replicate 64 CHR ''a''"

lemma map_files_laws: "fs_laws map_files" "fs_up map_files"
  by (auto simp: fs_laws_def fs_up_def map_files_def)

lemma constant_digest_hex: "IsHex64 (constant_digest b)"
  by (simp add: IsHex64_def constant_digest_def list_all_iff)

definition kept_entry :: VgiResultCacheEntry where
  "kept_entry = (blank_entry blank_key)\<lparr>enever_expires := True, eetag := ''v1''\<rparr>"

theorem persist_load_roundtrip_witness:
  "\<exists>e. LoadFromDisk map_files constant_digest 1 0 0 (ekey kept_entry) ''d''
      (PersistToDisk map_files constant_digest (\<lambda>p _ _. p) (\<lambda>c. c) 0 ([], []) kept_entry ''d'' 100 ''none'' 1 Map.empty) =
    Some (Served e) \<and> eetag e = ''v1'' \<and> enever_expires e"
proof -
  have e: "ref_safe 0 kept_entry" "all_batches kept_entry = []" "enever_expires kept_entry" "eetag kept_entry = ''v1''"
    "ComputeExpiresUnix 0 kept_entry = 2 ^ 63 - 1"
    by (simp_all add: kept_entry_def blank_entry_def blank_key_def ref_safe_def one_line_def ComputeExpiresUnix_def all_batches_def)
  then have b: "SerializeEntryBlob (\<lambda>p _ _. p) kept_entry ''none'' 1 = ''VRC1''" by (simp add: SerializeEntryBlob_flat)
  from persist_load_roundtrip [OF map_files_laws, of constant_digest "''d''" 0 kept_entry "\<lambda>c. c" "''none''" "\<lambda>p _ _. p" 1 100 1
      Map.empty 0 0 "([], [])"]
  show ?thesis
    by (auto simp: constant_digest_hex e b one_line_def map_files_def expiry_fields_def)
qed

definition stored_files :: "string \<rightharpoonup> string" where
  "stored_files = [ref_path constant_digest ''d'' blank_key \<mapsto>
       ref_text (constant_digest []) (constant_digest []) 50 kept_entry ''none'',
     object_path constant_digest ''d'' blank_key (constant_digest []) \<mapsto> ''VRC1'']"

theorem LoadFromDisk_integrity_witness:
  "\<exists>e. LoadFromDisk map_files constant_digest 1 40 7 blank_key ''d'' stored_files = Some (Served e) \<and>
     ekey e = blank_key \<and> \<not> IsStale 7 e"
proof -
  have d: "constant_digest x = constant_digest []" for x by (simp add: constant_digest_def)
  have fp: "Fingerprint constant_digest k = constant_digest []" for k using d by (simp add: Fingerprint_def)
  have ne: "constant_digest [] \<noteq> []" by (simp add: constant_digest_def)
  have ol: "one_line (constant_digest [])" by (simp add: one_line_def constant_digest_def)
  have p: "parse_ref (ref_text (constant_digest []) (constant_digest []) 50 kept_entry ''none'') =
    \<lparr>rf_keyfp = constant_digest [], rf_content = constant_digest [], rf_scope = ''catalog'', rf_etag = ''v1'',
     rf_last_modified = [], rf_catalog = [], rf_expires = 50, rf_rows = 0\<rparr>"
    by (subst parse_ref_text) (simp_all add: ol, simp_all add: kept_entry_def blank_entry_def blank_key_def one_line_def)
  have r: "stored_files (ref_path constant_digest ''d'' blank_key) =
      Some (ref_text (constant_digest []) (constant_digest []) 50 kept_entry ''none'')"
    "stored_files (object_path constant_digest ''d'' blank_key (constant_digest [])) = Some ''VRC1''"
    using paths_differ(2) [of constant_digest "''d''" blank_key "constant_digest []" "[]"] by (auto simp: stored_files_def)
  have l: "\<exists>e. LoadFromDisk map_files constant_digest 1 40 7 blank_key ''d'' stored_files = Some (Served e)"
    by (simp add: LoadFromDisk_def Let_def ReadFileAll_def map_files_def fp ne r p constant_digest_hex d [of "''VRC1''"]
        ParseEntryBlobIntoStream_def)
  then obtain e where e: "LoadFromDisk map_files constant_digest 1 40 7 blank_key ''d'' stored_files = Some (Served e)" ..
  have x: "rf_expires (parse_ref body) = 50" if "fs_read map_files stored_files (ref_path constant_digest ''d'' blank_key) = Some body" for body
    using that r p by (auto simp: map_files_def)
  have "ekey e = blank_key \<and> \<not> IsStale 7 e" using LoadFromDisk_integrity [OF e]
    by (elim exE conjE) (simp add: Let_def x)
  with e show ?thesis by blast
qed

section \<open>Newlines in a ref\<close>

text \<open>
  The writer does not escape newlines, and a later line wins. An entry tag that carries one sets any
  field of the ref that is loaded: here a worker's tag makes a result that expires at second 50
  load as one that never expires, past the bound on lifetimes.
\<close>

definition injecting_entry :: VgiResultCacheEntry where
  "injecting_entry = (blank_entry blank_key)\<lparr>eetag := ''x'' @ nl # ''expires_unix=9223372036854775807''\<rparr>"

theorem ref_newline_injection:
  "rf_expires (parse_ref (ref_text (constant_digest []) (constant_digest []) 50 injecting_entry ''none'')) = 2 ^ 63 - 1"
proof -

  have l: "ref_lines (ref_line k v @ rest) = (k @ CHR ''='' # v) # ref_lines rest" if "one_line k" "one_line v" for k v rest
    using that ref_lines_line by (simp add: one_line_def)
  have tag: "ref_line ''etag'' (eetag injecting_entry) = ref_line ''etag'' ''x'' @ ref_line ''expires_unix'' ''9223372036854775807''"
    by (simp add: ref_line_def injecting_entry_def)
  have ol: "one_line ''keyfp''" "one_line ''content''" "one_line ''expires_unix''" "one_line ''scope''" "one_line ''etag''"
    "one_line ''last_modified''" "one_line ''rows''" "one_line ''bytes''" "one_line ''catalog''" "one_line ''function''"
    "one_line ''codec''" "one_line ''none''" "one_line ''x''" "one_line ''9223372036854775807''" "one_line (constant_digest [])"
    "one_line (escope injecting_entry)" "one_line (elast_modified injecting_entry)" "one_line (catalog_name injecting_entry)"
    "one_line (function_name (ekey injecting_entry))" "input_hash (ekey injecting_entry) = []" "one_line (show_int i)" for i
    by (simp_all add: one_line_def constant_digest_def injecting_entry_def blank_entry_def blank_key_def
        show_int_one_line [unfolded one_line_def])
  have "ParseInt ''9223372036854775807'' 0 = 2 ^ 63 - 1"
    by (simp add: ParseInt_def scan_integer_def digits_value_def is_digit_def c_space_def)
  then show ?thesis
    unfolding parse_ref_def ref_text_def tag
    by (simp only: l ol append_assoc foldl.simps ref_assign_keys) (simp add: no_fields_def ref_lines.simps ol)
qed

end
