(* ===== verification/Disk_Reaper.thy ===== *)
theory Disk_Reaper
  imports Disk_Store "HOL-Library.Multiset"
begin

text \<open>
  The reaper of the loose files, \<^verbatim>\<open>ReapDisk\<close> of \<^verbatim>\<open>src/src/vgi_result_cache.cpp\<close>: expiry per shard,
  the byte cap and the cap on exchange refs over all shards, then the sweep of objects no live ref
  names. Refs of equal age are taken in listing order.
\<close>

record RefInfo =
  ri_path :: string
  ri_shard :: string
  ri_content :: string
  ri_mtime :: int
  ri_bytes :: int
  ri_exchange :: bool

record reap_line =
  rl_content :: string
  rl_expires :: int
  rl_bytes :: int
  rl_exchange :: bool

definition reap_assign :: "reap_line \<Rightarrow> string \<Rightarrow> reap_line" where
  "reap_assign r line =
     (case split_first CHR ''='' line of
        (k, None) \<Rightarrow> r
      | (k, Some v) \<Rightarrow>
          if k = ''content'' then r\<lparr>rl_content := v\<rparr>
          else if k = ''expires_unix'' then r\<lparr>rl_expires := ParseInt v (2 ^ 63 - 1)\<rparr>
          else if k = ''bytes'' then r\<lparr>rl_bytes := ParseInt v 0\<rparr>
          else if k = ''exch'' then r\<lparr>rl_exchange := (v = ''1'')\<rparr>
          else r)"

definition reap_fields :: "string \<Rightarrow> reap_line" where
  "reap_fields body = foldl reap_assign \<lparr>rl_content = [], rl_expires = 2 ^ 63 - 1, rl_bytes = 0, rl_exchange = False\<rparr> (ref_lines body)"

text \<open>Whole seconds of a time in microseconds, rounded towards zero.\<close>

definition micros_to_s :: "int \<Rightarrow> int" where
  "micros_to_s us = (if us \<ge> 0 then us div 1000000 else - ((- us) div 1000000))"

section \<open>Pass 1: expired refs\<close>

record 'fs reaping =
  r_fs :: 'fs
  r_removed :: nat
  r_live :: "RefInfo list"

definition remove_ref :: "'fs file_system \<Rightarrow> string \<Rightarrow> 'fs reaping \<Rightarrow> 'fs reaping" where
  "remove_ref F path st =
     (case fs_remove F (r_fs st) path of (ok, s) \<Rightarrow>
        st\<lparr>r_fs := s, r_removed := r_removed st + (if ok then 1 else 0)\<rparr>)"

definition pass1_ref :: "'fs file_system \<Rightarrow> int \<Rightarrow> string \<Rightarrow> string \<Rightarrow> 'fs reaping \<Rightarrow> 'fs reaping" where
  "pass1_ref F now_unix shard name st =
     (let path = shard @ ''/refs/'' @ name in
      case ReadFileAll F path (r_fs st) of
        None \<Rightarrow> st
      | Some body \<Rightarrow>
          let r = reap_fields body in
          if rl_expires r \<noteq> 2 ^ 63 - 1 \<and> now_unix \<ge> rl_expires r then remove_ref F path st
          else if rl_content r = [] then st
          else
            let mt = (case fs_mtime F (r_fs st) path of None \<Rightarrow> 0 | Some us \<Rightarrow> micros_to_s us) in
            st\<lparr>r_live := r_live st @ [\<lparr>ri_path = path, ri_shard = shard, ri_content = rl_content r, ri_mtime = mt,
                                     ri_bytes = rl_bytes r, ri_exchange = rl_exchange r\<rparr>]\<rparr>)"

definition pass1_shard :: "'fs file_system \<Rightarrow> int \<Rightarrow> string \<Rightarrow> 'fs reaping \<Rightarrow> 'fs reaping" where
  "pass1_shard F now_unix shard st =
     (if fs_dir_exists F (r_fs st) (shard @ ''/refs'')
      then fold (\<lambda>(name, _). pass1_ref F now_unix shard name) (fs_list F (r_fs st) (shard @ ''/refs'')) st
      else st)"

section \<open>Passes 2 and 2b: the caps\<close>

text \<open>
  The refs to evict, oldest first, and those that stay. An evicted ref is unlinked, and its content
  is taken out of the live contents of its shard.
\<close>

fun over_bytes :: "int \<Rightarrow> int \<Rightarrow> RefInfo list \<Rightarrow> RefInfo list \<times> RefInfo list" where
  "over_bytes cap tot [] = ([], [])"
| "over_bytes cap tot (r # rs) =
     (if tot \<le> cap then ([], r # rs)
      else let (ev, keep) = over_bytes cap (tot - ri_bytes r) rs in (r # ev, keep))"

definition ref_bytes_total :: "RefInfo list \<Rightarrow> int" where
  "ref_bytes_total rs = (\<Sum>r\<leftarrow>rs. ri_bytes r)"

definition pass2 :: "u64 \<Rightarrow> RefInfo list \<Rightarrow> RefInfo list \<times> RefInfo list" where
  "pass2 max_bytes live =
     (if ref_bytes_total live > i64_of max_bytes
      then over_bytes (i64_of max_bytes) (ref_bytes_total live) (sort_key ri_mtime live)
      else ([], live))"

definition pass2b :: "u64 \<Rightarrow> RefInfo list \<Rightarrow> RefInfo list \<times> RefInfo list" where
  "pass2b max_refs live =
     (let exch = filter ri_exchange live in
      if max_refs > 0 \<and> length exch > unat max_refs then
        let ev = take (length exch - unat max_refs) (sort_key ri_mtime exch)
        in (ev, filter (\<lambda>r. r \<notin> set ev) live)
      else ([], live))"

section \<open>Pass 3: orphaned objects\<close>

definition ends_vrc :: "string \<Rightarrow> bool" where
  "ends_vrc name \<longleftrightarrow> length name > 4 \<and> drop (length name - 4) name = ''.vrc''"

definition is_orphan :: "'fs file_system \<Rightarrow> int \<Rightarrow> string \<Rightarrow> string set \<Rightarrow> 'fs \<Rightarrow> string \<Rightarrow> bool" where
  "is_orphan F now_unix objects live s name \<longleftrightarrow>
     (contains ''.tmp-'' name \<or> ends_vrc name) \<and>
     \<not> (ends_vrc name \<and> take (length name - 4) name \<in> live) \<and>
     (case fs_mtime F s (objects @ ''/'' @ name) of
        None \<Rightarrow> False
      | Some us \<Rightarrow> now_unix - micros_to_s us \<ge> (if contains ''.tmp-stream-'' name then 3600 else 60))"

definition pass3_shard :: "'fs file_system \<Rightarrow> int \<Rightarrow> (string \<Rightarrow> string set) \<Rightarrow> string \<Rightarrow> 'fs \<Rightarrow> 'fs" where
  "pass3_shard F now_unix live shard s =
     (let objects = shard @ ''/objects'' in
      if fs_dir_exists F s objects then
        fold (\<lambda>name s. snd (fs_remove F s (objects @ ''/'' @ name)))
          (filter (is_orphan F now_unix objects (live shard) s) (map fst (fs_list F s objects))) s
      else s)"

section \<open>The whole reap\<close>

definition live_after :: "RefInfo list \<Rightarrow> RefInfo list \<Rightarrow> string \<Rightarrow> string set" where
  "live_after live evicted shard =
     set (map ri_content (filter (\<lambda>r. ri_shard r = shard) live)) -
     set (map ri_content (filter (\<lambda>r. ri_shard r = shard) evicted))"

definition ReapDisk :: "'fs file_system \<Rightarrow> string \<Rightarrow> u64 \<Rightarrow> u64 \<Rightarrow> int \<Rightarrow> 'fs \<Rightarrow> nat \<times> 'fs" where
  "ReapDisk F dir max_bytes max_refs now_unix s =
     (if dir = [] \<or> max_bytes = 0 \<or> \<not> fs_dir_exists F s dir then (0, s)
      else
        let shards = map (\<lambda>(name, _). dir @ ''/'' @ name) (filter snd (fs_list F s dir));
            st1 = fold (pass1_shard F now_unix) shards \<lparr>r_fs = s, r_removed = 0, r_live = []\<rparr>;
            (ev2, keep2) = pass2 max_bytes (r_live st1);
            st2 = fold (\<lambda>r. remove_ref F (ri_path r)) ev2 st1;
            (ev3, keep3) = pass2b max_refs keep2;
            st3 = fold (\<lambda>r. remove_ref F (ri_path r)) ev3 st2
        in (r_removed st3, fold (pass3_shard F now_unix (live_after (r_live st1) (ev2 @ ev3))) shards (r_fs st3)))"

section \<open>What the caps do\<close>

lemma over_bytes_split: "over_bytes cap tot rs = (ev, keep) \<Longrightarrow> rs = ev @ keep"
  by (induction rs arbitrary: tot ev) (auto split: if_splits prod.splits)

lemma over_bytes_stop:
  "over_bytes cap tot rs = (ev, keep) \<Longrightarrow> keep = [] \<or> tot - ref_bytes_total ev \<le> cap"
proof (induction rs arbitrary: tot ev)
  case (Cons r rs)
  then show ?case by (fastforce simp: ref_bytes_total_def split: if_splits prod.splits)
qed simp

lemma over_bytes_minimal:
  "over_bytes cap tot rs = (ev, keep) \<Longrightarrow> ev \<noteq> [] \<Longrightarrow> tot - ref_bytes_total (butlast ev) > cap"
proof (induction rs arbitrary: tot ev)
  case (Cons r rs)
  obtain ev' keep' where o: "over_bytes cap (tot - ri_bytes r) rs = (ev', keep')" by fastforce
  have tot: "\<not> tot \<le> cap" "ev = r # ev'" "keep = keep'" using Cons.prems o by (auto split: if_splits)
  show ?case
  proof (cases "ev' = []")
    case True
    then show ?thesis using tot by (simp add: ref_bytes_total_def)
  next
    case False
    then show ?thesis using Cons.IH [of "tot - ri_bytes r" ev'] o tot by (simp add: ref_bytes_total_def)
  qed
qed simp

lemma ref_bytes_total_mset: "mset xs = mset ys \<Longrightarrow> ref_bytes_total xs = ref_bytes_total ys"
  unfolding ref_bytes_total_def by (metis mset_map sum_mset_sum_list)

lemma ref_bytes_total_append [simp]: "ref_bytes_total (xs @ ys) = ref_bytes_total xs + ref_bytes_total ys"
  by (simp add: ref_bytes_total_def)

lemma over_bytes_sorted:
  assumes o: "over_bytes cap (ref_bytes_total live) (sort_key ri_mtime live) = (ev, keep)" and cap: "0 \<le> cap"
  shows "mset ev + mset keep = mset live" "ref_bytes_total keep \<le> cap"
    "\<forall>e \<in> set ev. \<forall>k \<in> set keep. ri_mtime e \<le> ri_mtime k"
    "ev \<noteq> [] \<Longrightarrow> ref_bytes_total (last ev # keep) > cap"
proof -
  have s: "sort_key ri_mtime live = ev @ keep" by (rule over_bytes_split [OF o])
  show ms: "mset ev + mset keep = mset live" using arg_cong [OF s, of mset] by simp
  have t: "ref_bytes_total live = ref_bytes_total ev + ref_bytes_total keep"
    using ref_bytes_total_mset [of live "ev @ keep"] ms by simp
  have "sorted (map ri_mtime (ev @ keep))" unfolding s [symmetric] by simp
  then show "\<forall>e \<in> set ev. \<forall>k \<in> set keep. ri_mtime e \<le> ri_mtime k" by (simp add: sorted_append)
  show "ref_bytes_total keep \<le> cap"
  proof (cases "keep = []")
    case True
    then show ?thesis using cap by (simp add: ref_bytes_total_def)
  next
    case False
    then show ?thesis using over_bytes_stop [OF o] t by simp
  qed
  assume ne: "ev \<noteq> []"
  have "ref_bytes_total ev = ref_bytes_total (butlast ev) + ref_bytes_total [last ev]"
    using ref_bytes_total_append [of "butlast ev" "[last ev]"] ne by (simp del: ref_bytes_total_append)
  then show "ref_bytes_total (last ev # keep) > cap"
    using over_bytes_minimal [OF o ne] t ref_bytes_total_append [of "[last ev]" keep] by (simp del: ref_bytes_total_append)
qed

lemma pass2_cases:
  "pass2 max_bytes live = (ev, keep) \<Longrightarrow>
   ev = [] \<and> keep = live \<and> ref_bytes_total live \<le> i64_of max_bytes \<or>
   over_bytes (i64_of max_bytes) (ref_bytes_total live) (sort_key ri_mtime live) = (ev, keep)"
  by (cases "ref_bytes_total live > i64_of max_bytes") (simp_all add: pass2_def)

lemma pass2_correct:
  assumes p: "pass2 max_bytes live = (ev, keep)" and cap: "0 \<le> i64_of max_bytes"
  shows "mset ev + mset keep = mset live \<and> ref_bytes_total keep \<le> i64_of max_bytes \<and>
    (\<forall>e \<in> set ev. \<forall>k \<in> set keep. ri_mtime e \<le> ri_mtime k) \<and>
    (ev \<noteq> [] \<longrightarrow> ref_bytes_total (last ev # keep) > i64_of max_bytes)"
  using pass2_cases [OF p] over_bytes_sorted [OF _ cap, of live ev keep] by (elim disjE) simp_all

lemma filter_out_mset: "mset ys \<subseteq># mset xs \<Longrightarrow> length (filter (\<lambda>x. x \<notin> set ys) xs) \<le> length xs - length ys"
proof -
  assume sub: "mset ys \<subseteq># mset xs"
  have "filter_mset (\<lambda>x. x \<notin> set ys) (mset xs) \<subseteq># mset xs - mset ys"
  proof (rule mset_subset_eqI)
    fix a
    show "count (filter_mset (\<lambda>x. x \<notin> set ys) (mset xs)) a \<le> count (mset xs - mset ys) a"
    proof (cases "a \<in> set ys")
      case False
      then have z: "count (mset ys) a = 0" by simp
      show ?thesis unfolding count_diff z by simp
    qed simp
  qed
  then have "size (filter_mset (\<lambda>x. x \<notin> set ys) (mset xs)) \<le> size (mset xs - mset ys)" by (rule size_mset_mono)
  then show ?thesis using sub by (simp add: size_Diff_submset flip: mset_filter)
qed

lemma take_sorted_correct:
  fixes live :: "RefInfo list" and n :: nat
  defines "x \<equiv> filter ri_exchange live"
  defines "ev \<equiv> take n (sort_key ri_mtime x)"
  defines "keep \<equiv> filter (\<lambda>r. r \<notin> set ev) live"
  assumes n: "n \<le> length x"
  shows "set ev \<subseteq> set x" "length (filter ri_exchange keep) \<le> length x - n"
    "\<forall>e \<in> set ev. \<forall>k \<in> set keep. ri_exchange k \<longrightarrow> ri_mtime e \<le> ri_mtime k"
proof -
  let ?s = "sort_key ri_mtime x"
  show "set ev \<subseteq> set x" using set_take_subset [of n ?s] by (simp add: ev_def)
  have "mset ev + mset (drop n ?s) = mset x" unfolding ev_def mset_append [symmetric] append_take_drop_id by simp
  then have ms: "mset ev \<subseteq># mset x" by (metis mset_subset_eq_add_left)
  have "filter ri_exchange keep = filter (\<lambda>r. r \<notin> set ev) x" by (simp add: keep_def x_def conj_commute)
  moreover have "length ev = n" using n by (simp add: ev_def)
  ultimately show "length (filter ri_exchange keep) \<le> length x - n" using filter_out_mset [OF ms] by simp
  have so: "sorted (map ri_mtime (ev @ drop n ?s))" unfolding ev_def append_take_drop_id by simp
  have "ri_mtime e \<le> ri_mtime k" if "e \<in> set ev" "k \<in> set keep" "ri_exchange k" for e k
  proof -
    have "k \<in> set (ev @ drop n ?s)" using that(2,3) unfolding ev_def append_take_drop_id by (simp add: keep_def x_def)
    then have "k \<in> set (drop n ?s)" using that(2) by (simp add: keep_def)
    then show ?thesis using so that(1) by (simp add: sorted_append)
  qed
  then show "\<forall>e \<in> set ev. \<forall>k \<in> set keep. ri_exchange k \<longrightarrow> ri_mtime e \<le> ri_mtime k" by simp
qed

lemma pass2b_correct:
  assumes p: "pass2b max_refs live = (ev, keep)"
  shows "set ev \<subseteq> set (filter ri_exchange live) \<and> set keep = set live - set ev \<and>
    (max_refs > 0 \<longrightarrow> length (filter ri_exchange keep) \<le> unat max_refs) \<and>
    (\<forall>e \<in> set ev. \<forall>k \<in> set keep. ri_exchange k \<longrightarrow> ri_mtime e \<le> ri_mtime k)"
proof (cases "max_refs > 0 \<and> length (filter ri_exchange live) > unat max_refs")
  case False
  then have "ev = []" "keep = live" using p by (auto simp: pass2b_def Let_def)
  then show ?thesis using False by auto
next
  case True
  let ?n = "length (filter ri_exchange live) - unat max_refs"
  have e: "ev = take ?n (sort_key ri_mtime (filter ri_exchange live))" and k: "keep = filter (\<lambda>r. r \<notin> set ev) live"
    using p True by (auto simp: pass2b_def Let_def)
  have "?n \<le> length (filter ri_exchange live)" by simp
  note c = take_sorted_correct [OF this, folded e, folded k]
  have "length (filter ri_exchange keep) \<le> unat max_refs" using c(2) True by linarith
  then show ?thesis using c(1,3) k by (intro conjI) auto
qed

text \<open>
  C36. The reaper enforces both caps and takes the oldest first. Of the refs that have not expired,
  the byte cap evicts and keeps each exactly once; what stays fits the cap; nothing evicted is newer
  than anything kept; and the last ref evicted was needed, since with it the cap would be exceeded.
  The cap on exchange refs then evicts exchange refs only, never a producer's, leaves at most the cap
  of them, and again none newer than one it keeps.
\<close>

theorem reap_caps_correct:
  assumes "pass2 max_bytes live = (ev, keep)" "pass2b max_refs keep = (ev', keep')" "0 \<le> i64_of max_bytes"
  shows "mset ev + mset keep = mset live \<and> ref_bytes_total keep \<le> i64_of max_bytes \<and>
    (\<forall>e \<in> set ev. \<forall>k \<in> set keep. ri_mtime e \<le> ri_mtime k) \<and>
    (ev \<noteq> [] \<longrightarrow> ref_bytes_total (last ev # keep) > i64_of max_bytes) \<and>
    set ev' \<subseteq> set (filter ri_exchange keep) \<and> set keep' = set keep - set ev' \<and>
    (max_refs > 0 \<longrightarrow> length (filter ri_exchange keep') \<le> unat max_refs) \<and>
    (\<forall>e \<in> set ev'. \<forall>k \<in> set keep'. ri_exchange k \<longrightarrow> ri_mtime e \<le> ri_mtime k)"
  using pass2_correct [OF assms(1,3)] pass2b_correct [OF assms(2)] by (elim conjE) (intro conjI)

definition sample_ref :: "int \<Rightarrow> int \<Rightarrow> bool \<Rightarrow> RefInfo" where
  "sample_ref mt b x = \<lparr>ri_path = ''p'', ri_shard = ''s'', ri_content = ''c'', ri_mtime = mt, ri_bytes = b, ri_exchange = x\<rparr>"

theorem reap_caps_correct_witness:
  "pass2 10 [sample_ref 5 6 True, sample_ref 3 7 False] = ([sample_ref 3 7 False], [sample_ref 5 6 True]) \<and>
   ref_bytes_total [sample_ref 5 6 True] \<le> i64_of 10 \<and>
   ref_bytes_total [sample_ref 3 7 False, sample_ref 5 6 True] > i64_of 10"
proof -
  have i: "i64_of 10 = 10" by (simp add: i64_of_def)
  have p: "pass2 10 [sample_ref 5 6 True, sample_ref 3 7 False] = ([sample_ref 3 7 False], [sample_ref 5 6 True])"
    by (simp add: pass2_def i ref_bytes_total_def sample_ref_def)
  have q: "pass2b 1 [sample_ref 5 6 True] = ([], [sample_ref 5 6 True])" by (simp add: pass2b_def)
  have c: "0 \<le> i64_of 10" by (simp add: i)
  from reap_caps_correct [OF p q c] p show ?thesis by simp
qed

text \<open>
  The live contents of a shard form a set, from which an eviction removes the evicted content even
  when a ref that stays names the same content: its object is then swept as an orphan once past the
  grace period, and the ref that stays leads nowhere.
\<close>

theorem reap_orphans_shared_content:
  "\<exists>live ev keep r. pass2 10 live = (ev, keep) \<and> r \<in> set keep \<and> ri_content r \<notin> live_after live ev (ri_shard r)"
proof -
  have "pass2 10 [sample_ref 5 6 True, sample_ref 3 7 False] = ([sample_ref 3 7 False], [sample_ref 5 6 True])"
    by (simp add: pass2_def i64_of_def ref_bytes_total_def sample_ref_def)
  moreover have "ri_content (sample_ref 5 6 True) \<notin>
      live_after [sample_ref 5 6 True, sample_ref 3 7 False] [sample_ref 3 7 False] (ri_shard (sample_ref 5 6 True))"
    by (simp add: live_after_def sample_ref_def)
  ultimately show ?thesis by (meson list.set_intros(1))
qed

end
