(* ===== verification/Batch_Validation.thy ===== *)
theory Batch_Validation
  imports Vgi_Prelude
begin

unbundle bit_operations_syntax

text \<open>
  The checks on Arrow batches that a worker sends, \<^verbatim>\<open>src/src/vgi_batch_validation.cpp\<close>. A schema is
  the tree of the Arrow C interface, an array view the tree that nanoarrow builds over it. nanoarrow's
  own checks, DuckDB's UTF-8 analysis and the settings of a query are arguments.
\<close>

section \<open>Levels\<close>

datatype WorkerBatchValidation = NONE | STRUCTURAL | FULL

definition ParseWorkerBatchValidation :: "(string \<Rightarrow> string) \<Rightarrow> (string \<Rightarrow> string) \<Rightarrow> string \<Rightarrow> WorkerBatchValidation option" where
  "ParseWorkerBatchValidation lower trim value =
     (let v = trim (lower value) in
      if v = ''full'' then Some FULL
      else if v = ''structural'' then Some STRUCTURAL
      else if v = ''none'' then Some NONE
      else None)"

fun WorkerBatchValidationName :: "WorkerBatchValidation \<Rightarrow> string" where
  "WorkerBatchValidationName FULL = ''full''"
| "WorkerBatchValidationName STRUCTURAL = ''structural''"
| "WorkerBatchValidationName NONE = ''none''"

text \<open>The setting of a query: none without a context, \<open>Some None\<close> when unset or null.\<close>

definition GetWorkerBatchValidation ::
  "(string \<Rightarrow> string) \<Rightarrow> (string \<Rightarrow> string) \<Rightarrow> string option option \<Rightarrow> WorkerBatchValidation" where
  "GetWorkerBatchValidation lower trim context =
     (case context of
        None \<Rightarrow> FULL
      | Some None \<Rightarrow> FULL
      | Some (Some value) \<Rightarrow> (case ParseWorkerBatchValidation lower trim value of None \<Rightarrow> FULL | Some l \<Rightarrow> l))"

section \<open>Type structure\<close>

datatype ArrowSchema =
  ArrowSchema (format: "string option") (fname: string) (flags: u64) (children: "ArrowSchema list")
    (dictionary: "ArrowSchema option")

definition kTypeFlags :: u64 where "kTypeFlags = 1 OR 4"

definition format_text :: "string option \<Rightarrow> string" where
  "format_text f = (case f of None \<Rightarrow> [] | Some s \<Rightarrow> s)"

fun SameTypeStructure :: "ArrowSchema \<Rightarrow> ArrowSchema \<Rightarrow> bool"
  and same_children :: "ArrowSchema list \<Rightarrow> ArrowSchema list \<Rightarrow> bool" where
  "SameTypeStructure (ArrowSchema fa na la ca da) (ArrowSchema fb nb lb cb db) =
     (if format_text fa \<noteq> format_text fb \<or> length ca \<noteq> length cb then False
      else if la AND kTypeFlags \<noteq> lb AND kTypeFlags then False
      else if \<not> same_children ca cb then False
      else (case (da, db) of
              (None, None) \<Rightarrow> True
            | (Some a, Some b) \<Rightarrow> SameTypeStructure a b
            | _ \<Rightarrow> False))"
| "same_children (a # as) (b # bs) = (SameTypeStructure a b \<and> same_children as bs)"
| "same_children _ _ = True"

section \<open>Columns against the declared schema\<close>

datatype batch_error =
    ColumnCount nat nat
  | ColumnType nat ArrowSchema ArrowSchema
  | Malformed WorkerBatchValidation string

fun check_columns :: "nat \<Rightarrow> ArrowSchema list \<Rightarrow> ArrowSchema option list \<Rightarrow> batch_error + unit" where
  "check_columns i (f # fs) (None # es) = check_columns (i + 1) fs es"
| "check_columns i (f # fs) (Some e # es) =
     (if SameTypeStructure f e then check_columns (i + 1) fs es else Inl (ColumnType i e f))"
| "check_columns i _ _ = Inr ()"

definition ValidateWireBatchTypes :: "ArrowSchema list \<Rightarrow> ArrowSchema option list \<Rightarrow> batch_error + unit" where
  "ValidateWireBatchTypes fields expected =
     (if length fields \<noteq> length expected then Inl (ColumnCount (length fields) (length expected))
      else check_columns 0 fields expected)"

definition expected_columns :: "ArrowSchema list \<Rightarrow> int list \<Rightarrow> ArrowSchema option list" where
  "expected_columns declared projection_ids =
     (if projection_ids = [] then map Some declared
      else map (\<lambda>i. if 0 \<le> i \<and> i < int (length declared) then Some (declared ! nat i) else None) projection_ids)"

definition ValidateProjectedWireBatch ::
  "(string \<Rightarrow> string) \<Rightarrow> (string \<Rightarrow> string) \<Rightarrow> string option option \<Rightarrow> ArrowSchema list \<Rightarrow> ArrowSchema list option \<Rightarrow>
   int list \<Rightarrow> batch_error + unit" where
  "ValidateProjectedWireBatch lower trim context fields declared projection_ids =
     (case declared of
        None \<Rightarrow> Inr ()
      | Some d \<Rightarrow> if GetWorkerBatchValidation lower trim context = NONE then Inr ()
                  else ValidateWireBatchTypes fields (expected_columns d projection_ids))"

section \<open>The contents of a batch\<close>

datatype storage = STRING | LARGE_STRING | STRING_VIEW | OTHER_STORAGE

datatype UnicodeType = ASCII | UNICODE | INVALID

text \<open>
  A node of the view: its storage, length and offset, which of its values are null, the offset buffer,
  the data buffer when there is one, and the values of a string view.
\<close>

datatype ArrowArrayView =
  View (storage_type: storage) (vlength: nat) (voffset: nat) (nulls: "bool list") (offset_buffer: "int list")
    (data: "string option") (view_strings: "string list") (vchildren: "ArrowArrayView list")
    (vdictionary: "ArrowArrayView option")

definition offset_at :: "nat \<Rightarrow> int list \<Rightarrow> nat \<Rightarrow> int" where
  "offset_at off offs i = offs ! (off + i)"

definition slice :: "string \<Rightarrow> int \<Rightarrow> int \<Rightarrow> string" where
  "slice d a b = take (nat (b - a)) (drop (nat a) d)"

definition utf8_detail :: "nat \<Rightarrow> string" where
  "utf8_detail i = ''Invalid: Invalid UTF8 sequence at string index '' @ show_nat i"

text \<open>The first value that is present, not empty and not valid UTF-8: the loops over the values.\<close>

definition first_invalid :: "(string \<Rightarrow> UnicodeType) \<Rightarrow> bool list \<Rightarrow> (nat \<Rightarrow> string) \<Rightarrow> nat \<Rightarrow> nat option" where
  "first_invalid analyse ns item len =
     find (\<lambda>i. \<not> ns ! i \<and> item i \<noteq> [] \<and> analyse (item i) = INVALID) [0..<len]"

definition all_ascii :: "(string \<Rightarrow> UnicodeType) \<Rightarrow> string option \<Rightarrow> int \<Rightarrow> int \<Rightarrow> bool" where
  "all_ascii analyse d lo hi =
     (if hi > lo \<and> d \<noteq> None then analyse (slice (the d) lo hi) = ASCII else True)"

definition validate_strings ::
  "(string \<Rightarrow> UnicodeType) \<Rightarrow> storage \<Rightarrow> nat \<Rightarrow> nat \<Rightarrow> bool list \<Rightarrow> int list \<Rightarrow> string option \<Rightarrow> string list \<Rightarrow> nat option" where
  "validate_strings analyse st len off ns offs d vs =
     (if st = STRING \<or> st = LARGE_STRING then
        if len > 0 \<and> \<not> all_ascii analyse d (offset_at off offs 0) (offset_at off offs len)
        then first_invalid analyse ns (\<lambda>i. slice (the d) (offset_at off offs i) (offset_at off offs (i + 1))) len
        else None
      else if st = STRING_VIEW then first_invalid analyse ns (\<lambda>i. vs ! i) len
      else None)"

text \<open>The walk over the tree; the result is the detail of the first failure.\<close>

fun ValidateUtf8 :: "(string \<Rightarrow> UnicodeType) \<Rightarrow> ArrowArrayView \<Rightarrow> string option"
  and validate_children :: "(string \<Rightarrow> UnicodeType) \<Rightarrow> ArrowArrayView list \<Rightarrow> string option" where
  "ValidateUtf8 analyse (View st len off ns offs d vs cs dict) =
     (case validate_strings analyse st len off ns offs d vs of
        Some i \<Rightarrow> Some (utf8_detail i)
      | None \<Rightarrow>
          (case validate_children analyse cs of
             Some e \<Rightarrow> Some e
           | None \<Rightarrow> (case dict of None \<Rightarrow> None | Some v \<Rightarrow> ValidateUtf8 analyse v)))"
| "validate_children analyse [] = None"
| "validate_children analyse (c # cs) =
     (case ValidateUtf8 analyse c of Some e \<Rightarrow> Some e | None \<Rightarrow> validate_children analyse cs)"

text \<open>A nanoarrow error is its message, possibly empty, and its code.\<close>

type_synonym nano_error = "string \<times> int"

definition NanoarrowDetail :: "(int \<Rightarrow> string) \<Rightarrow> nano_error \<Rightarrow> string" where
  "NanoarrowDetail strerror e =
     (let m = (if fst e \<noteq> [] then fst e else strerror (snd e)) in
      if contains ''dictionary index'' m then ''Invalid: Dictionary indices invalid: '' @ m
      else ''Invalid: '' @ m)"

record 'b nanoarrow =
  init_view :: "'b \<Rightarrow> nano_error option"
  set_array :: "'b \<Rightarrow> nano_error + ArrowArrayView"
  validate_full :: "ArrowArrayView \<Rightarrow> nano_error option"
  strerror :: "int \<Rightarrow> string"
  analyze :: "string \<Rightarrow> UnicodeType"
  structural_error :: "'b \<Rightarrow> string"

definition ValidateWorkerBatch :: "'b nanoarrow \<Rightarrow> WorkerBatchValidation \<Rightarrow> 'b option \<Rightarrow> batch_error + unit" where
  "ValidateWorkerBatch N level batch =
     (case batch of
        None \<Rightarrow> Inr ()
      | Some b \<Rightarrow>
          if level = NONE then Inr ()
          else if structural_error N b \<noteq> [] then Inl (Malformed level (''Invalid: '' @ structural_error N b))
          else case init_view N b of
            Some e \<Rightarrow> Inl (Malformed level (NanoarrowDetail (strerror N) e))
          | None \<Rightarrow>
              case set_array N b of
                Inl e \<Rightarrow> Inl (Malformed level (NanoarrowDetail (strerror N) e))
              | Inr view \<Rightarrow>
                  if level = FULL then
                    case validate_full N view of
                      Some e \<Rightarrow> Inl (Malformed level (NanoarrowDetail (strerror N) e))
                    | None \<Rightarrow> (case ValidateUtf8 (analyze N) view of
                                 Some detail \<Rightarrow> Inl (Malformed level detail) | None \<Rightarrow> Inr ())
                  else Inr ())"

section \<open>What the checks mean\<close>

text \<open>
  The type of a column: what the reader of its buffers uses, with names, nullability and metadata erased.
\<close>

datatype arrow_type = AType string u64 "arrow_type list" "arrow_type option"

primrec erase :: "ArrowSchema \<Rightarrow> arrow_type" where
  "erase (ArrowSchema f n l cs d) = AType (format_text f) (l AND kTypeFlags) (map erase cs) (map_option erase d)"

definition column_has_type :: "ArrowSchema \<Rightarrow> ArrowSchema option \<Rightarrow> bool" where
  "column_has_type f e \<longleftrightarrow> (case e of None \<Rightarrow> True | Some t \<Rightarrow> erase f = erase t)"

text \<open>All nodes of a view, and the strings a node holds at the positions that are not null.\<close>

fun nodes :: "ArrowArrayView \<Rightarrow> ArrowArrayView list"
  and nodes_list :: "ArrowArrayView list \<Rightarrow> ArrowArrayView list" where
  "nodes (View st len off ns offs d vs cs dict) =
     View st len off ns offs d vs cs dict # nodes_list cs @ (case dict of None \<Rightarrow> [] | Some v \<Rightarrow> nodes v)"
| "nodes_list [] = []"
| "nodes_list (c # cs) = nodes c @ nodes_list cs"

definition present :: "ArrowArrayView \<Rightarrow> nat list" where
  "present v = filter (\<lambda>i. \<not> nulls v ! i) [0..<vlength v]"

definition offset_string :: "ArrowArrayView \<Rightarrow> nat \<Rightarrow> string" where
  "offset_string v i =
     (case data v of None \<Rightarrow> []
      | Some b \<Rightarrow> slice b (offset_at (voffset v) (offset_buffer v) i) (offset_at (voffset v) (offset_buffer v) (i + 1)))"

definition node_strings :: "ArrowArrayView \<Rightarrow> string list" where
  "node_strings v =
     (case storage_type v of
        STRING_VIEW \<Rightarrow> map (\<lambda>i. view_strings v ! i) (present v)
      | OTHER_STORAGE \<Rightarrow> []
      | _ \<Rightarrow> map (offset_string v) (present v))"

text \<open>The offsets of a string node as nanoarrow's full validation leaves them: ascending, inside the data.\<close>

definition offsets_ok :: "ArrowArrayView \<Rightarrow> bool" where
  "offsets_ok v \<longleftrightarrow>
     (storage_type v = STRING \<or> storage_type v = LARGE_STRING \<longrightarrow> 0 < vlength v \<longrightarrow>
       (let at = offset_at (voffset v) (offset_buffer v) in
        0 \<le> at 0 \<and> list_all (\<lambda>i. at i \<le> at (i + 1)) [0..<vlength v] \<and>
        at (vlength v) \<le> int (case data v of None \<Rightarrow> 0 | Some b \<Rightarrow> length b)))"

text \<open>UTF-8 as RFC 3629 defines it, on byte values: no overlong form, no surrogate, nothing above U+10FFFF.\<close>

definition cont :: "nat \<Rightarrow> bool" where "cont b \<longleftrightarrow> 128 \<le> b \<and> b \<le> 191"

fun utf8_bytes :: "nat list \<Rightarrow> bool" where
  "utf8_bytes [] = True"
| "utf8_bytes (a # s) =
     (if a < 128 then utf8_bytes s
      else if 194 \<le> a \<and> a \<le> 223 then (case s of b # r \<Rightarrow> cont b \<and> utf8_bytes r | _ \<Rightarrow> False)
      else if 224 \<le> a \<and> a \<le> 239 then
        (case s of b # c # r \<Rightarrow>
           cont b \<and> cont c \<and> (a = 224 \<longrightarrow> 160 \<le> b) \<and> (a = 237 \<longrightarrow> b \<le> 159) \<and> utf8_bytes r | _ \<Rightarrow> False)
      else if 240 \<le> a \<and> a \<le> 244 then
        (case s of b # c # d # r \<Rightarrow>
           cont b \<and> cont c \<and> cont d \<and> (a = 240 \<longrightarrow> 144 \<le> b) \<and> (a = 244 \<longrightarrow> b \<le> 143) \<and> utf8_bytes r | _ \<Rightarrow> False)
      else False)"

definition utf8_valid :: "string \<Rightarrow> bool" where
  "utf8_valid s = utf8_bytes (map of_char s)"

definition ascii :: "string \<Rightarrow> bool" where
  "ascii s \<longleftrightarrow> list_all (\<lambda>c. (of_char c :: nat) < 128) s"

text \<open>DuckDB's analysis, as its documentation has it: pure ASCII, valid UTF-8 beyond ASCII, or invalid.\<close>

definition analysis_law :: "(string \<Rightarrow> UnicodeType) \<Rightarrow> bool" where
  "analysis_law analyse \<longleftrightarrow>
     (\<forall>s. s \<noteq> [] \<longrightarrow> (analyse s = ASCII \<longleftrightarrow> ascii s) \<and> (analyse s = INVALID \<longleftrightarrow> \<not> utf8_valid s))"

section \<open>Type structure is equality of erased types\<close>

lemma same_children_iff:
  "length as = length bs \<Longrightarrow> same_children as bs \<longleftrightarrow> list_all2 SameTypeStructure as bs"
  by (induction as bs rule: list_induct2) auto

lemma SameTypeStructure_erase_aux:
  "SameTypeStructure a b \<longleftrightarrow> erase a = erase b"
  "length as = length bs \<Longrightarrow> same_children as bs \<longleftrightarrow> map erase as = map erase bs"
proof (induction a b and as bs rule: SameTypeStructure_same_children.induct)
  case (1 fa na la ca da fb nb lb cb db)
  have "length ca \<noteq> length cb \<Longrightarrow> map erase ca \<noteq> map erase cb"
    using map_eq_imp_length_eq by blast
  with 1 show ?case
    by (auto split: option.splits)
qed (auto simp: neq_Nil_conv)

lemmas SameTypeStructure_erase = SameTypeStructure_erase_aux(1)

lemma check_columns_iff:
  "length fs = length es \<Longrightarrow> check_columns i fs es = Inr () \<longleftrightarrow> list_all2 column_has_type fs es"
  by (induction i fs es rule: check_columns.induct) (auto simp: column_has_type_def SameTypeStructure_erase)

lemma ValidateWireBatchTypes_iff:
  "ValidateWireBatchTypes cols expected = Inr () \<longleftrightarrow> list_all2 column_has_type cols expected"
  by (auto simp: ValidateWireBatchTypes_def check_columns_iff dest: list_all2_lengthD)

section \<open>The walk over the strings\<close>

lemma ascii_utf8: "ascii s \<Longrightarrow> utf8_valid s"
  unfolding ascii_def utf8_valid_def by (induction s) auto

lemma set_slice_mono:
  assumes "0 \<le> a" "a \<le> c" "c \<le> e" "e \<le> b"
  shows "set (slice d c e) \<subseteq> set (slice d a b)"
proof -
  obtain a' c' e' b' where "a = int a'" "c = int c'" "e = int e'" "b = int b'"
    using assms by (metis nonneg_int_cases order_trans)
  with assms have "slice d c e = take (nat (e - c)) (drop (nat (c - a)) (slice d a b))"
    by (simp add: slice_def drop_take min_def flip: of_nat_diff)
  then show ?thesis by (metis set_drop_subset set_take_subset subset_trans)
qed

lemma chain_le:
  assumes "\<And>i. i < n \<Longrightarrow> (f i :: int) \<le> f (Suc i)" "i \<le> j" "j \<le> n"
  shows "f i \<le> f j"
  using assms(2,3,1) by (induction j rule: dec_induct) (auto intro: order_trans)

lemma first_invalid_None:
  assumes "analysis_law analyse"
  shows "first_invalid analyse ns item len = None \<longleftrightarrow> list_all (\<lambda>i. utf8_valid (item i)) (filter (\<lambda>i. \<not> ns ! i) [0..<len])"
proof -
  have "item i \<noteq> [] \<and> analyse (item i) = INVALID \<longleftrightarrow> \<not> utf8_valid (item i)" for i
    using assms by (cases "item i") (auto simp: analysis_law_def utf8_valid_def)
  then show ?thesis
    by (auto simp: first_invalid_def find_None_iff list_all_iff)
qed

lemma offsets_chain:
  assumes "offsets_ok v" "storage_type v = STRING \<or> storage_type v = LARGE_STRING" "i \<le> j" "j \<le> vlength v" "0 < vlength v"
  shows "offset_at (voffset v) (offset_buffer v) i \<le> offset_at (voffset v) (offset_buffer v) j"
  by (rule chain_le [of "vlength v"]) (use assms in \<open>auto simp: offsets_ok_def Let_def list_all_iff\<close>)

lemma offset_string_span:
  assumes "offsets_ok v" "storage_type v = STRING \<or> storage_type v = LARGE_STRING" "i < vlength v" "data v = Some b"
  shows "set (offset_string v i) \<subseteq>
           set (slice b (offset_at (voffset v) (offset_buffer v) 0) (offset_at (voffset v) (offset_buffer v) (vlength v)))"
  unfolding offset_string_def assms(4) option.case
  by (rule set_slice_mono) (use assms in \<open>auto intro!: offsets_chain simp: offsets_ok_def Let_def\<close>)

text \<open>The fast path is sound: where it skips a node, every value of the node is valid.\<close>

lemma all_ascii_valid:
  assumes "analysis_law analyse" "offsets_ok v" "storage_type v = STRING \<or> storage_type v = LARGE_STRING" "i < vlength v"
    and "all_ascii analyse (data v) (offset_at (voffset v) (offset_buffer v) 0)
           (offset_at (voffset v) (offset_buffer v) (vlength v))"
  shows "utf8_valid (offset_string v i)"
proof (cases "data v")
  case None
  then show ?thesis by (simp add: offset_string_def utf8_valid_def)
next
  case (Some b)
  let ?s = "slice b (offset_at (voffset v) (offset_buffer v) 0) (offset_at (voffset v) (offset_buffer v) (vlength v))"
  have "ascii ?s"
    using assms(1,5) Some
    by (cases "?s = []") (auto simp: analysis_law_def all_ascii_def ascii_def slice_def split: if_splits)
  with offset_string_span [OF assms(2,3,4) Some] have "ascii (offset_string v i)"
    by (auto simp: ascii_def list_all_iff)
  then show ?thesis by (rule ascii_utf8)
qed

definition validate_node :: "(string \<Rightarrow> UnicodeType) \<Rightarrow> ArrowArrayView \<Rightarrow> nat option" where
  "validate_node analyse v =
     validate_strings analyse (storage_type v) (vlength v) (voffset v) (nulls v) (offset_buffer v) (data v) (view_strings v)"

lemma not_all_ascii_data:
  "\<not> all_ascii analyse d lo hi \<Longrightarrow> \<exists>b. d = Some b"
  by (auto simp: all_ascii_def split: if_splits)

lemma validate_node_None:
  assumes "analysis_law analyse" "offsets_ok v"
  shows "validate_node analyse v = None \<longleftrightarrow> list_all utf8_valid (node_strings v)"
proof (cases "storage_type v = STRING \<or> storage_type v = LARGE_STRING")
  case True
  let ?at = "offset_at (voffset v) (offset_buffer v)"
  have strings: "node_strings v = map (offset_string v) (present v)"
    using True by (auto simp: node_strings_def)
  show ?thesis
  proof (cases "all_ascii analyse (data v) (?at 0) (?at (vlength v))")
    case fast: True
    then have "list_all utf8_valid (node_strings v)"
      using all_ascii_valid [OF assms True _ fast] by (auto simp: strings present_def list_all_iff)
    with True fast show ?thesis by (simp add: validate_node_def validate_strings_def)
  next
    case False
    then obtain b where b: "data v = Some b" using not_all_ascii_data by blast
    then have "(\<lambda>i. slice (the (data v)) (?at i) (?at (i + 1))) = offset_string v"
      by (simp add: offset_string_def fun_eq_iff)
    with True False show ?thesis
      by (auto simp: validate_node_def validate_strings_def strings first_invalid_None [OF assms(1)] present_def list.pred_map comp_def)
  qed
next
  case False
  then show ?thesis
    by (cases "storage_type v")
      (auto simp: validate_node_def validate_strings_def node_strings_def present_def first_invalid_None [OF assms(1)] list.pred_map comp_def)
qed

lemma ValidateUtf8_nodes:
  "ValidateUtf8 analyse v = None \<longleftrightarrow> list_all (\<lambda>n. validate_node analyse n = None) (nodes v)"
  "validate_children analyse vs = None \<longleftrightarrow> list_all (\<lambda>n. validate_node analyse n = None) (nodes_list vs)"
  by (induction analyse v and analyse vs rule: ValidateUtf8_validate_children.induct)
    (auto simp: validate_node_def split: option.splits)

definition strings_of :: "ArrowArrayView \<Rightarrow> string list" where
  "strings_of v = concat (map node_strings (nodes v))"

lemma ValidateUtf8_iff:
  assumes "analysis_law analyse" "list_all offsets_ok (nodes v)"
  shows "ValidateUtf8 analyse v = None \<longleftrightarrow> list_all utf8_valid (strings_of v)"
  using assms(2) by (auto simp: ValidateUtf8_nodes strings_of_def list_all_iff validate_node_None [OF assms(1)])

section \<open>What an accepted batch is\<close>

text \<open>What nanoarrow's full validation documents of the offsets of the arrays it accepts.\<close>

definition nanoarrow_law :: "'b nanoarrow \<Rightarrow> bool" where
  "nanoarrow_law N \<longleftrightarrow>
     (\<forall>b view. set_array N b = Inr view \<and> validate_full N view = None \<longrightarrow> list_all offsets_ok (nodes view))"

lemma ValidateWorkerBatch_full_iff:
  assumes "analysis_law (analyze N)" "nanoarrow_law N"
  shows "ValidateWorkerBatch N FULL (Some b) = Inr () \<longleftrightarrow>
    structural_error N b = [] \<and> init_view N b = None \<and>
    (\<exists>view. set_array N b = Inr view \<and> validate_full N view = None \<and> list_all utf8_valid (strings_of view))"
proof (cases "set_array N b")
  case (Inr view)
  then have "validate_full N view = None \<Longrightarrow> ValidateUtf8 (analyze N) view = None \<longleftrightarrow> list_all utf8_valid (strings_of view)"
    using assms ValidateUtf8_iff by (auto simp: nanoarrow_law_def)
  with Inr show ?thesis
    by (auto simp: ValidateWorkerBatch_def split: option.splits)
qed (auto simp: ValidateWorkerBatch_def split: option.splits)

text \<open>
  C37. A batch that enters from a worker at the default level is accepted exactly when it is well
  typed: its structure passes nanoarrow, every string it holds at a position that is not null, in
  nested children and dictionaries too, is valid UTF-8 by RFC 3629, and each column has the declared
  type (equality of the types with names, nullability and metadata erased) of the projected column it
  stands for. The fast path over an ASCII span accepts nothing that the walk over the values would
  refuse. The hypotheses are what DuckDB documents of its UTF-8 analysis and nanoarrow of its offsets.
\<close>

theorem worker_batch_accepted_iff:
  assumes "analysis_law (analyze N)" and "nanoarrow_law N"
    and "GetWorkerBatchValidation lower trim context = FULL"
  shows "ValidateWorkerBatch N (GetWorkerBatchValidation lower trim context) (Some b) = Inr () \<and>
         ValidateProjectedWireBatch lower trim context cols (Some declared) projection_ids = Inr () \<longleftrightarrow>
           structural_error N b = [] \<and> init_view N b = None \<and>
           (\<exists>view. set_array N b = Inr view \<and> validate_full N view = None \<and> list_all utf8_valid (strings_of view)) \<and>
           list_all2 column_has_type cols (expected_columns declared projection_ids)"
  unfolding assms(3) ValidateWorkerBatch_full_iff [OF assms(1,2)]
  by (simp add: ValidateProjectedWireBatch_def assms(3) ValidateWireBatchTypes_iff)

section \<open>A concrete instance\<close>

definition reference_analysis :: "string \<Rightarrow> UnicodeType" where
  "reference_analysis s = (if ascii s then ASCII else if utf8_valid s then UNICODE else INVALID)"

definition reference_nanoarrow :: "ArrowArrayView nanoarrow" where
  "reference_nanoarrow =
     \<lparr>init_view = \<lambda>_. None, set_array = Inr,
      validate_full = \<lambda>v. if list_all offsets_ok (nodes v) then None else Some (''bad offsets'', 22),
      strerror = \<lambda>_. ''Invalid argument'', analyze = reference_analysis, structural_error = \<lambda>_. []\<rparr>"

lemma reference_laws:
  "analysis_law (analyze reference_nanoarrow)" "nanoarrow_law reference_nanoarrow"
  by (auto simp: reference_nanoarrow_def reference_analysis_def analysis_law_def nanoarrow_law_def ascii_utf8
      split: if_splits)

text \<open>A struct of one string column: the two bytes of one character, held by one value or split over two.\<close>

definition sample_view :: "int \<Rightarrow> ArrowArrayView" where
  "sample_view c =
     View OTHER_STORAGE 2 0 [False, False] [] None []
       [View STRING 2 0 [False, False] [0, c, 3] (Some [CHR ''h'', CHR 0xC3, CHR 0xA9]) [] [] None] None"

theorem worker_batch_accepted_iff_witness:
  "ValidateWorkerBatch reference_nanoarrow (GetWorkerBatchValidation id id None) (Some (sample_view 1)) = Inr () \<and>
   ValidateProjectedWireBatch id id None [ArrowSchema (Some ''u'') ''renamed'' 2 [] None]
     (Some [ArrowSchema (Some ''l'') ''a'' 0 [] None, ArrowSchema (Some ''u'') ''b'' 0 [] None]) [1] = Inr () \<and>
   ValidateWorkerBatch reference_nanoarrow FULL (Some (sample_view 2)) =
     Inl (Malformed FULL ''Invalid: Invalid UTF8 sequence at string index 0'')"
proof -
  have lvl: "GetWorkerBatchValidation id id None = FULL" by (simp add: GetWorkerBatchValidation_def)
  have "ValidateWorkerBatch reference_nanoarrow FULL (Some (sample_view 2)) =
     Inl (Malformed FULL ''Invalid: Invalid UTF8 sequence at string index 0'')"
    by code_simp
  moreover have "structural_error reference_nanoarrow (sample_view 1) = [] \<and>
      init_view reference_nanoarrow (sample_view 1) = None \<and>
      set_array reference_nanoarrow (sample_view 1) = Inr (sample_view 1) \<and>
      validate_full reference_nanoarrow (sample_view 1) = None \<and> list_all utf8_valid (strings_of (sample_view 1))"
    by code_simp
  moreover have "list_all2 column_has_type [ArrowSchema (Some ''u'') ''renamed'' 2 [] None]
     (expected_columns [ArrowSchema (Some ''l'') ''a'' 0 [] None, ArrowSchema (Some ''u'') ''b'' 0 [] None] [1])"
    by code_simp
  ultimately show ?thesis
    using worker_batch_accepted_iff [OF reference_laws lvl] by blast
qed

end
