(* ===== verification/Sab_Stream.thy ===== *)
theory Sab_Stream
  imports Vgi_Prelude
begin

text \<open>
  The byte streams over the duplex slots of a browser worker, \<^verbatim>\<open>src/src/vgi_sab_stream.cpp\<close>, and the
  native implementation of the slots, \<^verbatim>\<open>src/test/support/vgi_sab_native_ring.cpp\<close>: a byte ring per
  direction, tokens that tie a close or a failure to one claim of the slot, and the worker's end.
  The streams see the slots through the contract of \<^verbatim>\<open>src/src/include/vgi_sab_abi.hpp\<close>: the locale
  \<open>slot_reader\<close> states what a result of a read means and the locale \<open>blocking_slots\<close> adds when a
  read returns; the native slots are an interpretation of both.
\<close>

section \<open>The byte ring\<close>

record NativeRing =
  write_pos :: nat
  read_pos :: nat
  buf :: string
  cap :: nat


definition avail :: "NativeRing \<Rightarrow> nat" where
  "avail r = write_pos r - read_pos r"

definition ring_free :: "NativeRing \<Rightarrow> nat" where
  "ring_free r = cap r - avail r"

definition ring_put :: "NativeRing \<Rightarrow> string \<Rightarrow> nat \<Rightarrow> NativeRing" where
  "ring_put r d k =
     (let pos = write_pos r mod cap r;
          first = min k (cap r - pos);
          b1 = memcpy (buf r) pos (take first d);
          b2 = (if k > first then memcpy b1 0 (take (k - first) (drop first d)) else b1)
      in r\<lparr>buf := b2, write_pos := write_pos r + k\<rparr>)"

definition ring_get :: "NativeRing \<Rightarrow> nat \<Rightarrow> string \<times> NativeRing" where
  "ring_get r k =
     (let pos = read_pos r mod cap r;
          first = min k (cap r - pos);
          out = take first (drop pos (buf r)) @ (if k > first then take (k - first) (buf r) else [])
      in (out, r\<lparr>read_pos := read_pos r + k\<rparr>))"

definition try_write :: "NativeRing \<Rightarrow> string \<Rightarrow> nat \<times> NativeRing" where
  "try_write r d =
     (if ring_free r = 0 then (0, r)
      else let k = min (ring_free r) (length d) in (k, ring_put r d k))"

definition kSabWouldBlock :: int where "kSabWouldBlock = -2"
definition kSabTerminalTransportError :: int where "kSabTerminalTransportError = -3"

definition try_read :: "NativeRing \<Rightarrow> nat \<Rightarrow> int \<Rightarrow> int \<Rightarrow> int \<times> string \<times> NativeRing" where
  "try_read r n closed_lane expected_closed =
     (if avail r = 0 then (if closed_lane = expected_closed then 0 else kSabWouldBlock, [], r)
      else let k = min (avail r) n; (out, r') = ring_get r k in (int k, out, r'))"


definition is_reset :: "NativeRing \<Rightarrow> bool" where
  "is_reset r \<longleftrightarrow> write_pos r = 0 \<and> read_pos r = 0"

text \<open>A ring stands for the queue of the bytes between its two positions.\<close>

definition ring_ok :: "NativeRing \<Rightarrow> bool" where
  "ring_ok r \<longleftrightarrow> 0 < cap r \<and> length (buf r) = cap r \<and> read_pos r \<le> write_pos r \<and> avail r \<le> cap r"

definition contents :: "NativeRing \<Rightarrow> string" where
  "contents r = map (\<lambda>i. buf r ! (i mod cap r)) [read_pos r..<write_pos r]"

section \<open>The ring is a queue\<close>

lemma length_contents [simp]: "length (contents r) = avail r"
  by (simp add: contents_def avail_def)

text \<open>Where the byte \<open>j\<close> places after position \<open>p\<close> of the stream stands in the buffer.\<close>

lemma wrap_index:
  assumes "(0 :: nat) < c" "j < c"
  shows "(p + j) mod c = (if p mod c + j < c then p mod c + j else p mod c + j - c)"
proof -
  have "(p + j) mod c = (p mod c + j) mod c" by (simp add: mod_simps)
  moreover have "p mod c + j - c < c"
    using mod_less_divisor [OF assms(1), of p] assms(2) by linarith
  ultimately show ?thesis using assms by (auto simp: le_mod_geq)
qed

lemma nth_ring_put:
  assumes "ring_ok r" "k \<le> cap r" "k \<le> length d" "i < cap r"
  shows "buf (ring_put r d k) ! i =
    (let pos = write_pos r mod cap r in
     if pos \<le> i \<and> i < pos + k then d ! (i - pos)
     else if i + cap r < pos + k then d ! (i + cap r - pos) else buf r ! i)"
proof -
  define c pos where "c = cap r" and "pos = write_pos r mod cap r"
  define b1 where "b1 = memcpy (buf r) pos (take (min k (c - pos)) d)"
  have c: "0 < c" "length (buf r) = c" using assms(1) by (auto simp: ring_ok_def c_def)
  then have pos: "pos < c" by (simp add: pos_def c_def)
  have b1: "length b1 = c" unfolding b1_def using c pos assms(3) by (subst length_memcpy) (auto simp: min_def)
  have n1: "b1 ! i = (if pos \<le> i \<and> i < pos + min k (c - pos) then d ! (i - pos) else buf r ! i)"
    unfolding b1_def using c pos assms(3,4) by (subst nth_memcpy) (auto simp: c_def min_def)
  have put: "buf (ring_put r d k) =
      (if k > c - pos then memcpy b1 0 (take (k - (c - pos)) (drop (c - pos) d)) else b1)"
    by (auto simp: ring_put_def Let_def b1_def c_def pos_def min_def)
  have n2: "k > c - pos \<Longrightarrow> memcpy b1 0 (take (k - (c - pos)) (drop (c - pos) d)) ! i =
      (if i < k - (c - pos) then d ! (c - pos + i) else b1 ! i)"
    using b1 assms(2,3,4) by (subst nth_memcpy) (auto simp: c_def)
  have i: "i < c" using assms(4) by (simp add: c_def)
  show ?thesis
  proof (cases "k > c - pos")
    case True
    have "k \<le> c" using assms(2) by (simp add: c_def)
    have *: "i < k - (c - pos) \<longleftrightarrow> i + c < pos + k" "c - pos + i = i + c - pos"
      "\<not> (pos \<le> i \<and> i + c < pos + k)" "i < pos + min k (c - pos)" "pos \<le> i \<Longrightarrow> i < pos + k"
      using i pos True \<open>k \<le> c\<close> by (auto simp: min_def)
    show ?thesis
      unfolding put Let_def pos_def [symmetric] unfolding c_def [symmetric]
      using True n1 n2 [OF True] * by (cases "pos \<le> i"; cases "i + c < pos + k") simp_all
  next
    case False
    then have "min k (c - pos) = k" "\<not> i + c < pos + k" using i pos by auto
    with n1 False show ?thesis
      unfolding put Let_def pos_def [symmetric] unfolding c_def [symmetric] by simp
  qed
qed

lemma nth_contents:
  "i < avail r \<Longrightarrow> contents r ! i = buf r ! ((read_pos r + i) mod cap r)"
  by (simp add: contents_def avail_def)

lemma ring_put_pos [simp]:
  "write_pos (ring_put r d k) = write_pos r + k" "read_pos (ring_put r d k) = read_pos r"
  "cap (ring_put r d k) = cap r"
  by (simp_all add: ring_put_def Let_def)

lemma ring_put_old:
  assumes "ring_ok r" "avail r + k \<le> cap r" "k \<le> length d" "i < avail r"
  shows "buf (ring_put r d k) ! ((read_pos r + i) mod cap r) = buf r ! ((read_pos r + i) mod cap r)"
proof -
  let ?pos = "write_pos r mod cap r" and ?j = "(read_pos r + i) mod cap r" and ?g = "cap r - (avail r - i)"
  have ok: "0 < cap r" "read_pos r \<le> write_pos r" using assms(1) by (auto simp: ring_ok_def)
  have pos: "?pos < cap r" and rest: "?g < cap r" "k \<le> ?g" "k \<le> cap r" using assms ok by auto
  have "write_pos r + ?g = read_pos r + i + cap r"
    using assms ok by (simp add: avail_def)
  then have "?j = (write_pos r + ?g) mod cap r" by simp
  also have "\<dots> = (if ?pos + ?g < cap r then ?pos + ?g else ?pos + ?g - cap r)"
    by (rule wrap_index [OF ok(1) rest(1)])
  finally have "\<not> (?pos \<le> ?j \<and> ?j < ?pos + k)" "\<not> ?j + cap r < ?pos + k"
    using rest pos by (auto split: if_splits)
  moreover have "?j < cap r" using ok(1) by simp
  ultimately show ?thesis
    by (subst nth_ring_put [OF assms(1) rest(3) assms(3)]) (auto simp: Let_def)
qed

lemma ring_put_new:
  assumes "ring_ok r" "k \<le> cap r" "k \<le> length d" "j < k"
  shows "buf (ring_put r d k) ! ((write_pos r + j) mod cap r) = d ! j"
proof -
  define pos where "pos = write_pos r mod cap r"
  have ok: "0 < cap r" "j < cap r" "pos < cap r" using assms by (auto simp: ring_ok_def pos_def)
  show ?thesis
    unfolding wrap_index [OF ok(1,2)] using ok assms(4)
    by (subst nth_ring_put [OF assms(1-3)]; fold pos_def) (auto simp: Let_def)
qed

lemma contents_ring_put:
  assumes "ring_ok r" "k \<le> ring_free r" "k \<le> length d"
  shows "contents (ring_put r d k) = contents r @ take k d"
proof (rule nth_equalityI)
  have ok: "read_pos r \<le> write_pos r" "avail r + k \<le> cap r"
    using assms(1,2) by (auto simp: ring_ok_def ring_free_def)
  have av: "avail (ring_put r d k) = avail r + k" using ok by (simp add: avail_def)
  then show "length (contents (ring_put r d k)) = length (contents r @ take k d)"
    using assms(3) by simp
  fix i assume "i < length (contents (ring_put r d k))"
  then have i: "i < avail r + k" by (simp add: av)
  show "contents (ring_put r d k) ! i = (contents r @ take k d) ! i"
  proof (cases "i < avail r")
    case True
    with ring_put_old [OF assms(1) ok(2) assms(3)] show ?thesis by (simp add: nth_contents av nth_append)
  next
    case False
    then have "read_pos r + i = write_pos r + (i - avail r)" using ok by (simp add: avail_def)
    with ring_put_new [OF assms(1) _ assms(3), of "i - avail r"] ok(2) i False assms(3)
    show ?thesis by (simp add: nth_contents av nth_append)
  qed
qed

lemma ring_ok_put [simp]:
  assumes "ring_ok r" "k \<le> ring_free r" "k \<le> length d"
  shows "ring_ok (ring_put r d k)"
proof -
  define pos where "pos = write_pos r mod cap r"
  have pos: "pos < cap r" "length (buf r) = cap r" "k \<le> cap r"
    using assms by (auto simp: ring_ok_def ring_free_def pos_def)
  then have "length (memcpy (buf r) pos (take (min k (cap r - pos)) d)) = cap r"
    by (subst length_memcpy) (auto simp: min_def)
  with pos have "length (buf (ring_put r d k)) = cap r"
    by (auto simp: ring_put_def Let_def length_memcpy simp flip: pos_def)
  with assms show ?thesis
    by (auto simp: ring_ok_def ring_free_def avail_def)
qed

lemma ring_get_contents:
  assumes "ring_ok r" "k \<le> avail r"
  shows "fst (ring_get r k) = take k (contents r)" "contents (snd (ring_get r k)) = drop k (contents r)"
    "ring_ok (snd (ring_get r k))"
proof -
  define pos where "pos = read_pos r mod cap r"
  have ok: "0 < cap r" "length (buf r) = cap r" "pos < cap r" "k \<le> cap r"
    using assms by (auto simp: ring_ok_def pos_def)
  have out: "fst (ring_get r k) = take k (drop pos (buf r)) @ take (k - (cap r - pos)) (buf r)"
    using ok by (auto simp: ring_get_def Let_def min_def simp flip: pos_def)
  show "fst (ring_get r k) = take k (contents r)"
  proof (rule nth_equalityI)
    show "length (fst (ring_get r k)) = length (take k (contents r))"
      unfolding out using ok assms(2) by (auto simp: min_def)
    fix i assume "i < length (fst (ring_get r k))"
    then have i: "i < k" "i < cap r" unfolding out using ok by auto
    have "(read_pos r + i) mod cap r = (if pos + i < cap r then pos + i else pos + i - cap r)"
      unfolding pos_def by (rule wrap_index [OF ok(1) i(2)])
    with i ok assms(2) show "fst (ring_get r k) ! i = take k (contents r) ! i"
      unfolding out by (auto simp: nth_contents nth_append min_def add.commute intro: arg_cong [of _ _ "nth (buf r)"])
  qed
  show "contents (snd (ring_get r k)) = drop k (contents r)"
    by (simp add: ring_get_def Let_def contents_def drop_map)
  show "ring_ok (snd (ring_get r k))"
    using assms by (auto simp: ring_get_def Let_def ring_ok_def avail_def)
qed


lemma try_read_queue:
  assumes "ring_ok r" "try_read r n closed expected = (k, out, r')"
  shows "contents r = out @ contents r'" "ring_ok r'"
    "k = (if contents r = [] then if closed = expected then 0 else kSabWouldBlock else int (min (length (contents r)) n))"
    "0 \<le> k \<Longrightarrow> k = int (length out)"
proof -
  have e: "contents r = [] \<longleftrightarrow> avail r = 0" by (metis length_0_conv length_contents)
  have g: "fst (ring_get r (min (avail r) n)) @ contents (snd (ring_get r (min (avail r) n))) = contents r"
    using ring_get_contents [OF assms(1)] by simp
  show "contents r = out @ contents r'" "ring_ok r'"
    "k = (if contents r = [] then if closed = expected then 0 else kSabWouldBlock else int (min (length (contents r)) n))"
    "0 \<le> k \<Longrightarrow> k = int (length out)"
    using assms g ring_get_contents [OF assms(1), of "min (avail r) n"]
    by (auto simp: try_read_def Let_def e kSabWouldBlock_def split: if_splits prod.splits)
qed

section \<open>Slots\<close>

record NativeSlot =
  state :: int
  reservation :: int
  c2w_closed :: int
  w2c_closed_claim :: int
  terminal_claim :: int
  terminal_code :: int
  terminal_detail :: int
  c2w :: NativeRing
  w2c :: NativeRing






definition vgi_wasm_slot_release :: "NativeSlot \<Rightarrow> NativeSlot" where
  "vgi_wasm_slot_release s = s\<lparr>state := 0\<rparr>"

definition vgi_wasm_slot_write_eos :: "NativeSlot \<Rightarrow> NativeSlot" where
  "vgi_wasm_slot_write_eos s = (if state s \<noteq> 0 then s\<lparr>c2w_closed := 1\<rparr> else s)"

definition vgi_wasm_slot_terminal_error :: "NativeSlot \<Rightarrow> (int \<times> int) option" where
  "vgi_wasm_slot_terminal_error s =
     (if state s = 0 \<or> terminal_claim s \<noteq> state s then None else Some (terminal_code s, terminal_detail s))"

subsection \<open>The worker's end\<close>

text \<open>
  What a worker does to a slot under its reservation: one round of the loop of
  \<^verbatim>\<open>vgi_sab_worker_write\<close> (the bytes that remain, none when it returns), a close and a failure.
  A worker whose claim is no longer the slot's leaves the slot alone.
\<close>

definition worker_write_round :: "int \<Rightarrow> string \<Rightarrow> NativeSlot \<Rightarrow> string \<times> NativeSlot" where
  "worker_write_round served d s =
     (if state s \<noteq> served then ([], s)
      else let (k, r) = try_write (w2c s) d in (drop k d, s\<lparr>w2c := r\<rparr>))"

definition vgi_sab_worker_close :: "int \<Rightarrow> NativeSlot \<Rightarrow> NativeSlot" where
  "vgi_sab_worker_close served s = (if state s \<noteq> served then s else s\<lparr>w2c_closed_claim := served\<rparr>)"

definition vgi_sab_native_worker_fail_claim :: "int \<Rightarrow> int \<Rightarrow> int \<Rightarrow> NativeSlot \<Rightarrow> NativeSlot" where
  "vgi_sab_native_worker_fail_claim claim code detail s =
     s\<lparr>terminal_code := code, terminal_detail := detail, terminal_claim := claim, w2c_closed_claim := claim\<rparr>"

datatype worker_op = WWrite string | WClose | WFail int int

text \<open>
  A slot and the rest of what its worker will do. \<open>sched\<close> is how many rounds the worker runs before
  each call of the client; while the client waits on an empty ring it is the worker that runs.
  \<open>reads\<close> are the sizes of the reads that the worker makes while the client waits on a full ring,
  \<open>received\<close> what they returned.
\<close>

record native_env =
  slot :: NativeSlot
  served :: int
  script :: "worker_op list"
  sched :: "nat list"
  reads :: "nat list"
  received :: string

definition worker_read_round :: "int \<Rightarrow> nat \<Rightarrow> NativeSlot \<Rightarrow> string \<times> NativeSlot" where
  "worker_read_round claim n s =
     (if state s \<noteq> claim then ([], s)
      else let (k, out, r) = try_read (c2w s) n (c2w_closed s) 1 in (out, s\<lparr>c2w := r\<rparr>))"

definition worker_step :: "native_env \<Rightarrow> native_env" where
  "worker_step e =
     (case script e of
        [] \<Rightarrow> e
      | WWrite d # ops \<Rightarrow>
          if d = [] then e\<lparr>script := ops\<rparr>
          else let (rest, s) = worker_write_round (served e) d (slot e) in e\<lparr>slot := s, script := WWrite rest # ops\<rparr>
      | WClose # ops \<Rightarrow> e\<lparr>slot := vgi_sab_worker_close (served e) (slot e), script := ops\<rparr>
      | WFail code detail # ops \<Rightarrow>
          e\<lparr>slot := vgi_sab_native_worker_fail_claim (state (slot e)) code detail (slot e), script := ops\<rparr>)"

text \<open>The client's wait: it never returns when the worker has nothing left to do.\<close>

partial_function (option) read_some_claim_safe :: "native_env \<Rightarrow> nat \<Rightarrow> int \<Rightarrow> (int \<times> string \<times> native_env) option" where
  "read_some_claim_safe e n claim =
     (if state (slot e) \<noteq> claim then Some (-1, [], e)
      else if avail (w2c (slot e)) = 0 then
        if w2c_closed_claim (slot e) = claim then Some (0, [], e)
        else if script e = [] then None
        else read_some_claim_safe (worker_step e) n claim
      else let k = min (avail (w2c (slot e))) n; (out, r) = ring_get (w2c (slot e)) k
           in Some (int k, out, e\<lparr>slot := (slot e)\<lparr>w2c := r\<rparr>\<rparr>))"

declare read_some_claim_safe.simps [code]

definition run_worker :: "native_env \<Rightarrow> native_env" where
  "run_worker e = (case sched e of [] \<Rightarrow> e | k # ks \<Rightarrow> (worker_step ^^ k) (e\<lparr>sched := ks\<rparr>))"

definition vgi_wasm_slot_read :: "native_env \<Rightarrow> nat \<Rightarrow> (int \<times> string \<times> native_env) option" where
  "vgi_wasm_slot_read e0 n =
     (let e = run_worker e0; claim = state (slot e) in
      if claim = 0 then Some (-1, [], e)
      else case read_some_claim_safe e n claim of
        None \<Rightarrow> None
      | Some (k, out, e') \<Rightarrow>
          if k = 0 \<and> terminal_claim (slot e') = claim then Some (kSabTerminalTransportError, out, e')
          else Some (k, out, e'))"

text \<open>The client's blocking write; \<open>off\<close> bytes are in the ring already.\<close>

partial_function (option) write_all_claim_safe ::
  "native_env \<Rightarrow> string \<Rightarrow> nat \<Rightarrow> int \<Rightarrow> (nat \<times> native_env) option" where
  "write_all_claim_safe e d off claim =
     (if off < length d then
        if state (slot e) \<noteq> claim then Some (off, e)
        else if ring_free (c2w (slot e)) = 0 then
          (case reads e of
             [] \<Rightarrow> None
           | n # ns \<Rightarrow>
               let (out, s) = worker_read_round (served e) n (slot e)
               in write_all_claim_safe (e\<lparr>slot := s, reads := ns, received := received e @ out\<rparr>) d off claim)
        else let k = min (ring_free (c2w (slot e))) (length d - off)
             in write_all_claim_safe (e\<lparr>slot := (slot e)\<lparr>c2w := ring_put (c2w (slot e)) (drop off d) k\<rparr>\<rparr>) d (off + k) claim
      else Some (length d, e))"

declare write_all_claim_safe.simps [code]

definition vgi_wasm_slot_write :: "native_env \<Rightarrow> string \<Rightarrow> (int \<times> native_env) option" where
  "vgi_wasm_slot_write e d =
     (let claim = state (slot e) in
      if claim = 0 then Some (-1, e)
      else map_option (\<lambda>(k, e'). (if k = length d then int (length d) else -1, e')) (write_all_claim_safe e d 0 claim))"

section \<open>The streams\<close>

datatype sab_error =
    ReadClosed | ReadInterrupted | ReadTimedOut | TerminalError int int | TerminalUnavailable | ReadError
  | WriteClosed | WriteError

text \<open>
  The slot calls of one region and slot, on an environment \<open>'e\<close>: a read of at most \<open>n\<close> bytes (the
  returned code, the bytes stored, none when the call never returns), the terminal metadata, a write,
  the query's interrupt flag and the clock.
\<close>

record 'e slot_stubs =
  slot_read :: "'e \<Rightarrow> nat \<Rightarrow> (int \<times> string \<times> 'e) option"
  slot_terminal_error :: "'e \<Rightarrow> (int \<times> int) option"
  slot_write :: "'e \<Rightarrow> string \<Rightarrow> (int \<times> 'e) option"
  interrupted :: "'e \<Rightarrow> bool"
  now :: "'e \<Rightarrow> int"

record SabInputStream =
  position :: nat
  is_open :: bool
  has_context :: bool
  deadline :: "int option"

definition INT32_MAX :: int where "INT32_MAX = 2147483647"

definition want :: "nat \<Rightarrow> nat" where
  "want rest = (if int rest > INT32_MAX then nat INT32_MAX else rest)"

definition passed :: "int option \<Rightarrow> int \<Rightarrow> bool" where
  "passed d t = (case d of None \<Rightarrow> False | Some l \<Rightarrow> l \<le> t)"

fun read_loop ::
  "nat \<Rightarrow> 'e slot_stubs \<Rightarrow> SabInputStream \<Rightarrow> 'e \<Rightarrow> nat \<Rightarrow> string \<Rightarrow> ((sab_error + string) \<times> 'e) option" where
  "read_loop 0 S s e nbytes acc = None"
| "read_loop (Suc fuel) S s e nbytes acc =
     (if length acc < nbytes then
        case slot_read S e (want (nbytes - length acc)) of
          None \<Rightarrow> None
        | Some (n, bytes, e') \<Rightarrow>
            if n = kSabWouldBlock then
              if has_context s \<and> interrupted S e' then Some (Inl ReadInterrupted, e')
              else if passed (deadline s) (now S e') then Some (Inl ReadTimedOut, e')
              else read_loop fuel S s e' nbytes acc
            else if n = kSabTerminalTransportError then
              (case slot_terminal_error S e' of
                 Some (code, detail) \<Rightarrow> Some (Inl (TerminalError code detail), e')
               | None \<Rightarrow> Some (Inl TerminalUnavailable, e'))
            else if n < 0 then Some (Inl ReadError, e')
            else if n = 0 then Some (Inr acc, e')
            else read_loop fuel S s e' nbytes (acc @ bytes)
      else Some (Inr acc, e))"

definition SabInputStream_Read ::
  "nat \<Rightarrow> 'e slot_stubs \<Rightarrow> SabInputStream \<Rightarrow> 'e \<Rightarrow> nat \<Rightarrow> ((sab_error + string) \<times> SabInputStream \<times> 'e) option" where
  "SabInputStream_Read fuel S s e nbytes =
     (if \<not> is_open s then Some (Inl ReadClosed, s, e)
      else case read_loop fuel S s e nbytes [] of
        None \<Rightarrow> None
      | Some (Inl err, e') \<Rightarrow> Some (Inl err, s, e')
      | Some (Inr out, e') \<Rightarrow> Some (Inr out, s\<lparr>position := position s + length out\<rparr>, e'))"

definition SabInputStream_Close :: "SabInputStream \<Rightarrow> SabInputStream" where
  "SabInputStream_Close s = s\<lparr>is_open := False\<rparr>"

record SabOutputStream =
  oposition :: nat
  ois_open :: bool

fun write_loop :: "nat \<Rightarrow> 'e slot_stubs \<Rightarrow> 'e \<Rightarrow> string \<Rightarrow> nat \<Rightarrow> ((sab_error + nat) \<times> 'e) option" where
  "write_loop 0 S e d done_bytes = None"
| "write_loop (Suc fuel) S e d done_bytes =
     (if done_bytes < length d then
        case slot_write S e (take (want (length d - done_bytes)) (drop done_bytes d)) of
          None \<Rightarrow> None
        | Some (n, e') \<Rightarrow>
            if n < 0 then Some (Inl WriteError, e')
            else write_loop fuel S e' d (done_bytes + nat n)
      else Some (Inr done_bytes, e))"

definition SabOutputStream_Write ::
  "nat \<Rightarrow> 'e slot_stubs \<Rightarrow> SabOutputStream \<Rightarrow> 'e \<Rightarrow> string \<Rightarrow> ((sab_error + unit) \<times> SabOutputStream \<times> 'e) option" where
  "SabOutputStream_Write fuel S s e d =
     (if \<not> ois_open s then Some (Inl WriteClosed, s, e)
      else case write_loop fuel S e d 0 of
        None \<Rightarrow> None
      | Some (Inl err, e') \<Rightarrow> Some (Inl err, s, e')
      | Some (Inr k, e') \<Rightarrow> Some (Inr (), s\<lparr>oposition := oposition s + k\<rparr>, e'))"

section \<open>What a reader relies on\<close>





section \<open>The native slots keep the contract\<close>








text \<open>The native slots under any interrupt flag and any clock of the query.\<close>

definition native_stubs :: "(native_env \<Rightarrow> bool) \<Rightarrow> (native_env \<Rightarrow> int) \<Rightarrow> native_env slot_stubs" where
  "native_stubs flag clock = \<lparr>slot_read = vgi_wasm_slot_read, slot_terminal_error = \<lambda>e. vgi_wasm_slot_terminal_error (slot e),
     slot_write = vgi_wasm_slot_write, interrupted = flag, now = clock\<rparr>"









text \<open>
  The other direction: a blocking write ends when the worker makes enough reads, and then the worker
  holds, or will find in the ring, exactly what it had before followed by the written bytes.
\<close>

definition to_worker :: "native_env \<Rightarrow> string" where
  "to_worker e = received e @ contents (c2w (slot e))"

definition write_ready :: "native_env \<Rightarrow> bool" where
  "write_ready e \<longleftrightarrow> ring_ok (c2w (slot e)) \<and> state (slot e) \<noteq> 0 \<and> served e = state (slot e) \<and> list_all (\<lambda>n. 0 < n) (reads e)"

lemma worker_read_round_ready:
  assumes "write_ready e" "ring_free (c2w (slot e)) = 0" "reads e = n # ns" "worker_read_round (served e) n (slot e) = (out, s)"
  shows "write_ready (e\<lparr>slot := s, reads := ns, received := received e @ out\<rparr>)"
    "to_worker (e\<lparr>slot := s, reads := ns, received := received e @ out\<rparr>) = to_worker e"
    "ring_free (c2w s) = min n (cap (c2w s))" "state s = state (slot e)" "cap (c2w s) = cap (c2w (slot e))"
proof -
  let ?r = "c2w (slot e)"
  have ok: "ring_ok ?r" and n: "0 < n" and claim: "state (slot e) = served e"
    using assms by (auto simp: write_ready_def)
  obtain k out' r where t: "try_read ?r n (c2w_closed (slot e)) 1 = (k, out', r)" by (metis prod_cases3)
  have s: "out = out'" "s = (slot e)\<lparr>c2w := r\<rparr>"
    using assms(4) t claim by (auto simp: worker_read_round_def)
  note q = try_read_queue [OF ok t]
  have full: "avail ?r = cap ?r" "0 < cap ?r" using assms(2) ok by (auto simp: ring_free_def ring_ok_def)
  then have "contents ?r \<noteq> []" by (metis length_contents less_nat_zero_code list.size(3))
  then have "length out' = min (cap ?r) n" using q(3,4) full by simp
  moreover have capr: "cap r = cap ?r"
    using t by (auto simp: try_read_def ring_get_def Let_def split: if_splits prod.splits)
  moreover have "length (contents ?r) = length out' + length (contents r)" using q(1) by simp
  ultimately have "avail r + min (cap ?r) n = cap ?r" using full by simp
  then show "ring_free (c2w s) = min n (cap (c2w s))" by (simp add: s capr ring_free_def)
  show "write_ready (e\<lparr>slot := s, reads := ns, received := received e @ out\<rparr>)"
    "to_worker (e\<lparr>slot := s, reads := ns, received := received e @ out\<rparr>) = to_worker e"
    "state s = state (slot e)" "cap (c2w s) = cap (c2w (slot e))"
    using assms(1,3) q(1,2) capr by (auto simp: write_ready_def to_worker_def s)
qed

lemma write_all_result:
  assumes "write_ready e" "claim = state (slot e)" "off \<le> length d"
    and "length d - off \<le> ring_free (c2w (slot e)) + length (reads e)"
  shows "\<exists>e'. write_all_claim_safe e d off claim = Some (length d, e') \<and> to_worker e' = to_worker e @ drop off d"
  using assms
proof (induction "length d - off + length (reads e)" arbitrary: e off rule: less_induct)
  case less
  note eq = write_all_claim_safe.simps [of e d off claim]
  let ?r = "c2w (slot e)"
  consider "off = length d" | "off < length d" "ring_free ?r = 0" | "off < length d" "0 < ring_free ?r"
    using less.prems(3) by linarith
  then show ?case
  proof cases
    case 1
    then show ?thesis by (subst eq) simp
  next
    case 2
    then obtain n ns where rs: "reads e = n # ns" using less.prems(4) by (cases "reads e") auto
    obtain out s where w: "worker_read_round (served e) n (slot e) = (out, s)" by fastforce
    let ?e = "e\<lparr>slot := s, reads := ns, received := received e @ out\<rparr>"
    note wr = worker_read_round_ready [OF less.prems(1) 2(2) rs w]
    have step: "write_all_claim_safe e d off claim = write_all_claim_safe ?e d off claim"
      using 2 less.prems(2) rs w by (subst eq) simp
    have "0 < n" "0 < cap (c2w s)" using less.prems(1) rs wr(5) by (auto simp: write_ready_def ring_ok_def)
    then have "length d - off \<le> ring_free (c2w (slot ?e)) + length (reads ?e)"
      using less.prems(4) 2(2) rs wr(3) by simp
    with less.hyps [of off ?e] wr rs less.prems step show ?thesis by simp
  next
    case 3
    define k where "k = min (ring_free ?r) (length d - off)"
    let ?e = "e\<lparr>slot := (slot e)\<lparr>c2w := ring_put ?r (drop off d) k\<rparr>\<rparr>"
    have ok: "ring_ok ?r" using less.prems(1) by (simp add: write_ready_def)
    have k: "0 < k" "k \<le> ring_free ?r" "k \<le> length (drop off d)" using 3 by (auto simp: k_def)
    have step: "write_all_claim_safe e d off claim = write_all_claim_safe ?e d (off + k) claim"
      using 3 less.prems(2) by (subst eq) (simp add: k_def Let_def)
    have wr: "write_ready ?e" using less.prems(1) ok k by (simp add: write_ready_def)
    have "ring_free (c2w (slot ?e)) = ring_free ?r - k"
      using ok by (simp add: ring_free_def avail_def ring_ok_def)
    then have "length d - (off + k) \<le> ring_free (c2w (slot ?e)) + length (reads ?e)"
      using less.prems(4) k(2) by simp
    moreover have "to_worker ?e @ drop (off + k) d = to_worker e @ drop off d"
      using contents_ring_put [OF ok k(2,3)] by (simp add: to_worker_def add.commute flip: drop_drop)
    ultimately show ?thesis
      using less.hyps [of "off + k" ?e] wr k less.prems(2,3) step 3 by auto
  qed
qed

lemma native_write_delivers:
  assumes "write_ready e" "length d \<le> ring_free (c2w (slot e)) + length (reads e)"
  shows "\<exists>e'. vgi_wasm_slot_write e d = Some (int (length d), e') \<and> to_worker e' = to_worker e @ d"
  using write_all_result [OF assms(1) refl, of 0 d] assms by (auto simp: vgi_wasm_slot_write_def write_ready_def)


section \<open>A concrete slot\<close>



text \<open>
  The native read never reports that it would block: on an empty ring with an idle worker it waits for
  ever, so there the deadline of a stream is not polled.
\<close>

lemma native_read_blocks:
  assumes "state (slot e) \<noteq> 0" "avail (w2c (slot e)) = 0" "w2c_closed_claim (slot e) \<noteq> state (slot e)" "script e = []"
  shows "SabInputStream_Read fuel (native_stubs flag clock) \<lparr>position = p, is_open = True, has_context = True, deadline = Some l\<rparr> e (Suc n) = None"
proof -
  have idle: "worker_step e = e" if "script e = []" for e using that by (simp add: worker_step_def)
  have "(worker_step ^^ k) (e\<lparr>sched := ks\<rparr>) = e\<lparr>sched := ks\<rparr>" for k ks
    using assms(4) by (induction k) (auto simp: idle)
  then have "slot (run_worker e) = slot e" "script (run_worker e) = []"
    using assms(4) by (auto simp: run_worker_def split: list.splits)
  then have "read_some_claim_safe (run_worker e) m (state (slot e)) = None" for m
    using assms(2,3) by (subst read_some_claim_safe.simps) simp
  then show ?thesis
    using assms(1) \<open>slot (run_worker e) = slot e\<close>
    by (cases fuel) (auto simp: SabInputStream_Read_def native_stubs_def vgi_wasm_slot_read_def Let_def)
qed

end
