(* ===== verification/Pack_Store.thy ===== *)
theory Pack_Store
  imports Disk_Store Std_Map "HOL-Library.AList" "HOL-Library.Multiset"
begin

text \<open>
  The packed store of the result cache's disk tier, \<^verbatim>\<open>VgiResultCache::PackStore\<close> of
  \<^verbatim>\<open>src/src/vgi_result_cache.cpp\<close>: small entries are appended as records to pack files that one
  process writes and all read, an index in memory says where each key's record is, and a sidecar file
  keeps the index of a pack for the next process. The file system is a parameter as in
  \<open>Disk_Store\<close>; a hash table is an association list, and the order in which the code iterates over
  one is the argument \<open>ord\<close> on the list of its keys. Offsets and sizes are natural numbers.
\<close>

section \<open>State\<close>

record Loc =
  lpack :: string
  loffset :: nat
  lrec_len :: nat
  lexpires :: int
  llogical :: u64
  lrows :: int
  lexchange :: bool
  lown :: bool
  lseq :: u64

record PackMeta =
  pm_own :: bool
  pm_size :: nat

text \<open>The writer is the position of its file handle.\<close>

record ShardState =
  loaded :: bool
  index :: "(string \<times> Loc) list"
  packs :: "(string \<times> PackMeta) list"
  writer :: "nat option"
  writer_pack :: string
  writer_size :: nat
  writer_seq :: nat

definition fresh_shard :: ShardState where
  "fresh_shard = \<lparr>loaded = False, index = [], packs = [], writer = None, writer_pack = [], writer_size = 0, writer_seq = 0\<rparr>"

text \<open>The process-wide counters: names of temporary files and the age of index entries.\<close>

record pack_globals =
  self_id :: string
  age_seq :: u64
  tmp_base :: u64
  tmp_counter :: u64

record PackStore =
  globals :: pack_globals
  shards :: "string \<Rightarrow> ShardState"

definition b36_digits :: string where
  "b36_digits = ''0123456789abcdefghijklmnopqrstuvwxyz''"

fun b36 :: "nat \<Rightarrow> string" where
  "b36 v = b36_digits ! (v mod 36) # (if v div 36 = 0 then [] else b36 (v div 36))"

declare b36.simps [simp del]

definition ShortTempSuffix :: "pack_globals \<Rightarrow> string \<times> pack_globals" where
  "ShortTempSuffix g =
     (b36 (unat (tmp_base g)) @ ''-'' @ b36 (unat (tmp_counter g)), g\<lparr>tmp_counter := tmp_counter g + 1\<rparr>)"

definition new_PackStore :: "u64 \<Rightarrow> u64 \<Rightarrow> PackStore" where
  "new_PackStore base counter =
     (let (suffix, g) = ShortTempSuffix \<lparr>self_id = [], age_seq = 1, tmp_base = base, tmp_counter = counter\<rparr>
      in \<lparr>globals = g\<lparr>self_id := ''p'' @ suffix\<rparr>, shards = \<lambda>_. fresh_shard\<rparr>)"

definition ShardKey :: "string \<Rightarrow> string \<Rightarrow> string" where
  "ShardKey dir shard_hash = dir @ [CHR 0x1F] @ shard_hash"

definition VidxOf :: "string \<Rightarrow> string" where
  "VidxOf base = take (length base - 6) base @ ''.vidx''"

definition IsOwn :: "pack_globals \<Rightarrow> string \<Rightarrow> bool" where
  "IsOwn g base = starts_with base (self_id g @ ''-'')"

definition pack_name :: "pack_globals \<Rightarrow> nat \<Rightarrow> string" where
  "pack_name g n = self_id g @ ''-'' @ show_nat n @ ''.vpack''"

definition packs_dir :: "string \<Rightarrow> string \<Rightarrow> string" where
  "packs_dir dir shard_hash = dir @ ''/'' @ shard_hash @ ''/packs''"

definition iterate :: "(string list \<Rightarrow> string list) \<Rightarrow> (string \<times> 'v) list \<Rightarrow> (string \<times> 'v) list" where
  "iterate ord m = map (\<lambda>k. (k, the (map_of m k))) (ord (map fst m))"

section \<open>Files\<close>

text \<open>A positional read of a whole range: it throws when the file does not reach that far.\<close>

definition read_at :: "'fs file_system \<Rightarrow> 'fs \<Rightarrow> string \<Rightarrow> nat \<Rightarrow> nat \<Rightarrow> string option" where
  "read_at F s path n off =
     (case fs_read F s path of
        None \<Rightarrow> None
      | Some c \<Rightarrow> if off + n \<le> length c then Some (take n (drop off c)) else None)"

text \<open>\<open>WriteAll\<close> from the handle's position: whether it completed, the new position and the state.\<close>

function WriteAll :: "'fs file_system \<Rightarrow> string \<Rightarrow> nat \<Rightarrow> string \<Rightarrow> nat \<Rightarrow> 'fs \<Rightarrow> bool \<times> nat \<times> 'fs" where
  "WriteAll F path pos bytes off s =
     (if off < length bytes then
        case fs_write F s path (pos + off) (drop off bytes) of
          (w, s') \<Rightarrow> if w \<le> 0 then (False, pos + off, s') else WriteAll F path pos bytes (off + nat w) s'
      else (True, pos + off, s))"
  by pat_completeness auto
termination
  by (relation "measure (\<lambda>(F, path, pos, bytes, off, s). length bytes - off)") auto

declare WriteAll.simps [simp del]

section \<open>The sidecar index\<close>

definition vidx_entry :: "string \<times> Loc \<Rightarrow> string" where
  "vidx_entry kv =
     fst kv @ put_le 8 (of_nat (loffset (snd kv)) :: u64) @ put_le 8 (of_nat (lrec_len (snd kv)) :: u64) @
     put_le 8 (u64_of (lexpires (snd kv))) @ put_le 8 (llogical (snd kv)) @ put_le 8 (u64_of (lrows (snd kv))) @
     [if lexchange (snd kv) then char_of (1 :: nat) else char_of (0 :: nat)]"

definition vidx_text :: "(string list \<Rightarrow> string list) \<Rightarrow> string \<Rightarrow> ShardState \<Rightarrow> nat \<Rightarrow> string" where
  "vidx_text ord base st pack_size =
     (let es = filter (\<lambda>kv. lpack (snd kv) = base) (iterate ord (index st)) in
      ''VIX1'' @ put_le 8 (of_nat pack_size :: u64) @ put_le 8 (of_nat (length es) :: u64) @ concat (map vidx_entry es))"

definition WriteVidx ::
  "'fs file_system \<Rightarrow> (string list \<Rightarrow> string list) \<Rightarrow> string \<Rightarrow> string \<Rightarrow> ShardState \<Rightarrow> nat \<Rightarrow> pack_globals \<Rightarrow> 'fs \<Rightarrow>
   pack_globals \<times> 'fs" where
  "WriteVidx F ord pdir base st pack_size g s =
     (let (suffix, g') = ShortTempSuffix g
      in (g', snd (WriteFileAtomic F (pdir @ ''/'' @ VidxOf base) (vidx_text ord base st pack_size) suffix s)))"

definition insert_loc :: "string \<Rightarrow> Loc \<Rightarrow> ShardState \<Rightarrow> ShardState" where
  "insert_loc keyfp loc st =
     (case map_of (index st) keyfp of
        None \<Rightarrow> st\<lparr>index := AList.update keyfp loc (index st)\<rparr>
      | Some l \<Rightarrow> if lexpires loc > lexpires l then st\<lparr>index := AList.update keyfp loc (index st)\<rparr> else st)"

definition next_age :: "pack_globals \<Rightarrow> u64 \<times> pack_globals" where
  "next_age g = (age_seq g, g\<lparr>age_seq := age_seq g + 1\<rparr>)"

definition u64_at :: "string \<Rightarrow> nat \<Rightarrow> u64" where
  "u64_at idx p = get_le 8 (drop p idx)"

text \<open>The entries of a sidecar; false when it is too short for its count.\<close>

fun vidx_entries :: "nat \<Rightarrow> string \<Rightarrow> nat \<Rightarrow> string \<Rightarrow> bool \<Rightarrow> pack_globals \<Rightarrow> ShardState \<Rightarrow> bool \<times> pack_globals \<times> ShardState" where
  "vidx_entries 0 idx p base own g st = (True, g, st)"
| "vidx_entries (Suc n) idx p base own g st =
     (if p + 105 > length idx then (False, g, st)
      else let (q, g') = next_age g;
               loc = \<lparr>lpack = base, loffset = unat (u64_at idx (p + 64)), lrec_len = unat (u64_at idx (p + 72)),
                      lexpires = i64_of (u64_at idx (p + 80)), llogical = u64_at idx (p + 88),
                      lrows = i64_of (u64_at idx (p + 96)), lexchange = idx ! (p + 104) \<noteq> CHR 0x00, lown = own, lseq = q\<rparr>
           in vidx_entries n idx (p + 105) base own g' (insert_loc (take 64 (drop p idx)) loc st))"

fun insert_scanned :: "(nat \<times> nat \<times> Rec) list \<Rightarrow> string \<Rightarrow> bool \<Rightarrow> pack_globals \<Rightarrow> ShardState \<Rightarrow> pack_globals \<times> ShardState" where
  "insert_scanned [] base own g st = (g, st)"
| "insert_scanned ((off, len, r) # rs) base own g st =
     (let (q, g') = next_age g;
          loc = \<lparr>lpack = base, loffset = off, lrec_len = len, lexpires = rexpires r, llogical = rlogical r,
                 lrows = rrows r, lexchange = odd (rflags r), lown = own, lseq = q\<rparr>
      in insert_scanned rs base own g' (insert_loc (rkeyfp r) loc st))"

definition vidx_usable :: "string option \<Rightarrow> nat \<Rightarrow> bool" where
  "vidx_usable oidx actual_size =
     (case oidx of
        None \<Rightarrow> False
      | Some idx \<Rightarrow> length idx \<ge> 20 \<and> take 4 idx = ''VIX1'' \<and> unat (u64_at idx 4) = actual_size)"

text \<open>A scan that does not end within the fuel is none.\<close>

definition LoadOnePack ::
  "'fs file_system \<Rightarrow> (string list \<Rightarrow> string list) \<Rightarrow> nat \<Rightarrow> string \<Rightarrow> string \<Rightarrow> pack_globals \<Rightarrow> ShardState \<Rightarrow> 'fs \<Rightarrow>
   (pack_globals \<times> ShardState \<times> 'fs) option" where
  "LoadOnePack F ord fuel pdir base g st s =
     (case fs_read F s (pdir @ ''/'' @ base) of
        None \<Rightarrow> Some (g, st, s)
      | Some content \<Rightarrow>
          let own = IsOwn g base;
              st1 = st\<lparr>packs := AList.update base \<lparr>pm_own = own, pm_size = length content\<rparr> (packs st)\<rparr>;
              oidx = ReadFileAll F (pdir @ ''/'' @ VidxOf base) s;
              (ok, g2, st2) = (if vidx_usable oidx (length content)
                               then vidx_entries (unat (u64_at (the oidx) 12)) (the oidx) 20 base own g st1
                               else (False, g, st1))
          in if ok then Some (g2, st2, s)
             else case scan_pack fuel content 0 [] of
               None \<Rightarrow> None
             | Some rs \<Rightarrow>
                 let (g3, st3) = insert_scanned rs base own g2 st2;
                     (g4, s4) = WriteVidx F ord pdir base st3 (length content) g3 s
                 in Some (g4, st3, s4))"

section \<open>Loading and writing\<close>

definition is_vpack :: "string \<times> bool \<Rightarrow> bool" where
  "is_vpack e \<longleftrightarrow> \<not> snd e \<and> length (fst e) > 6 \<and> drop (length (fst e) - 6) (fst e) = ''.vpack''"

fun load_packs ::
  "'fs file_system \<Rightarrow> (string list \<Rightarrow> string list) \<Rightarrow> nat \<Rightarrow> string \<Rightarrow> string list \<Rightarrow> pack_globals \<Rightarrow> ShardState \<Rightarrow> 'fs \<Rightarrow>
   (pack_globals \<times> ShardState \<times> 'fs) option" where
  "load_packs F ord fuel pdir [] g st s = Some (g, st, s)"
| "load_packs F ord fuel pdir (b # bs) g st s =
     (case LoadOnePack F ord fuel pdir b g st s of
        None \<Rightarrow> None
      | Some (g', st', s') \<Rightarrow> load_packs F ord fuel pdir bs g' st' s')"

definition EnsureLoaded ::
  "'fs file_system \<Rightarrow> (string list \<Rightarrow> string list) \<Rightarrow> nat \<Rightarrow> string \<Rightarrow> string \<Rightarrow> pack_globals \<Rightarrow> ShardState \<Rightarrow> 'fs \<Rightarrow>
   (pack_globals \<times> ShardState \<times> 'fs) option" where
  "EnsureLoaded F ord fuel dir shard_hash g st s =
     (if loaded st then Some (g, st, s)
      else let st1 = st\<lparr>loaded := True\<rparr>; pdir = packs_dir dir shard_hash in
           if \<not> fs_dir_exists F s pdir then Some (g, st1, s)
           else load_packs F ord fuel pdir (sort (map fst (filter is_vpack (fs_list F s pdir)))) g st1 s)"

definition EnsureWriter ::
  "'fs file_system \<Rightarrow> (string list \<Rightarrow> string list) \<Rightarrow> string \<Rightarrow> string \<Rightarrow> nat \<Rightarrow> nat \<Rightarrow> pack_globals \<Rightarrow> ShardState \<Rightarrow> 'fs \<Rightarrow>
   bool \<times> pack_globals \<times> ShardState \<times> 'fs" where
  "EnsureWriter F ord dir shard_hash target_bytes need g st s =
     (let pdir = packs_dir dir shard_hash;
          roll = (writer st \<noteq> None \<and> target_bytes > 0 \<and> writer_size st + need > target_bytes) in
      if writer st \<noteq> None \<and> \<not> roll then (True, g, st, s)
      else
        let (g1, s1) = (if writer st \<noteq> None then WriteVidx F ord pdir (writer_pack st) st (writer_size st) g s else (g, s));
            st1 = st\<lparr>writer := None\<rparr>
        in case mkdirs F [dir, dir @ ''/'' @ shard_hash, pdir] s1 of
             (False, s2) \<Rightarrow> (False, g1, st1, s2)
           | (True, s2) \<Rightarrow>
               let base = pack_name g1 (writer_seq st1);
                   st2 = st1\<lparr>writer_seq := writer_seq st1 + 1\<rparr>
               in case fs_open F s2 (pdir @ ''/'' @ base) of
                    None \<Rightarrow> (False, g1, st2, s2)
                  | Some s3 \<Rightarrow>
                      (True, g1, st2\<lparr>writer := Some 0, writer_pack := base, writer_size := 0,
                         packs := AList.update base \<lparr>pm_own = True, pm_size = 0\<rparr> (packs st2)\<rparr>, s3))"

text \<open>
  The part of \<open>Persist\<close> under the mutex, on the shard's state. The wall clock is read for the
  record and again for the index entry.
\<close>

definition persist_shard ::
  "'fs file_system \<Rightarrow> (string list \<Rightarrow> string list) \<Rightarrow> int \<times> int \<Rightarrow> string \<Rightarrow> string \<Rightarrow> string \<Rightarrow> VgiResultCacheEntry \<Rightarrow> string \<Rightarrow>
   string \<Rightarrow> nat \<Rightarrow> pack_globals \<Rightarrow> ShardState \<Rightarrow> 'fs \<Rightarrow> bool \<times> pack_globals \<times> ShardState \<times> 'fs" where
  "persist_shard F ord nows dir shard_hash keyfp entry blob content_sha target_bytes g0 st0 s0 =
     (let rec_bytes = BuildRecord (fst nows) entry blob content_sha keyfp in
      case EnsureWriter F ord dir shard_hash target_bytes (length rec_bytes) g0 st0 s0 of
        (False, g, st, s) \<Rightarrow> (False, g, st, s)
      | (True, g, st, s) \<Rightarrow>
          (case writer st of
             None \<Rightarrow> (False, g, st, s)
           | Some pos \<Rightarrow>
               let offset = writer_size st in
               case WriteAll F (packs_dir dir shard_hash @ ''/'' @ writer_pack st) pos rec_bytes 0 s of
                 (False, pos', s') \<Rightarrow> (False, g, st\<lparr>writer := Some pos'\<rparr>, s')
               | (True, pos', s') \<Rightarrow>
                   let size' = writer_size st + length rec_bytes;
                       (q, g') = next_age g;
                       loc = \<lparr>lpack = writer_pack st, loffset = offset, lrec_len = length rec_bytes,
                              lexpires = ComputeExpiresUnix (snd nows) entry, llogical = u64_of (etotal_bytes entry),
                              lrows = erows entry, lexchange = (input_hash (ekey entry) \<noteq> []), lown = True, lseq = q\<rparr>;
                       own = (case map_of (packs st) (writer_pack st) of None \<Rightarrow> False | Some m \<Rightarrow> pm_own m)
                   in (True, g', st\<lparr>writer := Some pos', writer_size := size',
                         packs := AList.update (writer_pack st) \<lparr>pm_own = own, pm_size = size'\<rparr> (packs st),
                         index := AList.update keyfp loc (index st)\<rparr>, s')))"

definition set_shard :: "string \<Rightarrow> pack_globals \<times> ShardState \<Rightarrow> PackStore \<Rightarrow> PackStore" where
  "set_shard k gs P = P\<lparr>globals := fst gs, shards := (shards P)(k := snd gs)\<rparr>"

definition PackStore_Persist ::
  "'fs file_system \<Rightarrow> (string list \<Rightarrow> string list) \<Rightarrow> (string \<Rightarrow> string) \<Rightarrow> nat \<Rightarrow> int \<times> int \<Rightarrow> string \<Rightarrow> VgiResultCacheEntry \<Rightarrow>
   string \<Rightarrow> string \<Rightarrow> nat \<Rightarrow> PackStore \<Rightarrow> 'fs \<Rightarrow> (bool \<times> PackStore \<times> 'fs) option" where
  "PackStore_Persist F ord sha fuel nows dir entry blob content_sha target_bytes P s =
     (let keyfp = Fingerprint sha (ekey entry) in
      if keyfp = [] then Some (False, P, s)
      else let shard_hash = sha (identity_scope (ekey entry)); k = ShardKey dir shard_hash in
           case EnsureLoaded F ord fuel dir shard_hash (globals P) (shards P k) s of
             None \<Rightarrow> None
           | Some (g, st, s1) \<Rightarrow>
               let (ok, g', st', s') = persist_shard F ord nows dir shard_hash keyfp entry blob content_sha target_bytes g st s1
               in Some (ok, set_shard k (g', st') P, s'))"

text \<open>The part of \<open>Lookup\<close> outside the mutex: read the record back, check it and build the entry.\<close>

definition serve_rec ::
  "(string \<Rightarrow> string) \<Rightarrow> nat \<Rightarrow> int \<Rightarrow> int \<Rightarrow> VgiResultCacheKey \<Rightarrow> Rec \<Rightarrow> load_result option" where
  "serve_rec sha fuel now_unix now k r =
     (if rkeyfp r \<noteq> Fingerprint sha k then Some Missing
      else if sha (rblob r) \<noteq> rcontent_sha r then Some Missing
      else case ParseEntryBlobIntoStream fuel (rblob r) of
        None \<Rightarrow> None
      | Some (Inl Overread) \<Rightarrow> Some Undefined
      | Some (Inl _) \<Rightarrow> Some Missing
      | Some (Inr (stream, total_b)) \<Rightarrow>
          Some (Served (expiry_fields (rexpires r) now_unix now
            (blank_entry k\<lparr>streams := [stream], etotal_bytes := total_b, erows := rrows r, escope := rscope r,
               eetag := retag r, elast_modified := rlm r, catalog_name := rcatalog r\<rparr>))))"

definition serve_loc ::
  "'fs file_system \<Rightarrow> (string \<Rightarrow> string) \<Rightarrow> nat \<Rightarrow> int \<Rightarrow> int \<Rightarrow> VgiResultCacheKey \<Rightarrow> string \<Rightarrow> Loc \<Rightarrow> 'fs \<Rightarrow> load_result option" where
  "serve_loc F sha fuel now_unix now k pdir loc s =
     (if lexpires loc \<noteq> 2 ^ 63 - 1 \<and> now_unix \<ge> lexpires loc then Some Missing
      else case read_at F s (pdir @ ''/'' @ lpack loc) (lrec_len loc) (loffset loc) of
        None \<Rightarrow> Some Missing
      | Some b \<Rightarrow>
          (case ParseRecord b 0 (length b) of
             None \<Rightarrow> Some Missing
           | Some (r, _) \<Rightarrow> serve_rec sha fuel now_unix now k r))"

definition PackStore_Lookup ::
  "'fs file_system \<Rightarrow> (string list \<Rightarrow> string list) \<Rightarrow> (string \<Rightarrow> string) \<Rightarrow> nat \<Rightarrow> int \<Rightarrow> int \<Rightarrow> string \<Rightarrow> VgiResultCacheKey \<Rightarrow>
   PackStore \<Rightarrow> 'fs \<Rightarrow> (load_result \<times> PackStore \<times> 'fs) option" where
  "PackStore_Lookup F ord sha fuel now_unix now dir k P s =
     (let keyfp = Fingerprint sha k in
      if keyfp = [] then Some (Missing, P, s)
      else let shard_hash = sha (identity_scope k); sk = ShardKey dir shard_hash in
           case EnsureLoaded F ord fuel dir shard_hash (globals P) (shards P sk) s of
             None \<Rightarrow> None
           | Some (g, st, s') \<Rightarrow>
               let P' = set_shard sk (g, st) P in
               case map_of (index st) keyfp of
                 None \<Rightarrow> Some (Missing, P', s')
               | Some loc \<Rightarrow>
                   map_option (\<lambda>r. (r, P', s')) (serve_loc F sha fuel now_unix now k (packs_dir dir shard_hash) loc s'))"

section \<open>Reaping\<close>

definition RemovePackFiles :: "'fs file_system \<Rightarrow> string \<Rightarrow> string \<Rightarrow> 'fs \<Rightarrow> 'fs" where
  "RemovePackFiles F pdir base s =
     snd (fs_remove F (snd (fs_remove F s (pdir @ ''/'' @ base))) (pdir @ ''/'' @ VidxOf base))"

definition SealWriter ::
  "'fs file_system \<Rightarrow> (string list \<Rightarrow> string list) \<Rightarrow> string \<Rightarrow> pack_globals \<Rightarrow> ShardState \<Rightarrow> 'fs \<Rightarrow>
   pack_globals \<times> ShardState \<times> 'fs" where
  "SealWriter F ord pdir g st s =
     (if writer st = None then (g, st, s)
      else let (g', s') = WriteVidx F ord pdir (writer_pack st) st (writer_size st) g s
           in (g', st\<lparr>writer := None, writer_pack := [], writer_size := 0\<rparr>, s'))"

text \<open>The copy loop of a compaction; false when a read or a write throws.\<close>

fun copy_live ::
  "'fs file_system \<Rightarrow> string \<Rightarrow> string \<Rightarrow> string \<Rightarrow> (string \<times> Loc) list \<Rightarrow> nat \<Rightarrow> ShardState \<Rightarrow> 'fs \<Rightarrow>
   bool \<times> nat \<times> ShardState \<times> 'fs" where
  "copy_live F pdir old_path new_base [] out_off st s = (True, out_off, st, s)"
| "copy_live F pdir old_path new_base ((k, loc) # live) out_off st s =
     (case read_at F s old_path (lrec_len loc) (loffset loc) of
        None \<Rightarrow> (False, out_off, st, s)
      | Some b \<Rightarrow>
          (case WriteAll F (pdir @ ''/'' @ new_base) out_off b 0 s of
             (False, _, s') \<Rightarrow> (False, out_off, st, s')
           | (True, _, s') \<Rightarrow>
               copy_live F pdir old_path new_base live (out_off + lrec_len loc)
                 (st\<lparr>index := AList.update k (loc\<lparr>lpack := new_base, loffset := out_off\<rparr>) (index st)\<rparr>) s'))"

definition CompactPack ::
  "'fs file_system \<Rightarrow> (string list \<Rightarrow> string list) \<Rightarrow> string \<Rightarrow> string \<Rightarrow> pack_globals \<Rightarrow> ShardState \<Rightarrow> 'fs \<Rightarrow>
   pack_globals \<times> ShardState \<times> 'fs" where
  "CompactPack F ord pdir base g st s =
     (let live = filter (\<lambda>kv. lpack (snd kv) = base) (iterate ord (index st));
          old_path = pdir @ ''/'' @ base in
      if live = [] then (g, st\<lparr>packs := AList.delete base (packs st)\<rparr>, RemovePackFiles F pdir base s)
      else
        let new_base = pack_name g (writer_seq st);
            st1 = st\<lparr>writer_seq := writer_seq st + 1\<rparr> in
        if fs_read F s old_path = None then (g, st1, s)
        else case fs_open F s (pdir @ ''/'' @ new_base) of
          None \<Rightarrow> (g, st1, s)
        | Some s1 \<Rightarrow>
            (case copy_live F pdir old_path new_base live 0 st1 s1 of
               (False, _, st2, s2) \<Rightarrow> (g, st2, s2)
             | (True, out_off, st2, s2) \<Rightarrow>
                 let st3 = st2\<lparr>packs := AList.update new_base \<lparr>pm_own = True, pm_size = out_off\<rparr> (AList.delete base (packs st2))\<rparr>;
                     (g', s3) = WriteVidx F ord pdir new_base st3 out_off g s2
                 in (g', st3, RemovePackFiles F pdir base s3)))"

definition loc_expired :: "int \<Rightarrow> Loc \<Rightarrow> bool" where
  "loc_expired now_unix loc \<longleftrightarrow> lexpires loc \<noteq> 2 ^ 63 - 1 \<and> now_unix \<ge> lexpires loc"

definition expire_shard :: "int \<Rightarrow> ShardState \<Rightarrow> nat \<times> ShardState" where
  "expire_shard now_unix st =
     (length (filter (\<lambda>kv. loc_expired now_unix (snd kv)) (index st)),
      st\<lparr>index := filter (\<lambda>kv. \<not> loc_expired now_unix (snd kv)) (index st)\<rparr>)"

definition live_of :: "ShardState \<Rightarrow> string \<Rightarrow> nat" where
  "live_of st pack = sum_list (map (\<lambda>kv. lrec_len (snd kv)) (filter (\<lambda>kv. lpack (snd kv) = pack) (index st)))"

definition over_threshold :: "nat \<Rightarrow> nat \<Rightarrow> nat \<Rightarrow> bool" where
  "over_threshold dead_pct sz live =
     (if sz = 0 then False
      else let dead = (if sz > live then sz - live else 0) in live = 0 \<or> dead * 100 \<ge> sz * dead_pct)"

fun compact_packs ::
  "'fs file_system \<Rightarrow> (string list \<Rightarrow> string list) \<Rightarrow> string \<Rightarrow> string list \<Rightarrow> pack_globals \<Rightarrow> ShardState \<Rightarrow> 'fs \<Rightarrow>
   pack_globals \<times> ShardState \<times> 'fs" where
  "compact_packs F ord pdir [] g st s = (g, st, s)"
| "compact_packs F ord pdir (b # bs) g st s =
     (case CompactPack F ord pdir b g st s of (g', st', s') \<Rightarrow> compact_packs F ord pdir bs g' st' s')"

definition reclaim_shard ::
  "'fs file_system \<Rightarrow> (string list \<Rightarrow> string list) \<Rightarrow> string \<Rightarrow> nat \<Rightarrow> pack_globals \<Rightarrow> ShardState \<Rightarrow> 'fs \<Rightarrow>
   pack_globals \<times> ShardState \<times> 'fs" where
  "reclaim_shard F ord pdir dead_pct g st s =
     (let wsize = (case map_of (packs st) (writer_pack st) of None \<Rightarrow> 0 | Some m \<Rightarrow> pm_size m);
          (g1, st1, s1) =
            (if writer st \<noteq> None \<and> writer_pack st \<noteq> [] \<and> over_threshold dead_pct wsize (live_of st (writer_pack st))
             then SealWriter F ord pdir g st s else (g, st, s));
          to_compact =
            map fst (filter (\<lambda>pk. pm_own (snd pk) \<and> fst pk \<noteq> writer_pack st1 \<and>
                                  over_threshold dead_pct (pm_size (snd pk)) (live_of st1 (fst pk))) (iterate ord (packs st1)))
      in compact_packs F ord pdir to_compact g1 st1 s1)"

text \<open>The eviction for the byte cap: the victims in ascending age, over all shards of the directory.\<close>

fun evict_packed :: "int \<Rightarrow> (string \<times> string) list \<Rightarrow> int \<Rightarrow> (string \<Rightarrow> ShardState) \<Rightarrow> nat \<times> (string \<Rightarrow> ShardState)" where
  "evict_packed max_bytes [] tot sh = (0, sh)"
| "evict_packed max_bytes ((sk, k) # vs) tot sh =
     (if tot \<le> max_bytes then (0, sh)
      else case map_of (index (sh sk)) k of
        None \<Rightarrow> evict_packed max_bytes vs tot sh
      | Some loc \<Rightarrow>
          let (n, sh') = evict_packed max_bytes vs (tot - i64_of (llogical loc))
                (sh(sk := (sh sk)\<lparr>index := AList.delete k (index (sh sk))\<rparr>))
          in (n + 1, sh'))"

definition by_age :: "(string list \<Rightarrow> string list) \<Rightarrow> string list \<Rightarrow> (string \<Rightarrow> ShardState) \<Rightarrow> (u64 \<times> string \<times> string) list" where
  "by_age ord sks sh =
     sort_key fst (concat (map (\<lambda>sk. map (\<lambda>kv. (lseq (snd kv), sk, fst kv)) (iterate ord (index (sh sk)))) sks))"

definition packed_total :: "string list \<Rightarrow> (string \<Rightarrow> ShardState) \<Rightarrow> int" where
  "packed_total sks sh = sum_list (map (\<lambda>sk. sum_list (map (\<lambda>kv. i64_of (llogical (snd kv))) (index (sh sk)))) sks)"

definition evict_over_cap :: "(string list \<Rightarrow> string list) \<Rightarrow> u64 \<Rightarrow> string list \<Rightarrow> (string \<Rightarrow> ShardState) \<Rightarrow> nat \<times> (string \<Rightarrow> ShardState)" where
  "evict_over_cap ord max_bytes sks sh =
     (if max_bytes > 0 \<and> packed_total sks sh > i64_of max_bytes
      then evict_packed (i64_of max_bytes) (map snd (by_age ord sks sh)) (packed_total sks sh) sh
      else (0, sh))"

fun expire_shards ::
  "'fs file_system \<Rightarrow> (string list \<Rightarrow> string list) \<Rightarrow> nat \<Rightarrow> string \<Rightarrow> int \<Rightarrow> string list \<Rightarrow> PackStore \<Rightarrow> 'fs \<Rightarrow> (nat \<times> PackStore \<times> 'fs) option" where
  "expire_shards F ord fuel dir now_unix [] P s = Some (0, P, s)"
| "expire_shards F ord fuel dir now_unix (h # hs) P s =
     (case EnsureLoaded F ord fuel dir h (globals P) (shards P (ShardKey dir h)) s of
        None \<Rightarrow> None
      | Some (g, st, s1) \<Rightarrow>
          let (n, st') = expire_shard now_unix st in
          map_option (\<lambda>(m, r). (n + m, r))
            (expire_shards F ord fuel dir now_unix hs (set_shard (ShardKey dir h) (g, st') P) s1))"

fun reclaim_shards ::
  "'fs file_system \<Rightarrow> (string list \<Rightarrow> string list) \<Rightarrow> string \<Rightarrow> nat \<Rightarrow> string list \<Rightarrow> PackStore \<Rightarrow> 'fs \<Rightarrow> PackStore \<times> 'fs" where
  "reclaim_shards F ord dir dead_pct [] P s = (P, s)"
| "reclaim_shards F ord dir dead_pct (h # hs) P s =
     (case reclaim_shard F ord (packs_dir dir h) dead_pct (globals P) (shards P (ShardKey dir h)) s of
        (g, st, s') \<Rightarrow> reclaim_shards F ord dir dead_pct hs (set_shard (ShardKey dir h) (g, st) P) s')"

definition PackStore_Reap ::
  "'fs file_system \<Rightarrow> (string list \<Rightarrow> string list) \<Rightarrow> nat \<Rightarrow> string \<Rightarrow> int \<Rightarrow> u64 \<Rightarrow> nat \<Rightarrow> PackStore \<Rightarrow> 'fs \<Rightarrow> (nat \<times> PackStore \<times> 'fs) option" where
  "PackStore_Reap F ord fuel dir now_unix max_bytes dead_pct P s =
     (if dir = [] \<or> \<not> fs_dir_exists F s dir then Some (0, P, s)
      else let hs = map fst (filter snd (fs_list F s dir)) in
           case expire_shards F ord fuel dir now_unix hs P s of
             None \<Rightarrow> None
           | Some (n, P1, s1) \<Rightarrow>
               let (m, sh) = evict_over_cap ord max_bytes (map (ShardKey dir) hs) (shards P1);
                   (P2, s2) = reclaim_shards F ord dir dead_pct hs (P1\<lparr>shards := sh\<rparr>) s1
               in Some (n + m, P2, s2))"

definition InvalidateShard :: "string \<Rightarrow> string \<Rightarrow> PackStore \<Rightarrow> PackStore" where
  "InvalidateShard dir shard_hash P = P\<lparr>shards := (shards P)(ShardKey dir shard_hash := fresh_shard)\<rparr>"

definition InvalidateAll :: "PackStore \<Rightarrow> PackStore" where
  "InvalidateAll P = P\<lparr>shards := \<lambda>_. fresh_shard\<rparr>"

section \<open>What the store relies on\<close>

text \<open>
  A file opened for writing is created empty or kept; a write at a position inside the file or at its
  end replaces the bytes from there; a removal removes. \<open>writes_progress\<close> excludes a full disk.
\<close>

definition pack_fs_laws :: "'fs file_system \<Rightarrow> bool" where
  "pack_fs_laws F \<longleftrightarrow> fs_laws F \<and>
     (\<forall>s p s'. fs_open F s p = Some s' \<longrightarrow>
        fs_read F s' = (if fs_read F s p = None then (fs_read F s)(p \<mapsto> []) else fs_read F s)) \<and>
     (\<forall>s p pos b w s' c. fs_write F s p pos b = (w, s') \<longrightarrow> 0 < w \<longrightarrow> fs_read F s p = Some c \<longrightarrow> pos \<le> length c \<longrightarrow>
        w \<le> int (length b) \<and> fs_read F s' = (fs_read F s)(p \<mapsto> memcpy c pos (take (nat w) b))) \<and>
     (\<forall>s p ok s'. fs_remove F s p = (ok, s') \<longrightarrow> fs_read F s' = (if ok then (fs_read F s)(p := None) else fs_read F s))"

definition writes_progress :: "'fs file_system \<Rightarrow> bool" where
  "writes_progress F \<longleftrightarrow> (\<forall>s p pos b. fs_read F s p \<noteq> None \<longrightarrow> b \<noteq> [] \<longrightarrow> 0 < fst (fs_write F s p pos b))"

definition order_law :: "(string list \<Rightarrow> string list) \<Rightarrow> bool" where
  "order_law ord \<longleftrightarrow> (\<forall>ks. mset (ord ks) = mset ks)"

section \<open>Names\<close>

definition dotless :: "string \<Rightarrow> bool" where "dotless s \<longleftrightarrow> CHR ''.'' \<notin> set s"

lemma ext_unique:
  assumes "x @ CHR ''.'' # a = y @ CHR ''.'' # b" "dotless a" "dotless b"
  shows "a = b"
proof -
  have "takeWhile (\<lambda>c. c \<noteq> CHR ''.'') (rev (x @ CHR ''.'' # a)) = rev a" if "dotless a" for x a
    using that by (auto simp: dotless_def takeWhile_append)
  with assms show ?thesis by (metis rev_rev_ident)
qed

lemma b36_chars: "c \<in> set (b36 v) \<Longrightarrow> c \<in> set b36_digits"
proof (induction v rule: b36.induct)
  case (1 v)
  have "length b36_digits = 36" by (simp add: b36_digits_def)
  then have "b36_digits ! (v mod 36) \<in> set b36_digits" by (intro nth_mem) simp
  with 1 show ?case by (subst (asm) b36.simps) (auto split: if_splits)
qed

lemma ShortTempSuffix_dotless: "dotless (fst (ShortTempSuffix g))"
proof -
  have "CHR ''.'' \<notin> set b36_digits" by (simp add: b36_digits_def)
  then have "CHR ''.'' \<notin> set (b36 v)" for v using b36_chars by blast
  then show ?thesis by (simp add: ShortTempSuffix_def dotless_def)
qed

lemma is_vpack_iff: "is_vpack (b, False) \<longleftrightarrow> (\<exists>x. x \<noteq> [] \<and> b = x @ ''.vpack'')"
proof
  assume a: "is_vpack (b, False)"
  then have "b = take (length b - 6) b @ ''.vpack''" by (metis append_take_drop_id fst_conv is_vpack_def)
  moreover have "take (length b - 6) b \<noteq> []" using a by (auto simp: is_vpack_def)
  ultimately show "\<exists>x. x \<noteq> [] \<and> b = x @ ''.vpack''" by blast
qed (auto simp: is_vpack_def)

lemma vpack_not_sidecar:
  assumes "is_vpack (b, False)"
  shows "b \<noteq> VidxOf base" "dotless t \<Longrightarrow> b \<noteq> VidxOf base @ ''.tmp-'' @ t"
proof -
  obtain x where b: "b = x @ CHR ''.'' # ''vpack''" using assms by (auto simp: is_vpack_iff)
  show "b \<noteq> VidxOf base"
    using ext_unique [of x "''vpack''" "take (length base - 6) base" "''vidx''"] by (auto simp: b VidxOf_def dotless_def)
  show "dotless t \<Longrightarrow> b \<noteq> VidxOf base @ ''.tmp-'' @ t"
    using ext_unique [of x "''vpack''" "VidxOf base" "''tmp-'' @ t"] by (auto simp: b dotless_def)
qed

lemma pack_name_vpack [simp]: "is_vpack (pack_name g n, False)"
  unfolding is_vpack_iff pack_name_def by (rule exI [of _ "self_id g @ ''-'' @ show_nat n"]) simp

lemma pack_name_inj [simp]: "pack_name g m = pack_name g n \<longleftrightarrow> m = n"
  by (simp add: pack_name_def)

lemma pack_name_cong: "self_id g = self_id g' \<Longrightarrow> pack_name g = pack_name g'"
  by (simp add: pack_name_def fun_eq_iff)

lemma self_id_keep [simp]:
  "self_id (snd (ShortTempSuffix g)) = self_id g" "self_id (fst (WriteVidx F ord pdir base st n g s)) = self_id g"
  "self_id (snd (next_age g)) = self_id g"
  by (simp_all add: ShortTempSuffix_def WriteVidx_def next_age_def Let_def)

lemma set_iterate:
  assumes "order_law ord" "distinct (map fst m)"
  shows "set (iterate ord m) = set m"
proof -
  have "set (ord (map fst m)) = fst ` set m" using assms(1) by (metis order_law_def set_map set_mset_mset)
  then have "set (iterate ord m) = (\<lambda>kv. (fst kv, the (map_of m (fst kv)))) ` set m"
    by (simp add: iterate_def image_image)
  also have "\<dots> = id ` set m" by (rule image_cong) (use assms(2) in auto)
  finally show ?thesis by simp
qed

lemma distinct_iterate:
  assumes "order_law ord" "distinct (map fst m)"
  shows "distinct (map fst (iterate ord m))"
proof -
  have "map fst (iterate ord m) = ord (map fst m)" by (simp add: iterate_def comp_def)
  moreover have "mset (ord (map fst m)) = mset (map fst m)" using assms(1) by (simp only: order_law_def)
  ultimately show ?thesis using assms(2) mset_eq_imp_distinct_iff by metis
qed

section \<open>Which files change\<close>

text \<open>The bytes of a pack file.\<close>

abbreviation pack_bytes :: "'fs file_system \<Rightarrow> string \<Rightarrow> 'fs \<Rightarrow> string \<Rightarrow> string option" where
  "pack_bytes F pdir s b \<equiv> fs_read F s (pdir @ ''/'' @ b)"

lemma WriteFileAtomic_frame:
  assumes "fs_laws F" "q \<noteq> p" "q \<noteq> p @ ''.tmp-'' @ t"
  shows "fs_read F (snd (WriteFileAtomic F p b t s)) q = fs_read F s q"
  using assms unfolding fs_laws_def WriteFileAtomic_def Let_def by (auto split: option.splits)

lemma WriteVidx_packs:
  assumes "fs_laws F" "is_vpack (b, False)"
  shows "pack_bytes F pdir (snd (WriteVidx F ord pdir base st n g s)) b = pack_bytes F pdir s b"
proof -
  have "snd (WriteVidx F ord pdir base st n g s) =
      snd (WriteFileAtomic F (pdir @ ''/'' @ VidxOf base) (vidx_text ord base st n) (fst (ShortTempSuffix g)) s)"
    by (simp add: WriteVidx_def split: prod.split)
  then show ?thesis
    using vpack_not_sidecar [OF assms(2)] ShortTempSuffix_dotless
    by (auto intro!: WriteFileAtomic_frame [OF assms(1)])
qed

lemma mkdirs_frame: "fs_laws F \<Longrightarrow> fs_read F (snd (mkdirs F ps s)) = fs_read F s"
proof (induction ps arbitrary: s)
  case (Cons p ps)
  have "fs_read F s1 = fs_read F s" if "MkdirP F p s = Some s1" for s1
    using that Cons.prems by (auto simp: MkdirP_def fs_laws_def split: if_splits)
  with Cons show ?case by (auto split: option.splits)
qed simp

lemma fs_write_law:
  assumes "pack_fs_laws F" "fs_write F s p pos b = (w, s')" "0 < w" "fs_read F s p = Some c" "pos \<le> length c"
  shows "w \<le> int (length b)" "fs_read F s' = (fs_read F s)(p \<mapsto> memcpy c pos (take (nat w) b))"
  using assms unfolding pack_fs_laws_def by metis+

lemma WriteAll_appends:
  assumes "pack_fs_laws F" "writes_progress F" "off \<le> length bytes" "fs_read F s p = Some (c @ take off bytes)" "pos = length c"
  shows "\<exists>s'. WriteAll F p pos bytes off s = (True, pos + length bytes, s') \<and> fs_read F s' = (fs_read F s)(p \<mapsto> c @ bytes)"
  using assms(3,4)
proof (induction "length bytes - off" arbitrary: off s rule: less_induct)
  case less
  show ?case
  proof (cases "off < length bytes")
    case True
    obtain w s1 where w: "fs_write F s p (pos + off) (drop off bytes) = (w, s1)" by fastforce
    have "0 < w" using assms(2) less.prems True w by (metis drop_eq_Nil fst_conv leD option.distinct(1) writes_progress_def)
    moreover have "pos + off \<le> length (c @ take off bytes)" using assms(5) True by simp
    ultimately have wl: "w \<le> int (length (drop off bytes))" and
      r1: "fs_read F s1 = (fs_read F s)(p \<mapsto> memcpy (c @ take off bytes) (pos + off) (take (nat w) (drop off bytes)))"
      using fs_write_law [OF assms(1) w _ less.prems(2)] by blast+
    have off': "off + nat w \<le> length bytes" "length bytes - (off + nat w) < length bytes - off"
      using wl \<open>0 < w\<close> True by auto
    have "fs_read F s1 p = Some (c @ take (off + nat w) bytes)"
      using r1 assms(5) less.prems(1) by (simp add: memcpy_def take_add)
    then obtain s' where "WriteAll F p pos bytes (off + nat w) s1 = (True, pos + length bytes, s')"
        "fs_read F s' = (fs_read F s1)(p \<mapsto> c @ bytes)"
      using less.hyps [OF off'(2) off'(1)] by blast
    with w True \<open>0 < w\<close> r1 show ?thesis by (subst WriteAll.simps) auto
  next
    case False
    with less.prems have "off = length bytes" by simp
    with less.prems show ?thesis by (subst WriteAll.simps) (auto simp: fun_upd_idem)
  qed
qed

section \<open>The invariant and the map a shard stands for\<close>

definition loc_record :: "'fs file_system \<Rightarrow> string \<Rightarrow> 'fs \<Rightarrow> Loc \<Rightarrow> Rec option" where
  "loc_record F pdir s loc =
     (case read_at F s (pdir @ ''/'' @ lpack loc) (lrec_len loc) (loffset loc) of
        None \<Rightarrow> None | Some b \<Rightarrow> map_option fst (ParseRecord b 0 (length b)))"

text \<open>Every index entry points at a whole record of its key.\<close>

definition loc_ok :: "'fs file_system \<Rightarrow> string \<Rightarrow> 'fs \<Rightarrow> string \<Rightarrow> Loc \<Rightarrow> bool" where
  "loc_ok F pdir s k loc \<longleftrightarrow> is_vpack (lpack loc, False) \<and> (\<exists>r. loc_record F pdir s loc = Some r \<and> rkeyfp r = k)"

definition index_ok :: "'fs file_system \<Rightarrow> string \<Rightarrow> (string \<times> Loc) list \<Rightarrow> 'fs \<Rightarrow> bool" where
  "index_ok F pdir ix s \<longleftrightarrow> distinct (map fst ix) \<and> (\<forall>k loc. map_of ix k = Some loc \<longrightarrow> loc_ok F pdir s k loc)"

text \<open>The handle stands at the end of the writer's pack, and at the offset the store believes in.\<close>

definition writer_ok :: "'fs file_system \<Rightarrow> pack_globals \<Rightarrow> string \<Rightarrow> ShardState \<Rightarrow> 'fs \<Rightarrow> bool" where
  "writer_ok F g pdir st s \<longleftrightarrow>
     (case writer st of
        None \<Rightarrow> True
      | Some pos \<Rightarrow> pos = writer_size st \<and> (\<exists>n < writer_seq st. writer_pack st = pack_name g n) \<and>
          (\<exists>c. pack_bytes F pdir s (writer_pack st) = Some c \<and> length c = writer_size st))"

definition fresh_names :: "'fs file_system \<Rightarrow> pack_globals \<Rightarrow> string \<Rightarrow> nat \<Rightarrow> 'fs \<Rightarrow> bool" where
  "fresh_names F g pdir q s \<longleftrightarrow> (\<forall>n \<ge> q. pack_bytes F pdir s (pack_name g n) = None)"

definition shard_ok :: "'fs file_system \<Rightarrow> string \<Rightarrow> pack_globals \<Rightarrow> ShardState \<Rightarrow> 'fs \<Rightarrow> bool" where
  "shard_ok F pdir g st s \<longleftrightarrow>
     index_ok F pdir (index st) s \<and> writer_ok F g pdir st s \<and> fresh_names F g pdir (writer_seq st) s"

definition index_map :: "'fs file_system \<Rightarrow> string \<Rightarrow> (string \<times> Loc) list \<Rightarrow> 'fs \<Rightarrow> string \<Rightarrow> (Rec \<times> int) option" where
  "index_map F pdir ix s k =
     (case map_of ix k of None \<Rightarrow> None | Some loc \<Rightarrow> map_option (\<lambda>r. (r, lexpires loc)) (loc_record F pdir s loc))"

text \<open>Pack files only grow.\<close>

definition grows :: "'fs file_system \<Rightarrow> string \<Rightarrow> 'fs \<Rightarrow> 'fs \<Rightarrow> bool" where
  "grows F pdir s s' \<longleftrightarrow>
     (\<forall>b c. is_vpack (b, False) \<longrightarrow> pack_bytes F pdir s b = Some c \<longrightarrow> (\<exists>d. pack_bytes F pdir s' b = Some (c @ d)))"

lemma grows_record:
  assumes "grows F pdir s s'" "is_vpack (lpack loc, False)" "loc_record F pdir s loc = Some r"
  shows "loc_record F pdir s' loc = Some r"
proof -
  obtain c where c: "pack_bytes F pdir s (lpack loc) = Some c" "loffset loc + lrec_len loc \<le> length c"
    using assms(3) by (auto simp: loc_record_def read_at_def split: option.splits if_splits)
  obtain d where d: "pack_bytes F pdir s' (lpack loc) = Some (c @ d)" using assms(1,2) c(1) by (auto simp: grows_def)
  have "take (lrec_len loc) (drop (loffset loc) (c @ d)) = take (lrec_len loc) (drop (loffset loc) c)"
    using c(2) by simp
  with assms(3) c d show ?thesis by (simp add: loc_record_def read_at_def del: drop_append take_append)
qed

lemma grows_loc_ok: "grows F pdir s s' \<Longrightarrow> loc_ok F pdir s k loc \<Longrightarrow> loc_ok F pdir s' k loc"
  using grows_record unfolding loc_ok_def by metis

lemma grows_index:
  assumes "grows F pdir s s'" "index_ok F pdir ix s"
  shows "index_ok F pdir ix s'" "index_map F pdir ix s' = index_map F pdir ix s"
proof -
  show "index_ok F pdir ix s'" using assms(2) by (auto simp: index_ok_def intro: grows_loc_ok [OF assms(1)])
  show "index_map F pdir ix s' = index_map F pdir ix s"
  proof
    fix k
    show "index_map F pdir ix s' k = index_map F pdir ix s k"
    proof (cases "map_of ix k")
      case (Some loc)
      then have "loc_ok F pdir s k loc" using assms(2) by (simp add: index_ok_def)
      then obtain r where "is_vpack (lpack loc, False)" "loc_record F pdir s loc = Some r" by (auto simp: loc_ok_def)
      with grows_record [OF assms(1)] Some show ?thesis by (simp add: index_map_def)
    qed (simp add: index_map_def)
  qed
qed

lemma same_packs_grow: "(\<And>b. is_vpack (b, False) \<Longrightarrow> pack_bytes F pdir s' b = pack_bytes F pdir s b) \<Longrightarrow> grows F pdir s s'"
  by (simp add: grows_def)

lemma grows_trans: "grows F pdir s s' \<Longrightarrow> grows F pdir s' s'' \<Longrightarrow> grows F pdir s s''"
  unfolding grows_def by (metis append_assoc)

lemma shard_ok_same_packs:
  assumes "\<And>b. is_vpack (b, False) \<Longrightarrow> pack_bytes F pdir s' b = pack_bytes F pdir s b" "shard_ok F pdir g st s"
    "self_id g' = self_id g"
  shows "shard_ok F pdir g' st s'"
proof -
  have "writer_ok F g' pdir st s'"
    using assms pack_name_vpack pack_name_cong [OF assms(3)]
    by (auto simp: shard_ok_def writer_ok_def split: option.splits)
  with assms show ?thesis
    using grows_index(1) [OF same_packs_grow [OF assms(1)]] pack_name_cong [OF assms(3)]
    by (auto simp: shard_ok_def fresh_names_def)
qed

section \<open>Each operation on the map\<close>

lemma pack_laws: "pack_fs_laws F \<Longrightarrow> fs_laws F"
  by (simp add: pack_fs_laws_def)

lemma fs_open_law:
  "pack_fs_laws F \<Longrightarrow> fs_open F s p = Some s' \<Longrightarrow>
   fs_read F s' = (if fs_read F s p = None then (fs_read F s)(p \<mapsto> []) else fs_read F s)"
  unfolding pack_fs_laws_def by blast

text \<open>A new pack of this process: the next name is free, so its file starts empty.\<close>

lemma open_fresh:
  assumes "pack_fs_laws F" "fresh_names F g pdir q s" "fs_open F s (pdir @ ''/'' @ pack_name g q) = Some s'"
  shows "fs_read F s' = (fs_read F s)(pdir @ ''/'' @ pack_name g q \<mapsto> [])" "grows F pdir s s'"
    "fresh_names F g pdir (q + 1) s'"
proof -
  show r: "fs_read F s' = (fs_read F s)(pdir @ ''/'' @ pack_name g q \<mapsto> [])"
    using fs_open_law [OF assms(1,3)] assms(2) by (simp add: fresh_names_def)
  show "grows F pdir s s'" "fresh_names F g pdir (q + 1) s'"
    using assms(2) by (auto simp: grows_def fresh_names_def r)
qed

lemma shard_ok_no_writer:
  "shard_ok F pdir g st s \<Longrightarrow> shard_ok F pdir g (st\<lparr>writer := None\<rparr>) s"
  "shard_ok F pdir g st s \<Longrightarrow> shard_ok F pdir g (st\<lparr>writer := None, writer_seq := writer_seq st + 1\<rparr>) s"
  by (auto simp: shard_ok_def writer_ok_def fresh_names_def)

lemma shard_ok_new_writer:
  assumes "pack_fs_laws F" "shard_ok F pdir g st s" "fs_open F s (pdir @ ''/'' @ pack_name g (writer_seq st)) = Some s'"
  shows "shard_ok F pdir g (st\<lparr>writer_seq := writer_seq st + 1, writer := Some 0, writer_pack := pack_name g (writer_seq st),
           writer_size := 0, packs := pk\<rparr>) s'"
  using assms(2) open_fresh [OF assms(1) _ assms(3)] grows_index(1) by (auto simp: shard_ok_def writer_ok_def)

lemma EnsureWriter_result:
  assumes "pack_fs_laws F" "shard_ok F (packs_dir dir sh) g st s"
    and "EnsureWriter F ord dir sh target need g st s = (ok, g', st', s')"
  shows "shard_ok F (packs_dir dir sh) g' st' s'" "index st' = index st" "grows F (packs_dir dir sh) s s'"
    "self_id g' = self_id g" "ok \<Longrightarrow> writer st' \<noteq> None"
proof -
  let ?pd = "packs_dir dir sh"
  define gs1 where "gs1 = (if writer st \<noteq> None then WriteVidx F ord ?pd (writer_pack st) st (writer_size st) g s else (g, s))"
  obtain g1 s1 where gs: "gs1 = (g1, s1)" by fastforce
  obtain mk s2 where mk: "mkdirs F [dir, dir @ ''/'' @ sh, ?pd] s1 = (mk, s2)" by fastforce
  have id1: "self_id g1 = self_id g"
    using gs by (auto simp: gs1_def split: if_splits) (metis fst_conv self_id_keep(2))
  have same: "pack_bytes F ?pd s2 b = pack_bytes F ?pd s b" if "is_vpack (b, False)" for b
  proof -
    have "pack_bytes F ?pd s1 b = pack_bytes F ?pd s b"
      using gs WriteVidx_packs [OF pack_laws [OF assms(1)] that] by (auto simp: gs1_def split: if_splits) (metis snd_conv)
    moreover have "fs_read F s2 = fs_read F s1" using mkdirs_frame [OF pack_laws [OF assms(1)]] mk by (metis snd_conv)
    ultimately show ?thesis by simp
  qed
  have ok2: "shard_ok F ?pd g1 st s2" by (rule shard_ok_same_packs [OF same assms(2) id1])
  have gr2: "grows F ?pd s s2" by (rule same_packs_grow [OF same])
  let ?new = "writer st = None \<or> (target > 0 \<and> writer_size st + need > target)"
  have res: "(ok, g', st', s') =
    (if \<not> ?new then (True, g, st, s)
     else if \<not> mk then (False, g1, st\<lparr>writer := None\<rparr>, s2)
     else (case fs_open F s2 (?pd @ ''/'' @ pack_name g1 (writer_seq st)) of
       None \<Rightarrow> (False, g1, st\<lparr>writer := None, writer_seq := writer_seq st + 1\<rparr>, s2)
     | Some s3 \<Rightarrow> (True, g1, st\<lparr>writer_seq := writer_seq st + 1, writer := Some 0, writer_pack := pack_name g1 (writer_seq st),
           writer_size := 0, packs := AList.update (pack_name g1 (writer_seq st)) \<lparr>pm_own = True, pm_size = 0\<rparr> (packs st)\<rparr>, s3)))"
    using assms(3) gs mk by (auto simp: EnsureWriter_def gs1_def Let_def split: prod.splits bool.splits option.splits if_splits)
  have fr: "fresh_names F g1 ?pd (writer_seq st) s2" using ok2 by (simp add: shard_ok_def)
  consider "\<not> ?new" | "?new" "\<not> mk" | "?new" mk "fs_open F s2 (?pd @ ''/'' @ pack_name g1 (writer_seq st)) = None"
    | s3 where "?new" mk "fs_open F s2 (?pd @ ''/'' @ pack_name g1 (writer_seq st)) = Some s3" by fastforce
  then have "shard_ok F ?pd g' st' s' \<and> index st' = index st \<and> grows F ?pd s s' \<and> self_id g' = self_id g \<and> (ok \<longrightarrow> writer st' \<noteq> None)"
  proof cases
    case 1
    with res assms(2) show ?thesis by (auto intro: same_packs_grow)
  next
    case 2
    with res shard_ok_no_writer(1) [OF ok2] gr2 id1 show ?thesis by simp
  next
    case 3
    with res shard_ok_no_writer(2) [OF ok2] gr2 id1 show ?thesis by simp
  next
    case 4
    with res shard_ok_new_writer [OF assms(1) ok2 4(3)] grows_trans [OF gr2 open_fresh(2) [OF assms(1) fr 4(3)]] id1
    show ?thesis by simp
  qed
  then show "shard_ok F ?pd g' st' s'" "index st' = index st" "grows F ?pd s s'" "self_id g' = self_id g" "ok \<Longrightarrow> writer st' \<noteq> None"
    by blast+
qed

lemma index_update:
  assumes "index_ok F pdir ix s" "loc_ok F pdir s k loc" "loc_record F pdir s loc = Some r"
  shows "index_ok F pdir (AList.update k loc ix) s"
    "index_map F pdir (AList.update k loc ix) s = (index_map F pdir ix s)(k \<mapsto> (r, lexpires loc))"
  using assms by (auto simp: index_ok_def index_map_def update_conv' distinct_update fun_eq_iff)

text \<open>The record that an append leaves behind the bytes \<open>c\<close>.\<close>

lemma appended_record:
  assumes "pack_bytes F pdir s (lpack loc) = Some (c @ BuildRecord now e blob sha_hex k)"
    and "loffset loc = length c" "lrec_len loc = length (BuildRecord now e blob sha_hex k)"
    and "record_ok now e blob sha_hex k" "length (BuildRecord now e blob sha_hex k) < 2 ^ 64"
  shows "loc_record F pdir s loc = Some (rec_of now e blob sha_hex k)"
proof -
  have "read_at F s (pdir @ ''/'' @ lpack loc) (lrec_len loc) (loffset loc) = Some (BuildRecord now e blob sha_hex k)"
    using assms(1-3) by (simp add: read_at_def)
  moreover have "ParseRecord (BuildRecord now e blob sha_hex k) 0 (length (BuildRecord now e blob sha_hex k)) =
      Some (rec_of now e blob sha_hex k, 0 + length (BuildRecord now e blob sha_hex k))"
    by (rule ParseRecord_BuildRecord [where rest = "[]"]) (use assms(4,5) in auto)
  ultimately show ?thesis by (simp add: loc_record_def)
qed

lemma append_writer:
  assumes "pack_fs_laws F" "writes_progress F" "shard_ok F pdir g st s" "writer st = Some pos"
  obtains c s' where "pack_bytes F pdir s (writer_pack st) = Some c" "length c = writer_size st" "is_vpack (writer_pack st, False)"
    "WriteAll F (pdir @ ''/'' @ writer_pack st) pos bytes 0 s = (True, writer_size st + length bytes, s')"
    "fs_read F s' = (fs_read F s)(pdir @ ''/'' @ writer_pack st \<mapsto> c @ bytes)"
    "grows F pdir s s'" "fresh_names F g pdir (writer_seq st) s'"
proof -
  from assms(3,4) obtain c n where c: "pos = writer_size st" "pack_bytes F pdir s (writer_pack st) = Some c"
    "length c = writer_size st" "n < writer_seq st" "writer_pack st = pack_name g n" and fr: "fresh_names F g pdir (writer_seq st) s"
    by (auto simp: shard_ok_def writer_ok_def)
  obtain s' where s': "WriteAll F (pdir @ ''/'' @ writer_pack st) pos bytes 0 s = (True, pos + length bytes, s')"
    "fs_read F s' = (fs_read F s)(pdir @ ''/'' @ writer_pack st \<mapsto> c @ bytes)"
    using WriteAll_appends [OF assms(1,2), of 0 bytes s "pdir @ ''/'' @ writer_pack st" c pos] c(1-3) by auto
  show thesis
  proof
    show "grows F pdir s s'" using c(2) by (auto simp: grows_def s'(2))
    show "fresh_names F g pdir (writer_seq st) s'" using fr c(4) by (auto simp: fresh_names_def s'(2) c(5))
  qed (use c s' in auto)
qed

lemma persist_shard_result:
  assumes "pack_fs_laws F" "writes_progress F" "shard_ok F (packs_dir dir sh) g st s"
    and "record_ok (fst nows) e blob sha_hex k" "length (BuildRecord (fst nows) e blob sha_hex k) < 2 ^ 64"
    and "persist_shard F ord nows dir sh k e blob sha_hex target g st s = (ok, g', st', s')"
  shows "shard_ok F (packs_dir dir sh) g' st' s' \<and> self_id g' = self_id g \<and>
    index_map F (packs_dir dir sh) (index st') s' =
      (if ok then (index_map F (packs_dir dir sh) (index st) s)
         (k \<mapsto> (rec_of (fst nows) e blob sha_hex k, ComputeExpiresUnix (snd nows) e))
       else index_map F (packs_dir dir sh) (index st) s)"
proof -
  let ?pd = "packs_dir dir sh" and ?rec = "BuildRecord (fst nows) e blob sha_hex k"
  obtain ok1 g1 st1 s1 where w: "EnsureWriter F ord dir sh target (length ?rec) g st s = (ok1, g1, st1, s1)"
    by (metis prod_cases4)
  note ew = EnsureWriter_result [OF assms(1,3) w]
  have m1: "index_map F ?pd (index st1) s1 = index_map F ?pd (index st) s"
    using grows_index(2) [OF ew(3)] assms(3) ew(2) by (simp add: shard_ok_def)
  show ?thesis
  proof (cases ok1)
    case False
    with assms(6) w ew(1,4) m1 show ?thesis by (auto simp: persist_shard_def Let_def)
  next
    case True
    then obtain pos where pos: "writer st1 = Some pos" using ew(5) by blast
    obtain c s2 where a: "pack_bytes F ?pd s1 (writer_pack st1) = Some c" "length c = writer_size st1" "is_vpack (writer_pack st1, False)"
      "WriteAll F (?pd @ ''/'' @ writer_pack st1) pos ?rec 0 s1 = (True, writer_size st1 + length ?rec, s2)"
      "fs_read F s2 = (fs_read F s1)(?pd @ ''/'' @ writer_pack st1 \<mapsto> c @ ?rec)" "grows F ?pd s1 s2"
      "fresh_names F g1 ?pd (writer_seq st1) s2"
      by (rule append_writer [OF assms(1,2) ew(1) pos, of ?rec])
    define loc where "loc = \<lparr>lpack = writer_pack st1, loffset = writer_size st1, lrec_len = length ?rec,
      lexpires = ComputeExpiresUnix (snd nows) e, llogical = u64_of (etotal_bytes e),
      lrows = erows e, lexchange = (input_hash (ekey e) \<noteq> []), lown = True, lseq = age_seq g1\<rparr>"
    have res: "ok" "g' = snd (next_age g1)" "s' = s2" "index st' = AList.update k loc (index st1)" "writer_seq st' = writer_seq st1"
      "writer st' = Some (writer_size st1 + length ?rec)" "writer_size st' = writer_size st1 + length ?rec"
      "writer_pack st' = writer_pack st1"
      using assms(6) w True pos a(4) by (auto simp: persist_shard_def Let_def loc_def next_age_def)
    have lr: "loc_record F ?pd s2 loc = Some (rec_of (fst nows) e blob sha_hex k)"
      by (rule appended_record [where c = c]) (use a assms(4,5) in \<open>simp_all add: loc_def\<close>)
    then have lok: "loc_ok F ?pd s2 k loc" using a(3) by (simp add: loc_ok_def rec_of_def) (simp add: loc_def)
    have ix: "index_ok F ?pd (index st1) s2" "index_map F ?pd (index st1) s2 = index_map F ?pd (index st) s"
      using grows_index [OF a(6)] ew(1) m1 by (auto simp: shard_ok_def)
    note up = index_update [OF ix(1) lok lr]
    have "writer_ok F g1 ?pd st' s2"
      using ew(1) pos a(5) res a(2) by (auto simp: shard_ok_def writer_ok_def)
    then have "shard_ok F ?pd g' st' s'"
      using up(1) a(7) res by (auto simp: shard_ok_def writer_ok_def fresh_names_def pack_name_def)
    moreover have "lexpires loc = ComputeExpiresUnix (snd nows) e" by (simp add: loc_def)
    ultimately show ?thesis using up(2) ix(2) res ew(4) by simp
  qed
qed

text \<open>
  The copy loop: the copied keys move to the new pack, every key keeps its record, and no other pack changes.
\<close>

lemma copy_live_result:
  assumes "pack_fs_laws F" "writes_progress F" "is_vpack (new, False)" "new \<noteq> base"
    and "index_ok F pdir (index st) s" "pack_bytes F pdir s new = Some d" "length d = out_off"
    and "distinct (map fst live)" "\<And>k loc. (k, loc) \<in> set live \<Longrightarrow> map_of (index st) k = Some loc \<and> lpack loc = base"
  shows "\<exists>n ix s'. copy_live F pdir (pdir @ ''/'' @ base) new live out_off st s = (True, n, st\<lparr>index := ix\<rparr>, s') \<and>
    index_ok F pdir ix s' \<and> index_map F pdir ix s' = index_map F pdir (index st) s \<and>
    (\<forall>b. b \<noteq> new \<longrightarrow> pack_bytes F pdir s' b = pack_bytes F pdir s b) \<and> pack_bytes F pdir s' new \<noteq> None \<and>
    (\<forall>k loc. map_of ix k = Some loc \<longrightarrow> (if k \<in> fst ` set live then lpack loc = new else map_of (index st) k = Some loc))"
  using assms(5-9)
proof (induction live arbitrary: st s d out_off)
  case Nil
  then show ?case by (intro exI [of _ out_off] exI [of _ "index st"] exI [of _ s]) auto
next
  case (Cons kl live)
  obtain k loc where kl: "kl = (k, loc)" by fastforce
  have loc: "map_of (index st) k = Some loc" "lpack loc = base" using Cons.prems(5) kl by auto
  have "loc_ok F pdir s k loc" using Cons.prems(1) loc(1) unfolding index_ok_def by blast
  then obtain r where ok: "is_vpack (base, False)" "loc_record F pdir s loc = Some r" "rkeyfp r = k"
    using loc(2) by (auto simp: loc_ok_def)
  then obtain b where b: "read_at F s (pdir @ ''/'' @ base) (lrec_len loc) (loffset loc) = Some b"
    "map_option fst (ParseRecord b 0 (length b)) = Some r"
    using loc(2) by (auto simp: loc_record_def split: option.splits)
  then have lb: "length b = lrec_len loc" by (auto simp: read_at_def split: option.splits if_splits)
  obtain s1 where s1: "WriteAll F (pdir @ ''/'' @ new) out_off b 0 s = (True, out_off + length b, s1)"
    "fs_read F s1 = (fs_read F s)(pdir @ ''/'' @ new \<mapsto> d @ b)"
    using WriteAll_appends [OF assms(1,2), of 0 b s "pdir @ ''/'' @ new" d out_off] Cons.prems(2,3) by auto
  let ?loc = "loc\<lparr>lpack := new, loffset := out_off\<rparr>"
  let ?st = "st\<lparr>index := AList.update k ?loc (index st)\<rparr>"
  have gr: "grows F pdir s s1" using Cons.prems(2) by (auto simp: grows_def s1(2))
  have lr: "loc_record F pdir s1 ?loc = Some r"
    using b lb Cons.prems(3) by (simp add: loc_record_def read_at_def s1(2))
  then have lok: "loc_ok F pdir s1 k ?loc" using assms(3) ok(3) by (simp add: loc_ok_def)
  note ix = grows_index [OF gr Cons.prems(1)]
  note up = index_update [OF ix(1) lok lr]
  have same: "index_map F pdir (index ?st) s1 = index_map F pdir (index st) s"
    using up(2) ix(2) loc ok(2) by (auto simp: index_map_def fun_eq_iff)
  have step: "copy_live F pdir (pdir @ ''/'' @ base) new (kl # live) out_off st s =
      copy_live F pdir (pdir @ ''/'' @ base) new live (out_off + lrec_len loc) ?st s1"
    using b(1) s1(1) by (simp add: kl)
  have rest: "map_of (index ?st) k' = Some l \<and> lpack l = base" if "(k', l) \<in> set live" for k' l
    using that Cons.prems(4,5) kl by (force simp: update_conv')
  obtain n ix' s' where IH: "copy_live F pdir (pdir @ ''/'' @ base) new live (out_off + lrec_len loc) ?st s1 = (True, n, ?st\<lparr>index := ix'\<rparr>, s')"
    "index_ok F pdir ix' s'" "index_map F pdir ix' s' = index_map F pdir (index ?st) s1"
    "\<forall>b. b \<noteq> new \<longrightarrow> pack_bytes F pdir s' b = pack_bytes F pdir s1 b" "pack_bytes F pdir s' new \<noteq> None"
    "\<forall>k loc. map_of ix' k = Some loc \<longrightarrow> (if k \<in> fst ` set live then lpack loc = new else map_of (index ?st) k = Some loc)"
    using Cons.IH [of ?st s1 "d @ b" "out_off + lrec_len loc"] up(1) s1(2) Cons.prems(3,4) lb rest kl by auto
  have keys: "if k' \<in> fst ` set (kl # live) then lpack l = new else map_of (index st) k' = Some l" if "map_of ix' k' = Some l" for k' l
  proof -
    have "if k' \<in> fst ` set live then lpack l = new else map_of (index ?st) k' = Some l" using IH(6) that by blast
    then show ?thesis by (cases "k' \<in> fst ` set live"; cases "k' = k") (auto simp: kl update_conv')
  qed
  show ?case
    using step IH(1-5) same s1(2) keys by (intro exI [of _ n] exI [of _ ix'] exI [of _ s']) auto
qed

lemma RemovePackFiles_reads:
  assumes "pack_fs_laws F"
  shows "is_vpack (b, False) \<Longrightarrow> b \<noteq> base \<Longrightarrow> pack_bytes F pdir (RemovePackFiles F pdir base s) b = pack_bytes F pdir s b"
    "fs_read F s p = None \<Longrightarrow> fs_read F (RemovePackFiles F pdir base s) p = None"
proof -
  have rm: "fs_read F (snd (fs_remove F s p)) q = fs_read F s q \<or> q = p \<and> fs_read F (snd (fs_remove F s p)) q = None" for s p q
    using assms unfolding pack_fs_laws_def by (metis (full_types) fun_upd_apply prod.collapse)
  show "is_vpack (b, False) \<Longrightarrow> b \<noteq> base \<Longrightarrow> pack_bytes F pdir (RemovePackFiles F pdir base s) b = pack_bytes F pdir s b"
    using rm vpack_not_sidecar(1) unfolding RemovePackFiles_def by (metis append_eq_append_conv list.sel(3) append_Cons)
  show "fs_read F s p = None \<Longrightarrow> fs_read F (RemovePackFiles F pdir base s) p = None"
    using rm unfolding RemovePackFiles_def by metis
qed

text \<open>Dropping a pack that no index entry uses and that is not being written.\<close>

lemma remove_dead_pack:
  assumes "pack_fs_laws F" "shard_ok F pdir g st s" "\<And>k loc. map_of (index st) k = Some loc \<Longrightarrow> lpack loc \<noteq> base"
    and "writer st \<noteq> None \<Longrightarrow> base \<noteq> writer_pack st"
  shows "shard_ok F pdir g st (RemovePackFiles F pdir base s)"
    "index_map F pdir (index st) (RemovePackFiles F pdir base s) = index_map F pdir (index st) s"
proof -
  let ?s = "RemovePackFiles F pdir base s"
  note rd = RemovePackFiles_reads [OF assms(1)]
  have rec: "loc_record F pdir ?s loc = loc_record F pdir s loc" if "is_vpack (lpack loc, False)" "lpack loc \<noteq> base" for loc
    using rd(1) [OF that] by (simp add: loc_record_def read_at_def)
  have lok: "loc_ok F pdir ?s k loc \<and> loc_record F pdir ?s loc = loc_record F pdir s loc" if "map_of (index st) k = Some loc" for k loc
  proof -
    have "loc_ok F pdir s k loc" using assms(2) that unfolding shard_ok_def index_ok_def by blast
    with rec assms(3) [OF that] show ?thesis by (auto simp: loc_ok_def)
  qed
  show "index_map F pdir (index st) ?s = index_map F pdir (index st) s"
    using lok by (auto simp: index_map_def fun_eq_iff split: option.split)
  have "index_ok F pdir (index st) ?s" using lok assms(2) unfolding shard_ok_def index_ok_def by blast
  moreover have "writer_ok F g pdir st ?s"
    using assms(2,4) rd(1) pack_name_vpack by (auto simp: shard_ok_def writer_ok_def split: option.splits)
  moreover have "fresh_names F g pdir (writer_seq st) ?s" using assms(2) rd(2) by (auto simp: shard_ok_def fresh_names_def)
  ultimately show "shard_ok F pdir g st ?s" by (simp add: shard_ok_def)
qed

lemma shard_ok_packs [simp]: "shard_ok F pdir g (st\<lparr>packs := x\<rparr>) s = shard_ok F pdir g st s"
  by (simp add: shard_ok_def writer_ok_def cong: option.case_cong)

lemma shard_ok_next_seq: "shard_ok F pdir g st s \<Longrightarrow> shard_ok F pdir g (st\<lparr>writer_seq := writer_seq st + 1\<rparr>) s"
  by (auto simp: shard_ok_def writer_ok_def fresh_names_def intro: less_SucI split: option.splits)

text \<open>A change that touches only one pack, whose name is the newest, and keeps the index sound.\<close>

lemma shard_ok_side_pack:
  assumes "shard_ok F pdir g st s" "\<And>b. b \<noteq> pack_name g (writer_seq st) \<Longrightarrow> pack_bytes F pdir s' b = pack_bytes F pdir s b"
    and "index_ok F pdir ix s'"
  shows "shard_ok F pdir g (st\<lparr>writer_seq := writer_seq st + 1, index := ix\<rparr>) s'"
proof -
  have "writer_ok F g pdir (st\<lparr>writer_seq := writer_seq st + 1, index := ix\<rparr>) s'"
  proof (cases "writer st")
    case (Some pos)
    then obtain n where n: "n < writer_seq st" "writer_pack st = pack_name g n"
      using assms(1) by (auto simp: shard_ok_def writer_ok_def)
    with assms(1) Some assms(2) [of "pack_name g n"] show ?thesis
      by (auto simp: shard_ok_def writer_ok_def intro: less_SucI)
  qed (simp add: writer_ok_def)
  moreover have "fresh_names F g pdir (writer_seq st + 1) s'"
    using assms(1,2) by (auto simp: shard_ok_def fresh_names_def)
  ultimately show ?thesis using assms(3) by (simp add: shard_ok_def)
qed

text \<open>The live entries of a pack, in the order in which a compaction copies them.\<close>

definition live_entries :: "(string list \<Rightarrow> string list) \<Rightarrow> string \<Rightarrow> (string \<times> Loc) list \<Rightarrow> (string \<times> Loc) list" where
  "live_entries ord base ix = filter (\<lambda>kv. lpack (snd kv) = base) (iterate ord ix)"

lemma live_entries_iff:
  assumes "order_law ord" "distinct (map fst ix)"
  shows "(k, loc) \<in> set (live_entries ord base ix) \<longleftrightarrow> map_of ix k = Some loc \<and> lpack loc = base"
    "distinct (map fst (live_entries ord base ix))"
  using set_iterate [OF assms] assms(2) distinct_map_filter [OF distinct_iterate [OF assms]]
  by (auto simp: live_entries_def)

lemma copy_live_entries:
  assumes "pack_fs_laws F" "writes_progress F" "order_law ord" "shard_ok F pdir g st s"
    and "pack_bytes F pdir s base \<noteq> None" "fs_open F s (pdir @ ''/'' @ pack_name g (writer_seq st)) = Some s1"
  obtains n ix s2 where
    "copy_live F pdir (pdir @ ''/'' @ base) (pack_name g (writer_seq st)) (live_entries ord base (index st)) 0
       (st\<lparr>writer_seq := writer_seq st + 1\<rparr>) s1 = (True, n, st\<lparr>writer_seq := writer_seq st + 1, index := ix\<rparr>, s2)"
    "shard_ok F pdir g (st\<lparr>writer_seq := writer_seq st + 1, index := ix\<rparr>) s2"
    "index_map F pdir ix s2 = index_map F pdir (index st) s" "\<And>k loc. map_of ix k = Some loc \<Longrightarrow> lpack loc \<noteq> base"
proof -
  let ?new = "pack_name g (writer_seq st)" and ?st = "st\<lparr>writer_seq := writer_seq st + 1\<rparr>"
    and ?live = "live_entries ord base (index st)"
  have fr: "fresh_names F g pdir (writer_seq st) s" and di: "distinct (map fst (index st))"
    using assms(4) by (auto simp: shard_ok_def index_ok_def)
  note live = live_entries_iff [OF assms(3) di] and op = open_fresh [OF assms(1) fr assms(6)]
  have nb: "?new \<noteq> base" using assms(5) fr by (auto simp: fresh_names_def)
  have p: "index_ok F pdir (index ?st) s1" "index_map F pdir (index st) s1 = index_map F pdir (index st) s"
    "pack_bytes F pdir s1 ?new = Some []"
    using grows_index [OF op(2)] assms(4) op(1) by (auto simp: shard_ok_def)
  have l: "map_of (index ?st) k = Some loc \<and> lpack loc = base" if "(k, loc) \<in> set ?live" for k loc
    using live(1) that by simp
  have "\<exists>n ix s2. copy_live F pdir (pdir @ ''/'' @ base) ?new ?live 0 ?st s1 = (True, n, ?st\<lparr>index := ix\<rparr>, s2) \<and>
      index_ok F pdir ix s2 \<and> index_map F pdir ix s2 = index_map F pdir (index ?st) s1 \<and>
      (\<forall>b. b \<noteq> ?new \<longrightarrow> pack_bytes F pdir s2 b = pack_bytes F pdir s1 b) \<and> pack_bytes F pdir s2 ?new \<noteq> None \<and>
      (\<forall>k loc. map_of ix k = Some loc \<longrightarrow> (if k \<in> fst ` set ?live then lpack loc = ?new else map_of (index ?st) k = Some loc))"
    by (rule copy_live_result [OF assms(1,2) pack_name_vpack nb p(1,3) list.size(3) live(2)]) (fact l)
  then obtain n ix s2 where c: "copy_live F pdir (pdir @ ''/'' @ base) ?new ?live 0 ?st s1 = (True, n, ?st\<lparr>index := ix\<rparr>, s2)"
      "index_ok F pdir ix s2" "index_map F pdir ix s2 = index_map F pdir (index ?st) s1"
      "\<forall>b. b \<noteq> ?new \<longrightarrow> pack_bytes F pdir s2 b = pack_bytes F pdir s1 b"
      "\<forall>k loc. map_of ix k = Some loc \<longrightarrow> (if k \<in> fst ` set ?live then lpack loc = ?new else map_of (index ?st) k = Some loc)"
    by (elim exE conjE) blast
  have "lpack loc \<noteq> base" if k: "map_of ix k = Some loc" for k loc
  proof (cases "k \<in> fst ` set ?live")
    case True
    with c(5) k nb show ?thesis by auto
  next
    case False
    then have "map_of (index ?st) k = Some loc" using c(5) k by meson
    then have "map_of (index st) k = Some loc" by simp
    with False live(1) show ?thesis by (metis fst_conv image_eqI)
  qed
  moreover have "shard_ok F pdir g (?st\<lparr>index := ix\<rparr>) s2"
    using shard_ok_side_pack [OF assms(4), of s2 ix] c(2,4) op(1) by simp
  ultimately show thesis using that c(1,3) p(2) by simp
qed

definition compacted :: "pack_globals \<Rightarrow> ShardState \<Rightarrow> string \<Rightarrow> nat \<Rightarrow> (string \<times> Loc) list \<Rightarrow> ShardState" where
  "compacted g st base n ix = st\<lparr>writer_seq := writer_seq st + 1, index := ix,
     packs := AList.update (pack_name g (writer_seq st)) \<lparr>pm_own = True, pm_size = n\<rparr> (AList.delete base (packs st))\<rparr>"

lemma CompactPack_result:
  assumes "pack_fs_laws F" "writes_progress F" "order_law ord" "shard_ok F pdir g st s"
    and wr: "writer st \<noteq> None \<Longrightarrow> base \<noteq> writer_pack st"
    and "CompactPack F ord pdir base g st s = (g', st', s')"
  shows "shard_ok F pdir g' st' s' \<and> self_id g' = self_id g \<and> index_map F pdir (index st') s' = index_map F pdir (index st) s \<and>
    writer st' = writer st \<and> writer_pack st' = writer_pack st"
proof -
  let ?new = "pack_name g (writer_seq st)" and ?live = "live_entries ord base (index st)"
  have di: "distinct (map fst (index st))" using assms(4) by (simp add: shard_ok_def index_ok_def)
  note comp = assms(6) [unfolded CompactPack_def Let_def, folded live_entries_def]
  consider "?live = []" | "?live \<noteq> []" "pack_bytes F pdir s base = None \<or> fs_open F s (pdir @ ''/'' @ ?new) = None"
    | s1 oc where "?live \<noteq> []" "pack_bytes F pdir s base = Some oc" "fs_open F s (pdir @ ''/'' @ ?new) = Some s1" by fastforce
  then show ?thesis
  proof cases
    case 1
    then have "lpack loc \<noteq> base" if "map_of (index st) k = Some loc" for k loc
      using live_entries_iff(1) [OF assms(3) di, of k loc base] that by auto
    from remove_dead_pack [OF assms(1,4) this wr] 1 comp show ?thesis by auto
  next
    case 2
    with comp shard_ok_next_seq [OF assms(4)] show ?thesis by (auto split: option.splits)
  next
    case 3
    then have ex: "pack_bytes F pdir s base \<noteq> None" by simp
    obtain n ix s2 where c: "copy_live F pdir (pdir @ ''/'' @ base) ?new ?live 0 (st\<lparr>writer_seq := writer_seq st + 1\<rparr>) s1 =
        (True, n, st\<lparr>writer_seq := writer_seq st + 1, index := ix\<rparr>, s2)"
      "shard_ok F pdir g (st\<lparr>writer_seq := writer_seq st + 1, index := ix\<rparr>) s2"
      "index_map F pdir ix s2 = index_map F pdir (index st) s" "\<And>k loc. map_of ix k = Some loc \<Longrightarrow> lpack loc \<noteq> base"
      by (rule copy_live_entries [OF assms(1-4) ex 3(3)]) blast
    define st3 where "st3 = compacted g st base n ix"
    obtain g3 s3 where v: "WriteVidx F ord pdir ?new st3 n g s2 = (g3, s3)" by fastforce
    have res: "(g', st', s') = (g3, st3, RemovePackFiles F pdir base s3)"
      using comp 3 c(1) v by (simp add: st3_def compacted_def)
    have id: "self_id g3 = self_id g" using v by (metis fst_conv self_id_keep(2))
    have st3: "index st3 = ix" "writer st3 = writer st" "writer_pack st3 = writer_pack st" "shard_ok F pdir g st3 s2"
      using c(2) by (simp_all add: st3_def compacted_def)
    have same: "pack_bytes F pdir s3 b = pack_bytes F pdir s2 b" if "is_vpack (b, False)" for b
      using WriteVidx_packs [OF pack_laws [OF assms(1)] that] v by (metis snd_conv)
    have ok3: "shard_ok F pdir g3 st3 s3" by (rule shard_ok_same_packs [OF same st3(4) id])
    have "index_map F pdir ix s3 = index_map F pdir (index st) s"
      using grows_index(2) [OF same_packs_grow [OF same]] st3(1,4) c(3) by (simp add: shard_ok_def)
    with remove_dead_pack [OF assms(1) ok3, of base] c(4) wr res id st3 show ?thesis by simp
  qed
qed

lemma compact_packs_result:
  assumes "pack_fs_laws F" "writes_progress F" "order_law ord" "shard_ok F pdir g st s"
    and "writer st \<noteq> None \<Longrightarrow> writer_pack st \<notin> set bs" "compact_packs F ord pdir bs g st s = (g', st', s')"
  shows "shard_ok F pdir g' st' s' \<and> self_id g' = self_id g \<and> index_map F pdir (index st') s' = index_map F pdir (index st) s"
  using assms(4-6)
proof (induction bs arbitrary: g st s)
  case (Cons b bs)
  obtain g1 st1 s1 where c: "CompactPack F ord pdir b g st s = (g1, st1, s1)" by (metis prod_cases3)
  have "writer st \<noteq> None \<Longrightarrow> b \<noteq> writer_pack st" using Cons.prems(2) by auto
  note cp = CompactPack_result [OF assms(1-3) Cons.prems(1) this c]
  with Cons.IH [of g1 st1 s1] Cons.prems c show ?case by simp
qed simp

lemma SealWriter_result:
  assumes "pack_fs_laws F" "shard_ok F pdir g st s" "SealWriter F ord pdir g st s = (g', st', s')"
  shows "shard_ok F pdir g' st' s' \<and> self_id g' = self_id g \<and> index_map F pdir (index st') s' = index_map F pdir (index st) s \<and>
    writer st' = None"
proof (cases "writer st = None")
  case True
  with assms show ?thesis by (simp add: SealWriter_def)
next
  case False
  obtain g1 s1 where v: "WriteVidx F ord pdir (writer_pack st) st (writer_size st) g s = (g1, s1)" by fastforce
  have same: "pack_bytes F pdir s1 b = pack_bytes F pdir s b" if "is_vpack (b, False)" for b
    using WriteVidx_packs [OF pack_laws [OF assms(1)] that] v by (metis snd_conv)
  have id: "self_id g1 = self_id g" using v by (metis fst_conv self_id_keep(2))
  have "shard_ok F pdir g1 st s1" by (rule shard_ok_same_packs [OF same assms(2) id])
  moreover have "index_map F pdir (index st) s1 = index_map F pdir (index st) s"
    using grows_index(2) [OF same_packs_grow [OF same]] assms(2) by (simp add: shard_ok_def)
  moreover have "(g', st', s') = (g1, st\<lparr>writer := None, writer_pack := [], writer_size := 0\<rparr>, s1)"
    using assms(3) False v by (simp add: SealWriter_def)
  ultimately show ?thesis using id by (simp add: shard_ok_def writer_ok_def)
qed

text \<open>Reclaiming disk space never loses a record.\<close>

lemma reclaim_shard_result:
  assumes "pack_fs_laws F" "writes_progress F" "order_law ord" "shard_ok F pdir g st s"
    and "reclaim_shard F ord pdir dead_pct g st s = (g', st', s')"
  shows "shard_ok F pdir g' st' s' \<and> self_id g' = self_id g \<and> index_map F pdir (index st') s' = index_map F pdir (index st) s"
proof -
  define wsize where "wsize = (case map_of (packs st) (writer_pack st) of None \<Rightarrow> 0 | Some m \<Rightarrow> pm_size m)"
  define mid where "mid = (if writer st \<noteq> None \<and> writer_pack st \<noteq> [] \<and> over_threshold dead_pct wsize (live_of st (writer_pack st))
     then SealWriter F ord pdir g st s else (g, st, s))"
  obtain g1 st1 s1 where m: "mid = (g1, st1, s1)" by (metis prod_cases3)
  have a: "shard_ok F pdir g1 st1 s1 \<and> self_id g1 = self_id g \<and> index_map F pdir (index st1) s1 = index_map F pdir (index st) s"
    using m SealWriter_result [OF assms(1,4)] assms(4) by (auto simp: mid_def split: if_splits)
  define bs where "bs = map fst (filter (\<lambda>pk. pm_own (snd pk) \<and> fst pk \<noteq> writer_pack st1 \<and>
      over_threshold dead_pct (pm_size (snd pk)) (live_of st1 (fst pk))) (iterate ord (packs st1)))"
  have b: "compact_packs F ord pdir bs g1 st1 s1 = (g', st', s')" "writer_pack st1 \<notin> set bs"
    using assms(5) m by (auto simp: reclaim_shard_def mid_def wsize_def bs_def Let_def)
  from compact_packs_result [OF assms(1-3) _ _ b(1)] a b(2) show ?thesis by auto
qed

section \<open>A shard is a map\<close>

text \<open>
  The operations on one loaded shard, in any order: a \<open>Persist\<close>, and the three things a reap does,
  which are dropping the expired entries, evicting one entry and reclaiming space.
\<close>

datatype pack_op = Put "int \<times> int" VgiResultCacheEntry string nat | Expire int | Evict string | Reclaim nat

type_synonym 'fs shard_world = "pack_globals \<times> ShardState \<times> 'fs"

fun run_op ::
  "'fs file_system \<Rightarrow> (string list \<Rightarrow> string list) \<Rightarrow> (string \<Rightarrow> string) \<Rightarrow> string \<Rightarrow> string \<Rightarrow> pack_op \<Rightarrow> 'fs shard_world \<Rightarrow>
   bool \<times> 'fs shard_world" where
  "run_op F ord sha dir sh (Put nows e blob target) (g, st, s) =
     persist_shard F ord nows dir sh (Fingerprint sha (ekey e)) e blob (sha blob) target g st s"
| "run_op F ord sha dir sh (Expire now_unix) (g, st, s) = (True, g, snd (expire_shard now_unix st), s)"
| "run_op F ord sha dir sh (Evict k) (g, st, s) = (True, g, st\<lparr>index := AList.delete k (index st)\<rparr>, s)"
| "run_op F ord sha dir sh (Reclaim dead_pct) (g, st, s) = (True, reclaim_shard F ord (packs_dir dir sh) dead_pct g st s)"

fun run_ops ::
  "'fs file_system \<Rightarrow> (string list \<Rightarrow> string list) \<Rightarrow> (string \<Rightarrow> string) \<Rightarrow> string \<Rightarrow> string \<Rightarrow> pack_op list \<Rightarrow> 'fs shard_world \<Rightarrow>
   bool list \<times> 'fs shard_world" where
  "run_ops F ord sha dir sh [] w = ([], w)"
| "run_ops F ord sha dir sh (x # xs) w =
     (let (ok, w1) = run_op F ord sha dir sh x w; (oks, w2) = run_ops F ord sha dir sh xs w1 in (ok # oks, w2))"

text \<open>What they mean for a map from fingerprints to a record and its expiry.\<close>

definition expired_at :: "int \<Rightarrow> int \<Rightarrow> bool" where
  "expired_at now_unix ex \<longleftrightarrow> ex \<noteq> 2 ^ 63 - 1 \<and> now_unix \<ge> ex"

fun spec_op :: "(string \<Rightarrow> string) \<Rightarrow> pack_op \<Rightarrow> bool \<Rightarrow> (string \<rightharpoonup> Rec \<times> int) \<Rightarrow> (string \<rightharpoonup> Rec \<times> int)" where
  "spec_op sha (Put nows e blob target) ok m =
     (let k = Fingerprint sha (ekey e) in
      if ok then m(k \<mapsto> (rec_of (fst nows) e blob (sha blob) k, ComputeExpiresUnix (snd nows) e)) else m)"
| "spec_op sha (Expire now_unix) ok m =
     (\<lambda>k. case m k of None \<Rightarrow> None | Some (r, ex) \<Rightarrow> if expired_at now_unix ex then None else Some (r, ex))"
| "spec_op sha (Evict k) ok m = m(k := None)"
| "spec_op sha (Reclaim dead_pct) ok m = m"

fun spec_ops :: "(string \<Rightarrow> string) \<Rightarrow> pack_op list \<Rightarrow> bool list \<Rightarrow> (string \<rightharpoonup> Rec \<times> int) \<Rightarrow> (string \<rightharpoonup> Rec \<times> int)" where
  "spec_ops sha (x # xs) (ok # oks) m = spec_ops sha xs oks (spec_op sha x ok m)"
| "spec_ops sha _ _ m = m"

fun op_ok :: "(string \<Rightarrow> string) \<Rightarrow> pack_op \<Rightarrow> bool" where
  "op_ok sha (Put nows e blob target) =
     (let k = Fingerprint sha (ekey e) in
      record_ok (fst nows) e blob (sha blob) k \<and> length (BuildRecord (fst nows) e blob (sha blob) k) < 2 ^ 64)"
| "op_ok sha _ = True"

definition serve_shard ::
  "'fs file_system \<Rightarrow> (string \<Rightarrow> string) \<Rightarrow> nat \<Rightarrow> int \<Rightarrow> int \<Rightarrow> VgiResultCacheKey \<Rightarrow> string \<Rightarrow> ShardState \<Rightarrow> 'fs \<Rightarrow> load_result option" where
  "serve_shard F sha fuel now_unix now k pdir st s =
     (case map_of (index st) (Fingerprint sha k) of
        None \<Rightarrow> Some Missing
      | Some loc \<Rightarrow> serve_loc F sha fuel now_unix now k pdir loc s)"

definition serve_map ::
  "(string \<Rightarrow> string) \<Rightarrow> nat \<Rightarrow> int \<Rightarrow> int \<Rightarrow> VgiResultCacheKey \<Rightarrow> (string \<rightharpoonup> Rec \<times> int) \<Rightarrow> load_result option" where
  "serve_map sha fuel now_unix now k m =
     (case m (Fingerprint sha k) of
        None \<Rightarrow> Some Missing
      | Some (r, ex) \<Rightarrow> if expired_at now_unix ex then Some Missing else serve_rec sha fuel now_unix now k r)"

lemma serve_shard_map:
  assumes "shard_ok F pdir g st s"
  shows "serve_shard F sha fuel now_unix now k pdir st s = serve_map sha fuel now_unix now k (index_map F pdir (index st) s)"
proof (cases "map_of (index st) (Fingerprint sha k)")
  case (Some loc)
  then have "loc_ok F pdir s (Fingerprint sha k) loc" using assms unfolding shard_ok_def index_ok_def by blast
  then obtain r where r: "loc_record F pdir s loc = Some r" by (auto simp: loc_ok_def)
  then obtain b p where "read_at F s (pdir @ ''/'' @ lpack loc) (lrec_len loc) (loffset loc) = Some b" "ParseRecord b 0 (length b) = Some (r, p)"
    by (auto simp: loc_record_def split: option.splits)
  with Some r show ?thesis
    by (simp add: serve_shard_def serve_map_def index_map_def serve_loc_def expired_at_def)
qed (simp add: serve_shard_def serve_map_def index_map_def)

lemma map_of_filter_distinct:
  "distinct (map fst ix) \<Longrightarrow>
   map_of (filter P ix) k = (case map_of ix k of None \<Rightarrow> None | Some v \<Rightarrow> if P (k, v) then Some v else None)"
  by (induction ix) (auto simp: map_of_eq_None_iff image_iff split: option.splits)

lemma index_filter:
  assumes "index_ok F pdir ix s"
  shows "index_ok F pdir (filter P ix) s"
proof -
  have "distinct (map fst ix)" using assms by (simp add: index_ok_def)
  with assms show ?thesis
    unfolding index_ok_def
    by (auto simp: distinct_map_filter map_of_filter_distinct split: option.splits if_splits simp del: map_of_eq_Some_iff)
qed

lemma run_op_result:
  assumes "pack_fs_laws F" "writes_progress F" "order_law ord" "shard_ok F (packs_dir dir sh) g st s" "op_ok sha x"
    and "run_op F ord sha dir sh x (g, st, s) = (ok, g', st', s')"
  shows "shard_ok F (packs_dir dir sh) g' st' s' \<and>
    index_map F (packs_dir dir sh) (index st') s' = spec_op sha x ok (index_map F (packs_dir dir sh) (index st) s)"
proof (cases x)
  case (Put nows e blob target)
  let ?k = "Fingerprint sha (ekey e)"
  have "record_ok (fst nows) e blob (sha blob) ?k" "length (BuildRecord (fst nows) e blob (sha blob) ?k) < 2 ^ 64"
    "persist_shard F ord nows dir sh ?k e blob (sha blob) target g st s = (ok, g', st', s')"
    using assms(5,6) Put by (simp_all add: Let_def)
  from persist_shard_result [OF assms(1,2,4) this] Put show ?thesis by (simp add: Let_def)
next
  case (Expire now_unix)
  have di: "distinct (map fst (index st))" "index_ok F (packs_dir dir sh) (index st) s"
    using assms(4) by (auto simp: shard_ok_def index_ok_def)
  have "shard_ok F (packs_dir dir sh) g st' s"
    using assms(4,6) index_filter [OF di(2)] Expire by (auto simp: expire_shard_def shard_ok_def writer_ok_def cong: option.case_cong)
  moreover have "index_map F (packs_dir dir sh) (index st') s = spec_op sha x ok (index_map F (packs_dir dir sh) (index st) s)"
    using assms(6) Expire
    by (auto simp: expire_shard_def index_map_def map_of_filter_distinct [OF di(1)] loc_expired_def expired_at_def fun_eq_iff
        split: option.splits if_splits)
  ultimately show ?thesis using assms(6) Expire by auto
next
  case (Evict k)
  have "index_ok F (packs_dir dir sh) (AList.delete k (index st)) s"
    using assms(4) by (auto simp: shard_ok_def index_ok_def delete_conv' distinct_delete split: if_splits simp del: map_of_eq_Some_iff)
  with assms(4,6) Evict show ?thesis
    by (auto simp: shard_ok_def writer_ok_def index_map_def delete_conv' fun_eq_iff cong: option.case_cong)
next
  case (Reclaim dead_pct)
  then have "reclaim_shard F ord (packs_dir dir sh) dead_pct g st s = (g', st', s')" using assms(6) by simp
  from reclaim_shard_result [OF assms(1-4) this] Reclaim show ?thesis by simp
qed

text \<open>On a file system where no call throws, every \<open>Persist\<close> stores its entry.\<close>

definition pack_up :: "'fs file_system \<Rightarrow> bool" where
  "pack_up F \<longleftrightarrow> fs_up F \<and> (\<forall>s p. fs_open F s p \<noteq> None)"

lemma EnsureWriter_up:
  assumes "pack_fs_laws F" "pack_up F"
  shows "fst (EnsureWriter F ord dir sh target need g st s)"
proof -
  let ?pd = "packs_dir dir sh"
  obtain g1 s1 where gs: "(if writer st \<noteq> None then WriteVidx F ord ?pd (writer_pack st) st (writer_size st) g s else (g, s)) = (g1, s1)"
    by fastforce
  have "fs_up F" using assms(2) by (simp add: pack_up_def)
  then obtain s2 where mk: "mkdirs F [dir, dir @ ''/'' @ sh, ?pd] s1 = (True, s2)"
    using mkdirs_reads [OF pack_laws [OF assms(1)]] by (metis (full_types) prod.collapse)
  obtain s3 where "fs_open F s2 (?pd @ ''/'' @ pack_name g1 (writer_seq st)) = Some s3"
    using assms(2) unfolding pack_up_def by (meson option.exhaust)
  with gs mk show ?thesis by (simp add: EnsureWriter_def Let_def)
qed

lemma persist_shard_up:
  assumes "pack_fs_laws F" "writes_progress F" "pack_up F" "shard_ok F (packs_dir dir sh) g st s"
  shows "fst (persist_shard F ord nows dir sh k e blob sha_hex target g st s)"
proof -
  let ?pd = "packs_dir dir sh" and ?rec = "BuildRecord (fst nows) e blob sha_hex k"
  obtain g1 st1 s1 where w: "EnsureWriter F ord dir sh target (length ?rec) g st s = (True, g1, st1, s1)"
    using EnsureWriter_up [OF assms(1,3), of ord dir sh target "length ?rec" g st s] by (metis (full_types) fst_conv prod_cases4)
  note ew = EnsureWriter_result [OF assms(1,4) w]
  then obtain pos where pos: "writer st1 = Some pos" by blast
  obtain s2 where "WriteAll F (?pd @ ''/'' @ writer_pack st1) pos ?rec 0 s1 = (True, writer_size st1 + length ?rec, s2)"
    by (rule append_writer [OF assms(1,2) ew(1) pos, of ?rec])
  with w pos show ?thesis by (simp add: persist_shard_def Let_def next_age_def)
qed

text \<open>
  C39. The packed store implements a map, whatever is done to a shard and in whatever order. Start
  from a sound shard. After any sequence of stores, expiries, evictions and reclaims, the shard is
  sound again and holds exactly the records that the same sequence leaves in a map from fingerprints
  to records: a store adds its record if it reports success and changes nothing if it fails, appends
  and rolls of the writer's pack keep every other record, and a compaction moves records between files
  without losing or changing one. A lookup is answered from that map, and where no file operation
  throws every store succeeds. The hypotheses say what open, write and remove do to a file, that a
  write makes progress, and that an iteration visits each key once.
\<close>

theorem pack_store_refines_map:
  assumes "pack_fs_laws F" and "writes_progress F" and "order_law ord"
    and "shard_ok F (packs_dir dir sh) g st s" and "list_all (op_ok sha) ops"
    and "run_ops F ord sha dir sh ops (g, st, s) = (oks, g', st', s')"
  shows "shard_ok F (packs_dir dir sh) g' st' s' \<and>
    index_map F (packs_dir dir sh) (index st') s' = spec_ops sha ops oks (index_map F (packs_dir dir sh) (index st) s) \<and>
    serve_shard F sha fuel now_unix now k (packs_dir dir sh) st' s' =
      serve_map sha fuel now_unix now k (spec_ops sha ops oks (index_map F (packs_dir dir sh) (index st) s)) \<and>
    (pack_up F \<longrightarrow> list_all id oks)"
proof -
  have "shard_ok F (packs_dir dir sh) g' st' s' \<and>
    index_map F (packs_dir dir sh) (index st') s' = spec_ops sha ops oks (index_map F (packs_dir dir sh) (index st) s) \<and>
    (pack_up F \<longrightarrow> list_all id oks)"
    using assms(4-6)
  proof (induction ops arbitrary: g st s oks)
    case (Cons x ops)
    obtain ok g1 st1 s1 where r: "run_op F ord sha dir sh x (g, st, s) = (ok, g1, st1, s1)" by (metis prod_cases4)
    obtain oks' where oks: "oks = ok # oks'" "run_ops F ord sha dir sh ops (g1, st1, s1) = (oks', g', st', s')"
      using Cons.prems(3) r by (auto split: prod.splits)
    have "pack_up F \<Longrightarrow> ok"
      using persist_shard_up [OF assms(1,2) _ Cons.prems(1)] r by (cases x) (auto, metis fst_conv)
    with run_op_result [OF assms(1-3) Cons.prems(1) _ r] Cons.IH [OF _ _ oks(2)] Cons.prems(2) oks(1)
    show ?case by auto
  qed simp
  with serve_shard_map show ?thesis by metis
qed

section \<open>A concrete shard\<close>

lemma map_files_pack_laws: "pack_fs_laws map_files" "writes_progress map_files" "pack_up map_files"
  using map_files_laws by (auto simp: pack_fs_laws_def writes_progress_def pack_up_def map_files_def)

definition sample_globals :: pack_globals where
  "sample_globals = globals (new_PackStore 7 0)"

lemma empty_shard_ok: "shard_ok map_files pdir g fresh_shard Map.empty"
  by (simp add: shard_ok_def index_ok_def writer_ok_def fresh_names_def fresh_shard_def map_files_def)

lemma kept_entry_op_ok: "op_ok constant_digest (Put (0, 0) kept_entry ''VRC1'' target)"
proof -
  have f: "Fingerprint constant_digest k = replicate 64 CHR ''a''" for k
    by (simp add: Fingerprint_def constant_digest_def)
  show ?thesis
    by (simp add: f Let_def record_ok_def constant_digest_def BuildRecord_def kept_entry_def blank_entry_def blank_key_def
        ComputeExpiresUnix_def)
qed

text \<open>The same entry stored twice leaves half of the pack dead, so the reclaim seals, copies and removes it.\<close>

definition sample_ops :: "pack_op list" where
  "sample_ops = [Put (0, 0) kept_entry ''VRC1'' 0, Put (0, 0) kept_entry ''VRC1'' 0, Reclaim 50]"

theorem pack_store_refines_map_witness:
  "\<exists>oks g' st' s' e. run_ops map_files id constant_digest ''d'' ''h'' sample_ops (sample_globals, fresh_shard, Map.empty) = (oks, g', st', s') \<and>
     serve_shard map_files constant_digest 1 0 0 (ekey kept_entry) (packs_dir ''d'' ''h'') st' s' = Some (Served e) \<and> eetag e = ''v1''"
proof -
  obtain oks g' st' s' where r: "run_ops map_files id constant_digest ''d'' ''h'' sample_ops (sample_globals, fresh_shard, Map.empty) = (oks, g', st', s')"
    by (metis prod_cases4)
  have ord: "order_law id" by (simp add: order_law_def)
  have ops: "list_all (op_ok constant_digest) sample_ops" using kept_entry_op_ok by (simp add: sample_ops_def)
  note main = pack_store_refines_map [OF map_files_pack_laws(1,2) ord empty_shard_ok ops r, where fuel = 1 and now_unix = 0 and now = 0
      and k = "ekey kept_entry"]
  obtain a b c where "oks = [a, b, c]" using r by (auto simp: sample_ops_def split: prod.splits)
  then have oks: "oks = [True, True, True]" using main map_files_pack_laws(3) by simp
  have e: "all_batches kept_entry = []" "enever_expires kept_entry" "eetag kept_entry = ''v1''"
    by (simp_all add: kept_entry_def blank_entry_def all_batches_def)
  have "SerializeEntryBlob (\<lambda>p _ _. p) kept_entry ''none'' 1 = ''VRC1''" using e(1) by (simp add: SerializeEntryBlob_flat)
  then have p: "ParseEntryBlobIntoStream 1 ''VRC1'' = Some (Inr (\<lparr>batches = [], sbytes = 0, srows = 0\<rparr>, 0))"
    using parse_serialized [of "\<lambda>p _ _. p" kept_entry "''none''" 1 1] e(1) by simp
  have "\<exists>e. serve_map constant_digest 1 0 0 (ekey kept_entry)
      (spec_ops constant_digest sample_ops oks (index_map map_files (packs_dir ''d'' ''h'') (index fresh_shard) Map.empty)) = Some (Served e) \<and>
      eetag e = ''v1''"
    using e p by (simp add: serve_map_def oks sample_ops_def Let_def expired_at_def ComputeExpiresUnix_def serve_rec_def rec_of_def
        constant_digest_def expiry_fields_def)
  with main r show ?thesis by auto
qed

text \<open>
  Invalidating a shard forgets the number of the last pack. If its files stay, which is the case when
  the cache directory was changed and is changed back after a flush, the next \<open>Persist\<close> opens the
  first pack of the process again, at position 0, and overwrites the records it holds.
\<close>

lemma invalidated_shard_overwrites_pack:
  assumes "s (packs_dir dir sh @ ''/'' @ pack_name g 0) = Some c" "shards (InvalidateAll P) (ShardKey dir sh) = st"
  shows "\<exists>g' st' s'. persist_shard map_files ord nows dir sh k e blob sha_hex target g st s = (True, g', st', s') \<and>
    s' (packs_dir dir sh @ ''/'' @ pack_name g 0) = Some (memcpy c 0 (BuildRecord (fst nows) e blob sha_hex k))"
proof -
  have mk: "MkdirP map_files p s = Some s" for p s by (simp add: MkdirP_def map_files_def)
  have st: "st = fresh_shard" using assms(2) by (simp add: InvalidateAll_def)
  have ne: "BuildRecord (fst nows) e blob sha_hex k \<noteq> []" by (simp add: BuildRecord_def)
  let ?r = "BuildRecord (fst nows) e blob sha_hex k" and ?p = "packs_dir dir sh @ ''/'' @ pack_name g 0"
  have "WriteAll map_files ?p 0 ?r 0 s = (True, length ?r, s(?p \<mapsto> memcpy c 0 ?r))"
    using assms(1) ne by (subst WriteAll.simps) (auto simp: map_files_def WriteAll.simps)
  moreover have "fs_open map_files s ?p = Some s" using assms(1) by (simp add: map_files_def)
  ultimately show ?thesis
    by (simp add: persist_shard_def EnsureWriter_def Let_def st fresh_shard_def mk next_age_def)
qed

section \<open>The sidecar restores the index\<close>

text \<open>What fits a sidecar entry; the age and the ownership are not stored.\<close>

definition vidx_fits :: "string \<times> Loc \<Rightarrow> bool" where
  "vidx_fits kv \<longleftrightarrow> length (fst kv) = 64 \<and> loffset (snd kv) < 2 ^ 64 \<and> lrec_len (snd kv) < 2 ^ 64 \<and>
     int64 (lexpires (snd kv)) \<and> int64 (lrows (snd kv))"

lemma length_vidx_entry: "length (fst kv) = 64 \<Longrightarrow> length (vidx_entry kv) = 105"
  by (simp add: vidx_entry_def)

lemma vidx_entry_fields:
  assumes "idx = pre @ vidx_entry (k, loc) @ rest" "length k = 64"
  shows "take 64 (drop (length pre) idx) = k" "u64_at idx (length pre + 64) = of_nat (loffset loc)"
    "u64_at idx (length pre + 72) = of_nat (lrec_len loc)" "u64_at idx (length pre + 80) = u64_of (lexpires loc)"
    "u64_at idx (length pre + 88) = llogical loc" "u64_at idx (length pre + 96) = u64_of (lrows loc)"
    "idx ! (length pre + 104) \<noteq> CHR 0x00 \<longleftrightarrow> lexchange loc"
proof -
  have "char_of (1 :: nat) \<noteq> CHR 0x00" "char_of (0 :: nat) = CHR 0x00" by code_simp+
  with assms(2) show "take 64 (drop (length pre) idx) = k" "u64_at idx (length pre + 64) = of_nat (loffset loc)"
    "u64_at idx (length pre + 72) = of_nat (lrec_len loc)" "u64_at idx (length pre + 80) = u64_of (lexpires loc)"
    "u64_at idx (length pre + 88) = llogical loc" "u64_at idx (length pre + 96) = u64_of (lrows loc)"
    "idx ! (length pre + 104) \<noteq> CHR 0x00 \<longleftrightarrow> lexchange loc"
    by (simp_all add: assms(1) vidx_entry_def u64_at_def nth_append)
qed

lemma insert_loc_new: "map_of (index st) k = None \<Longrightarrow> index (insert_loc k loc st) = AList.update k loc (index st)"
  by (simp add: insert_loc_def)

lemma vidx_entries_written:
  assumes "list_all vidx_fits es" "distinct (map fst es)" "list_all (\<lambda>kv. lpack (snd kv) = base) es"
    and "\<And>k. k \<in> fst ` set es \<Longrightarrow> map_of (index st) k = None"
  shows "\<exists>g' st'. vidx_entries (length es) (pre @ concat (map vidx_entry es)) (length pre) base own g st = (True, g', st') \<and>
    (\<forall>k. case map_of es k of
       None \<Rightarrow> map_of (index st') k = map_of (index st) k
     | Some loc \<Rightarrow> \<exists>q. map_of (index st') k = Some (loc\<lparr>lown := own, lseq := q\<rparr>))"
  using assms
proof (induction es arbitrary: pre g st)
  case (Cons kv es)
  obtain k loc where kv: "kv = (k, loc)" by fastforce
  define idx where "idx = pre @ concat (map vidx_entry (kv # es))"
  have fits: "length k = 64" "loffset loc < 2 ^ 64" "lrec_len loc < 2 ^ 64" "int64 (lexpires loc)" "int64 (lrows loc)"
    using Cons.prems(1) by (auto simp: kv vidx_fits_def)
  have idx: "idx = pre @ vidx_entry (k, loc) @ concat (map vidx_entry es)" by (simp add: kv idx_def)
  note f = vidx_entry_fields [OF idx fits(1)]
  define loc' where "loc' = loc\<lparr>lown := own, lseq := age_seq g\<rparr>"
  have new: "map_of (index st) k = None" using Cons.prems(4) by (simp add: kv)
  have loc'_eq: "\<lparr>lpack = base, loffset = unat (u64_at idx (length pre + 64)), lrec_len = unat (u64_at idx (length pre + 72)),
      lexpires = i64_of (u64_at idx (length pre + 80)), llogical = u64_at idx (length pre + 88),
      lrows = i64_of (u64_at idx (length pre + 96)), lexchange = idx ! (length pre + 104) \<noteq> CHR 0x00, lown = own, lseq = age_seq g\<rparr> = loc'"
    using Cons.prems(3) fits by (simp add: f loc'_def kv)
  have long: "\<not> length pre + 105 > length idx" using length_vidx_entry [of "(k, loc)"] fits(1) by (simp add: idx)
  have step: "vidx_entries (length (kv # es)) idx (length pre) base own g st =
      vidx_entries (length es) idx (length pre + 105) base own (snd (next_age g)) (insert_loc k loc' st)"
    using long by (simp only: list.size(4) vidx_entries.simps if_False Let_def next_age_def prod.case snd_conv loc'_eq f(1) One_nat_def
        add_Suc_right Nat.add_0_right)
  have idx2: "idx = (pre @ vidx_entry kv) @ concat (map vidx_entry es)" by (simp add: idx_def)
  have len2: "length pre + 105 = length (pre @ vidx_entry kv)" using length_vidx_entry [of kv] fits(1) by (simp add: kv)
  have dis: "k \<notin> fst ` set es" using Cons.prems(2) by (simp add: kv)
  have pre': "map_of (index (insert_loc k loc' st)) k' = None" if "k' \<in> fst ` set es" for k'
    using that dis Cons.prems(4) insert_loc_new [OF new] by (auto simp: update_conv')
  have "\<exists>g' st'. vidx_entries (length es) ((pre @ vidx_entry kv) @ concat (map vidx_entry es)) (length (pre @ vidx_entry kv)) base own
        (snd (next_age g)) (insert_loc k loc' st) = (True, g', st') \<and>
      (\<forall>k'. case map_of es k' of None \<Rightarrow> map_of (index st') k' = map_of (index (insert_loc k loc' st)) k'
        | Some l \<Rightarrow> \<exists>q. map_of (index st') k' = Some (l\<lparr>lown := own, lseq := q\<rparr>))"
    by (rule Cons.IH) (use Cons.prems(1-3) pre' in auto)
  then obtain g' st' where IH: "vidx_entries (length es) idx (length pre + 105) base own (snd (next_age g)) (insert_loc k loc' st) = (True, g', st')"
    "\<forall>k'. case map_of es k' of None \<Rightarrow> map_of (index st') k' = map_of (index (insert_loc k loc' st)) k'
       | Some l \<Rightarrow> \<exists>q. map_of (index st') k' = Some (l\<lparr>lown := own, lseq := q\<rparr>)"
    unfolding idx2 len2 by blast
  have nk: "map_of es k = None" using dis by (simp add: map_of_eq_None_iff)
  have ins: "map_of (index (insert_loc k loc' st)) k' = (if k' = k then Some loc' else map_of (index st) k')" for k'
    by (simp add: insert_loc_new [OF new] update_conv')
  have "case map_of (kv # es) k' of None \<Rightarrow> map_of (index st') k' = map_of (index st) k'
       | Some l \<Rightarrow> \<exists>q. map_of (index st') k' = Some (l\<lparr>lown := own, lseq := q\<rparr>)" for k'
  proof (cases "k' = k")
    case True
    have "map_of (index st') k = Some loc'" using spec [OF IH(2), of k] nk ins by simp
    with True show ?thesis unfolding kv loc'_def by (simp only: map_of.simps prod.sel fun_upd_same option.case) (rule exI, rule refl)
  next
    case False
    then have "map_of (kv # es) k' = map_of es k'" by (simp add: kv)
    with False spec [OF IH(2), of k'] ins show ?thesis by (cases "map_of es k'") simp_all
  qed
  then show ?case using trans [OF step IH(1)] unfolding idx_def by (intro exI conjI allI)
qed simp

definition vidx_head :: "nat \<Rightarrow> nat \<Rightarrow> string" where
  "vidx_head pack_size entries = ''VIX1'' @ put_le 8 (of_nat pack_size :: u64) @ put_le 8 (of_nat entries :: u64)"

lemma vidx_text_split:
  "vidx_text ord base st n =
     vidx_head n (length (live_entries ord base (index st))) @ concat (map vidx_entry (live_entries ord base (index st)))"
  by (simp add: vidx_text_def vidx_head_def live_entries_def Let_def)

lemma vidx_head_fields:
  "length (vidx_head m n) = 20" "take 4 (vidx_head m n @ r) = ''VIX1''"
  "u64_at (vidx_head m n @ r) 4 = of_nat m" "u64_at (vidx_head m n @ r) 12 = of_nat n"
  by (simp_all add: vidx_head_def u64_at_def)

lemma WriteVidx_reads:
  assumes "fs_laws F" "fs_up F" "WriteVidx F ord pdir base st n g s = (g1, s1)"
  shows "fs_read F s1 (pdir @ ''/'' @ VidxOf base) = Some (vidx_text ord base st n)"
proof -
  have "s1 = snd (WriteFileAtomic F (pdir @ ''/'' @ VidxOf base) (vidx_text ord base st n) (fst (ShortTempSuffix g)) s)"
    using assms(3) by (simp add: WriteVidx_def split: prod.splits)
  then show ?thesis using WriteFileAtomic_reads(2) [OF assms(1,2)] by simp
qed

text \<open>A process that trusts the sidecar sees every record of the pack that the writer's index had.\<close>

lemma sidecar_restores_index:
  assumes "fs_laws F" "fs_up F" "order_law ord" "index_ok F pdir (index st) s" "is_vpack (base, False)"
    and "list_all vidx_fits (live_entries ord base (index st))" "length (live_entries ord base (index st)) < 2 ^ 64"
    and "pack_bytes F pdir s base = Some c" "length c < 2 ^ 64" "WriteVidx F ord pdir base st (length c) g s = (g1, s1)"
  shows "\<exists>g2 st2. LoadOnePack F ord fuel pdir base g1 fresh_shard s1 = Some (g2, st2, s1) \<and>
    (\<forall>k. index_map F pdir (index st2) s1 k =
       (case map_of (index st) k of None \<Rightarrow> None | Some loc \<Rightarrow> if lpack loc = base then index_map F pdir (index st) s k else None))"
proof -
  define es where "es = live_entries ord base (index st)"
  define pre where "pre = vidx_head (length c) (length es)"
  let ?idx = "pre @ concat (map vidx_entry es)"
  have di: "distinct (map fst (index st))" using assms(4) by (simp add: index_ok_def)
  note live = live_entries_iff [OF assms(3) di, where base = base, folded es_def]
  have rd: "fs_read F s1 (pdir @ ''/'' @ VidxOf base) = Some ?idx"
    using WriteVidx_reads [OF assms(1,2,10)] by (simp add: vidx_text_split pre_def es_def)
  have pk: "pack_bytes F pdir s1 b = pack_bytes F pdir s b" if "is_vpack (b, False)" for b
    using WriteVidx_packs [OF assms(1) that] assms(10) by (metis snd_conv)
  note pre = vidx_head_fields [of "length c" "length es", folded pre_def]
  let ?st = "fresh_shard\<lparr>packs := AList.update base \<lparr>pm_own = IsOwn g1 base, pm_size = length c\<rparr> (packs fresh_shard)\<rparr>"
  have "list_all (\<lambda>kv. lpack (snd kv) = base) es" by (auto simp: es_def live_entries_def list_all_iff)
  moreover have "map_of (index ?st) k = None" for k by (simp add: fresh_shard_def)
  ultimately obtain g2 st2 where v: "vidx_entries (length es) ?idx (length pre) base (IsOwn g1 base) g1 ?st = (True, g2, st2)"
    "\<forall>k. case map_of es k of None \<Rightarrow> map_of (index st2) k = None
       | Some loc \<Rightarrow> \<exists>q. map_of (index st2) k = Some (loc\<lparr>lown := IsOwn g1 base, lseq := q\<rparr>)"
    using vidx_entries_written [OF assms(6) [folded es_def] live(2), of base ?st pre "IsOwn g1 base" g1]
    by (auto cong: option.case_cong)
  have usable: "vidx_usable (Some ?idx) (length c)"
    unfolding vidx_usable_def option.case pre(2,3) using pre(1) assms(9) by simp
  have load: "LoadOnePack F ord fuel pdir base g1 fresh_shard s1 = Some (g2, st2, s1)"
  proof -
    have "unat (u64_at (the (Some ?idx)) 12) = length es" unfolding option.sel pre(4) using assms(7) by (simp add: es_def)
    moreover have "pack_bytes F pdir s1 base = Some c" using pk [OF assms(5)] assms(8) by simp
    ultimately show ?thesis
      using v(1) usable rd pre(1) unfolding LoadOnePack_def ReadFileAll_def Let_def by (simp del: append_assoc)
  qed
  have "index_map F pdir (index st2) s1 k =
       (case map_of (index st) k of None \<Rightarrow> None | Some loc \<Rightarrow> if lpack loc = base then index_map F pdir (index st) s k else None)" for k
  proof (cases "map_of es k")
    case None
    then have "map_of (index st2) k = None" using spec [OF v(2), of k] by simp
    moreover have "map_of (index st) k = Some loc \<Longrightarrow> lpack loc \<noteq> base" for loc
      using None live(1) [of k loc] by (metis map_of_eq_None_iff fst_conv image_eqI)
    ultimately show ?thesis by (auto simp: index_map_def split: option.split)
  next
    case (Some loc)
    then obtain q where "map_of (index st2) k = Some (loc\<lparr>lown := IsOwn g1 base, lseq := q\<rparr>)" using spec [OF v(2), of k] by auto
    moreover have "map_of (index st) k = Some loc" "lpack loc = base" using live(1) [of k loc] map_of_SomeD [OF Some] by auto
    ultimately show ?thesis using pk [OF assms(5)] by (simp add: index_map_def loc_record_def read_at_def)
  qed
  with load show ?thesis by blast
qed

end
