(* ===== verification/Capture_Stream.thy ===== *)
theory Capture_Stream
  imports Pack_Store
begin

text \<open>
  Results larger than memory (\<^verbatim>\<open>src/src/vgi_result_cache.cpp\<close>): the writer that streams a result's
  batches into a temporary object, its commit and abort, the loader that builds a table of contents
  without reading the payloads, and the flush of one identity's shard. The digest is fed the bytes
  as they are written, so the writer's state keeps the bytes fed so far.
\<close>

section \<open>Compression of the payloads\<close>

definition ResolveDiskCompressionCodec :: "string \<Rightarrow> string" where
  "ResolveDiskCompressionCodec requested =
     (let c = map c_tolower requested in
      if c = [] \<or> c = ''none'' then ''none'' else if c \<noteq> ''zstd'' \<and> c \<noteq> ''lz4'' then ''none'' else c)"

text \<open>\<open>recode\<close> reads a batch and writes it again with a codec; it is \<open>None\<close> where either fails.\<close>

definition TranscodeIpcWithCodec ::
  "(string \<Rightarrow> string \<Rightarrow> u64 \<Rightarrow> string option) \<Rightarrow> string option \<Rightarrow> string \<Rightarrow> u64 \<Rightarrow> string option" where
  "TranscodeIpcWithCodec recode ipc codec level =
     (case ipc of
        None \<Rightarrow> None
      | Some b \<Rightarrow>
          if codec = [] \<or> codec = ''none'' then Some b
          else case recode b codec level of None \<Rightarrow> Some b | Some out \<Rightarrow> Some out)"

section \<open>The streaming writer\<close>

text \<open>\<open>handle\<close> is the position of the open handle, \<open>hashed\<close> what the running digest was fed.\<close>

record VgiCaptureDiskWriter =
  handle :: "nat option"
  tmp_path :: string
  objects_dir :: string
  refs_dir :: string
  wfp :: string
  wdisk_max :: u64
  wcodec :: string
  wlevel :: u64
  hashed :: string
  wbytes :: int
  wlogical_bytes :: int
  wrows :: int
  batch_count :: int
  wproducers :: int
  wfailed :: bool
  wfinalized :: bool

definition new_writer :: VgiCaptureDiskWriter where
  "new_writer = \<lparr>handle = None, tmp_path = [], objects_dir = [], refs_dir = [], wfp = [], wdisk_max = 0, wcodec = ''none'',
     wlevel = 1, hashed = [], wbytes = 0, wlogical_bytes = 0, wrows = 0, batch_count = 0, wproducers = 0,
     wfailed = False, wfinalized = False\<rparr>"

definition RegisterProducer :: "VgiCaptureDiskWriter \<Rightarrow> VgiCaptureDiskWriter" where
  "RegisterProducer w = w\<lparr>wproducers := wproducers w + 1\<rparr>"

definition BeginStreamingCapture ::
  "'fs file_system \<Rightarrow> (string \<Rightarrow> string) \<Rightarrow> VgiResultCacheKey \<Rightarrow> string \<Rightarrow> u64 \<Rightarrow> string \<Rightarrow> u64 \<Rightarrow> string \<Rightarrow> 'fs \<Rightarrow>
   VgiCaptureDiskWriter option \<times> 'fs" where
  "BeginStreamingCapture F sha k dir disk_max codec level tmp_suffix s =
     (if dir = [] \<or> disk_max = 0 then (None, s)
      else let fp = Fingerprint sha k in
      if fp = [] then (None, s)
      else case make_shard F sha dir k s of
        (False, s1) \<Rightarrow> (None, s1)
      | (True, s1) \<Rightarrow>
          let objects = shard_dir sha dir k @ ''/objects'';
              tmp = objects @ ''/.tmp-'' @ tmp_suffix in
          case fs_open F s1 tmp of
            None \<Rightarrow> (None, s1)
          | Some s2 \<Rightarrow>
              case WriteAll F tmp 0 ''VRC1'' 0 s2 of
                (False, _, s3) \<Rightarrow> (None, s3)
              | (True, pos, s3) \<Rightarrow>
                  (Some (new_writer\<lparr>handle := Some pos, tmp_path := tmp, objects_dir := objects,
                     refs_dir := shard_dir sha dir k @ ''/refs'', wfp := fp, wdisk_max := disk_max,
                     wcodec := ResolveDiskCompressionCodec codec, wlevel := level, hashed := ''VRC1'', wbytes := 4\<rparr>), s3))"

definition AppendBatch ::
  "'fs file_system \<Rightarrow> VgiCaptureDiskWriter \<Rightarrow> bool \<Rightarrow> u64 \<Rightarrow> int \<Rightarrow> string \<Rightarrow> string \<Rightarrow> int \<Rightarrow> 'fs \<Rightarrow>
   bool \<times> VgiCaptureDiskWriter \<times> 'fs" where
  "AppendBatch F w has_batch_index batch_index rows pv_bytes ipc logical_len s =
     (case handle w of
        None \<Rightarrow> (False, w, s)
      | Some pos \<Rightarrow>
          if wfailed w \<or> wfinalized w then (False, w, s)
          else
            let rec_bytes = put_le 8 ((if has_batch_index then 1 else 0) :: u64) @ put_le 8 batch_index @
                  put_le 8 (u64_of rows) @ put_le 8 (of_nat (length pv_bytes) :: u64) @ pv_bytes @
                  put_le 8 (of_nat (length ipc) :: u64);
                add = int (length rec_bytes) + int (length ipc) in
            if wdisk_max w \<noteq> 0 \<and> wbytes w + add > i64_of (wdisk_max w) then (False, w\<lparr>wfailed := True\<rparr>, s)
            else case WriteAll F (tmp_path w) pos rec_bytes 0 s of
              (False, pos1, s1) \<Rightarrow> (False, w\<lparr>handle := Some pos1, wfailed := True\<rparr>, s1)
            | (True, pos1, s1) \<Rightarrow>
                let w1 = w\<lparr>hashed := hashed w @ rec_bytes\<rparr> in
                case (if ipc \<noteq> [] then WriteAll F (tmp_path w) pos1 ipc 0 s1 else (True, pos1, s1)) of
                  (False, pos2, s2) \<Rightarrow> (False, w1\<lparr>handle := Some pos2, wfailed := True\<rparr>, s2)
                | (True, pos2, s2) \<Rightarrow>
                    (True, w1\<lparr>handle := Some pos2, hashed := hashed w1 @ ipc, wbytes := wbytes w + add,
                       wlogical_bytes := wlogical_bytes w + logical_len, wrows := wrows w + rows,
                       batch_count := batch_count w + 1\<rparr>, s2))"

text \<open>\<open>sync_ok\<close> is whether flushing the handle succeeded; a failed commit leaves the temporary file to the reaper.\<close>

definition CommitStreamingCapture ::
  "'fs file_system \<Rightarrow> (string \<Rightarrow> string) \<Rightarrow> int \<Rightarrow> bool \<Rightarrow> string \<Rightarrow> VgiCaptureDiskWriter \<Rightarrow> VgiResultCacheEntry \<Rightarrow> 'fs \<Rightarrow>
   bool \<times> VgiCaptureDiskWriter \<times> 'fs" where
  "CommitStreamingCapture F sha now_unix sync_ok tmp_suffix w meta s =
     (if wfailed w \<or> wfinalized w \<or> handle w = None then (False, w, s)
      else if \<not> sync_ok then (False, w, s)
      else
        let w1 = w\<lparr>handle := None\<rparr>;
            content_sha = sha (hashed w);
            obj_path = objects_dir w @ ''/'' @ content_sha @ ''.vrc'' in
        case (if fs_read F s obj_path \<noteq> None then fs_remove F s (tmp_path w)
              else case fs_move F s (tmp_path w) obj_path of None \<Rightarrow> (False, s) | Some s' \<Rightarrow> (True, s')) of
          (False, s1) \<Rightarrow> (False, w1, s1)
        | (True, s1) \<Rightarrow>
            let m = meta\<lparr>erows := wrows w, etotal_bytes := wlogical_bytes w\<rparr> in
            case WriteRef F (refs_dir w) (wfp w) content_sha (ComputeExpiresUnix now_unix meta) m (wcodec w) tmp_suffix s1 of
              (False, s2) \<Rightarrow> (False, w1, s2)
            | (True, s2) \<Rightarrow> (True, w1\<lparr>wfinalized := True\<rparr>, s2))"

definition AbortStreamingCapture :: "'fs file_system \<Rightarrow> VgiCaptureDiskWriter \<Rightarrow> 'fs \<Rightarrow> VgiCaptureDiskWriter \<times> 'fs" where
  "AbortStreamingCapture F w s =
     (if wfinalized w then (w, s)
      else (w\<lparr>wfailed := True, handle := None\<rparr>,
            if tmp_path w \<noteq> [] \<and> fs_read F s (tmp_path w) \<noteq> None then snd (fs_remove F s (tmp_path w)) else s))"

text \<open>
  \<open>DrainSubstreamToWriter\<close>: the batches a thread had buffered go to the writer, those without bytes
  are passed over, and the buffer is emptied whether or not the writer took them.
\<close>

fun drain_batches ::
  "'fs file_system \<Rightarrow> (string \<Rightarrow> string \<Rightarrow> u64 \<Rightarrow> string option) \<Rightarrow> bool \<Rightarrow> VgiCachedBatch list \<Rightarrow> VgiCaptureDiskWriter \<Rightarrow> 'fs \<Rightarrow>
   bool \<times> VgiCaptureDiskWriter \<times> 'fs" where
  "drain_batches F recode ok [] w s = (ok, w, s)"
| "drain_batches F recode ok (cb # cbs) w s =
     (case cb_ipc cb of
        Some ipc \<Rightarrow>
          if ok then
            let payload = the (TranscodeIpcWithCodec recode (Some ipc) (wcodec w) (wlevel w)) in
            (case AppendBatch F w (cb_has_index cb) (cb_index cb) (cb_rows cb) (cb_pv cb) payload (int (length ipc)) s of
               (ok', w', s') \<Rightarrow> drain_batches F recode ok' cbs w' s')
          else drain_batches F recode ok cbs w s
      | None \<Rightarrow> drain_batches F recode ok cbs w s)"

definition DrainSubstreamToWriter ::
  "'fs file_system \<Rightarrow> (string \<Rightarrow> string \<Rightarrow> u64 \<Rightarrow> string option) \<Rightarrow> CachedStream \<Rightarrow> VgiCaptureDiskWriter \<Rightarrow> 'fs \<Rightarrow>
   bool \<times> CachedStream \<times> VgiCaptureDiskWriter \<times> 'fs" where
  "DrainSubstreamToWriter F recode st w s =
     (case drain_batches F recode True (batches st) w s of
        (ok, w', s') \<Rightarrow> (ok, st\<lparr>batches := [], sbytes := 0, srows := 0\<rparr>, w', s'))"

section \<open>What is written\<close>

text \<open>
  A write that fails may leave a part of its bytes, in the file it was made to. \<open>stream_ok\<close> is a
  writer that can still be used: its file holds what the digest was fed and the handle stands at its end.
\<close>

definition writes_local :: "'fs file_system \<Rightarrow> bool" where
  "writes_local F \<longleftrightarrow> (\<forall>s p pos b q. q \<noteq> p \<longrightarrow> fs_read F (snd (fs_write F s p pos b)) q = fs_read F s q)"

lemma WriteAll_local:
  "writes_local F \<Longrightarrow> q \<noteq> p \<Longrightarrow> fs_read F (snd (snd (WriteAll F p pos b off s))) q = fs_read F s q"
proof (induction "length b - off" arbitrary: off s rule: less_induct)
  case less
  obtain w s1 where w: "fs_write F s p (pos + off) (drop off b) = (w, s1)" by fastforce
  have "fs_read F s1 q = fs_read F s q" using less.prems w by (metis snd_conv writes_local_def)
  with less w show ?case by (subst WriteAll.simps) auto
qed

lemma WriteAll_true:
  assumes "pack_fs_laws F" "off \<le> length b" "fs_read F s p = Some (c @ take off b)" "pos = length c"
    "WriteAll F p pos b off s = (True, pos', s')"
  shows "pos' = pos + length b \<and> fs_read F s' p = Some (c @ b)"
  using assms(2,3,5)
proof (induction "length b - off" arbitrary: off s rule: less_induct)
  case less
  show ?case
  proof (cases "off < length b")
    case True
    obtain w s1 where w: "fs_write F s p (pos + off) (drop off b) = (w, s1)" by fastforce
    have "0 < w" and rest: "WriteAll F p pos b (off + nat w) s1 = (True, pos', s')"
      using less.prems(3) True w by (subst (asm) WriteAll.simps, simp split: if_splits)+
    moreover have "pos + off \<le> length (c @ take off b)" using assms(4) True by simp
    ultimately have wl: "w \<le> int (length (drop off b))" and
      r1: "fs_read F s1 = (fs_read F s)(p \<mapsto> memcpy (c @ take off b) (pos + off) (take (nat w) (drop off b)))"
      using fs_write_law [OF assms(1) w _ less.prems(2)] by blast+
    have "fs_read F s1 p = Some (c @ take (off + nat w) b)"
      using r1 assms(4) less.prems(1) by (simp add: memcpy_def take_add)
    with less.hyps [of "off + nat w" s1] rest wl \<open>0 < w\<close> True show ?thesis by auto
  next
    case False
    with less.prems(3) have "pos' = pos + off" "s' = s" by (subst (asm) WriteAll.simps, simp)+
    with False less.prems(1,2) show ?thesis by simp
  qed
qed

definition stream_ok :: "'fs file_system \<Rightarrow> VgiCaptureDiskWriter \<Rightarrow> 'fs \<Rightarrow> bool" where
  "stream_ok F w s \<longleftrightarrow> \<not> wfailed w \<and> \<not> wfinalized w \<and> handle w = Some (length (hashed w)) \<and>
     fs_read F s (tmp_path w) = Some (hashed w) \<and> wbytes w = int (length (hashed w))"

text \<open>The fields that do not change while a writer is used, and the bytes of one record of the blob.\<close>

definition same_target :: "VgiCaptureDiskWriter \<Rightarrow> VgiCaptureDiskWriter \<Rightarrow> bool" where
  "same_target w w' \<longleftrightarrow> tmp_path w' = tmp_path w \<and> objects_dir w' = objects_dir w \<and> refs_dir w' = refs_dir w \<and>
     wfp w' = wfp w \<and> wdisk_max w' = wdisk_max w \<and> wcodec w' = wcodec w \<and> wlevel w' = wlevel w"

definition frame :: "VgiCachedBatch \<Rightarrow> string \<Rightarrow> string" where
  "frame cb body = batch_header cb (length body) @ body"

abbreviation append_cb ::
  "'fs file_system \<Rightarrow> VgiCaptureDiskWriter \<Rightarrow> VgiCachedBatch \<Rightarrow> string \<Rightarrow> int \<Rightarrow> 'fs \<Rightarrow> bool \<times> VgiCaptureDiskWriter \<times> 'fs" where
  "append_cb F w cb body n s \<equiv> AppendBatch F w (cb_has_index cb) (cb_index cb) (cb_rows cb) (cb_pv cb) body n s"

lemma same_target_refl [simp]: "same_target w w"
  by (simp add: same_target_def)

lemma same_target_trans: "same_target a b \<Longrightarrow> same_target b c \<Longrightarrow> same_target a c"
  by (simp add: same_target_def)

lemma AppendBatch_local:
  assumes "writes_local F" "AppendBatch F w h i r pv ipc n s = (ok, w', s')" "q \<noteq> tmp_path w"
  shows "fs_read F s' q = fs_read F s q"
  using assms(2) WriteAll_local [OF assms(1,3)]
  by (auto simp: AppendBatch_def Let_def split: option.splits if_splits prod.splits bool.splits) (metis snd_conv)+

lemma AppendBatch_target: "AppendBatch F w h i r pv ipc n s = (ok, w', s') \<Longrightarrow> same_target w w'"
  by (auto simp: AppendBatch_def Let_def same_target_def split: option.splits if_splits prod.splits bool.splits)

lemma AppendBatch_failed: "AppendBatch F w h i r pv ipc n s = (False, w', s') \<Longrightarrow> handle w' = None \<or> wfailed w' \<or> wfinalized w'"
  by (auto simp: AppendBatch_def Let_def split: option.splits if_splits prod.splits bool.splits)

lemma AppendBatch_true:
  assumes "pack_fs_laws F" "stream_ok F w s" "append_cb F w cb body n s = (True, w', s')"
  shows "stream_ok F w' s'" "hashed w' = hashed w @ frame cb body" "wrows w' = wrows w + cb_rows cb"
    "wlogical_bytes w' = wlogical_bytes w + n" "batch_count w' = batch_count w + 1"
    "wdisk_max w \<noteq> 0 \<longrightarrow> wbytes w' \<le> i64_of (wdisk_max w)"
proof -
  let ?h = "batch_header cb (length body)"
  have w: "\<not> wfailed w" "\<not> wfinalized w" "handle w = Some (length (hashed w))" "fs_read F s (tmp_path w) = Some (hashed w)"
    "wbytes w = int (length (hashed w))"
    using assms(2) by (simp_all add: stream_ok_def)
  have fits: "wdisk_max w \<noteq> 0 \<longrightarrow> wbytes w + (int (length ?h) + int (length body)) \<le> i64_of (wdisk_max w)"
    using assms(3) w unfolding AppendBatch_def Let_def batch_header_def [symmetric] by (auto split: if_splits)
  obtain ok1 p1 s1 where a: "WriteAll F (tmp_path w) (length (hashed w)) ?h 0 s = (ok1, p1, s1)" by (metis prod_cases3)
  obtain ok2 p2 s2 where b: "(if body \<noteq> [] then WriteAll F (tmp_path w) p1 body 0 s1 else (True, p1, s1)) = (ok2, p2, s2)"
    by (metis prod_cases3)
  have eq: "ok1" "ok2" "s' = s2" "w' = w\<lparr>hashed := (hashed w @ ?h) @ body, handle := Some p2,
      wbytes := wbytes w + (int (length ?h) + int (length body)), wlogical_bytes := wlogical_bytes w + n,
      wrows := wrows w + cb_rows cb, batch_count := batch_count w + 1\<rparr>"
    using assms(3) w(1-3) fits a b unfolding AppendBatch_def Let_def batch_header_def [symmetric]
    by (auto split: if_splits bool.splits)
  have 1: "p1 = length (hashed w @ ?h)" "fs_read F s1 (tmp_path w) = Some (hashed w @ ?h)"
    using WriteAll_true [OF assms(1), of 0 ?h s "tmp_path w" "hashed w" "length (hashed w)" p1 s1] a eq(1) w(4) by auto
  have 2: "p2 = length ((hashed w @ ?h) @ body)" "fs_read F s2 (tmp_path w) = Some ((hashed w @ ?h) @ body)"
    using WriteAll_true [OF assms(1), of 0 body s1 "tmp_path w" "hashed w @ ?h" p1 p2 s2] b eq(2) 1 by (auto split: if_splits)
  show "stream_ok F w' s'" using w 2 eq by (simp add: stream_ok_def)
  show "hashed w' = hashed w @ frame cb body" using eq by (simp add: frame_def)
  show "wrows w' = wrows w + cb_rows cb" "wlogical_bytes w' = wlogical_bytes w + n" "batch_count w' = batch_count w + 1"
    "wdisk_max w \<noteq> 0 \<longrightarrow> wbytes w' \<le> i64_of (wdisk_max w)"
    using eq fits by simp_all
qed

text \<open>The budget keeps the blob within the range of a signed 64-bit size.\<close>

lemma i64_of_lt: "i64_of w < 2 ^ 63"
  using sint_lt [of w] by (simp add: i64_of_def)

lemma AppendBatch_small:
  assumes "pack_fs_laws F" "stream_ok F w s" "append_cb F w cb body n s = (True, w', s')" "wdisk_max w \<noteq> 0"
  shows "length (hashed w') < 2 ^ 63"
proof -
  note t = AppendBatch_true [OF assms(1-3)]
  have "int (length (hashed w')) < 2 ^ 63" using t(1,6) assms(4) i64_of_lt [of "wdisk_max w"] by (simp add: stream_ok_def)
  then show ?thesis by simp
qed

section \<open>Capturing a result\<close>

definition capture_tmp :: "(string \<Rightarrow> string) \<Rightarrow> string \<Rightarrow> VgiResultCacheKey \<Rightarrow> string \<Rightarrow> string" where
  "capture_tmp sha dir k tsuf = shard_dir sha dir k @ ''/objects/.tmp-'' @ tsuf"

text \<open>The writer of a key: where it writes and under which name it publishes.\<close>

definition writer_of :: "(string \<Rightarrow> string) \<Rightarrow> string \<Rightarrow> VgiResultCacheKey \<Rightarrow> string \<Rightarrow> u64 \<Rightarrow> string \<Rightarrow> u64 \<Rightarrow> VgiCaptureDiskWriter \<Rightarrow> bool" where
  "writer_of sha dir k tsuf disk_max codec level w \<longleftrightarrow> tmp_path w = capture_tmp sha dir k tsuf \<and>
     objects_dir w = shard_dir sha dir k @ ''/objects'' \<and> refs_dir w = shard_dir sha dir k @ ''/refs'' \<and>
     wfp w = Fingerprint sha k \<and> wdisk_max w = disk_max \<and> wcodec w = ResolveDiskCompressionCodec codec \<and> wlevel w = level"

lemma writer_of_same: "same_target w w' \<Longrightarrow> writer_of sha dir k x m c l w' = writer_of sha dir k x m c l w"
  by (simp add: same_target_def writer_of_def)

lemma BeginStreamingCapture_some:
  assumes "pack_fs_laws F" "BeginStreamingCapture F sha k dir disk_max codec level tsuf s = (Some w, s')"
    "fs_read F s (capture_tmp sha dir k tsuf) = None"
  shows "stream_ok F w s'" "writer_of sha dir k tsuf disk_max codec level w" "hashed w = ''VRC1''" "wrows w = 0"
    "wlogical_bytes w = 0" "disk_max \<noteq> 0" "dir \<noteq> []"
proof -
  let ?t = "capture_tmp sha dir k tsuf"
  have t: "(shard_dir sha dir k @ ''/objects'') @ ''/.tmp-'' @ tsuf = ?t" by (simp add: capture_tmp_def)
  obtain s1 where s1: "make_shard F sha dir k s = (True, s1)"
    using assms(2) by (auto simp: BeginStreamingCapture_def Let_def split: if_splits prod.splits bool.splits)
  then obtain s2 where s2: "fs_open F s1 ?t = Some s2"
    using assms(2) unfolding BeginStreamingCapture_def Let_def t by (auto split: if_splits option.splits)
  obtain ok pos s3 where s3: "WriteAll F ?t 0 ''VRC1'' 0 s2 = (ok, pos, s3)" by (metis prod_cases3)
  have eq: "ok" "s' = s3" "w = new_writer\<lparr>handle := Some pos, tmp_path := ?t, objects_dir := shard_dir sha dir k @ ''/objects'',
       refs_dir := shard_dir sha dir k @ ''/refs'', wfp := Fingerprint sha k, wdisk_max := disk_max,
       wcodec := ResolveDiskCompressionCodec codec, wlevel := level, hashed := ''VRC1'', wbytes := 4\<rparr>"
    using assms(2) s1 s2 s3 unfolding BeginStreamingCapture_def Let_def t by (auto split: if_splits bool.splits)
  have "fs_read F s1 = fs_read F s" using mkdirs_frame [OF pack_laws [OF assms(1)]] s1 unfolding make_shard_def by (metis snd_conv)
  then have "fs_read F s2 ?t = Some []" using fs_open_law [OF assms(1) s2] assms(3) by simp
  then have "pos = 4" "fs_read F s3 ?t = Some ''VRC1''"
    using WriteAll_true [OF assms(1), of 0 "''VRC1''" s2 ?t "[]" 0 pos s3] s3 eq(1) by auto
  show "disk_max \<noteq> 0" "dir \<noteq> []" using assms(2) by (auto simp: BeginStreamingCapture_def split: if_splits)
  from \<open>pos = 4\<close> \<open>fs_read F s3 ?t = Some ''VRC1''\<close> eq
  show "stream_ok F w s'" "writer_of sha dir k tsuf disk_max codec level w" "hashed w = ''VRC1''" "wrows w = 0"
    "wlogical_bytes w = 0"
    by (simp_all add: stream_ok_def writer_of_def new_writer_def)
qed

lemma BeginStreamingCapture_local:
  assumes "pack_fs_laws F" "writes_local F" "q \<noteq> capture_tmp sha dir k tsuf"
  shows "fs_read F (snd (BeginStreamingCapture F sha k dir disk_max codec level tsuf s)) q = fs_read F s q"
proof -
  let ?t = "capture_tmp sha dir k tsuf"
  have t: "(shard_dir sha dir k @ ''/objects'') @ ''/.tmp-'' @ tsuf = ?t" by (simp add: capture_tmp_def)
  obtain ok s1 where s1: "make_shard F sha dir k s = (ok, s1)" by fastforce
  then have r1: "fs_read F s1 = fs_read F s" using mkdirs_frame [OF pack_laws [OF assms(1)]] unfolding make_shard_def by (metis snd_conv)
  have r2: "fs_read F s2 q = fs_read F s q" if "fs_open F s1 ?t = Some s2" for s2
    using fs_open_law [OF assms(1) that] assms(3) r1 by simp
  have r3: "fs_read F (snd (snd (WriteAll F ?t 0 b 0 s2))) q = fs_read F s2 q" for b s2
    by (rule WriteAll_local [OF assms(2,3)])
  show ?thesis
    unfolding BeginStreamingCapture_def Let_def t s1 using r1 r2 r3
    by (auto split: option.splits prod.splits bool.splits) (metis snd_conv)+
qed

text \<open>Draining appends one record per buffered batch, in order.\<close>

abbreviation drained :: "VgiCachedBatch list \<Rightarrow> VgiCachedBatch list" where
  "drained cbs \<equiv> filter (\<lambda>cb. cb_ipc cb \<noteq> None) cbs"

lemma drain_batches_false: "drain_batches F recode False cbs w s = (False, w, s)"
  by (induction cbs) (auto split: option.splits)

lemma payload_bytes_transcode:
  "cb_ipc cb = Some ipc \<Longrightarrow> the (TranscodeIpcWithCodec recode (Some ipc) codec level) =
     payload_bytes (TranscodeIpcWithCodec recode) codec level cb"
  by (auto simp: payload_bytes_def TranscodeIpcWithCodec_def split: option.splits)

lemma drain_batches_true:
  assumes "pack_fs_laws F" "stream_ok F w s" "drain_batches F recode True cbs w s = (True, w', s')"
  shows "stream_ok F w' s' \<and> same_target w w' \<and>
    hashed w' = hashed w @ concat (map (\<lambda>cb. frame cb (payload_bytes (TranscodeIpcWithCodec recode) (wcodec w) (wlevel w) cb)) (drained cbs)) \<and>
    wrows w' = wrows w + (\<Sum>cb\<leftarrow>drained cbs. cb_rows cb) \<and>
    wlogical_bytes w' = wlogical_bytes w + (\<Sum>cb\<leftarrow>drained cbs. int (length (the (cb_ipc cb))))"
  using assms(2,3)
proof (induction cbs arbitrary: w s)
  case (Cons cb cbs)
  show ?case
  proof (cases "cb_ipc cb")
    case (Some ipc)
    let ?p = "payload_bytes (TranscodeIpcWithCodec recode) (wcodec w) (wlevel w) cb"
    obtain ok w1 s1 where a: "append_cb F w cb ?p (int (length ipc)) s = (ok, w1, s1)" by (metis prod_cases3)
    have d: "drain_batches F recode ok cbs w1 s1 = (True, w', s')"
      using Cons.prems(2) Some a by (simp add: payload_bytes_transcode)
    then have ok by (cases ok) (auto simp: drain_batches_false)
    note t = AppendBatch_true [OF assms(1) Cons.prems(1) a [unfolded eqTrueI [OF \<open>ok\<close>]]] and st = AppendBatch_target [OF a]
    from Cons.IH [OF t(1)] d \<open>ok\<close> st t(2-4) Some show ?thesis
      by (simp add: same_target_def algebra_simps)
  qed (use Cons in simp)
qed simp

lemma drain_batches_small:
  assumes "pack_fs_laws F" "stream_ok F w s" "drain_batches F recode True cbs w s = (True, w', s')" "wdisk_max w \<noteq> 0"
    "length (hashed w) < 2 ^ 63"
  shows "length (hashed w') < 2 ^ 63"
  using assms(2-5)
proof (induction cbs arbitrary: w s)
  case (Cons cb cbs)
  show ?case
  proof (cases "cb_ipc cb")
    case (Some ipc)
    let ?p = "the (TranscodeIpcWithCodec recode (Some ipc) (wcodec w) (wlevel w))"
    obtain ok w1 s1 where a: "append_cb F w cb ?p (int (length ipc)) s = (ok, w1, s1)" by (metis prod_cases3)
    have d: "drain_batches F recode ok cbs w1 s1 = (True, w', s')" using Cons.prems(2) Some a by simp
    then have ok by (cases ok) (auto simp: drain_batches_false)
    note a' = a [unfolded eqTrueI [OF \<open>ok\<close>]]
    have "wdisk_max w1 \<noteq> 0" using AppendBatch_target [OF a] Cons.prems(3) by (simp add: same_target_def)
    then show ?thesis
      using Cons.IH [OF AppendBatch_true(1) [OF assms(1) Cons.prems(1) a']] d \<open>ok\<close>
        AppendBatch_small [OF assms(1) Cons.prems(1) a' Cons.prems(3)] by simp
  qed (use Cons in simp)
qed simp

lemma drain_batches_target: "drain_batches F recode ok cbs w s = (ok', w', s') \<Longrightarrow> same_target w w'"
proof (induction cbs arbitrary: ok w s)
  case (Cons cb cbs)
  then show ?case
    by (auto split: option.splits if_splits prod.splits dest!: AppendBatch_target simp: Let_def) (meson same_target_trans)
qed simp

lemma drain_batches_local:
  "writes_local F \<Longrightarrow> q \<noteq> tmp_path w \<Longrightarrow> fs_read F (snd (snd (drain_batches F recode ok cbs w s))) q = fs_read F s q"
proof (induction cbs arbitrary: ok w s)
  case (Cons cb cbs)
  show ?case
  proof (cases "cb_ipc cb")
    case (Some ipc)
    obtain ok1 w1 s1 where a: "append_cb F w cb (the (TranscodeIpcWithCodec recode (Some ipc) (wcodec w) (wlevel w))) (int (length ipc)) s = (ok1, w1, s1)"
      by (metis prod_cases3)
    from AppendBatch_local [OF Cons.prems(1) a Cons.prems(2)] AppendBatch_target [OF a] Cons Some a show ?thesis
      by (auto simp: same_target_def)
  qed (use Cons in simp)
qed simp

lemma WriteFileAtomic_true:
  assumes "fs_laws F" "WriteFileAtomic F p b t s = (True, s')"
  shows "fs_read F s' = (fs_read F s)(p \<mapsto> b, p @ ''.tmp-'' @ t := None)"
proof -
  let ?t = "p @ ''.tmp-'' @ t"
  obtain s1 where c: "fs_create F s ?t b = Some s1" "fs_move F s1 ?t p = Some s'"
    using assms(2) by (auto simp: WriteFileAtomic_def Let_def split: option.splits)
  have "?t \<noteq> p" by simp
  then have "fs_read F s' = (fs_read F s1)(p := fs_read F s1 ?t, ?t := None)" "fs_read F s1 = (fs_read F s)(?t \<mapsto> b)"
    using assms(1) c by (simp_all add: fs_laws_def)
  then show ?thesis by (simp add: fun_upd_twist)
qed

lemma capture_tmp_apart:
  assumes "IsHex64 c"
  shows "object_path sha dir k c \<noteq> capture_tmp sha dir k x" "ref_path sha dir k @ y \<noteq> capture_tmp sha dir k x"
    "ref_path sha dir k \<noteq> capture_tmp sha dir k x"
  using IsHex64_chars [OF assms] assms
  by (auto simp: object_path_def capture_tmp_def ref_path_def IsHex64_def append_eq_Cons_conv Cons_eq_append_conv)

text \<open>
  A commit that succeeds publishes exactly the bytes that were appended, under their digest, and a
  ref to them with the rows and the uncompressed size of what was written; the temporary is gone.
\<close>

lemma CommitStreamingCapture_true:
  assumes "pack_fs_laws F" "\<forall>b. IsHex64 (sha b)" "stream_ok F w s" "writer_of sha dir k tsuf disk_max codec level w"
    "CommitStreamingCapture F sha t sync_ok tsuf2 w meta s = (True, w', s')"
    "fs_read F s (object_path sha dir k (sha (hashed w))) \<in> {None, Some (hashed w)}"
  shows "fs_read F s' (object_path sha dir k (sha (hashed w))) = Some (hashed w)"
    "fs_read F s' (ref_path sha dir k) = Some (ref_text (Fingerprint sha k) (sha (hashed w)) (ComputeExpiresUnix t meta)
       (meta\<lparr>erows := wrows w, etotal_bytes := wlogical_bytes w\<rparr>) (ResolveDiskCompressionCodec codec))"
    "fs_read F s' (capture_tmp sha dir k tsuf) = None"
proof -
  let ?obj = "object_path sha dir k (sha (hashed w))" and ?tmp = "capture_tmp sha dir k tsuf" and ?ref = "ref_path sha dir k"
  define rt where "rt = ref_text (Fingerprint sha k) (sha (hashed w)) (ComputeExpiresUnix t meta)
       (meta\<lparr>erows := wrows w, etotal_bytes := wlogical_bytes w\<rparr>) (ResolveDiskCompressionCodec codec)"
  note apart = capture_tmp_apart [OF assms(2) [rule_format, of "hashed w"], of sha dir k]
  have w: "objects_dir w @ ''/'' @ sha (hashed w) @ ''.vrc'' = ?obj" "refs_dir w @ ''/'' @ Fingerprint sha k @ ''.ref'' = ?ref"
    "tmp_path w = ?tmp" "wcodec w = ResolveDiskCompressionCodec codec" "wfp w = Fingerprint sha k"
    using assms(4) by (simp_all add: writer_of_def object_path_def ref_path_def)
  define pub where "pub = (if fs_read F s ?obj \<noteq> None then fs_remove F s ?tmp
    else case fs_move F s ?tmp ?obj of None \<Rightarrow> (False, s) | Some s' \<Rightarrow> (True, s'))"
  obtain ok s1 where s1: "pub = (ok, s1)" by fastforce
  have ok: "ok" "WriteFileAtomic F ?ref rt tsuf2 s1 = (True, s')"
    using assms(5) s1 unfolding CommitStreamingCapture_def Let_def WriteRef_def w pub_def rt_def
    by (auto split: if_splits bool.splits prod.splits)
  have r1: "fs_read F s1 ?obj = Some (hashed w)" "fs_read F s1 ?tmp = None"
  proof -
    have rm: "fs_read F s'' = (fs_read F s)(?tmp := None)" if "fs_remove F s ?tmp = (True, s'')" for s''
      using assms(1) that unfolding pack_fs_laws_def by (metis (full_types))
    have mv: "fs_read F s'' = (fs_read F s)(?obj := fs_read F s ?tmp, ?tmp := None)" if "fs_move F s ?tmp ?obj = Some s''" for s''
      using pack_laws [OF assms(1)] that apart(1) [symmetric] unfolding fs_laws_def by blast
    have "fs_read F s ?tmp = Some (hashed w)" using assms(3) w(3) by (simp add: stream_ok_def)
    with s1 ok(1) rm mv assms(6) apart(1) show "fs_read F s1 ?obj = Some (hashed w)" "fs_read F s1 ?tmp = None"
      by (auto simp: pub_def split: if_splits option.splits)
  qed
  note r2 = WriteFileAtomic_true [OF pack_laws [OF assms(1)] ok(2)]
  show "fs_read F s' ?obj = Some (hashed w)"
    unfolding r2 using r1(1) paths_differ(2) [of sha dir k "sha (hashed w)" "[]"]
      paths_differ(2) [of sha dir k "sha (hashed w)" "''.tmp-'' @ tsuf2"] by simp
  show "fs_read F s' ?ref = Some rt" unfolding r2 by simp
  show "fs_read F s' ?tmp = None" unfolding r2 using r1(2) apart(2,3) [symmetric] by simp
qed

text \<open>Until then nothing but the temporary changes, and an abort removes it.\<close>

lemma AbortStreamingCapture_removes:
  assumes "pack_fs_laws F" "\<not> wfinalized w" "tmp_path w \<noteq> []" "\<forall>s p. fs_read F s p \<noteq> None \<longrightarrow> fst (fs_remove F s p)"
  shows "fs_read F (snd (AbortStreamingCapture F w s)) = (fs_read F s)(tmp_path w := None)"
    "fst (AppendBatch F (fst (AbortStreamingCapture F w s)) h i r pv ipc n s2) = False"
proof -
  have "fs_read F (snd (fs_remove F s (tmp_path w))) = (fs_read F s)(tmp_path w := None)" if "fs_read F s (tmp_path w) \<noteq> None"
    using assms(1,4) that unfolding pack_fs_laws_def by (metis (full_types) prod.collapse)
  with assms(2,3) show "fs_read F (snd (AbortStreamingCapture F w s)) = (fs_read F s)(tmp_path w := None)"
    by (auto simp: AbortStreamingCapture_def fun_upd_idem)
  show "fst (AppendBatch F (fst (AbortStreamingCapture F w s)) h i r pv ipc n s2) = False"
    using assms(2) by (simp add: AbortStreamingCapture_def AppendBatch_def)
qed

text \<open>
  The budget is compared as a signed number, so a budget of two to the power of 63 bytes or more,
  which the other writer takes as unlimited, refuses every batch.
\<close>

lemma huge_budget_refuses:
  assumes "2 ^ 63 \<le> unat (wdisk_max w)" "0 \<le> wbytes w"
  shows "fst (AppendBatch F w h i r pv ipc n s) = False"
proof -
  define u where "u = uint (wdisk_max w)"
  have u: "u = int (unat (wdisk_max w))" by (simp add: u_def)
  have "2 ^ 63 \<le> u" unfolding u using assms(1) by (metis of_nat_le_iff of_nat_numeral of_nat_power)
  moreover have "u < 2 ^ 64" using uint_bounded [of "wdisk_max w"] by (simp add: u_def)
  ultimately have "u div 2 ^ 63 = 1" by (intro int_div_pos_eq [where r = "u - 2 ^ 63"]) simp_all
  then have "i64_of (wdisk_max w) < 0" by (simp add: i64_of_def sint_uint bit_iff_odd u_def [symmetric])
  with assms(2) show ?thesis using assms(1) by (auto simp: AppendBatch_def Let_def split: option.split)
qed

section \<open>The streaming loader\<close>

text \<open>
  \<open>rd n pos\<close> is a positioned read of \<open>n\<close> bytes of the object: \<open>None\<close> where it throws, which it does
  before the start of the file and where the file ends first. Positions are signed; a record whose
  length carries the position past the largest 64-bit number is undefined behaviour.
\<close>

datatype toc_error = ReadFails | PosOverflows

definition pread :: "'fs file_system \<Rightarrow> 'fs \<Rightarrow> string \<Rightarrow> nat \<Rightarrow> int \<Rightarrow> string option" where
  "pread F s path n pos = (if pos < 0 then None else read_at F s path n (nat pos))"

definition read_toc_batch :: "(nat \<Rightarrow> int \<Rightarrow> string option) \<Rightarrow> int \<Rightarrow> toc_error + (VgiCachedBatch \<times> u64 \<times> int)" where
  "read_toc_batch rd pos =
     (case rd 32 pos of
        None \<Rightarrow> Inl ReadFails
      | Some fx \<Rightarrow>
          let has_index = (get_le 8 fx :: u64); batch_index = get_le 8 (drop 8 fx);
              rows = i64_of (get_le 8 (drop 16 fx)); pv_len = (get_le 8 (drop 24 fx) :: u64) in
          case (if pv_len > 0 then rd (unat pv_len) (pos + 32) else Some []) of
            None \<Rightarrow> Inl ReadFails
          | Some pv \<Rightarrow>
              let pos1 = pos + 32 + i64_of pv_len in
              case rd 8 pos1 of
                None \<Rightarrow> Inl ReadFails
              | Some il \<Rightarrow>
                  let ipc_len = (get_le 8 il :: u64); pos2 = pos1 + 8; pos3 = pos2 + i64_of ipc_len in
                  if 2 ^ 63 \<le> pos3 then Inl PosOverflows
                  else Inr (\<lparr>cb_ipc = None, cb_rows = rows, cb_index = batch_index, cb_has_index = (has_index \<noteq> 0), cb_pv = pv,
                         cb_disk_offset = pos2, cb_disk_length = i64_of ipc_len\<rparr>, ipc_len, pos3))"

fun read_toc :: "nat \<Rightarrow> (nat \<Rightarrow> int \<Rightarrow> string option) \<Rightarrow> int \<Rightarrow> int \<Rightarrow> CachedStream \<times> int \<Rightarrow> (toc_error + (CachedStream \<times> int)) option" where
  "read_toc 0 rd file_size pos st = None"
| "read_toc (Suc fuel) rd file_size pos st =
     (if pos < file_size then
        (case read_toc_batch rd pos of
           Inl e \<Rightarrow> Some (Inl e)
         | Inr (cb, ipc_len, pos') \<Rightarrow> read_toc fuel rd file_size pos' (add_batch cb ipc_len st))
      else Some (Inr st))"

definition LoadFromDiskStreaming ::
  "'fs file_system \<Rightarrow> (string \<Rightarrow> string) \<Rightarrow> nat \<Rightarrow> int \<Rightarrow> int \<Rightarrow> VgiResultCacheKey \<Rightarrow> string \<Rightarrow> 'fs \<Rightarrow> load_result option" where
  "LoadFromDiskStreaming F sha fuel now_unix now k dir s =
     (let fp = Fingerprint sha k in
      if dir = [] \<or> fp = [] then Some Missing
      else case ReadFileAll F (ref_path sha dir k) s of
        None \<Rightarrow> Some Missing
      | Some text \<Rightarrow>
          let r = parse_ref text in
          if rf_keyfp r \<noteq> fp \<or> \<not> IsHex64 (rf_content r) then Some Missing
          else if rf_expires r \<noteq> 2 ^ 63 - 1 \<and> now_unix \<ge> rf_expires r then Some Missing
          else
            let blob_path = object_path sha dir k (rf_content r); rd = pread F s blob_path in
            case fs_read F s blob_path of
              None \<Rightarrow> Some Missing
            | Some blob \<Rightarrow>
                if rd 4 0 \<noteq> Some ''VRC1'' then Some Missing
                else case read_toc fuel rd (int (length blob)) 4 (empty_stream, 0) of
                  None \<Rightarrow> None
                | Some (Inl PosOverflows) \<Rightarrow> Some Undefined
                | Some (Inl ReadFails) \<Rightarrow> Some Missing
                | Some (Inr (stream, total_bytes)) \<Rightarrow>
                    Some (Served (expiry_fields (rf_expires r) now_unix now
                      (blank_entry k\<lparr>streams := [stream], etotal_bytes := total_bytes, erows := rf_rows r, escope := rf_scope r,
                         eetag := rf_etag r, elast_modified := rf_last_modified r, catalog_name := rf_catalog r,
                         disk_backed := True, disk_path := blob_path\<rparr>))))"

definition FlushCatalogDisk ::
  "'fs file_system \<Rightarrow> ('fs \<Rightarrow> string \<Rightarrow> bool \<times> 'fs) \<Rightarrow> (string \<Rightarrow> string) \<Rightarrow> string \<Rightarrow> string \<Rightarrow> 'fs \<Rightarrow> 'fs" where
  "FlushCatalogDisk F rmdir sha scope dir s =
     (if dir = [] \<or> scope = [] then s
      else let shard = dir @ ''/'' @ sha scope in
        if fs_dir_exists F s shard then snd (rmdir s shard) else s)"

section \<open>The table of contents\<close>

definition toc_entry :: "nat \<Rightarrow> VgiCachedBatch \<Rightarrow> nat \<Rightarrow> VgiCachedBatch" where
  "toc_entry off cb n = cb\<lparr>cb_ipc := None, cb_disk_offset := int off, cb_disk_length := int n\<rparr>"

fun toc_of :: "nat \<Rightarrow> (VgiCachedBatch \<Rightarrow> string) \<Rightarrow> VgiCachedBatch list \<Rightarrow> VgiCachedBatch list" where
  "toc_of off f [] = []"
| "toc_of off f (cb # cbs) =
     toc_entry (off + 40 + length (cb_pv cb)) cb (length (f cb)) # toc_of (off + length (frame cb (f cb))) f cbs"

text \<open>The bytes a table entry points to.\<close>

definition toc_payload :: "string \<Rightarrow> VgiCachedBatch \<Rightarrow> string" where
  "toc_payload blob cb = take (nat (cb_disk_length cb)) (drop (nat (cb_disk_offset cb)) blob)"

definition bytes_at :: "string \<Rightarrow> nat \<Rightarrow> int \<Rightarrow> string option" where
  "bytes_at b n pos = (if pos < 0 \<or> nat pos + n > length b then None else Some (take n (drop (nat pos) b)))"

lemma pread_bytes_at: "fs_read F s p = Some b \<Longrightarrow> pread F s p = bytes_at b"
  by (auto simp: pread_def read_at_def bytes_at_def fun_eq_iff)

lemma bytes_at_mid: "n = length m \<Longrightarrow> bytes_at (pre @ m @ post) n (int (length pre)) = Some m"
  by (simp add: bytes_at_def)

lemma frame_parts:
  "frame cb body = (put_le 8 ((if cb_has_index cb then 1 else 0) :: u64) @ put_le 8 (cb_index cb) @ put_le 8 (u64_of (cb_rows cb)) @
     put_le 8 (of_nat (length (cb_pv cb)) :: u64)) @ cb_pv cb @ put_le 8 (of_nat (length body) :: u64) @ body"
  by (simp add: frame_def batch_header_def)

lemma length_frame: "length (frame cb body) = 40 + length (cb_pv cb) + length body"
  by (simp add: frame_parts)

lemma read_toc_batch_frame:
  assumes "length (pre @ frame cb body @ post) < 2 ^ 63" "int64 (cb_rows cb)"
  shows "read_toc_batch (bytes_at (pre @ frame cb body @ post)) (int (length pre)) =
    Inr (toc_entry (length pre + 40 + length (cb_pv cb)) cb (length body), of_nat (length body),
      int (length (pre @ frame cb body)))"
proof -
  let ?fx = "put_le 8 ((if cb_has_index cb then 1 else 0) :: u64) @ put_le 8 (cb_index cb) @ put_le 8 (u64_of (cb_rows cb)) @
     put_le 8 (of_nat (length (cb_pv cb)) :: u64)" and ?n = "put_le 8 (of_nat (length body) :: u64)" and ?pv = "cb_pv cb"
  define b where "b = pre @ frame cb body @ post"
  have len: "length pre + 40 + length ?pv + length body + length post < 2 ^ 63" using assms(1) by (simp add: length_frame)
  have r1: "bytes_at b 32 (int (length pre)) = Some ?fx"
    using bytes_at_mid [of 32 ?fx pre "?pv @ ?n @ body @ post"] by (simp add: b_def frame_parts)
  have r2: "bytes_at b (length ?pv) (int (length pre) + 32) = Some ?pv"
    using bytes_at_mid [of "length ?pv" ?pv "pre @ ?fx" "?n @ body @ post"] by (simp add: b_def frame_parts)
  have r3: "bytes_at b 8 (int (length pre) + 32 + int (length ?pv)) = Some ?n"
    using bytes_at_mid [of 8 ?n "pre @ ?fx @ ?pv" "body @ post"] by (simp add: b_def frame_parts add.assoc)
  have w: "unat (of_nat (length ?pv) :: u64) = length ?pv" "i64_of (of_nat (length ?pv)) = int (length ?pv)"
    "i64_of (of_nat (length body)) = int (length body)"
    using len by (simp_all add: i64_of_length)
  have z: "\<not> (of_nat (length ?pv) :: u64) > 0 \<Longrightarrow> ?pv = []" using w(1) by (auto simp: word_gt_0)
  have g: "(get_le 8 ?n :: u64) = of_nat (length body)" using get_put_u64 [of _ "[]"] by simp
  have g4: "(get_le 8 (put_le 8 (of_nat (length ?pv) :: u64)) :: u64) = of_nat (length ?pv)" using get_put_u64 [of _ "[]"] by simp
  have pv: "(if (of_nat (length ?pv) :: u64) > 0 then bytes_at b (length ?pv) (int (length pre) + 32) else Some []) = Some ?pv"
    using r2 z by auto
  have f: "(get_le 8 ?fx :: u64) = (if cb_has_index cb then 1 else 0)" "(get_le 8 (drop 8 ?fx) :: u64) = cb_index cb"
    "i64_of (get_le 8 (drop 16 ?fx)) = cb_rows cb" "(get_le 8 (drop 24 ?fx) :: u64) = of_nat (length ?pv)"
    using assms(2) by (simp_all add: g4)
  have cb: "\<lparr>cb_ipc = None, cb_rows = cb_rows cb, cb_index = cb_index cb, cb_has_index = ((if cb_has_index cb then 1 else 0 :: u64) \<noteq> 0),
      cb_pv = ?pv, cb_disk_offset = x, cb_disk_length = y\<rparr> = cb\<lparr>cb_ipc := None, cb_disk_offset := x, cb_disk_length := y\<rparr>" for x y
    by simp
  show ?thesis
    unfolding b_def [symmetric] read_toc_batch_def r1 option.case Let_def f w pv r3 g cb toc_entry_def using len
    by (simp add: length_frame)
qed

lemma read_toc_frames:
  assumes "length pre + length (concat (map (\<lambda>cb. frame cb (f cb)) cbs)) < 2 ^ 63"
    "\<forall>cb \<in> set cbs. int64 (cb_rows cb)" "length cbs < fuel"
  shows "read_toc fuel (bytes_at (pre @ concat (map (\<lambda>cb. frame cb (f cb)) cbs)))
      (int (length (pre @ concat (map (\<lambda>cb. frame cb (f cb)) cbs)))) (int (length pre)) (s, t) =
    Some (Inr (s\<lparr>batches := batches s @ toc_of (length pre) f cbs, sbytes := sbytes s + (\<Sum>cb\<leftarrow>cbs. int (length (f cb))),
                 srows := srows s + (\<Sum>cb\<leftarrow>cbs. cb_rows cb)\<rparr>, t + (\<Sum>cb\<leftarrow>cbs. int (length (f cb)))))"
  using assms
proof (induction cbs arbitrary: pre s t fuel)
  case Nil
  then show ?case by (cases fuel) simp_all
next
  case (Cons cb cbs)
  define rest where "rest = concat (map (\<lambda>cb. frame cb (f cb)) cbs)"
  define pre' where "pre' = pre @ frame cb (f cb)"
  obtain fuel' where fuel: "fuel = Suc fuel'" using Cons.prems(3) by (cases fuel) auto
  have len: "length (pre @ frame cb (f cb) @ rest) < 2 ^ 63" using Cons.prems(1) by (simp add: rest_def)
  have b: "pre @ concat (map (\<lambda>cb. frame cb (f cb)) (cb # cbs)) = pre @ frame cb (f cb) @ rest"
    "pre @ frame cb (f cb) @ rest = pre' @ rest"
    by (simp_all add: rest_def pre'_def)
  have lt: "int (length pre) < int (length (pre @ frame cb (f cb) @ rest))" by (simp add: length_frame)
  have i: "i64_of (of_nat (length (f cb))) = int (length (f cb))" using len by (intro i64_of_length) (simp add: length_frame)
  have "int64 (cb_rows cb)" using Cons.prems(2) by simp
  note step = read_toc_batch_frame [OF len this, unfolded b(2), folded pre'_def]
  have "read_toc fuel (bytes_at (pre @ frame cb (f cb) @ rest)) (int (length (pre @ frame cb (f cb) @ rest))) (int (length pre)) (s, t) =
    read_toc fuel' (bytes_at (pre' @ rest)) (int (length (pre' @ rest))) (int (length pre'))
      (s\<lparr>srows := srows s + cb_rows cb, sbytes := sbytes s + int (length (f cb)),
         batches := batches s @ [toc_entry (length pre + 40 + length (cb_pv cb)) cb (length (f cb))]\<rparr>, t + int (length (f cb)))"
    unfolding b(2) fuel read_toc.simps if_P [OF lt [unfolded b(2)]] step
    by (simp add: add_batch_def i toc_entry_def)
  also have "\<dots> = Some (Inr (s\<lparr>batches := batches s @ toc_of (length pre) f (cb # cbs),
      sbytes := sbytes s + (\<Sum>cb\<leftarrow>cb # cbs. int (length (f cb))), srows := srows s + (\<Sum>cb\<leftarrow>cb # cbs. cb_rows cb)\<rparr>,
      t + (\<Sum>cb\<leftarrow>cb # cbs. int (length (f cb)))))"
    unfolding rest_def using Cons.IH [of pre' fuel'] Cons.prems fuel by (simp add: pre'_def add.assoc)
  finally show ?case unfolding b(1) .
qed

lemma toc_payloads:
  "map (toc_payload (pre @ concat (map (\<lambda>cb. frame cb (f cb)) cbs))) (toc_of (length pre) f cbs) = map f cbs"
proof (induction cbs arbitrary: pre)
  case (Cons cb cbs)
  define rest where "rest = concat (map (\<lambda>cb. frame cb (f cb)) cbs)"
  have "pre @ frame cb (f cb) @ rest = (pre @ batch_header cb (length (f cb))) @ f cb @ rest" by (simp add: frame_def)
  moreover have "length (pre @ batch_header cb (length (f cb))) = length pre + 40 + length (cb_pv cb)" by (simp add: batch_header_def)
  ultimately have "toc_payload (pre @ frame cb (f cb) @ rest) (toc_entry (length pre + 40 + length (cb_pv cb)) cb (length (f cb))) = f cb"
    by (simp add: toc_payload_def toc_entry_def nat_add_distrib)
  with Cons [of "pre @ frame cb (f cb)"] show ?case by (simp add: rest_def)
qed simp

lemma toc_of_meta:
  "map cb_has_index (toc_of off f cbs) = map cb_has_index cbs" "map cb_index (toc_of off f cbs) = map cb_index cbs"
  "map cb_rows (toc_of off f cbs) = map cb_rows cbs" "map cb_pv (toc_of off f cbs) = map cb_pv cbs"
  by (induction cbs arbitrary: off) (simp_all add: toc_entry_def)

text \<open>
  The two loaders agree on every blob the writers produce: the streaming one serves the entry of the
  other, with each payload replaced by the range of the object that holds it.
\<close>

definition captured_blob :: "(VgiCachedBatch \<Rightarrow> string) \<Rightarrow> VgiCachedBatch list \<Rightarrow> string" where
  "captured_blob f cbs = ''VRC1'' @ concat (map (\<lambda>cb. frame cb (f cb)) cbs)"

lemma SerializeEntryBlob_captured:
  "SerializeEntryBlob transcode e codec level = captured_blob (payload_bytes transcode codec level) (all_batches e)"
  by (simp add: SerializeEntryBlob_flat captured_blob_def frame_def)

definition toc_stream :: "(VgiCachedBatch \<Rightarrow> string) \<Rightarrow> VgiCachedBatch list \<Rightarrow> CachedStream" where
  "toc_stream f cbs = \<lparr>batches = toc_of 4 f cbs, sbytes = (\<Sum>cb\<leftarrow>cbs. int (length (f cb))), srows = (\<Sum>cb\<leftarrow>cbs. cb_rows cb)\<rparr>"

definition full_stream :: "(VgiCachedBatch \<Rightarrow> string) \<Rightarrow> VgiCachedBatch list \<Rightarrow> CachedStream" where
  "full_stream f cbs = \<lparr>batches = map (\<lambda>cb. stored_batch cb (f cb)) cbs, sbytes = (\<Sum>cb\<leftarrow>cbs. int (length (f cb))),
     srows = (\<Sum>cb\<leftarrow>cbs. cb_rows cb)\<rparr>"

lemma ParseEntryBlob_captured:
  assumes "length (captured_blob f cbs) < 2 ^ 63" "\<forall>cb \<in> set cbs. int64 (cb_rows cb)" "length cbs < fuel"
  shows "ParseEntryBlobIntoStream fuel (captured_blob f cbs) = Some (Inr (full_stream f cbs, sbytes (full_stream f cbs)))"
  using read_blob_batches_concat [of "''VRC1''" f cbs fuel empty_stream 0, unfolded VRC1_length] assms
  unfolding captured_blob_def frame_def ParseEntryBlobIntoStream_def full_stream_def by (simp add: empty_stream_def)

lemma read_toc_captured:
  assumes "length (captured_blob f cbs) < 2 ^ 63" "\<forall>cb \<in> set cbs. int64 (cb_rows cb)" "length cbs < fuel"
  shows "read_toc fuel (bytes_at (captured_blob f cbs)) (int (length (captured_blob f cbs))) 4 (empty_stream, 0) =
    Some (Inr (toc_stream f cbs, sbytes (toc_stream f cbs)))"
  using read_toc_frames [of "''VRC1''" f cbs fuel empty_stream 0, unfolded VRC1_length] assms
  unfolding captured_blob_def toc_stream_def by (simp add: empty_stream_def)

text \<open>The entry both loaders build from a ref and a stream.\<close>

definition loaded_entry :: "VgiResultCacheKey \<Rightarrow> ref_fields \<Rightarrow> int \<Rightarrow> int \<Rightarrow> CachedStream \<Rightarrow> VgiResultCacheEntry" where
  "loaded_entry k r now_unix now stream = expiry_fields (rf_expires r) now_unix now
     (blank_entry k\<lparr>streams := [stream], etotal_bytes := sbytes stream, erows := rf_rows r, escope := rf_scope r,
        eetag := rf_etag r, elast_modified := rf_last_modified r, catalog_name := rf_catalog r\<rparr>)"

theorem loaders_agree:
  assumes "dir \<noteq> []" "Fingerprint sha k \<noteq> []"
    and ref: "fs_read F s (ref_path sha dir k) = Some text" "rf_keyfp (parse_ref text) = Fingerprint sha k"
      "IsHex64 (rf_content (parse_ref text))" "rf_expires (parse_ref text) = 2 ^ 63 - 1 \<or> now_unix < rf_expires (parse_ref text)"
    and obj: "fs_read F s (object_path sha dir k (rf_content (parse_ref text))) = Some (captured_blob f cbs)"
      "sha (captured_blob f cbs) = rf_content (parse_ref text)" "length (captured_blob f cbs) < 2 ^ 63"
    and rows: "\<forall>cb \<in> set cbs. int64 (cb_rows cb)" "length cbs < fuel"
  shows "LoadFromDisk F sha fuel now_unix now k dir s =
      Some (Served (loaded_entry k (parse_ref text) now_unix now (full_stream f cbs)))"
    and "LoadFromDiskStreaming F sha fuel now_unix now k dir s =
      Some (Served ((loaded_entry k (parse_ref text) now_unix now (toc_stream f cbs))
        \<lparr>disk_backed := True, disk_path := object_path sha dir k (rf_content (parse_ref text))\<rparr>))"
proof -
  show "LoadFromDisk F sha fuel now_unix now k dir s =
      Some (Served (loaded_entry k (parse_ref text) now_unix now (full_stream f cbs)))"
    using assms ParseEntryBlob_captured [OF obj(3) rows] by (simp add: LoadFromDisk_def Let_def ReadFileAll_def loaded_entry_def not_le)
  have m: "bytes_at (captured_blob f cbs) 4 0 = Some ''VRC1''" by (simp add: bytes_at_def captured_blob_def)
  show "LoadFromDiskStreaming F sha fuel now_unix now k dir s =
      Some (Served ((loaded_entry k (parse_ref text) now_unix now (toc_stream f cbs))
        \<lparr>disk_backed := True, disk_path := object_path sha dir k (rf_content (parse_ref text))\<rparr>))"
    using assms(1-5) unfolding LoadFromDiskStreaming_def Let_def ReadFileAll_def ref(1) obj(1) option.case
      pread_bytes_at [OF obj(1)] m read_toc_captured [OF obj(3) rows]
    using ref(4) by (auto simp: loaded_entry_def expiry_fields_def not_le)
qed

text \<open>
  The streaming loader does not check the digest, and a length is taken as a signed number: in this
  object the only record claims a payload of minus forty bytes, so the next record to read is itself.
  The loader does not return, whatever its fuel.
\<close>

definition looping_blob :: string where
  "looping_blob = ''VRC1'' @ (put_le 8 (0 :: u64) @ put_le 8 (0 :: u64) @ put_le 8 (0 :: u64) @ put_le 8 (0 :: u64)) @
     put_le 8 (- 40 :: u64)"

lemma read_toc_looping: "read_toc fuel (bytes_at looping_blob) 44 4 st = None"
proof (induction fuel arbitrary: st)
  case (Suc fuel)
  let ?fx = "put_le 8 (0 :: u64) @ put_le 8 (0 :: u64) @ put_le 8 (0 :: u64) @ put_le 8 (0 :: u64)" and ?n = "put_le 8 (- 40 :: u64)"
  have fx: "bytes_at looping_blob 32 4 = Some ?fx" and il: "bytes_at looping_blob 8 36 = Some ?n"
    using bytes_at_mid [of 32 ?fx "''VRC1''" ?n] bytes_at_mid [of 8 ?n "''VRC1'' @ ?fx" "[]"]
    by (simp_all add: looping_blob_def)
  have g: "(get_le 8 (put_le 8 v) :: u64) = v" for v :: u64 using get_put_u64 [of v "[]"] by simp
  have d: "(get_le 8 (drop 24 ?fx) :: u64) = 0" by (simp add: g)
  have i: "i64_of (- 40) = - 40" "i64_of 0 = 0" by (simp_all add: i64_of_def)
  obtain cb where "read_toc_batch (bytes_at looping_blob) 4 = Inr (cb, - 40, 4)"
    unfolding read_toc_batch_def fx option.case Let_def d by (simp add: il g i)
  with Suc show ?case by simp
qed simp

definition looping_files :: "string \<rightharpoonup> string" where
  "looping_files = [ref_path constant_digest ''d'' blank_key \<mapsto>
       ref_text (constant_digest []) (constant_digest []) 50 kept_entry ''none'',
     object_path constant_digest ''d'' blank_key (constant_digest []) \<mapsto> looping_blob]"

theorem streaming_load_may_not_end:
  "LoadFromDiskStreaming map_files constant_digest fuel 40 7 blank_key ''d'' looping_files = None"
proof -
  have fp: "Fingerprint constant_digest k = constant_digest []" for k by (simp add: Fingerprint_def constant_digest_def)
  have ol: "one_line (constant_digest [])" by (simp add: one_line_def constant_digest_def)
  have p: "parse_ref (ref_text (constant_digest []) (constant_digest []) 50 kept_entry ''none'') =
    \<lparr>rf_keyfp = constant_digest [], rf_content = constant_digest [], rf_scope = ''catalog'', rf_etag = ''v1'',
     rf_last_modified = [], rf_catalog = [], rf_expires = 50, rf_rows = 0\<rparr>"
    by (subst parse_ref_text) (simp_all add: ol, simp_all add: kept_entry_def blank_entry_def blank_key_def one_line_def)
  have r: "fs_read map_files looping_files (ref_path constant_digest ''d'' blank_key) =
      Some (ref_text (constant_digest []) (constant_digest []) 50 kept_entry ''none'')"
    and o: "fs_read map_files looping_files (object_path constant_digest ''d'' blank_key (constant_digest [])) = Some looping_blob"
    using paths_differ(2) [of constant_digest "''d''" blank_key "constant_digest []" "[]"]
    by (auto simp: looping_files_def map_files_def)
  have ne: "constant_digest [] \<noteq> []" by (simp add: constant_digest_def)
  have m: "bytes_at looping_blob 4 0 = Some ''VRC1''" "length looping_blob = 44" by (simp_all add: bytes_at_def looping_blob_def)
  have ofn: "int 44 = 44" by simp
  show ?thesis
    unfolding LoadFromDiskStreaming_def Let_def ReadFileAll_def fp r option.case p ref_fields.simps o pread_bytes_at [OF o] m ofn read_toc_looping
    using ne constant_digest_hex by simp
qed

section \<open>Flushing one identity\<close>

text \<open>A directory removal touches no file outside the directory, and leaves none inside when it succeeds.\<close>

definition rmdir_law :: "'fs file_system \<Rightarrow> ('fs \<Rightarrow> string \<Rightarrow> bool \<times> 'fs) \<Rightarrow> bool" where
  "rmdir_law F rmdir \<longleftrightarrow>
     (\<forall>s p ok s' q. rmdir s p = (ok, s') \<longrightarrow> \<not> prefix (p @ ''/'') q \<longrightarrow> fs_read F s' q = fs_read F s q) \<and>
     (\<forall>s p s' q. rmdir s p = (True, s') \<longrightarrow> prefix (p @ ''/'') q \<longrightarrow> fs_read F s' q = None)"

lemma rmdir_keeps:
  "rmdir_law F rmdir \<Longrightarrow> rmdir s p = (ok, s') \<Longrightarrow> \<not> prefix (p @ ''/'') q \<Longrightarrow> fs_read F s' q = fs_read F s q"
  unfolding rmdir_law_def by blast

lemma rmdir_removes:
  "rmdir_law F rmdir \<Longrightarrow> rmdir s p = (True, s') \<Longrightarrow> prefix (p @ ''/'') q \<Longrightarrow> fs_read F s' q = None"
  unfolding rmdir_law_def by blast

lemma shard_files_apart:
  assumes "\<forall>b. IsHex64 (sha b)" "sha (identity_scope k) \<noteq> sha scope"
  shows "\<not> prefix ((dir @ ''/'' @ sha scope) @ ''/'') (ref_path sha dir k)"
    "\<not> prefix ((dir @ ''/'' @ sha scope) @ ''/'') (object_path sha dir k c)"
proof -
  have len: "length (sha b) = 64" for b using assms(1) by (simp add: IsHex64_def)
  have "\<not> prefix ((dir @ ''/'' @ sha scope) @ ''/'') (shard_dir sha dir k @ x)" for x
    using assms(2) len [of scope] len [of "identity_scope k"] by (auto simp: shard_dir_def prefix_def)
  then show "\<not> prefix ((dir @ ''/'' @ sha scope) @ ''/'') (ref_path sha dir k)"
    "\<not> prefix ((dir @ ''/'' @ sha scope) @ ''/'') (object_path sha dir k c)"
    unfolding ref_path_def object_path_def by blast+
qed

theorem flush_spares_other_identities:
  assumes "rmdir_law F rmdir" "\<forall>b. IsHex64 (sha b)" "sha (identity_scope k) \<noteq> sha scope"
  shows "LoadFromDisk F sha fuel now_unix now k dir (FlushCatalogDisk F rmdir sha scope dir s) =
      LoadFromDisk F sha fuel now_unix now k dir s"
    and "LoadFromDiskStreaming F sha fuel now_unix now k dir (FlushCatalogDisk F rmdir sha scope dir s) =
      LoadFromDiskStreaming F sha fuel now_unix now k dir s"
proof -
  let ?s = "FlushCatalogDisk F rmdir sha scope dir s"
  note apart = shard_files_apart [OF assms(2,3), of dir]
  have keep: "fs_read F ?s q = fs_read F s q" if "\<not> prefix ((dir @ ''/'' @ sha scope) @ ''/'') q" for q
  proof -
    obtain ok s' where r: "rmdir s (dir @ ''/'' @ sha scope) = (ok, s')" by fastforce
    from rmdir_keeps [OF assms(1) r that] show ?thesis by (simp only: FlushCatalogDisk_def Let_def r snd_conv split: if_split) simp
  qed
  have rd: "fs_read F ?s (ref_path sha dir k) = fs_read F s (ref_path sha dir k)"
    "fs_read F ?s (object_path sha dir k c) = fs_read F s (object_path sha dir k c)"
    "pread F ?s (object_path sha dir k c) = pread F s (object_path sha dir k c)" for c
    using keep apart by (auto simp: pread_def read_at_def fun_eq_iff)
  show "LoadFromDisk F sha fuel now_unix now k dir ?s = LoadFromDisk F sha fuel now_unix now k dir s"
    "LoadFromDiskStreaming F sha fuel now_unix now k dir ?s = LoadFromDiskStreaming F sha fuel now_unix now k dir s"
    unfolding LoadFromDisk_def LoadFromDiskStreaming_def ReadFileAll_def Let_def rd by (rule refl)+
qed

theorem flush_empties_identity:
  assumes "rmdir_law F rmdir" "dir \<noteq> []" "identity_scope k \<noteq> []" "fs_dir_exists F s (shard_dir sha dir k)"
    "fst (rmdir s (shard_dir sha dir k))"
  shows "LoadFromDisk F sha fuel now_unix now k dir (FlushCatalogDisk F rmdir sha (identity_scope k) dir s) = Some Missing"
proof -
  obtain s' where s': "rmdir s (shard_dir sha dir k) = (True, s')" using assms(5) by (metis (full_types) prod.collapse)
  have "FlushCatalogDisk F rmdir sha (identity_scope k) dir s = s'"
    using assms(2-4) s' by (simp add: FlushCatalogDisk_def Let_def shard_dir_def)
  moreover have "prefix (shard_dir sha dir k @ ''/'') (ref_path sha dir k)" by (simp add: ref_path_def)
  then have "fs_read F s' (ref_path sha dir k) = None" by (rule rmdir_removes [OF assms(1) s'])
  ultimately show ?thesis by (simp add: LoadFromDisk_def ReadFileAll_def Let_def)
qed

end
