(* ===== verification/Result_Capture.thy ===== *)
theory Result_Capture
  imports Capture_Stream
begin

text \<open>
  The capture of a scan's result (\<^verbatim>\<open>src/src/vgi_table_function_impl.cpp\<close>): what \<^verbatim>\<open>InstallBatch\<close> does with
  each batch a reader receives, the claiming of splits, and the destructor of the scan's state that
  commits the captured batches or discards them. Readers run concurrently; a step is one access to
  what they share.
\<close>

section \<open>Batches\<close>

text \<open>The IPC format: \<open>ic_encode d codec level\<close> are the bytes of a batch with data \<open>d\<close>.\<close>

record 'd ipc_format =
  ic_encode :: "'d \<Rightarrow> string \<Rightarrow> u64 \<Rightarrow> string"
  ic_decode :: "string \<Rightarrow> 'd option"

definition recode :: "'d ipc_format \<Rightarrow> string \<Rightarrow> string \<Rightarrow> u64 \<Rightarrow> string option" where
  "recode X b codec level = (case ic_decode X b of None \<Rightarrow> None | Some d \<Rightarrow> Some (ic_encode X d codec level))"

text \<open>A batch a reader receives, with the metadata its connection reports for it.\<close>

record 'd arrow_batch =
  ab_data :: 'd
  ab_rows :: int
  ab_size :: int
  ab_index :: "u64 option"
  ab_pv :: string
  ab_cc :: VgiCacheControl

definition cached_batch :: "'d ipc_format \<Rightarrow> 'd arrow_batch \<Rightarrow> VgiCachedBatch" where
  "cached_batch X b = \<lparr>cb_ipc = Some (ic_encode X (ab_data b) ''none'' 1), cb_rows = ab_rows b,
     cb_index = (case ab_index b of None \<Rightarrow> 0 | Some i \<Rightarrow> i), cb_has_index = (ab_index b \<noteq> None), cb_pv = ab_pv b,
     cb_disk_offset = - 1, cb_disk_length = 0\<rparr>"

section \<open>State\<close>

text \<open>
  Where a reader is inside the capture block of \<^verbatim>\<open>InstallBatch\<close>: about to latch the cache control, to
  test it, to set the abort flag because of it, to test for a spill, draining its buffer (the batches
  left, whether the writer took all so far, and the batch to append next), testing the abort flag
  again, appending to the writer, adding to the running size, over the size limit, reserving budget,
  or about to set the abort flag.
\<close>

datatype 'd pc = Idle | Latch "'d arrow_batch" | Decide "'d arrow_batch" | Refuse | Branch "'d arrow_batch"
  | Drain "VgiCachedBatch list" bool "'d arrow_batch option" | Recheck "'d arrow_batch" | SpillAppend "'d arrow_batch"
  | Add "'d arrow_batch" | Over "'d arrow_batch" | Reserve "'d arrow_batch" | GiveUp | Done | Dead

text \<open>\<open>took\<close> and \<open>claims\<close> are histories: the batches received and the splits claimed.\<close>

record 'd reader =
  pc :: "'d pc"
  rest :: "'d arrow_batch list"
  has_split :: bool
  checked_first :: bool
  spilled :: bool
  sub :: CachedStream
  source :: "'d arrow_batch list"
  took :: "'d arrow_batch list"
  claims :: "nat list"

record ('d, 'fs) capture_config =
  c_fs :: "'fs file_system"
  c_sha :: "string \<Rightarrow> string"
  c_ipc :: "'d ipc_format"
  c_key :: VgiResultCacheKey
  c_catalog :: string
  c_transaction_id :: string
  c_max_entry_bytes :: int
  c_default_ttl :: u64
  c_frozen :: bool
  c_disk_dir :: string
  c_disk_max :: u64
  c_codec :: string
  c_level :: u64
  c_split_path :: bool
  c_splits :: "'d arrow_batch list list"

text \<open>\<open>written\<close> is a history too: the reader, the batch and the bytes of each record appended.\<close>

record ('d, 'fs) capture =
  readers :: "'d reader list"
  eos :: nat
  next_split :: nat
  completed_splits :: nat
  cc_seen :: bool
  latched :: VgiCacheControl
  aborted :: bool
  spilling :: bool
  total_bytes :: int
  reserved :: int
  disk_writer :: "VgiCaptureDiskWriter option"
  files :: 'fs
  written :: "(nat \<times> VgiCachedBatch \<times> string) list"

definition new_capture :: "'fs \<Rightarrow> ('d, 'fs) capture" where
  "new_capture s = \<lparr>readers = [], eos = 0, next_split = 0, completed_splits = 0, cc_seen = False, latched = no_cache_control,
     aborted = False, spilling = False, total_bytes = 0, reserved = 0, disk_writer = None, files = s, written = []\<rparr>"

definition new_reader :: "'d arrow_batch list \<Rightarrow> 'd reader" where
  "new_reader src = \<lparr>pc = Idle, rest = src, has_split = False, checked_first = False, spilled = False, sub = empty_stream,
     source = src, took = [], claims = []\<rparr>"

definition NewStream :: "'d arrow_batch list \<Rightarrow> ('d, 'fs) capture \<Rightarrow> ('d, 'fs) capture" where
  "NewStream src S = S\<lparr>readers := readers S @ [new_reader src]\<rparr>"

section \<open>Steps of a reader\<close>

abbreviation put :: "nat \<Rightarrow> 'd reader \<Rightarrow> ('d, 'fs) capture \<Rightarrow> ('d, 'fs) capture" where
  "put t r S \<equiv> S\<lparr>readers := (readers S)[t := r]\<rparr>"

text \<open>A batch arrives: nothing is captured once the abort flag is seen.\<close>

definition begin_install :: "nat \<Rightarrow> 'd reader \<Rightarrow> 'd arrow_batch \<Rightarrow> ('d, 'fs) capture \<Rightarrow> ('d, 'fs) capture" where
  "begin_install t r b S =
     put t (r\<lparr>rest := tl (rest r), took := took r @ [b], pc := (if aborted S then Idle else Latch b)\<rparr>) S"

definition latch :: "nat \<Rightarrow> 'd reader \<Rightarrow> 'd arrow_batch \<Rightarrow> ('d, 'fs) capture \<Rightarrow> ('d, 'fs) capture" where
  "latch t r b S =
     put t (r\<lparr>checked_first := True, pc := Decide b\<rparr>)
       (if \<not> checked_first r \<and> present (ab_cc b) \<and> \<not> cc_seen S then S\<lparr>cc_seen := True, latched := ab_cc b\<rparr> else S)"

text \<open>One record to the writer: what is appended, and where the reader goes when it is taken and when not.\<close>

definition writer_append ::
  "('d, 'fs) capture_config \<Rightarrow> nat \<Rightarrow> 'd reader \<Rightarrow> VgiCachedBatch \<Rightarrow> string \<Rightarrow> int \<Rightarrow> 'd pc \<Rightarrow> 'd pc \<Rightarrow>
   ('d, 'fs) capture \<Rightarrow> ('d, 'fs) capture" where
  "writer_append C t r cb body logical_len taken refused S =
     (case disk_writer S of
        None \<Rightarrow> put t (r\<lparr>pc := Dead\<rparr>) S
      | Some w \<Rightarrow>
          case AppendBatch (c_fs C) w (cb_has_index cb) (cb_index cb) (cb_rows cb) (cb_pv cb) body logical_len (files S) of
            (ok, w', s') \<Rightarrow>
              put t (r\<lparr>pc := (if ok then taken else refused)\<rparr>)
                (S\<lparr>disk_writer := Some w', files := s', written := (if ok then written S @ [(t, cb, body)] else written S)\<rparr>))"

definition drain_step ::
  "('d, 'fs) capture_config \<Rightarrow> nat \<Rightarrow> 'd reader \<Rightarrow> VgiCachedBatch list \<Rightarrow> bool \<Rightarrow> 'd arrow_batch option \<Rightarrow>
   ('d, 'fs) capture \<Rightarrow> ('d, 'fs) capture" where
  "drain_step C t r todo ok nxt S =
     (case todo of
        [] \<Rightarrow> put t (r\<lparr>sub := sub r\<lparr>batches := [], sbytes := 0, srows := 0\<rparr>, spilled := True,
                pc := (case nxt of None \<Rightarrow> Idle | Some b \<Rightarrow> Recheck b)\<rparr>)
                (S\<lparr>aborted := (aborted S \<or> \<not> ok)\<rparr>)
      | cb # cbs \<Rightarrow>
          (case cb_ipc cb of
             Some ipc \<Rightarrow>
               if ok then
                 let w = the (disk_writer S);
                     body = the (TranscodeIpcWithCodec (recode (c_ipc C)) (Some ipc) (wcodec w) (wlevel w)) in
                 writer_append C t r cb body (int (length ipc)) (Drain cbs True nxt) (Drain cbs False nxt) S
               else put t (r\<lparr>pc := Drain cbs ok nxt\<rparr>) S
           | None \<Rightarrow> put t (r\<lparr>pc := Drain cbs ok nxt\<rparr>) S))"

text \<open>Over the memory limit: the first reader there opens the writer, if the disk tier is on.\<close>

definition spill :: "('d, 'fs) capture_config \<Rightarrow> string \<Rightarrow> nat \<Rightarrow> 'd reader \<Rightarrow> 'd arrow_batch \<Rightarrow> ('d, 'fs) capture \<Rightarrow> ('d, 'fs) capture" where
  "spill C tsuf t r b S =
     (let S1 =
        (if c_disk_dir C \<noteq> [] \<and> c_disk_max C > 0 \<and> disk_writer S = None \<and> \<not> aborted S then
           case BeginStreamingCapture (c_fs C) (c_sha C) (c_key C) (c_disk_dir C) (c_disk_max C) (c_codec C) (c_level C) tsuf (files S) of
             (w, s') \<Rightarrow> S\<lparr>disk_writer := w, files := s', spilling := (w \<noteq> None)\<rparr>
         else S) in
      if c_disk_dir C \<noteq> [] \<and> c_disk_max C > 0 \<and> disk_writer S1 \<noteq> None then
        let st = sub r\<lparr>batches := batches (sub r) @ [cached_batch (c_ipc C) b]\<rparr> in
        put t (r\<lparr>sub := st, pc := Drain (batches st) True None\<rparr>) S1
      else put t (r\<lparr>pc := GiveUp\<rparr>) S1)"

definition reserve :: "('d, 'fs) capture_config \<Rightarrow> bool \<Rightarrow> nat \<Rightarrow> 'd reader \<Rightarrow> 'd arrow_batch \<Rightarrow> ('d, 'fs) capture \<Rightarrow> ('d, 'fs) capture" where
  "reserve C granted t r b S =
     (if granted then
        let cb = cached_batch (c_ipc C) b; sz = int (length (the (cb_ipc cb))) in
        put t (r\<lparr>sub := sub r\<lparr>batches := batches (sub r) @ [cb], sbytes := sbytes (sub r) + sz, srows := srows (sub r) + cb_rows cb\<rparr>,
            pc := Idle\<rparr>) (S\<lparr>reserved := reserved S + sz\<rparr>)
      else put t (r\<lparr>pc := GiveUp\<rparr>) S)"

text \<open>
  One step inside the block. \<open>granted\<close> is the answer of \<^verbatim>\<open>TryReserveInflightCapture\<close>, \<open>tsuf\<close> the suffix of
  the temporary file.
\<close>

fun install_step :: "('d, 'fs) capture_config \<Rightarrow> bool \<Rightarrow> string \<Rightarrow> nat \<Rightarrow> 'd reader \<Rightarrow> 'd pc \<Rightarrow> ('d, 'fs) capture \<Rightarrow> ('d, 'fs) capture" where
  "install_step C granted tsuf t r (Latch b) S = latch t r b S"
| "install_step C granted tsuf t r (Decide b) S =
     put t (r\<lparr>pc := (if cc_seen S \<and> \<not> Cacheable (latched S) then Refuse else Branch b)\<rparr>) S"
| "install_step C granted tsuf t r Refuse S = put t (r\<lparr>pc := Idle\<rparr>) (S\<lparr>aborted := True\<rparr>)"
| "install_step C granted tsuf t r (Branch b) S =
     put t (r\<lparr>pc := (if spilling S then (if spilled r then Recheck b else Drain (batches (sub r)) True (Some b)) else Add b)\<rparr>) S"
| "install_step C granted tsuf t r (Drain todo ok nxt) S = drain_step C t r todo ok nxt S"
| "install_step C granted tsuf t r (Recheck b) S = put t (r\<lparr>pc := (if aborted S then Idle else SpillAppend b)\<rparr>) S"
| "install_step C granted tsuf t r (SpillAppend b) S =
     (let w = the (disk_writer S) in
      writer_append C t r (cached_batch (c_ipc C) b) (ic_encode (c_ipc C) (ab_data b) (wcodec w) (wlevel w)) (ab_size b) Idle GiveUp S)"
| "install_step C granted tsuf t r (Add b) S =
     (let running = total_bytes S + int (length (ic_encode (c_ipc C) (ab_data b) ''none'' 1)) in
      put t (r\<lparr>pc := (if running > c_max_entry_bytes C then Over b else Reserve b)\<rparr>) (S\<lparr>total_bytes := running\<rparr>))"
| "install_step C granted tsuf t r (Over b) S = spill C tsuf t r b S"
| "install_step C granted tsuf t r (Reserve b) S = reserve C granted t r b S"
| "install_step C granted tsuf t r GiveUp S = put t (r\<lparr>pc := Idle\<rparr>) (S\<lparr>aborted := True\<rparr>)"
| "install_step C granted tsuf t r Idle S = S"
| "install_step C granted tsuf t r Done S = S"
| "install_step C granted tsuf t r Dead S = S"

text \<open>
  A reader whose stream is at its end: on the split path the split it held is complete and it claims
  the next one; with none left it has reached the end of its work.
\<close>

definition AdvanceToNextSplit :: "('d, 'fs) capture_config \<Rightarrow> nat \<Rightarrow> 'd reader \<Rightarrow> ('d, 'fs) capture \<Rightarrow> ('d, 'fs) capture" where
  "AdvanceToNextSplit C t r S =
     (if c_split_path C then
        let S1 = S\<lparr>completed_splits := completed_splits S + (if has_split r then 1 else 0), next_split := next_split S + 1\<rparr>;
            idx = next_split S in
        if idx < length (c_splits C)
        then put t (r\<lparr>has_split := True, rest := c_splits C ! idx, claims := claims r @ [idx]\<rparr>) S1
        else put t (r\<lparr>has_split := False, pc := Done\<rparr>) (S1\<lparr>eos := eos S + 1\<rparr>)
      else put t (r\<lparr>pc := Done\<rparr>) (S\<lparr>eos := eos S + 1\<rparr>))"

section \<open>Committing\<close>

definition complete :: "('d, 'fs) capture_config \<Rightarrow> ('d, 'fs) capture \<Rightarrow> bool" where
  "complete C S \<longleftrightarrow> cc_seen S \<and> Cacheable (latched S) \<and> \<not> aborted S \<and> readers S \<noteq> [] \<and> eos S = length (readers S) \<and>
     (\<not> c_split_path C \<or> (c_splits C \<noteq> [] \<and> completed_splits S = length (c_splits C)))"

text \<open>
  The entry to store, without its batches: its freshness from the advertised lifetime or the
  setting's, or none where the result must not be stored.
\<close>

definition capture_meta :: "('d, 'fs) capture_config \<Rightarrow> int \<Rightarrow> VgiCacheControl \<Rightarrow> VgiResultCacheEntry option" where
  "capture_meta C now cc =
     (let txn_scoped = TransactionScoped cc;
          ttl0 = (case ttl_seconds cc of Some t \<Rightarrow> t | None \<Rightarrow> i64_of (c_default_ttl C));
          ttl = (if ttl0 > VGI_CACHE_MAX_TTL_SECONDS then VGI_CACHE_MAX_TTL_SECONDS else ttl0);
          e = blank_entry (if txn_scoped then c_key C\<lparr>transaction_id := c_transaction_id C\<rparr> else c_key C)
            \<lparr>catalog_name := c_catalog C, escope := cc_scope cc, eetag := cc_etag cc, elast_modified := cc_last_modified cc,
             erevalidatable := cc_revalidatable cc, stored_at := now,
             eexpires_at := now + (if ttl > 0 then ttl else 0) * 1000000000\<rparr> in
      if txn_scoped \<and> c_transaction_id C = [] then None
      else if ttl \<le> 0 \<and> expires_rfc3339 cc = [] then
        if c_frozen C \<or> at_value (c_key C) \<noteq> [] then Some (e\<lparr>enever_expires := True\<rparr>)
        else if cc_revalidatable cc \<and> cc_etag cc \<noteq> [] then Some e
        else None
      else Some e)"

definition abort_stream :: "('d, 'fs) capture_config \<Rightarrow> ('d, 'fs) capture \<Rightarrow> ('d, 'fs) capture" where
  "abort_stream C S =
     (case disk_writer S of
        None \<Rightarrow> S
      | Some w \<Rightarrow> (case AbortStreamingCapture (c_fs C) w (files S) of (w', s') \<Rightarrow> S\<lparr>disk_writer := Some w', files := s'\<rparr>))"

text \<open>The buffers of the readers that ended before the spill, in the order the readers started.\<close>

fun drain_streams ::
  "('d, 'fs) capture_config \<Rightarrow> CachedStream list \<Rightarrow> VgiCaptureDiskWriter \<Rightarrow> 'fs \<Rightarrow> bool \<times> VgiCaptureDiskWriter \<times> 'fs" where
  "drain_streams C [] w s = (True, w, s)"
| "drain_streams C (st # sts) w s =
     (if batches st = [] then drain_streams C sts w s
      else case DrainSubstreamToWriter (c_fs C) (recode (c_ipc C)) st w s of
        (False, _, w', s') \<Rightarrow> (False, w', s')
      | (True, _, w', s') \<Rightarrow> drain_streams C sts w' s')"

datatype outcome = NotStored | ToDisk bool | ToMemory VgiResultCacheEntry bool

definition commit_spilled ::
  "('d, 'fs) capture_config \<Rightarrow> int \<Rightarrow> bool \<Rightarrow> string \<Rightarrow> VgiResultCacheEntry \<Rightarrow> ('d, 'fs) capture \<Rightarrow> outcome \<times> ('d, 'fs) capture" where
  "commit_spilled C now_unix sync_ok tsuf e S =
     (if (\<not> enever_expires e \<and> eexpires_at e \<le> stored_at e) \<or> TransactionScoped (latched S) then (NotStored, abort_stream C S)
      else case drain_streams C (map sub (readers S)) (the (disk_writer S)) (files S) of
        (False, w, s) \<Rightarrow> (NotStored, abort_stream C (S\<lparr>disk_writer := Some w, files := s\<rparr>))
      | (True, w, s) \<Rightarrow>
          (case CommitStreamingCapture (c_fs C) (c_sha C) now_unix sync_ok tsuf w e s of
             (ok, w', s') \<Rightarrow> (ToDisk ok, S\<lparr>disk_writer := Some w', files := s'\<rparr>)))"

text \<open>
  The destructor of the scan's state. The entry for the memory tier is handed to \<^verbatim>\<open>Insert\<close>, with
  whether it may go to disk.
\<close>

definition destroy_capture ::
  "('d, 'fs) capture_config \<Rightarrow> int \<Rightarrow> int \<Rightarrow> bool \<Rightarrow> string \<Rightarrow> ('d, 'fs) capture \<Rightarrow> outcome \<times> ('d, 'fs) capture" where
  "destroy_capture C now now_unix sync_ok tsuf S0 =
     (let S = S0\<lparr>reserved := 0\<rparr> in
      if \<not> complete C S then (NotStored, abort_stream C S)
      else case capture_meta C now (latched S) of
        None \<Rightarrow> (NotStored, abort_stream C S)
      | Some e \<Rightarrow>
          if spilling S then commit_spilled C now_unix sync_ok tsuf e S
          else
            (ToMemory (e\<lparr>streams := map sub (readers S), erows := (\<Sum>r\<leftarrow>readers S. srows (sub r)),
               etotal_bytes := (\<Sum>r\<leftarrow>readers S. sbytes (sub r))\<rparr>) (\<not> TransactionScoped (latched S)), S))"

section \<open>Entries per partition\<close>

text \<open>
  The additional entries of a result whose batches each hold one value of the partition columns:
  \<open>disc_of\<close> decodes a batch's partition values and gives their discriminator and label, or nothing
  where they cannot be read. The buckets are an ordered map.
\<close>

definition BuildPartitionKey :: "VgiResultCacheKey \<Rightarrow> string \<Rightarrow> string \<Rightarrow> VgiResultCacheKey" where
  "BuildPartitionKey base residual disc =
     base\<lparr>filter_bytes := residual, order_by_hint := [], sample_hint := [], transaction_id := [], input_hash := disc\<rparr>"

record bucket =
  bk_batches :: "VgiCachedBatch list"
  bk_rows :: int
  bk_bytes :: int
  bk_label :: string

definition add_to_bucket :: "string \<Rightarrow> VgiCachedBatch \<Rightarrow> bucket option \<Rightarrow> bucket" where
  "add_to_bucket label b bk =
     (let k = (case bk of None \<Rightarrow> \<lparr>bk_batches = [], bk_rows = 0, bk_bytes = 0, bk_label = []\<rparr> | Some k \<Rightarrow> k) in
      \<lparr>bk_batches = bk_batches k @ [b], bk_rows = bk_rows k + cb_rows b,
       bk_bytes = bk_bytes k + int (case cb_ipc b of None \<Rightarrow> 0 | Some ipc \<Rightarrow> length ipc),
       bk_label = (if bk_batches k = [] then label else bk_label k)\<rparr>)"

fun fill_buckets ::
  "(string \<Rightarrow> (string \<times> string) option) \<Rightarrow> VgiCachedBatch list \<Rightarrow> (string \<times> bucket) list \<Rightarrow> (string \<times> bucket) list option" where
  "fill_buckets disc_of [] m = Some m"
| "fill_buckets disc_of (b # bs) m =
     (case disc_of (cb_pv b) of
        None \<Rightarrow> None
      | Some (disc, label) \<Rightarrow> fill_buckets disc_of bs (map_put disc (add_to_bucket label b (map_of m disc)) m))"

definition partition_entry :: "('d, 'fs) capture_config \<Rightarrow> string \<Rightarrow> VgiResultCacheEntry \<Rightarrow> string \<times> bucket \<Rightarrow> VgiResultCacheEntry" where
  "partition_entry C residual meta kv =
     (case kv of (disc, bk) \<Rightarrow>
        blank_entry (BuildPartitionKey (c_key C) residual disc)
          \<lparr>catalog_name := catalog_name meta, escope := escope meta, stored_at := stored_at meta, eexpires_at := eexpires_at meta,
           enever_expires := enever_expires meta, partition_label := bk_label bk, erows := bk_rows bk, etotal_bytes := bk_bytes bk,
           streams := [\<lparr>batches = bk_batches bk, sbytes = bk_bytes bk, srows = bk_rows bk\<rparr>]\<rparr>)"

definition SplitAndStorePartitionEntries ::
  "('d, 'fs) capture_config \<Rightarrow> (string \<Rightarrow> (string \<times> string) option) \<Rightarrow> string \<Rightarrow> nat \<Rightarrow> VgiResultCacheEntry \<Rightarrow>
   CachedStream list \<Rightarrow> VgiResultCacheEntry list" where
  "SplitAndStorePartitionEntries C disc_of residual partition_max meta sts =
     (case fill_buckets disc_of (concat (map batches sts)) [] of
        None \<Rightarrow> []
      | Some m \<Rightarrow> if length m > partition_max then [] else map (partition_entry C residual meta) m)"

text \<open>
  The destructor stores them before it moves the batches into the whole entry: \<open>requested\<close> is what the
  scan was set up with, \<open>declared\<close> whether it has partition columns.
\<close>

definition commit_partitions ::
  "('d, 'fs) capture_config \<Rightarrow> (string \<Rightarrow> (string \<times> string) option) \<Rightarrow> string \<Rightarrow> nat \<Rightarrow> bool \<Rightarrow> bool \<Rightarrow> VgiResultCacheEntry \<Rightarrow>
   ('d, 'fs) capture \<Rightarrow> VgiResultCacheEntry list" where
  "commit_partitions C disc_of residual partition_max requested declared meta S =
     (if \<not> spilling S \<and> requested \<and> partition_scope (latched S) \<and> \<not> TransactionScoped (latched S) \<and> declared
      then SplitAndStorePartitionEntries C disc_of residual partition_max meta (map sub (readers S)) else [])"

section \<open>Interleavings\<close>

text \<open>
  A reader starts, skips a batch without rows, receives one with rows, takes a step, reaches the end
  of its stream or dies of an exception; a reply that the stored result is unmodified sets the abort flag; other processes use
  the same directories, but not the temporary file, whose name is unused when it is chosen.
\<close>

inductive capture_step :: "('d, 'fs) capture_config \<Rightarrow> ('d, 'fs) capture \<Rightarrow> ('d, 'fs) capture \<Rightarrow> bool" for C where
  start: "(c_split_path C \<longrightarrow> src = []) \<Longrightarrow> capture_step C S (NewStream src S)"
| skip_empty: "t < length (readers S) \<Longrightarrow> pc (readers S ! t) = Idle \<Longrightarrow> rest (readers S ! t) = b # bs \<Longrightarrow> ab_rows b = 0 \<Longrightarrow>
     capture_step C S (put t ((readers S ! t)\<lparr>rest := bs\<rparr>) S)"
| receive: "t < length (readers S) \<Longrightarrow> pc (readers S ! t) = Idle \<Longrightarrow> rest (readers S ! t) = b # bs \<Longrightarrow> ab_rows b \<noteq> 0 \<Longrightarrow>
     capture_step C S (begin_install t (readers S ! t) b S)"
| proceed: "t < length (readers S) \<Longrightarrow> fs_read (c_fs C) (files S) (capture_tmp (c_sha C) (c_disk_dir C) (c_key C) tsuf) = None \<Longrightarrow>
     capture_step C S (install_step C granted tsuf t (readers S ! t) (pc (readers S ! t)) S)"
| end_stream: "t < length (readers S) \<Longrightarrow> pc (readers S ! t) = Idle \<Longrightarrow> rest (readers S ! t) = [] \<Longrightarrow>
     capture_step C S (AdvanceToNextSplit C t (readers S ! t) S)"
| die: "t < length (readers S) \<Longrightarrow> pc (readers S ! t) \<noteq> Done \<Longrightarrow> capture_step C S (put t ((readers S ! t)\<lparr>pc := Dead\<rparr>) S)"
| unmodified: "capture_step C S (S\<lparr>aborted := True\<rparr>)"
| environment: "(\<forall>w. disk_writer S = Some w \<longrightarrow> fs_read (c_fs C) s' (tmp_path w) = fs_read (c_fs C) (files S) (tmp_path w)) \<Longrightarrow>
     capture_step C S (S\<lparr>files := s'\<rparr>)"

inductive captures :: "('d, 'fs) capture_config \<Rightarrow> ('d, 'fs) capture \<Rightarrow> bool" for C where
  begin_capture: "captures C (new_capture s)"
| more: "captures C S \<Longrightarrow> capture_step C S S' \<Longrightarrow> captures C S'"

section \<open>What a capture keeps\<close>

text \<open>
  A capture is doomed when the abort flag is set, when a reader is about to set it, or when a reader
  died: it is never stored. In every other one each batch a reader received is in the records written,
  in the reader's buffer or in its hands, in the order received, and the temporary file holds the
  records written.
\<close>

fun dooms :: "'d pc \<Rightarrow> bool" where
  "dooms Refuse = True" | "dooms GiveUp = True" | "dooms Dead = True" | "dooms (Drain todo ok nxt) = (\<not> ok)"
| "dooms Idle = False" | "dooms (Latch b) = False" | "dooms (Decide b) = False" | "dooms (Branch b) = False"
| "dooms (Recheck b) = False" | "dooms (SpillAppend b) = False" | "dooms (Add b) = False" | "dooms (Over b) = False"
| "dooms (Reserve b) = False" | "dooms Done = False"

definition doomed :: "('d, 'fs) capture \<Rightarrow> bool" where
  "doomed S \<longleftrightarrow> aborted S \<or> (\<exists>r \<in> set (readers S). dooms (pc r))"

fun in_hand :: "'d pc \<Rightarrow> 'd arrow_batch list" where
  "in_hand (Latch b) = [b]" | "in_hand (Decide b) = [b]" | "in_hand (Branch b) = [b]" | "in_hand (Recheck b) = [b]"
| "in_hand (SpillAppend b) = [b]" | "in_hand (Add b) = [b]" | "in_hand (Over b) = [b]" | "in_hand (Reserve b) = [b]"
| "in_hand (Drain todo ok nxt) = (case nxt of None \<Rightarrow> [] | Some b \<Rightarrow> [b])"
| "in_hand Idle = []" | "in_hand Refuse = []" | "in_hand GiveUp = []" | "in_hand Done = []" | "in_hand Dead = []"

definition buffered :: "'d reader \<Rightarrow> VgiCachedBatch list" where
  "buffered r = (case pc r of Drain todo ok nxt \<Rightarrow> todo | _ \<Rightarrow> batches (sub r))"

fun phase_ok :: "'d pc \<Rightarrow> bool \<Rightarrow> bool" where
  "phase_ok (Drain todo ok nxt) s = (\<not> s)" | "phase_ok (Recheck b) s = s" | "phase_ok (SpillAppend b) s = s"
| "phase_ok (Add b) s = (\<not> s)" | "phase_ok (Over b) s = (\<not> s)" | "phase_ok (Reserve b) s = (\<not> s)"
| "phase_ok Idle s = True" | "phase_ok (Latch b) s = True" | "phase_ok (Decide b) s = True" | "phase_ok (Branch b) s = True"
| "phase_ok Refuse s = True" | "phase_ok GiveUp s = True" | "phase_ok Done s = True" | "phase_ok Dead s = True"

definition written_by :: "nat \<Rightarrow> ('d, 'fs) capture \<Rightarrow> VgiCachedBatch list" where
  "written_by t S = map (fst \<circ> snd) (filter (\<lambda>e. fst e = t) (written S))"

definition counts_ok :: "CachedStream \<Rightarrow> bool" where
  "counts_ok st \<longleftrightarrow> srows st = (\<Sum>cb\<leftarrow>batches st. cb_rows cb) \<and> sbytes st = (\<Sum>cb\<leftarrow>batches st. int (length (the (cb_ipc cb))))"

definition reader_ok :: "('d, 'fs) capture_config \<Rightarrow> ('d, 'fs) capture \<Rightarrow> nat \<Rightarrow> 'd reader \<Rightarrow> bool" where
  "reader_ok C S t r \<longleftrightarrow>
     written_by t S @ buffered r @ map (cached_batch (c_ipc C)) (in_hand (pc r)) = map (cached_batch (c_ipc C)) (took r) \<and>
     (spilled r \<longrightarrow> spilling S \<and> batches (sub r) = []) \<and> phase_ok (pc r) (spilled r) \<and>
     (case pc r of Drain todo ok nxt \<Rightarrow> spilling S | _ \<Rightarrow> counts_ok (sub r))"

definition writer_good :: "('d, 'fs) capture_config \<Rightarrow> ('d, 'fs) capture \<Rightarrow> bool" where
  "writer_good C S \<longleftrightarrow>
     (case disk_writer S of
        None \<Rightarrow> \<not> spilling S \<and> written S = []
      | Some w \<Rightarrow> spilling S \<and> stream_ok (c_fs C) w (files S) \<and>
          (\<exists>tsuf. writer_of (c_sha C) (c_disk_dir C) (c_key C) tsuf (c_disk_max C) (c_codec C) (c_level C) w) \<and>
          hashed w = ''VRC1'' @ concat (map (\<lambda>(t, cb, body). frame cb body) (written S)) \<and>
          wrows w = (\<Sum>(t, cb, body)\<leftarrow>written S. cb_rows cb) \<and>
          c_disk_dir C \<noteq> [] \<and> c_disk_max C \<noteq> 0 \<and> length (hashed w) < 2 ^ 63) \<and>
     (\<forall>(t, cb, body) \<in> set (written S). \<exists>b. cb = cached_batch (c_ipc C) b \<and> ic_decode (c_ipc C) body = Some (ab_data b))"

definition good :: "('d, 'fs) capture_config \<Rightarrow> ('d, 'fs) capture \<Rightarrow> bool" where
  "good C S \<longleftrightarrow> writer_good C S \<and> (\<forall>t < length (readers S). reader_ok C S t (readers S ! t))"

definition ipc_law :: "'d ipc_format \<Rightarrow> bool" where
  "ipc_law X \<longleftrightarrow> (\<forall>d codec level. ic_decode X (ic_encode X d codec level) = Some d)"

text \<open>A doomed capture stays doomed.\<close>

lemma dooms_put: "t < length (readers S) \<Longrightarrow> dooms (pc r) \<Longrightarrow> doomed (put t r S)"
  by (auto simp: doomed_def intro!: bexI [of _ r] set_update_memI)

lemma doomed_put:
  assumes "doomed S" "t < length (readers S)" "dooms (pc (readers S ! t)) \<Longrightarrow> dooms (pc r)"
    "aborted S \<longrightarrow> aborted S'" "readers S' = (readers S)[t := r]"
  shows "doomed S'"
proof (cases "aborted S")
  case False
  then obtain u where u: "u < length (readers S)" "dooms (pc (readers S ! u))"
    using assms(1) by (auto simp: doomed_def in_set_conv_nth)
  then have "dooms (pc (readers S' ! u))" using assms(2,3,5) by (cases "u = t") auto
  with u(1) assms(5) show ?thesis unfolding doomed_def by (metis length_list_update nth_mem)
qed (use assms(4) in \<open>simp add: doomed_def\<close>)

lemma drain_step_shape:
  assumes "t < length (readers S)"
  shows "\<exists>r'. readers (drain_step C t r todo ok nxt S) = (readers S)[t := r'] \<and>
    (aborted S \<longrightarrow> aborted (drain_step C t r todo ok nxt S)) \<and>
    (\<not> ok \<longrightarrow> aborted (drain_step C t r todo ok nxt S) \<or> dooms (pc r'))"
  by (auto simp: drain_step_def writer_append_def Let_def split: option.splits list.splits prod.splits)

lemma install_step_shape:
  assumes "t < length (readers S)"
  shows "\<exists>r'. readers (install_step C granted tsuf t (readers S ! t) (pc (readers S ! t)) S) = (readers S)[t := r'] \<and>
    (aborted S \<longrightarrow> aborted (install_step C granted tsuf t (readers S ! t) (pc (readers S ! t)) S)) \<and>
    (dooms (pc (readers S ! t)) \<longrightarrow> aborted (install_step C granted tsuf t (readers S ! t) (pc (readers S ! t)) S) \<or> dooms (pc r'))"
proof (cases "pc (readers S ! t)")
  case (Drain todo ok nxt)
  with drain_step_shape [OF assms] show ?thesis by auto
next
  case (SpillAppend b)
  then show ?thesis by (auto simp: writer_append_def Let_def split: option.splits prod.splits)
next
  case (Over b)
  then show ?thesis by (auto simp: spill_def Let_def split: prod.splits)
qed (use assms in \<open>auto simp: latch_def reserve_def Let_def intro: exI [of _ "readers S ! t"]\<close>)

lemma doomed_install:
  assumes "doomed S" "t < length (readers S)"
  shows "doomed (install_step C granted tsuf t (readers S ! t) (pc (readers S ! t)) S)" (is "doomed ?S'")
proof -
  obtain r' where r': "readers ?S' = (readers S)[t := r']" "aborted S \<longrightarrow> aborted ?S'"
    "dooms (pc (readers S ! t)) \<longrightarrow> aborted ?S' \<or> dooms (pc r')"
    using install_step_shape [OF assms(2)] by blast
  show ?thesis
  proof (cases "aborted ?S'")
    case False
    then show ?thesis using doomed_put [OF assms _ r'(2,1)] r'(3) by blast
  qed (simp add: doomed_def)
qed

lemma AdvanceToNextSplit_shape:
  "\<exists>r'. readers (AdvanceToNextSplit C t r S) = (readers S)[t := r'] \<and>
     aborted (AdvanceToNextSplit C t r S) = aborted S \<and> written (AdvanceToNextSplit C t r S) = written S \<and>
     spilling (AdvanceToNextSplit C t r S) = spilling S \<and> disk_writer (AdvanceToNextSplit C t r S) = disk_writer S \<and>
     files (AdvanceToNextSplit C t r S) = files S \<and> sub r' = sub r \<and> spilled r' = spilled r \<and> took r' = took r \<and>
     (pc r' = pc r \<or> pc r' = Done)"
  by (cases "c_split_path C"; cases "next_split S < length (c_splits C)") (auto simp: AdvanceToNextSplit_def Let_def)

lemma doomed_step:
  assumes "capture_step C S S'" "doomed S"
  shows "doomed S'"
  using assms
proof (cases rule: capture_step.cases)
  case (start src)
  then show ?thesis using assms(2) by (auto simp: doomed_def NewStream_def)
next
  case (skip_empty t b bs)
  then have "readers S' = (readers S)[t := (readers S ! t)\<lparr>rest := bs\<rparr>]" "aborted S' = aborted S" by simp_all
  then show ?thesis using doomed_put [OF assms(2) skip_empty(2)] skip_empty(3) by (metis dooms.simps(5))
next
  case (receive t b bs)
  then have "readers S' = (readers S)[t := (readers S ! t)\<lparr>rest := bs, took := took (readers S ! t) @ [b],
      pc := (if aborted S then Idle else Latch b)\<rparr>]" "aborted S' = aborted S"
    by (simp_all add: begin_install_def)
  then show ?thesis using doomed_put [OF assms(2) receive(2)] receive(3) by (metis dooms.simps(5))
next
  case (proceed t tsuf granted)
  then show ?thesis using doomed_install [OF assms(2)] by simp
next
  case (end_stream t)
  then obtain r where "readers S' = (readers S)[t := r]" "aborted S' = aborted S"
    using AdvanceToNextSplit_shape by metis
  then show ?thesis using doomed_put [OF assms(2) end_stream(2)] end_stream(3) by (metis dooms.simps(5))
next
  case (die t)
  then show ?thesis using dooms_put by fastforce
qed (use assms(2) in \<open>auto simp: doomed_def\<close>)

text \<open>A step of one reader keeps \<open>good\<close> when the reader and the writer are in order after it.\<close>

lemma good_update:
  assumes "good C S" "readers S' = (readers S)[t := r]" "t < length (readers S)"
    "\<And>u. u \<noteq> t \<Longrightarrow> written_by u S' = written_by u S" "spilling S \<longrightarrow> spilling S'"
    "reader_ok C S' t r" "writer_good C S'"
  shows "good C S'"
  unfolding good_def
proof (intro conjI allI impI assms(7))
  fix u assume u: "u < length (readers S')"
  show "reader_ok C S' u (readers S' ! u)"
  proof (cases "u = t")
    case False
    then have "reader_ok C S u (readers S ! u)" using assms(1,2) u by (simp add: good_def)
    then have "reader_ok C S' u (readers S ! u)"
      using assms(4) [OF False] assms(5) by (auto simp: reader_ok_def split: pc.splits)
    then show ?thesis using assms(2) False by simp
  qed (use assms(2,3,6) in simp)
qed

lemma reader_ok_put [simp]: "reader_ok C (S\<lparr>readers := rs\<rparr>) t r = reader_ok C S t r"
  by (simp add: reader_ok_def written_by_def split: pc.split)

lemma writer_good_put [simp]: "writer_good C (S\<lparr>readers := rs\<rparr>) = writer_good C S"
  by (simp add: writer_good_def split: option.split)

lemma written_by_put [simp]: "written_by v (S\<lparr>readers := rs\<rparr>) = written_by v S"
  by (simp add: written_by_def)

lemma good_put: "good C S \<Longrightarrow> t < length (readers S) \<Longrightarrow> reader_ok C S t r \<Longrightarrow> good C (put t r S)"
  by (rule good_update [where t = t and r = r and S = S]) (simp_all add: good_def)

lemma good_reader: "good C S \<Longrightarrow> t < length (readers S) \<Longrightarrow> reader_ok C S t (readers S ! t)"
  by (simp add: good_def)

lemma good_field_update:
  assumes "good C S" "readers S' = readers S" "written S' = written S" "spilling S' = spilling S"
    "disk_writer S' = disk_writer S" "files S' = files S"
  shows "good C S'"
proof -
  have "reader_ok C S' t r = reader_ok C S t r" for t r using assms by (simp add: reader_ok_def written_by_def split: pc.split)
  moreover have "writer_good C S' = writer_good C S" using assms by (simp add: writer_good_def split: option.split)
  ultimately show ?thesis using assms(1,2) by (simp add: good_def)
qed

text \<open>Appending a record: it is the next one the reader owes.\<close>

lemma writer_good_append:
  assumes "pack_fs_laws (c_fs C)" "writer_good C S" "disk_writer S = Some w"
    "append_cb (c_fs C) w cb body n (files S) = (True, w', s')"
    "cb = cached_batch (c_ipc C) b" "ic_decode (c_ipc C) body = Some (ab_data b)"
  shows "writer_good C (S\<lparr>disk_writer := Some w', files := s', written := written S @ [(t, cb, body)]\<rparr>)"
proof -
  have w: "spilling S" "stream_ok (c_fs C) w (files S)" "hashed w = ''VRC1'' @ concat (map (\<lambda>(t, cb, body). frame cb body) (written S))"
    "wrows w = (\<Sum>(t, cb, body)\<leftarrow>written S. cb_rows cb)"
    "\<forall>(t, cb, body) \<in> set (written S). \<exists>b. cb = cached_batch (c_ipc C) b \<and> ic_decode (c_ipc C) body = Some (ab_data b)"
    using assms(2,3) by (simp_all add: writer_good_def)
  obtain tsuf where of_w: "writer_of (c_sha C) (c_disk_dir C) (c_key C) tsuf (c_disk_max C) (c_codec C) (c_level C) w"
    using assms(2,3) by (auto simp: writer_good_def)
  then have of': "writer_of (c_sha C) (c_disk_dir C) (c_key C) tsuf (c_disk_max C) (c_codec C) (c_level C) w'"
    using AppendBatch_target [OF assms(4)] writer_of_same by blast
  have dm: "c_disk_dir C \<noteq> []" "c_disk_max C \<noteq> 0" using assms(2,3) by (simp_all add: writer_good_def)
  note t = AppendBatch_true [OF assms(1) w(2) assms(4)]
  have "wdisk_max w \<noteq> 0" using of_w dm(2) by (simp add: writer_of_def)
  note small = AppendBatch_small [OF assms(1) w(2) assms(4) this]
  show ?thesis using w t(1-3) of' dm small assms(5,6) unfolding writer_good_def by auto
qed

lemma transcoded_decodes:
  "ipc_law X \<Longrightarrow> ic_decode X (the (TranscodeIpcWithCodec (recode X) (Some (ic_encode X d ''none'' 1)) codec level)) = Some d"
  by (simp add: TranscodeIpcWithCodec_def recode_def ipc_law_def)

lemma cached_batch_sel [simp]: "cb_ipc (cached_batch X b) = Some (ic_encode X (ab_data b) ''none'' 1)"
  "cb_rows (cached_batch X b) = ab_rows b"
  by (simp_all add: cached_batch_def)

lemma good_append:
  assumes "pack_fs_laws (c_fs C)" "good C S" "t < length (readers S)" "spilling S"
    "ic_decode (c_ipc C) body = Some (ab_data b)" "\<And>S'. written_by t S' = written_by t S @ [cached_batch (c_ipc C) b] \<Longrightarrow>
       spilling S' \<Longrightarrow> reader_ok C S' t (r\<lparr>pc := taken\<rparr>)" "dooms refused"
  shows "doomed (writer_append C t r (cached_batch (c_ipc C) b) body n taken refused S) \<or>
    good C (writer_append C t r (cached_batch (c_ipc C) b) body n taken refused S)"
proof -
  let ?cb = "cached_batch (c_ipc C) b"
  have wg: "writer_good C S" using assms(2) by (simp add: good_def)
  then obtain w where w: "disk_writer S = Some w" using assms(4) by (cases "disk_writer S") (auto simp: writer_good_def)
  obtain ok w' s' where a: "append_cb (c_fs C) w ?cb body n (files S) = (ok, w', s')" by (metis prod_cases3)
  show ?thesis
  proof (cases ok)
    case True
    define S1 where "S1 = S\<lparr>disk_writer := Some w', files := s', written := written S @ [(t, ?cb, body)]\<rparr>"
    have "writer_good C S1" using writer_good_append [OF assms(1) wg w] a True assms(5) by (simp add: S1_def)
    moreover have "written_by t S1 = written_by t S @ [?cb]" "\<And>u. u \<noteq> t \<Longrightarrow> written_by u S1 = written_by u S"
      "spilling S1" "readers S1 = readers S"
      using assms(4) by (simp_all add: S1_def written_by_def)
    ultimately have "good C (put t (r\<lparr>pc := taken\<rparr>) S1)"
      using assms(3,4,6) by (intro good_update [OF assms(2)]) simp_all
    then show ?thesis using w a True by (simp add: writer_append_def S1_def)
  next
    case False
    then show ?thesis
      using w a dooms_put [of t "S\<lparr>disk_writer := Some w', files := s'\<rparr>" "r\<lparr>pc := refused\<rparr>"] assms(3,7)
      by (simp add: writer_append_def)
  qed
qed

text \<open>\<open>owes\<close>: what is left to write down of what the reader received.\<close>

lemma reader_ok_cb:
  assumes "reader_ok C S t r" "cb \<in> set (buffered r)"
  obtains b where "cb = cached_batch (c_ipc C) b"
proof -
  have "cb \<in> set (map (cached_batch (c_ipc C)) (took r))"
    using assms unfolding reader_ok_def by (metis Un_iff set_append)
  with that show ?thesis by auto
qed

lemma good_drain:
  assumes "pack_fs_laws (c_fs C)" "ipc_law (c_ipc C)" "good C S" "t < length (readers S)" "r = readers S ! t" "pc r = Drain todo True nxt"
  shows "doomed (drain_step C t r todo True nxt S) \<or> good C (drain_step C t r todo True nxt S)"
proof -
  have r: "reader_ok C S t r" using good_reader [OF assms(3,4)] assms(5) by simp
  then have sp: "spilling S" "\<not> spilled r"
    "written_by t S @ todo @ map (cached_batch (c_ipc C)) (in_hand (pc r)) = map (cached_batch (c_ipc C)) (took r)"
    using assms(6) by (simp_all add: reader_ok_def buffered_def)
  show ?thesis
  proof (cases todo)
    case Nil
    let ?r = "r\<lparr>sub := sub r\<lparr>batches := [], sbytes := 0, srows := 0\<rparr>, spilled := True,
      pc := (case nxt of None \<Rightarrow> Idle | Some b \<Rightarrow> Recheck b)\<rparr>"
    have "reader_ok C S t ?r"
      using sp assms(6) Nil by (cases nxt) (simp_all add: reader_ok_def buffered_def counts_ok_def)
    then have "good C (put t ?r S)" by (rule good_put [OF assms(3,4)])
    then show ?thesis using Nil good_field_update [of C "put t ?r S" "drain_step C t r todo True nxt S"] by (simp add: drain_step_def)
  next
    case (Cons cb cbs)
    then have "cb \<in> set (buffered r)" using assms(6) by (simp add: buffered_def)
    then obtain b where b: "cb = cached_batch (c_ipc C) b" using reader_ok_cb [OF r] by blast
    let ?w = "the (disk_writer S)"
    let ?body = "the (TranscodeIpcWithCodec (recode (c_ipc C)) (Some (ic_encode (c_ipc C) (ab_data b) ''none'' 1)) (wcodec ?w) (wlevel ?w))"
    have "reader_ok C S' t (r\<lparr>pc := Drain cbs True nxt\<rparr>)"
      if "written_by t S' = written_by t S @ [cached_batch (c_ipc C) b]" "spilling S'" for S'
      using that sp r assms(6) Cons b by (simp add: reader_ok_def buffered_def)
    then show ?thesis
      using good_append [OF assms(1,3,4) sp(1) transcoded_decodes [OF assms(2)], where r = r and taken = "Drain cbs True nxt"
          and refused = "Drain cbs False nxt"] Cons b
      by (simp add: drain_step_def Let_def)
  qed
qed

lemma good_spill:
  assumes "pack_fs_laws (c_fs C)" "good C S" "t < length (readers S)" "r = readers S ! t" "pc r = Over b"
    "fs_read (c_fs C) (files S) (capture_tmp (c_sha C) (c_disk_dir C) (c_key C) tsuf) = None"
  shows "doomed (spill C tsuf t r b S) \<or> good C (spill C tsuf t r b S)"
proof -
  have r: "reader_ok C S t r" using good_reader [OF assms(2,3)] assms(4) by simp
  have wg: "writer_good C S" using assms(2) by (simp add: good_def)
  let ?on = "c_disk_dir C \<noteq> [] \<and> c_disk_max C > 0"
  let ?st = "sub r\<lparr>batches := batches (sub r) @ [cached_batch (c_ipc C) b]\<rparr>"
  let ?r = "r\<lparr>sub := ?st, pc := Drain (batches ?st) True None\<rparr>"
  define S1 where "S1 = (if c_disk_dir C \<noteq> [] \<and> c_disk_max C > 0 \<and> disk_writer S = None \<and> \<not> aborted S then
           case BeginStreamingCapture (c_fs C) (c_sha C) (c_key C) (c_disk_dir C) (c_disk_max C) (c_codec C) (c_level C) tsuf (files S) of
             (w, s') \<Rightarrow> S\<lparr>disk_writer := w, files := s', spilling := (w \<noteq> None)\<rparr>
         else S)"
  have same: "readers S1 = readers S" "written S1 = written S" by (simp_all add: S1_def split: prod.split)
  have sp: "spill C tsuf t r b S = (if ?on \<and> disk_writer S1 \<noteq> None then put t ?r S1 else put t (r\<lparr>pc := GiveUp\<rparr>) S1)"
    by (simp only: spill_def Let_def S1_def [symmetric]) simp
  show ?thesis
  proof (cases "?on \<and> disk_writer S1 \<noteq> None")
    case False
    then have "spill C tsuf t r b S = put t (r\<lparr>pc := GiveUp\<rparr>) S1" using sp by presburger
    then show ?thesis using dooms_put [of t S1 "r\<lparr>pc := GiveUp\<rparr>"] assms(3) same(1) by simp
  next
    case True
    have wg1: "writer_good C S1 \<and> spilling S1"
    proof (cases "disk_writer S = None \<and> \<not> aborted S")
      case fresh: True
      obtain w s' where B: "BeginStreamingCapture (c_fs C) (c_sha C) (c_key C) (c_disk_dir C) (c_disk_max C) (c_codec C) (c_level C) tsuf (files S) = (w, s')"
        by fastforce
      with True fresh obtain w0 where w0: "w = Some w0" "S1 = S\<lparr>disk_writer := Some w0, files := s', spilling := True\<rparr>"
        by (auto simp: S1_def)
      note bs = BeginStreamingCapture_some [OF assms(1) B [unfolded w0(1)] assms(6)]
      have "written S = []" using wg fresh by (simp add: writer_good_def)
      then show ?thesis using bs w0(2) by (auto simp: writer_good_def)
    next
      case False
      then have "S1 = S" by (auto simp: S1_def)
      then show ?thesis using wg True by (auto simp: writer_good_def)
    qed
    have "reader_ok C S1 t ?r"
      using r assms(5) wg1 same(2) by (simp add: reader_ok_def buffered_def written_by_def)
    then have "good C (put t ?r S1)"
      using wg1 same assms(2,3) by (intro good_update [OF assms(2)]) (simp_all add: written_by_def)
    moreover have "spill C tsuf t r b S = put t ?r S1" using sp True by presburger
    ultimately show ?thesis by simp
  qed
qed

lemma good_install:
  assumes "pack_fs_laws (c_fs C)" "ipc_law (c_ipc C)" "good C S" "t < length (readers S)" "\<not> doomed S"
    "fs_read (c_fs C) (files S) (capture_tmp (c_sha C) (c_disk_dir C) (c_key C) tsuf) = None"
  defines "r \<equiv> readers S ! t"
  shows "doomed (install_step C granted tsuf t r (pc r) S) \<or> good C (install_step C granted tsuf t r (pc r) S)"
proof -
  have r: "reader_ok C S t r" using good_reader [OF assms(3,4)] by (simp add: r_def)
  have nd: "\<not> dooms (pc r)" "\<not> aborted S" using assms(4,5) by (auto simp: doomed_def r_def)
  note put = good_put [OF assms(3,4)]
  show ?thesis
  proof (cases "pc r")
    case (Latch b)
    have "good C (put t (r\<lparr>checked_first := True, pc := Decide b\<rparr>) S)"
      using r Latch by (intro put) (simp add: reader_ok_def buffered_def)
    then have "good C (latch t r b S)" by (rule good_field_update) (simp_all add: latch_def)
    then show ?thesis using Latch by simp
  next
    case (Decide b)
    have "doomed (put t (r\<lparr>pc := Refuse\<rparr>) S)" using assms(4) by (intro dooms_put) simp_all
    moreover have "good C (put t (r\<lparr>pc := Branch b\<rparr>) S)" using r Decide by (intro put) (simp add: reader_ok_def buffered_def)
    ultimately show ?thesis using Decide by simp
  next
    case (Branch b)
    have "reader_ok C S t (r\<lparr>pc := (if spilling S then (if spilled r then Recheck b else Drain (batches (sub r)) True (Some b)) else Add b)\<rparr>)"
      using r Branch by (auto simp: reader_ok_def buffered_def)
    then show ?thesis using Branch put by simp
  next
    case (Drain todo ok nxt)
    then show ?thesis using good_drain [OF assms(1-4) r_def [THEN meta_eq_to_obj_eq]] nd(1) by simp
  next
    case (Recheck b)
    then show ?thesis using r nd(2) put [of "r\<lparr>pc := SpillAppend b\<rparr>"] by (auto simp: reader_ok_def buffered_def)
  next
    case (SpillAppend b)
    have sp: "spilled r" "spilling S" "batches (sub r) = []" using r SpillAppend by (auto simp: reader_ok_def)
    have "reader_ok C S' t (r\<lparr>pc := Idle\<rparr>)" if "written_by t S' = written_by t S @ [cached_batch (c_ipc C) b]" "spilling S'" for S'
      using that r SpillAppend sp by (simp add: reader_ok_def buffered_def)
    moreover note sp(2)
    ultimately show ?thesis
      using SpillAppend good_append [OF assms(1,3,4), where r = r and taken = Idle and refused = GiveUp] assms(2)
      by (simp add: ipc_law_def Let_def)
  next
    case (Add b)
    let ?p = "if total_bytes S + int (length (ic_encode (c_ipc C) (ab_data b) ''none'' 1)) > c_max_entry_bytes C then Over b else Reserve b"
    have "reader_ok C S t (r\<lparr>pc := ?p\<rparr>)" using r Add by (auto simp: reader_ok_def buffered_def)
    then have "good C (put t (r\<lparr>pc := ?p\<rparr>) S)" by (rule put)
    then have "good C (install_step C granted tsuf t r (Add b) S)" by (rule good_field_update) (simp_all add: Let_def)
    then show ?thesis using Add by simp
  next
    case (Over b)
    then show ?thesis using good_spill [OF assms(1,3,4) r_def [THEN meta_eq_to_obj_eq] Over assms(6)] by simp
  next
    case (Reserve b)
    let ?cb = "cached_batch (c_ipc C) b"
    let ?st = "sub r\<lparr>batches := batches (sub r) @ [?cb], sbytes := sbytes (sub r) + int (length (the (cb_ipc ?cb))),
       srows := srows (sub r) + cb_rows ?cb\<rparr>"
    have "reader_ok C S t (r\<lparr>sub := ?st, pc := Idle\<rparr>)"
      using r Reserve by (simp add: reader_ok_def buffered_def counts_ok_def)
    then have "good C (put t (r\<lparr>sub := ?st, pc := Idle\<rparr>) S)" by (rule put)
    then have "good C (reserve C True t r b S)" by (rule good_field_update) (simp_all add: reserve_def Let_def)
    moreover have "doomed (reserve C False t r b S)" using assms(4) by (simp add: reserve_def dooms_put)
    ultimately show ?thesis using Reserve by (cases granted) auto
  qed (use nd assms(3) in simp_all)
qed

section \<open>The tally of a scan\<close>

text \<open>What a list of batches amounts to for a scan, which skips those without rows.\<close>

abbreviation with_rows :: "'d arrow_batch list \<Rightarrow> 'd arrow_batch list" where
  "with_rows \<equiv> filter (\<lambda>b. ab_rows b \<noteq> 0)"

text \<open>
  What holds of every capture, doomed or not: the counters count readers at their end and splits
  read to theirs, each split is claimed once, and what a reader received is the beginning of what
  its stream and its splits hold, the batches without rows left out.
\<close>

definition reader_tally :: "('d, 'fs) capture_config \<Rightarrow> 'd reader \<Rightarrow> bool" where
  "reader_tally C r \<longleftrightarrow> took r @ with_rows (rest r) = with_rows (source r @ concat (map (\<lambda>i. c_splits C ! i) (claims r))) \<and>
     (pc r = Done \<longrightarrow> rest r = [] \<and> \<not> has_split r) \<and> (if c_split_path C then source r = [] else claims r = []) \<and>
     (has_split r \<longrightarrow> claims r \<noteq> [])"

definition drained_splits :: "'d reader \<Rightarrow> nat" where
  "drained_splits r = length (claims r) - (if has_split r then 1 else 0)"

definition tally :: "('d, 'fs) capture_config \<Rightarrow> ('d, 'fs) capture \<Rightarrow> bool" where
  "tally C S \<longleftrightarrow> (\<forall>r \<in> set (readers S). reader_tally C r) \<and>
     eos S = (\<Sum>r\<leftarrow>readers S. of_bool (pc r = Done)) \<and> completed_splits S = (\<Sum>r\<leftarrow>readers S. drained_splits r) \<and>
     (\<Sum>r\<leftarrow>readers S. mset (claims r)) = mset [0..<min (next_split S) (length (c_splits C))] \<and>
     (\<forall>e \<in> set (written S). fst e < length (readers S))"

text \<open>A step that keeps a reader's stream and splits, and a change of one summand.\<close>

definition same_stream :: "'d reader \<Rightarrow> 'd reader \<Rightarrow> bool" where
  "same_stream r r' \<longleftrightarrow> took r' = took r \<and> rest r' = rest r \<and> source r' = source r \<and> claims r' = claims r \<and>
     has_split r' = has_split r \<and> (pc r' = Done \<longleftrightarrow> pc r = Done)"

lemma sum_list_update_add:
  fixes f :: "'a \<Rightarrow> 'b :: comm_monoid_add"
  shows "t < length rs \<Longrightarrow> (\<Sum>r\<leftarrow>rs[t := x]. f r) + f (rs ! t) = (\<Sum>r\<leftarrow>rs. f r) + f x"
proof (induction rs arbitrary: t)
  case (Cons r rs)
  then show ?case
  proof (cases t)
    case (Suc u)
    then have "(\<Sum>r\<leftarrow>rs[u := x]. f r) + f (rs ! u) = (\<Sum>r\<leftarrow>rs. f r) + f x" using Cons by simp
    with Suc show ?thesis by (simp add: add.assoc)
  qed (simp add: ac_simps)
qed simp

lemma sum_list_update_same:
  "t < length rs \<Longrightarrow> f x = f (rs ! t) \<Longrightarrow> (\<Sum>r\<leftarrow>rs[t := x]. f r) = (\<Sum>r\<leftarrow>rs. f r)"
  by (metis list_update_id map_update nth_map)

lemma tally_same:
  assumes "tally C S" "t < length (readers S)" "readers S' = (readers S)[t := r']" "same_stream (readers S ! t) r'"
    "eos S' = eos S" "completed_splits S' = completed_splits S" "next_split S' = next_split S"
    "set (written S') \<subseteq> set (written S) \<union> {e. fst e = t}"
  shows "tally C S'"
proof -
  let ?r = "readers S ! t"
  have "reader_tally C ?r" using assms(1,2) by (simp add: tally_def)
  then have "reader_tally C r'" using assms(4) by (simp add: reader_tally_def same_stream_def)
  then have "\<forall>r \<in> set (readers S'). reader_tally C r"
    using assms(1,3) by (auto simp: tally_def dest!: set_update_subset_insert [THEN subsetD])
  moreover have "of_bool (pc r' = Done) = (of_bool (pc ?r = Done) :: nat)" "drained_splits r' = drained_splits ?r" "claims r' = claims ?r"
    using assms(4) by (simp_all add: same_stream_def drained_splits_def)
  then have "(\<Sum>r\<leftarrow>readers S'. of_bool (pc r = Done) :: nat) = (\<Sum>r\<leftarrow>readers S. of_bool (pc r = Done))"
    "(\<Sum>r\<leftarrow>readers S'. drained_splits r) = (\<Sum>r\<leftarrow>readers S. drained_splits r)"
    "(\<Sum>r\<leftarrow>readers S'. mset (claims r)) = (\<Sum>r\<leftarrow>readers S. mset (claims r))"
    unfolding assms(3) using assms(2) by (auto intro!: sum_list_update_same)
  moreover have "\<forall>e \<in> set (written S'). fst e < length (readers S')"
    using assms(1,2,3,8) by (auto simp: tally_def)
  ultimately show ?thesis using assms(1,5-7) by (simp add: tally_def)
qed

lemma install_step_stream:
  assumes "t < length (readers S)" "S' = install_step C granted tsuf t (readers S ! t) (pc (readers S ! t)) S"
  shows "\<exists>r'. readers S' = (readers S)[t := r'] \<and> same_stream (readers S ! t) r' \<and> eos S' = eos S \<and>
    completed_splits S' = completed_splits S \<and> next_split S' = next_split S \<and> set (written S') \<subseteq> set (written S) \<union> {e. fst e = t}"
proof (cases "pc (readers S ! t)")
  case (Drain todo ok nxt)
  then show ?thesis unfolding assms(2)
    by (auto simp: drain_step_def writer_append_def Let_def same_stream_def split: option.splits list.splits prod.splits)
next
  case (SpillAppend b)
  then show ?thesis unfolding assms(2)
    by (auto simp: writer_append_def Let_def same_stream_def split: option.splits prod.splits)
next
  case (Over b)
  then show ?thesis unfolding assms(2) by (auto simp: spill_def Let_def same_stream_def split: prod.splits)
qed (use assms(1) in \<open>auto simp: assms(2) latch_def reserve_def Let_def same_stream_def intro: exI [of _ "readers S ! t"]\<close>)

lemma min_Suc_upt: "n < m \<Longrightarrow> mset [0..<min (Suc n) m] = add_mset n (mset [0..<min n m])"
  by (simp add: min_def)

lemma tally_advance:
  assumes "tally C S" "t < length (readers S)" "pc (readers S ! t) = Idle" "rest (readers S ! t) = []"
  shows "tally C (AdvanceToNextSplit C t (readers S ! t) S)" (is "tally C ?S'")
proof -
  let ?r = "readers S ! t" and ?n = "length (c_splits C)"
  define claim where "claim \<longleftrightarrow> c_split_path C \<and> next_split S < ?n"
  define r' where "r' = (if claim then ?r\<lparr>has_split := True, rest := c_splits C ! next_split S, claims := claims ?r @ [next_split S]\<rparr>
    else ?r\<lparr>has_split := (has_split ?r \<and> \<not> c_split_path C), pc := Done\<rparr>)"
  have S': "readers ?S' = (readers S)[t := r']" "written ?S' = written S"
    "eos ?S' = eos S + (if claim then 0 else 1)"
    "completed_splits ?S' = completed_splits S + of_bool (c_split_path C \<and> has_split ?r)"
    "next_split ?S' = next_split S + of_bool (c_split_path C)"
    by (auto simp: AdvanceToNextSplit_def Let_def r'_def claim_def)
  have rt: "reader_tally C ?r" using assms(1,2) by (simp add: tally_def)
  then have "reader_tally C r'" using assms(3,4) by (auto simp: reader_tally_def r'_def claim_def split: if_splits)
  then have all: "\<forall>r \<in> set (readers ?S'). reader_tally C r"
    using assms(1) S'(1) by (auto simp: tally_def dest!: set_update_subset_insert [THEN subsetD])
  have e: "(\<Sum>r\<leftarrow>readers ?S'. of_bool (pc r = Done)) = eos ?S'"
    using sum_list_update_add [OF assms(2), of "\<lambda>r. of_bool (pc r = Done) :: nat" r'] assms(1,3)
    by (simp add: tally_def S' r'_def split: if_splits)
  have c: "(\<Sum>r\<leftarrow>readers ?S'. drained_splits r) = completed_splits ?S'"
  proof -
    have "drained_splits r' = drained_splits ?r + of_bool (c_split_path C \<and> has_split ?r)"
      using rt by (cases "claims ?r") (auto simp: r'_def drained_splits_def claim_def reader_tally_def split: if_splits)
    then show ?thesis using sum_list_update_add [OF assms(2), of drained_splits r'] assms(1) by (simp add: tally_def S')
  qed
  have "(\<Sum>r\<leftarrow>readers ?S'. mset (claims r)) + mset (claims ?r) = (\<Sum>r\<leftarrow>readers S. mset (claims r)) + mset (claims r')"
    using sum_list_update_add [OF assms(2), of "\<lambda>r. mset (claims r)" r'] S'(1) by simp
  then have m: "(\<Sum>r\<leftarrow>readers ?S'. mset (claims r)) = mset [0..<min (next_split ?S') ?n]"
    using assms(1) min_Suc_upt [of "next_split S" ?n] by (auto simp: tally_def S' r'_def claim_def min_def simp del: mset_upt split: if_splits)
  show ?thesis using all e c m assms(1) S'(1,2) by (simp add: tally_def)
qed

lemma tally_receive:
  assumes "tally C S" "t < length (readers S)" "pc (readers S ! t) = Idle" "rest (readers S ! t) = b # bs" "ab_rows b \<noteq> 0"
  shows "tally C (begin_install t (readers S ! t) b S)" (is "tally C ?S'")
proof -
  let ?r = "readers S ! t"
  define r' where "r' = ?r\<lparr>rest := bs, took := took ?r @ [b], pc := (if aborted S then Idle else Latch b)\<rparr>"
  have S': "readers ?S' = (readers S)[t := r']" using assms(4) by (simp add: begin_install_def r'_def)
  have "reader_tally C ?r" using assms(1,2) by (simp add: tally_def)
  then have "reader_tally C r'" using assms(3-5) by (auto simp: reader_tally_def r'_def)
  then have "\<forall>r \<in> set (readers ?S'). reader_tally C r"
    using assms(1) S' by (auto simp: tally_def dest!: set_update_subset_insert [THEN subsetD])
  moreover have "(\<Sum>r\<leftarrow>readers ?S'. of_bool (pc r = Done) :: nat) = (\<Sum>r\<leftarrow>readers S. of_bool (pc r = Done))"
    "(\<Sum>r\<leftarrow>readers ?S'. drained_splits r) = (\<Sum>r\<leftarrow>readers S. drained_splits r)"
    "(\<Sum>r\<leftarrow>readers ?S'. mset (claims r)) = (\<Sum>r\<leftarrow>readers S. mset (claims r))"
    unfolding S' using assms(2,3) by (auto intro!: sum_list_update_same simp: r'_def drained_splits_def)
  ultimately show ?thesis using assms(1) by (simp add: tally_def begin_install_def)
qed

lemma tally_skip:
  assumes "tally C S" "t < length (readers S)" "pc (readers S ! t) = Idle" "rest (readers S ! t) = b # bs" "ab_rows b = 0"
  shows "tally C (put t ((readers S ! t)\<lparr>rest := bs\<rparr>) S)" (is "tally C (put t ?r' S)")
proof -
  have "reader_tally C (readers S ! t)" using assms(1,2) by (simp add: tally_def)
  then have "reader_tally C ?r'" using assms(3-5) by (auto simp: reader_tally_def)
  then have "\<forall>r \<in> set ((readers S)[t := ?r']). reader_tally C r"
    using assms(1) by (auto simp: tally_def dest!: set_update_subset_insert [THEN subsetD])
  moreover have "(\<Sum>r\<leftarrow>(readers S)[t := ?r']. of_bool (pc r = Done) :: nat) = (\<Sum>r\<leftarrow>readers S. of_bool (pc r = Done))"
    "(\<Sum>r\<leftarrow>(readers S)[t := ?r']. drained_splits r) = (\<Sum>r\<leftarrow>readers S. drained_splits r)"
    "(\<Sum>r\<leftarrow>(readers S)[t := ?r']. mset (claims r)) = (\<Sum>r\<leftarrow>readers S. mset (claims r))"
    using assms(2) by (auto intro!: sum_list_update_same simp: drained_splits_def)
  ultimately show ?thesis using assms(1) by (simp add: tally_def)
qed

lemma tally_step:
  assumes "capture_step C S S'" "tally C S"
  shows "tally C S'"
  using assms
proof (cases rule: capture_step.cases)
  case (start src)
  have "reader_tally C (new_reader src)" using start(2) by (simp add: reader_tally_def new_reader_def)
  moreover have "drained_splits (new_reader src) = 0" "claims (new_reader src) = []" "pc (new_reader src) \<noteq> Done"
    by (simp_all add: drained_splits_def new_reader_def)
  ultimately show ?thesis using assms(2) start(1) by (auto simp: tally_def NewStream_def less_Suc_eq)
next
  case (skip_empty t b bs)
  then show ?thesis using tally_skip [OF assms(2)] by simp
next
  case (receive t b bs)
  then show ?thesis using tally_receive [OF assms(2)] by simp
next
  case (proceed t tsuf granted)
  then show ?thesis using install_step_stream [OF proceed(2,1)] tally_same [OF assms(2) proceed(2)] by blast
next
  case (end_stream t)
  then show ?thesis using tally_advance [OF assms(2)] by simp
next
  case (die t)
  then show ?thesis
    using tally_same [OF assms(2) die(2), of S' "(readers S ! t)\<lparr>pc := Dead\<rparr>"] by (simp add: same_stream_def)
qed (use assms(2) in \<open>simp_all add: tally_def\<close>)

lemma captures_tally: "captures C S \<Longrightarrow> tally C S"
proof (induction rule: captures.induct)
  case (begin_capture s)
  show ?case by (simp add: tally_def new_capture_def)
next
  case (more S S')
  then show ?case using tally_step by blast
qed

section \<open>Never a partial result\<close>

lemma good_start:
  assumes "good C S" "tally C S"
  shows "good C (NewStream src S)"
proof -
  have "written_by (length (readers S)) S = []"
    using assms(2) by (auto simp: tally_def written_by_def filter_empty_conv)
  then have "reader_ok C S (length (readers S)) (new_reader src)"
    by (simp add: reader_ok_def buffered_def new_reader_def counts_ok_def empty_stream_def)
  then show ?thesis using assms(1) by (auto simp: good_def NewStream_def nth_append less_Suc_eq)
qed

lemma good_environment:
  assumes "good C S" "\<forall>w. disk_writer S = Some w \<longrightarrow> fs_read (c_fs C) s' (tmp_path w) = fs_read (c_fs C) (files S) (tmp_path w)"
  shows "good C (S\<lparr>files := s'\<rparr>)"
proof -
  have "writer_good C (S\<lparr>files := s'\<rparr>)"
    using assms by (auto simp: good_def writer_good_def stream_ok_def split: option.splits)
  moreover have "reader_ok C (S\<lparr>files := s'\<rparr>) t r = reader_ok C S t r" for t r
    by (simp add: reader_ok_def written_by_def split: pc.split)
  ultimately show ?thesis using assms(1) by (simp add: good_def)
qed

lemma good_advance:
  assumes "good C S" "t < length (readers S)" "pc (readers S ! t) = Idle"
  shows "good C (AdvanceToNextSplit C t (readers S ! t) S)"
proof -
  have r: "reader_ok C S t (readers S ! t)" by (rule good_reader [OF assms(1,2)])
  obtain r' where r': "readers (AdvanceToNextSplit C t (readers S ! t) S) = (readers S)[t := r']"
    "written (AdvanceToNextSplit C t (readers S ! t) S) = written S" "spilling (AdvanceToNextSplit C t (readers S ! t) S) = spilling S"
    "disk_writer (AdvanceToNextSplit C t (readers S ! t) S) = disk_writer S" "files (AdvanceToNextSplit C t (readers S ! t) S) = files S"
    "sub r' = sub (readers S ! t)" "spilled r' = spilled (readers S ! t)" "took r' = took (readers S ! t)"
    "pc r' = Idle \<or> pc r' = Done"
    using AdvanceToNextSplit_shape [of C t "readers S ! t" S] assms(3) by metis
  have "reader_ok C S t r'" using r assms(3) r'(6-9) by (auto simp: reader_ok_def buffered_def)
  then have "good C (put t r' S)" by (rule good_put [OF assms(1,2)])
  then show ?thesis by (rule good_field_update) (simp_all add: r')
qed

lemma good_step:
  assumes "pack_fs_laws (c_fs C)" "ipc_law (c_ipc C)" "capture_step C S S'" "tally C S" "good C S" "\<not> doomed S"
  shows "doomed S' \<or> good C S'"
  using assms(3)
proof (cases rule: capture_step.cases)
  case (start src)
  then show ?thesis using good_start [OF assms(5,4)] by simp
next
  case (skip_empty t b bs)
  have "reader_ok C S t (readers S ! t)" by (rule good_reader [OF assms(5) skip_empty(2)])
  then have "reader_ok C S t ((readers S ! t)\<lparr>rest := bs\<rparr>)" using skip_empty(3) by (simp add: reader_ok_def buffered_def)
  then show ?thesis using good_put [OF assms(5) skip_empty(2)] skip_empty(1) by simp
next
  case (receive t b bs)
  have r: "reader_ok C S t (readers S ! t)" by (rule good_reader [OF assms(5) receive(2)])
  have "\<not> aborted S" using assms(6) by (simp add: doomed_def)
  then have "S' = put t ((readers S ! t)\<lparr>rest := bs, took := took (readers S ! t) @ [b], pc := Latch b\<rparr>) S"
    using receive by (simp add: begin_install_def)
  moreover have "reader_ok C S t ((readers S ! t)\<lparr>rest := bs, took := took (readers S ! t) @ [b], pc := Latch b\<rparr>)"
    using r receive(3) by (simp add: reader_ok_def buffered_def)
  ultimately show ?thesis using good_put [OF assms(5) receive(2)] by simp
next
  case (proceed t tsuf granted)
  then show ?thesis using good_install [OF assms(1,2,5) _ assms(6)] by simp
next
  case (end_stream t)
  then show ?thesis using good_advance [OF assms(5)] by simp
next
  case (die t)
  then show ?thesis using dooms_put by fastforce
next
  case unmodified
  then show ?thesis by (simp add: doomed_def)
next
  case (environment s')
  then show ?thesis using good_environment [OF assms(5)] by simp
qed

lemma captures_good:
  assumes "pack_fs_laws (c_fs C)" "ipc_law (c_ipc C)" "captures C S"
  shows "doomed S \<or> good C S"
  using assms(3)
proof (induction rule: captures.induct)
  case (begin_capture s)
  show ?case by (simp add: good_def writer_good_def new_capture_def)
next
  case (more S S')
  then show ?case using doomed_step good_step [OF assms(1,2)] captures_tally by blast
qed

lemma sum_of_bool_all: "(\<Sum>x\<leftarrow>xs. of_bool (P x)) = length xs \<longleftrightarrow> (\<forall>x \<in> set xs. P x)"
proof (induction xs)
  case (Cons x xs)
  have "(\<Sum>x\<leftarrow>xs. of_bool (P x)) \<le> length xs" by (induction xs) auto
  with Cons show ?case by auto
qed simp

text \<open>When the destructor finds a capture complete, every reader is at its end and holds what it owes.\<close>

lemma complete_readers:
  assumes "pack_fs_laws (c_fs C)" "ipc_law (c_ipc C)" "captures C S" "complete C S"
  shows "good C S" "\<forall>r \<in> set (readers S). pc r = Done"
    "\<And>t. t < length (readers S) \<Longrightarrow> written_by t S @ batches (sub (readers S ! t)) = map (cached_batch (c_ipc C)) (took (readers S ! t))"
proof -
  note ta = captures_tally [OF assms(3)]
  have "(\<Sum>r\<leftarrow>readers S. of_bool (pc r = Done)) = length (readers S)" using ta assms(4) by (simp add: tally_def complete_def)
  then show d: "\<forall>r \<in> set (readers S). pc r = Done" by (simp add: sum_of_bool_all)
  then have "\<not> doomed S" using assms(4) by (auto simp: doomed_def complete_def)
  then show g: "good C S" using captures_good [OF assms(1-3)] by simp
  show "written_by t S @ batches (sub (readers S ! t)) = map (cached_batch (c_ipc C)) (took (readers S ! t))"
    if "t < length (readers S)" for t
    using good_reader [OF g that] d that by (simp add: reader_ok_def buffered_def)
qed

text \<open>What the readers of a complete capture received is everything the scan produced.\<close>

lemma sum_list_mset_image:
  "(\<Sum>r\<leftarrow>rs. mset (concat (map g (f r)))) = (\<Sum>i\<in>#(\<Sum>r\<leftarrow>rs. mset (f r)). mset (g i))"
proof (induction rs)
  case (Cons r rs)
  have "mset (concat (map g xs)) = (\<Sum>i\<in>#mset xs. mset (g i))" for xs by (induction xs) auto
  with Cons show ?case by simp
qed simp

lemma size_sum_claims: "size (\<Sum>r\<leftarrow>rs. mset (claims r)) = (\<Sum>r\<leftarrow>rs. length (claims r))"
  by (induction rs) auto

definition everything :: "('d, 'fs) capture_config \<Rightarrow> 'd reader list \<Rightarrow> bool" where
  "everything C rs \<longleftrightarrow>
     (if c_split_path C then (\<Sum>r\<leftarrow>rs. mset (took r)) = (\<Sum>xs\<leftarrow>c_splits C. mset (with_rows xs))
      else (\<forall>r \<in> set rs. took r = with_rows (source r)))"

lemma complete_everything:
  assumes "pack_fs_laws (c_fs C)" "ipc_law (c_ipc C)" "captures C S" "complete C S"
  shows "everything C (readers S)"
proof -
  note ta = captures_tally [OF assms(3)] and d = complete_readers(2) [OF assms]
  have r: "took r = with_rows (source r) @ concat (map (\<lambda>i. with_rows (c_splits C ! i)) (claims r)) \<and> \<not> has_split r \<and>
      (if c_split_path C then source r = [] else claims r = [])" if "r \<in> set (readers S)" for r
    using ta d that by (auto simp: tally_def reader_tally_def filter_concat comp_def)
  show ?thesis
  proof (cases "c_split_path C")
    case True
    let ?n = "length (c_splits C)" and ?m = "\<Sum>r\<leftarrow>readers S. mset (claims r)"
    have "(\<Sum>r\<leftarrow>readers S. drained_splits r) = (\<Sum>r\<leftarrow>readers S. length (claims r))"
      by (rule arg_cong [where f = sum_list], rule map_cong) (simp_all add: drained_splits_def r)
    moreover have "size ?m = (\<Sum>r\<leftarrow>readers S. length (claims r))" by (rule size_sum_claims)
    ultimately have "size ?m = ?n" using ta assms(4) True by (simp add: tally_def complete_def)
    moreover have "?m = mset [0..<min (next_split S) ?n]" using ta by (simp add: tally_def)
    ultimately have m: "?m = mset [0..<?n]" by (metis length_upt minus_nat.diff_0 size_mset)
    have "(\<Sum>r\<leftarrow>readers S. mset (took r)) = (\<Sum>r\<leftarrow>readers S. mset (concat (map (\<lambda>i. with_rows (c_splits C ! i)) (claims r))))"
      by (rule arg_cong [where f = sum_list], rule map_cong) (use r True in auto)
    also have "\<dots> = (\<Sum>i\<in>#mset [0..<?n]. mset (with_rows (c_splits C ! i)))" unfolding sum_list_mset_image m ..
    also have "\<dots> = (\<Sum>i\<leftarrow>[0..<?n]. mset (with_rows (c_splits C ! i)))" by (simp only: mset_map [symmetric] sum_mset_sum_list)
    also have "\<dots> = (\<Sum>xs\<leftarrow>c_splits C. mset (with_rows xs))" by (rule arg_cong [where f = sum_list], rule nth_equalityI) simp_all
    finally show ?thesis using True by (simp add: everything_def)
  qed (use r in \<open>auto simp: everything_def\<close>)
qed

text \<open>A control block is latched from a batch with rows only, so a result without rows is not committed.\<close>

lemma install_step_latch:
  assumes "t < length (readers S)" "S' = install_step C granted tsuf t (readers S ! t) (pc (readers S ! t)) S"
  shows "S' = S \<or> (\<exists>r'. readers S' = (readers S)[t := r'] \<and> took r' = took (readers S ! t) \<and> (\<forall>b. pc r' \<noteq> Latch b) \<and>
    (cc_seen S' \<longrightarrow> cc_seen S \<or> (\<exists>b. pc (readers S ! t) = Latch b)))"
proof (cases "pc (readers S ! t)")
  case (Drain todo ok nxt)
  then show ?thesis unfolding assms(2)
    by (auto simp: drain_step_def writer_append_def Let_def split: option.splits list.splits prod.splits)
next
  case (SpillAppend b)
  then show ?thesis unfolding assms(2) by (auto simp: writer_append_def Let_def split: option.splits prod.splits)
next
  case (Over b)
  then show ?thesis unfolding assms(2) by (auto simp: spill_def Let_def split: prod.splits)
qed (auto simp: assms(2) latch_def reserve_def Let_def)

definition latch_ok :: "('d, 'fs) capture \<Rightarrow> bool" where
  "latch_ok S \<longleftrightarrow> (\<forall>r \<in> set (readers S). \<forall>b. pc r = Latch b \<longrightarrow> took r \<noteq> []) \<and>
     (cc_seen S \<longrightarrow> (\<exists>r \<in> set (readers S). took r \<noteq> []))"

lemma latch_ok_put:
  assumes "latch_ok S" "t < length (readers S)" "readers S' = (readers S)[t := r']"
    "\<forall>b. pc r' = Latch b \<longrightarrow> took r' \<noteq> []" "took (readers S ! t) \<noteq> [] \<longrightarrow> took r' \<noteq> []"
    "cc_seen S' \<longrightarrow> cc_seen S \<or> took (readers S ! t) \<noteq> []"
  shows "latch_ok S'"
proof -
  have r': "r' \<in> set (readers S')" using assms(2,3) by (simp add: set_update_memI)
  have "\<exists>r \<in> set (readers S'). took r \<noteq> []" if mem: "r \<in> set (readers S)" and nn: "took r \<noteq> []" for r
  proof (cases "took (readers S ! t) = []")
    case True
    obtain u where u: "u < length (readers S)" "readers S ! u = r" using mem by (auto simp: in_set_conv_nth)
    then have "u \<noteq> t" using True nn by auto
    then have "readers S' ! u = r" "u < length (readers S')" using u assms(3) by simp_all
    then show ?thesis using nn nth_mem by metis
  qed (use r' assms(5) in blast)
  moreover have "readers S ! t \<in> set (readers S)" using assms(2) by simp
  ultimately have "cc_seen S' \<longrightarrow> (\<exists>r \<in> set (readers S'). took r \<noteq> [])" using assms(1,6) unfolding latch_ok_def by blast
  moreover have "\<forall>r \<in> set (readers S'). \<forall>b. pc r = Latch b \<longrightarrow> took r \<noteq> []"
    using assms(1,3,4) set_update_subset_insert [of "readers S" t r'] unfolding latch_ok_def by auto
  ultimately show ?thesis by (simp add: latch_ok_def)
qed

lemma latch_ok_step:
  assumes "capture_step C S S'" "latch_ok S"
  shows "latch_ok S'"
  using assms
proof (cases rule: capture_step.cases)
  case (start src)
  then show ?thesis using assms(2) by (auto simp: latch_ok_def NewStream_def new_reader_def)
next
  case (skip_empty t b bs)
  then show ?thesis
    using latch_ok_put [OF assms(2) skip_empty(2), of S' "(readers S ! t)\<lparr>rest := bs\<rparr>"] by simp
next
  case (receive t b bs)
  then show ?thesis
    using latch_ok_put [OF assms(2) receive(2), of S' "(readers S ! t)\<lparr>rest := bs, took := took (readers S ! t) @ [b],
      pc := (if aborted S then Idle else Latch b)\<rparr>"] by (simp add: begin_install_def)
next
  case (proceed t tsuf granted)
  have l: "took (readers S ! t) \<noteq> []" if "pc (readers S ! t) = Latch b" for b
    using assms(2) proceed(2) that by (auto simp: latch_ok_def)
  consider "S' = S" | r' where "readers S' = (readers S)[t := r']" "took r' = took (readers S ! t)" "\<forall>b. pc r' \<noteq> Latch b"
    "cc_seen S' \<longrightarrow> cc_seen S \<or> (\<exists>b. pc (readers S ! t) = Latch b)"
    using install_step_latch [OF proceed(2,1)] by blast
  then show ?thesis
  proof cases
    case 2
    then show ?thesis using l by (intro latch_ok_put [OF assms(2) proceed(2) 2(1)]) auto
  qed (use assms(2) in simp)
next
  case (end_stream t)
  obtain r' where r': "readers S' = (readers S)[t := r']" "took r' = took (readers S ! t)" "pc r' = pc (readers S ! t) \<or> pc r' = Done"
    using AdvanceToNextSplit_shape end_stream(1) by metis
  have "cc_seen S' = cc_seen S" using end_stream(1) by (simp add: AdvanceToNextSplit_def Let_def)
  then show ?thesis using r'(2,3) end_stream(3) by (intro latch_ok_put [OF assms(2) end_stream(2) r'(1)]) auto
next
  case (die t)
  then show ?thesis using latch_ok_put [OF assms(2) die(2), of S' "(readers S ! t)\<lparr>pc := Dead\<rparr>"] by simp
qed (use assms(2) in \<open>simp_all add: latch_ok_def\<close>)

lemma complete_nonempty:
  assumes "captures C S" "complete C S"
  shows "\<exists>r \<in> set (readers S). took r \<noteq> []"
proof -
  have "latch_ok S" using assms(1)
    by (induction rule: captures.induct) (simp add: latch_ok_def new_capture_def, use latch_ok_step in blast)
  then show ?thesis using assms(2) by (simp add: latch_ok_def complete_def)
qed

text \<open>Draining the buffers that are left.\<close>

lemma drain_streams_true:
  assumes "pack_fs_laws (c_fs C)" "stream_ok (c_fs C) w s" "drain_streams C sts w s = (True, w', s')"
    "\<forall>st \<in> set sts. \<forall>cb \<in> set (batches st). cb_ipc cb \<noteq> None"
  shows "stream_ok (c_fs C) w' s' \<and> same_target w w' \<and>
    hashed w' = hashed w @ concat (map (\<lambda>cb. frame cb (payload_bytes (TranscodeIpcWithCodec (recode (c_ipc C))) (wcodec w) (wlevel w) cb))
      (concat (map batches sts))) \<and> wrows w' = wrows w + (\<Sum>cb\<leftarrow>concat (map batches sts). cb_rows cb)"
  using assms(2-4)
proof (induction sts arbitrary: w s)
  case (Cons st sts)
  show ?case
  proof (cases "batches st = []")
    case False
    obtain ok w1 s1 where d: "drain_batches (c_fs C) (recode (c_ipc C)) True (batches st) w s = (ok, w1, s1)" by (metis prod_cases3)
    then have ok: "ok" "drain_streams C sts w1 s1 = (True, w', s')"
      using Cons.prems(2) False by (auto simp: DrainSubstreamToWriter_def split: bool.splits)
    have f: "filter (\<lambda>cb. cb_ipc cb \<noteq> None) (batches st) = batches st" using Cons.prems(3) by (simp add: filter_id_conv)
    have "stream_ok (c_fs C) w1 s1 \<and> same_target w w1 \<and>
        hashed w1 = hashed w @ concat (map (\<lambda>cb. frame cb (payload_bytes (TranscodeIpcWithCodec (recode (c_ipc C))) (wcodec w) (wlevel w) cb)) (batches st)) \<and>
        wrows w1 = wrows w + (\<Sum>cb\<leftarrow>batches st. cb_rows cb)"
      using drain_batches_true [OF assms(1) Cons.prems(1) d [unfolded eqTrueI [OF ok(1)]]] unfolding f by blast
    with Cons.IH [OF _ ok(2)] Cons.prems(3) show ?thesis by (auto simp: same_target_def)
  qed (use Cons in simp)
qed simp

lemma drain_streams_small:
  assumes "pack_fs_laws (c_fs C)" "stream_ok (c_fs C) w s" "drain_streams C sts w s = (True, w', s')" "wdisk_max w \<noteq> 0"
    "length (hashed w) < 2 ^ 63"
  shows "length (hashed w') < 2 ^ 63"
  using assms(2-5)
proof (induction sts arbitrary: w s)
  case (Cons st sts)
  show ?case
  proof (cases "batches st = []")
    case False
    obtain ok w1 s1 where d: "drain_batches (c_fs C) (recode (c_ipc C)) True (batches st) w s = (ok, w1, s1)" by (metis prod_cases3)
    then have ok: "ok" "drain_streams C sts w1 s1 = (True, w', s')"
      using Cons.prems(2) False by (auto simp: DrainSubstreamToWriter_def split: bool.splits)
    note d' = d [unfolded eqTrueI [OF ok(1)]]
    have "wdisk_max w1 \<noteq> 0" using drain_batches_target [OF d] Cons.prems(3) by (simp add: same_target_def)
    moreover have "stream_ok (c_fs C) w1 s1" using drain_batches_true [OF assms(1) Cons.prems(1) d'] by blast
    ultimately show ?thesis using Cons.IH ok(2) drain_batches_small [OF assms(1) Cons.prems(1) d' Cons.prems(3,4)] by blast
  qed (use Cons in simp)
qed simp

lemma drain_streams_local:
  "writes_local (c_fs C) \<Longrightarrow> q \<noteq> tmp_path w \<Longrightarrow> drain_streams C sts w s = (ok, w', s') \<Longrightarrow>
   fs_read (c_fs C) s' q = fs_read (c_fs C) s q"
proof (induction sts arbitrary: w s)
  case (Cons st sts)
  obtain ok1 w1 s1 where d: "drain_batches (c_fs C) (recode (c_ipc C)) True (batches st) w s = (ok1, w1, s1)" by (metis prod_cases3)
  have s1: "fs_read (c_fs C) s1 q = fs_read (c_fs C) s q" using drain_batches_local [OF Cons.prems(1,2), of _ True "batches st" s] d by (metis snd_conv)
  have w1: "q \<noteq> tmp_path w1" using drain_batches_target [OF d] Cons.prems(2) by (simp add: same_target_def)
  show ?case
  proof (cases "batches st = []")
    case False
    then show ?thesis using Cons.prems(3) d s1 Cons.IH [OF Cons.prems(1) w1] by (cases ok1) (auto simp: DrainSubstreamToWriter_def)
  qed (use Cons in simp)
qed simp

text \<open>
  The records of a stored result: for each reader its batches in the order received, each with bytes
  that decode to the batch's data.
\<close>

definition log_of :: "('d, 'fs) capture_config \<Rightarrow> 'd reader list \<Rightarrow> (nat \<times> VgiCachedBatch \<times> string) list \<Rightarrow> bool" where
  "log_of C rs log \<longleftrightarrow>
     (\<forall>t < length rs. map (fst \<circ> snd) (filter (\<lambda>e. fst e = t) log) = map (cached_batch (c_ipc C)) (took (rs ! t))) \<and>
     (\<forall>(t, cb, body) \<in> set log. t < length rs \<and> (\<exists>b. cb = cached_batch (c_ipc C) b \<and> ic_decode (c_ipc C) body = Some (ab_data b)))"

definition log_batches :: "(nat \<times> VgiCachedBatch \<times> string) list \<Rightarrow> VgiCachedBatch list" where
  "log_batches log = map (\<lambda>(t, cb, body). cb\<lparr>cb_ipc := Some body\<rparr>) log"

abbreviation log_blob :: "(nat \<times> VgiCachedBatch \<times> string) list \<Rightarrow> string" where
  "log_blob log \<equiv> captured_blob (the \<circ> cb_ipc) (log_batches log)"

lemma log_blob_frames: "log_blob log = ''VRC1'' @ concat (map (\<lambda>(t, cb, body). frame cb body) log)"
  by (auto simp: captured_blob_def log_batches_def frame_def batch_header_def comp_def split_def intro!: arg_cong [where f = concat])

definition rest_log :: "(VgiCachedBatch \<Rightarrow> string) \<Rightarrow> nat \<Rightarrow> 'd reader list \<Rightarrow> (nat \<times> VgiCachedBatch \<times> string) list" where
  "rest_log f n rs = concat (map (\<lambda>(t, r). map (\<lambda>cb. (t, cb, f cb)) (batches (sub r))) (enumerate n rs))"

lemma rest_log_Cons [simp]:
  "rest_log f n (r # rs) = map (\<lambda>cb. (n, cb, f cb)) (batches (sub r)) @ rest_log f (Suc n) rs" "rest_log f n [] = []"
  by (simp_all add: rest_log_def)

lemma rest_log_filter:
  "filter (\<lambda>e. fst e = t) (rest_log f n rs) =
     (if n \<le> t \<and> t < n + length rs then map (\<lambda>cb. (t, cb, f cb)) (batches (sub (rs ! (t - n)))) else [])"
proof (induction rs arbitrary: n)
  case (Cons r rs)
  have "filter (\<lambda>e. fst e = t) (map (\<lambda>cb. (n, cb, f cb)) xs) = (if n = t then map (\<lambda>cb. (t, cb, f cb)) xs else [])" for xs
    by (induction xs) auto
  then show ?case using Cons by (auto simp: nth_Cons' Suc_diff_le)
qed auto

lemma rest_log_frames:
  "concat (map (\<lambda>(t, cb, body). frame cb body) (rest_log f n rs)) =
   concat (map (\<lambda>cb. frame cb (f cb)) (concat (map batches (map sub rs))))"
  by (induction rs arbitrary: n) (simp_all add: comp_def)

lemma rest_log_rows:
  "(\<Sum>(t, cb, body)\<leftarrow>rest_log f n rs. cb_rows cb) = (\<Sum>cb\<leftarrow>concat (map batches (map sub rs)). cb_rows cb)"
  by (induction rs arbitrary: n) (simp_all add: comp_def)

lemma rest_log_set:
  "e \<in> set (rest_log f n rs) \<Longrightarrow> \<exists>r \<in> set rs. n \<le> fst e \<and> fst e < n + length rs \<and> fst (snd e) \<in> set (batches (sub r)) \<and> snd (snd e) = f (fst (snd e))"
  by (induction rs arbitrary: n) fastforce+

lemma complete_log:
  assumes "pack_fs_laws (c_fs C)" "ipc_law (c_ipc C)" "captures C S" "complete C S"
  shows "log_of C (readers S) (written S @ rest_log (payload_bytes (TranscodeIpcWithCodec (recode (c_ipc C))) codec level) 0 (readers S))"
    (is "log_of C ?rs (_ @ rest_log ?f 0 _)")
proof -
  note g = complete_readers(1) [OF assms] and ta = captures_tally [OF assms(3)]
  have own: "\<exists>b. cb = cached_batch (c_ipc C) b" if r: "r \<in> set ?rs" and cb: "cb \<in> set (batches (sub r))" for r cb
  proof -
    obtain t where t: "t < length ?rs" "r = ?rs ! t" using r by (auto simp: in_set_conv_nth)
    have "cb \<in> set (map (cached_batch (c_ipc C)) (took r))"
      using complete_readers(3) [OF assms t(1)] cb t(2) by (metis Un_iff set_append)
    then show ?thesis by auto
  qed
  have "map (fst \<circ> snd) (filter (\<lambda>e. fst e = t) (written S @ rest_log ?f 0 ?rs)) = map (cached_batch (c_ipc C)) (took (?rs ! t))"
    if "t < length ?rs" for t
    using complete_readers(3) [OF assms that] that by (simp add: rest_log_filter written_by_def comp_def)
  moreover have "fst e < length ?rs \<and> (\<exists>b. fst (snd e) = cached_batch (c_ipc C) b \<and> ic_decode (c_ipc C) (snd (snd e)) = Some (ab_data b))"
    if e: "e \<in> set (written S @ rest_log ?f 0 ?rs)" for e
  proof (cases "e \<in> set (written S)")
    case True
    then show ?thesis using g ta by (auto simp: good_def writer_good_def tally_def split_def)
  next
    case False
    then obtain r where r: "r \<in> set ?rs" "fst e < length ?rs" "fst (snd e) \<in> set (batches (sub r))" "snd (snd e) = ?f (fst (snd e))"
      using e rest_log_set [of e ?f 0 ?rs] by auto
    obtain b where b: "fst (snd e) = cached_batch (c_ipc C) b" using own [OF r(1,3)] by blast
    then have "?f (fst (snd e)) = the (TranscodeIpcWithCodec (recode (c_ipc C)) (Some (ic_encode (c_ipc C) (ab_data b) ''none'' 1)) codec level)"
      using payload_bytes_transcode [of "cached_batch (c_ipc C) b"] by simp
    then show ?thesis using r(2,4) b transcoded_decodes [OF assms(2)] by auto
  qed
  ultimately show ?thesis unfolding log_of_def split_def by blast
qed

lemma destroy_complete:
  assumes "destroy_capture C now now_unix sync_ok tsuf S = (out, S')" "out \<noteq> NotStored"
  obtains meta where "complete C S" "capture_meta C now (latched S) = Some meta"
    "spilling S \<Longrightarrow> commit_spilled C now_unix sync_ok tsuf meta (S\<lparr>reserved := 0\<rparr>) = (out, S')"
    "\<not> spilling S \<Longrightarrow> out = ToMemory (meta\<lparr>streams := map sub (readers S), erows := (\<Sum>r\<leftarrow>readers S. srows (sub r)),
       etotal_bytes := (\<Sum>r\<leftarrow>readers S. sbytes (sub r))\<rparr>) (\<not> TransactionScoped (latched S))"
proof -
  have c: "complete C (S\<lparr>reserved := 0\<rparr>) = complete C S" by (simp add: complete_def)
  from assms c show ?thesis
    by (auto simp: destroy_capture_def Let_def split: if_splits option.splits intro: that)
qed

text \<open>
  A result stored in memory holds, stream by stream, exactly what each reader received, and that is
  everything the scan produced.
\<close>

theorem captured_in_memory:
  assumes "pack_fs_laws (c_fs C)" "ipc_law (c_ipc C)" "captures C S"
    "destroy_capture C now now_unix sync_ok tsuf S = (ToMemory e allow_disk, S')"
  shows "map batches (streams e) = map (\<lambda>r. map (cached_batch (c_ipc C)) (took r)) (readers S)"
    "erows e = (\<Sum>r\<leftarrow>readers S. \<Sum>b\<leftarrow>took r. ab_rows b)" "everything C (readers S)" "streams e = map sub (readers S)"
proof -
  obtain meta where m: "complete C S" "capture_meta C now (latched S) = Some meta"
    "spilling S \<Longrightarrow> commit_spilled C now_unix sync_ok tsuf meta (S\<lparr>reserved := 0\<rparr>) = (ToMemory e allow_disk, S')"
    "\<not> spilling S \<Longrightarrow> ToMemory e allow_disk = ToMemory (meta\<lparr>streams := map sub (readers S), erows := (\<Sum>r\<leftarrow>readers S. srows (sub r)),
       etotal_bytes := (\<Sum>r\<leftarrow>readers S. sbytes (sub r))\<rparr>) (\<not> TransactionScoped (latched S))"
    using destroy_complete [OF assms(4)] by blast
  note g = complete_readers [OF assms(1-3) m(1)]
  show "everything C (readers S)" by (rule complete_everything [OF assms(1-3) m(1)])
  have ns: "\<not> spilling S" using m(3) by (auto simp: commit_spilled_def split: if_splits prod.splits bool.splits)
  then show "streams e = map sub (readers S)" using m(4) by simp
  have "written S = []" using g(1) ns by (auto simp: good_def writer_good_def split: option.splits)
  then have b: "batches (sub r) = map (cached_batch (c_ipc C)) (took r)" if "r \<in> set (readers S)" for r
    using g(3) that by (auto simp: written_by_def in_set_conv_nth)
  then show "map batches (streams e) = map (\<lambda>r. map (cached_batch (c_ipc C)) (took r)) (readers S)"
    using m(4) [OF ns] by simp
  have "srows (sub r) = (\<Sum>b\<leftarrow>took r. ab_rows b)" if r: "r \<in> set (readers S)" for r
  proof -
    obtain t where t: "t < length (readers S)" "r = readers S ! t" using r by (auto simp: in_set_conv_nth)
    have "counts_ok (sub r)" using good_reader [OF g(1) t(1)] g(2) t by (simp add: reader_ok_def)
    then show ?thesis using b [OF r] by (simp add: counts_ok_def comp_def)
  qed
  then show "erows e = (\<Sum>r\<leftarrow>readers S. \<Sum>b\<leftarrow>took r. ab_rows b)"
    using m(4) [OF ns] by (simp cong: map_cong)
qed

text \<open>
  A result committed to disk is one object with the records of a log of everything, and a ref to it.
\<close>

theorem captured_on_disk:
  assumes "pack_fs_laws (c_fs C)" "writes_local (c_fs C)" "ipc_law (c_ipc C)" "\<forall>b. IsHex64 (c_sha C b)" "captures C S"
    "destroy_capture C now now_unix sync_ok tsuf S = (ToDisk True, S')"
    "\<forall>c. fs_read (c_fs C) (files S) (object_path (c_sha C) (c_disk_dir C) (c_key C) (c_sha C c)) \<in> {None, Some c}"
  shows "\<exists>log meta total. log_of C (readers S) log \<and> everything C (readers S) \<and> capture_meta C now (latched S) = Some meta \<and>
    \<not> TransactionScoped (latched S) \<and> c_disk_dir C \<noteq> [] \<and> length (log_blob log) < 2 ^ 63 \<and>
    fs_read (c_fs C) (files S') (object_path (c_sha C) (c_disk_dir C) (c_key C) (c_sha C (log_blob log))) = Some (log_blob log) \<and>
    fs_read (c_fs C) (files S') (ref_path (c_sha C) (c_disk_dir C) (c_key C)) =
      Some (ref_text (Fingerprint (c_sha C) (c_key C)) (c_sha C (log_blob log)) (ComputeExpiresUnix now_unix meta)
        (meta\<lparr>erows := (\<Sum>(t, cb, body)\<leftarrow>log. cb_rows cb), etotal_bytes := total\<rparr>) (ResolveDiskCompressionCodec (c_codec C)))"
proof -
  obtain meta where m: "complete C S" "capture_meta C now (latched S) = Some meta"
    "spilling S \<Longrightarrow> commit_spilled C now_unix sync_ok tsuf meta (S\<lparr>reserved := 0\<rparr>) = (ToDisk True, S')"
    "\<not> spilling S \<Longrightarrow> ToDisk True = ToMemory (meta\<lparr>streams := map sub (readers S), erows := (\<Sum>r\<leftarrow>readers S. srows (sub r)),
       etotal_bytes := (\<Sum>r\<leftarrow>readers S. sbytes (sub r))\<rparr>) (\<not> TransactionScoped (latched S))"
    using destroy_complete [OF assms(6)] by blast
  note g = complete_readers [OF assms(1,3,5) m(1)]
  have sp: "spilling S" using m(4) by auto
  then obtain w tsuf0 where w: "disk_writer S = Some w" "stream_ok (c_fs C) w (files S)"
    "writer_of (c_sha C) (c_disk_dir C) (c_key C) tsuf0 (c_disk_max C) (c_codec C) (c_level C) w"
    "hashed w = ''VRC1'' @ concat (map (\<lambda>(t, cb, body). frame cb body) (written S))" "wrows w = (\<Sum>(t, cb, body)\<leftarrow>written S. cb_rows cb)"
    "c_disk_dir C \<noteq> []" "c_disk_max C \<noteq> 0" "length (hashed w) < 2 ^ 63"
    using g(1) by (auto simp: good_def writer_good_def split: option.splits)
  obtain ok w1 s1 where d: "drain_streams C (map sub (readers S)) w (files S) = (ok, w1, s1)" by (metis prod_cases3)
  obtain w2 where c: "ok" "CommitStreamingCapture (c_fs C) (c_sha C) now_unix sync_ok tsuf w1 meta s1 = (True, w2, files S')"
    using m(3) [OF sp] d w(1) by (auto simp: commit_spilled_def split: if_splits bool.splits prod.splits)
  let ?f = "payload_bytes (TranscodeIpcWithCodec (recode (c_ipc C))) (wcodec w) (wlevel w)"
  define log where "log = written S @ rest_log ?f 0 (readers S)"
  have log: "log_of C (readers S) log" unfolding log_def by (rule complete_log [OF assms(1,3,5) m(1)])
  have ipc: "\<forall>st \<in> set (map sub (readers S)). \<forall>cb \<in> set (batches st). cb_ipc cb \<noteq> None"
  proof (intro ballI)
    fix st cb assume "st \<in> set (map sub (readers S))" "cb \<in> set (batches st)"
    then obtain t where "t < length (readers S)" "cb \<in> set (batches (sub (readers S ! t)))"
      by (metis (no_types, lifting) in_set_conv_nth length_map nth_map)
    with g(3) have "cb \<in> set (map (cached_batch (c_ipc C)) (took (readers S ! t)))" by (metis Un_iff set_append)
    then show "cb_ipc cb \<noteq> None" by auto
  qed
  note dr = drain_streams_true [OF assms(1) w(2) d [unfolded eqTrueI [OF c(1)]] ipc]
  have h: "hashed w1 = log_blob log" "wrows w1 = (\<Sum>(t, cb, body)\<leftarrow>log. cb_rows cb)"
    using dr w(4,5) by (simp_all add: log_blob_frames log_def rest_log_frames rest_log_rows)
  have "wdisk_max w \<noteq> 0" using w(3,7) by (simp add: writer_of_def)
  then have small: "length (log_blob log) < 2 ^ 63"
    using drain_streams_small [OF assms(1) w(2) d [unfolded eqTrueI [OF c(1)]] _ w(8)] h(1) by simp
  have nt: "\<not> TransactionScoped (latched S)" using m(3) [OF sp] by (auto simp: commit_spilled_def split: if_splits)
  have of1: "writer_of (c_sha C) (c_disk_dir C) (c_key C) tsuf0 (c_disk_max C) (c_codec C) (c_level C) w1"
    using dr w(3) writer_of_same by blast
  have "object_path (c_sha C) (c_disk_dir C) (c_key C) (c_sha C (hashed w1)) \<noteq> tmp_path w"
    using capture_tmp_apart(1) [of "c_sha C (hashed w1)"] assms(4) w(3) by (simp add: writer_of_def)
  then have "fs_read (c_fs C) s1 (object_path (c_sha C) (c_disk_dir C) (c_key C) (c_sha C (hashed w1))) \<in> {None, Some (hashed w1)}"
    using drain_streams_local [OF assms(2) _ d] assms(7) by metis
  note cm = CommitStreamingCapture_true [OF assms(1,4) conjunct1 [OF dr] of1 c(2) this, unfolded h]
  show ?thesis
    using log complete_everything [OF assms(1,3,5) m(1)] m(2) nt w(6) small cm(1,2) by blast
qed

section \<open>Lifetimes and partitions\<close>

text \<open>
  A worker that only advertises an absolute deadline: the deadline is never read, and the entry is
  stored as already stale.
\<close>

theorem expires_only_is_stale:
  assumes "capture_meta C now cc = Some e" "ttl_seconds cc = None" "c_default_ttl C = 0" "expires_rfc3339 cc \<noteq> []"
  shows "IsStale now e"
  using assms by (auto simp: capture_meta_def Let_def IsStale_def blank_entry_def i64_of_def split: if_splits)

text \<open>Otherwise the entry lives for the advertised time, at most ten years.\<close>

theorem capture_lifetime:
  assumes "capture_meta C now cc = Some e" "ttl_seconds cc = Some ttl" "0 < ttl"
  shows "\<not> enever_expires e \<and> eexpires_at e = now + min ttl VGI_CACHE_MAX_TTL_SECONDS * 1000000000 \<and> stored_at e = now"
  using assms by (auto simp: capture_meta_def Let_def VGI_CACHE_MAX_TTL_SECONDS_def blank_entry_def min_def split: if_splits)

text \<open>The buckets hold the batches by their discriminator, each batch once and in order.\<close>

definition bucket_of :: "(string \<times> bucket) list \<Rightarrow> string \<Rightarrow> VgiCachedBatch list" where
  "bucket_of m d = (case map_of m d of None \<Rightarrow> [] | Some k \<Rightarrow> bk_batches k)"

lemma fill_buckets_batches:
  "fill_buckets disc_of bs m = Some m' \<Longrightarrow> map_sorted m \<Longrightarrow>
   map_sorted m' \<and> bucket_of m' d = bucket_of m d @ filter (\<lambda>b. map_option fst (disc_of (cb_pv b)) = Some d) bs"
proof (induction bs arbitrary: m)
  case (Cons b bs)
  obtain disc label where dl: "disc_of (cb_pv b) = Some (disc, label)"
    using Cons.prems(1) by (auto split: option.splits)
  let ?m = "map_put disc (add_to_bucket label b (map_of m disc)) m"
  have "map_sorted ?m" "bucket_of ?m d = bucket_of m d @ (if disc = d then [b] else [])"
    using Cons.prems(2) by (auto simp: map_put_sorted map_of_put bucket_of_def add_to_bucket_def Let_def split: option.splits)
  then show ?case using Cons.IH [of ?m] Cons.prems(1) dl by auto
qed simp

theorem partition_entries_batches:
  assumes "e \<in> set (SplitAndStorePartitionEntries C disc_of residual partition_max meta sts)"
  shows "\<exists>d. ekey e = BuildPartitionKey (c_key C) residual d \<and>
    all_batches e = filter (\<lambda>b. map_option fst (disc_of (cb_pv b)) = Some d) (concat (map batches sts))"
proof -
  obtain m where m: "fill_buckets disc_of (concat (map batches sts)) [] = Some m" "e \<in> set (map (partition_entry C residual meta) m)"
    using assms unfolding SplitAndStorePartitionEntries_def by (cases "fill_buckets disc_of (concat (map batches sts)) []") (auto split: if_splits)
  then obtain d k where dk: "(d, k) \<in> set m" "e = partition_entry C residual meta (d, k)" by auto
  have s: "map_sorted m \<and> bucket_of m d = filter (\<lambda>b. map_option fst (disc_of (cb_pv b)) = Some d) (concat (map batches sts))"
    using fill_buckets_batches [OF m(1), of d] by (simp add: bucket_of_def)
  then have "map_of m d = Some k" using dk(1) map_sorted_distinct by (metis map_of_eq_Some_iff)
  then have "bucket_of m d = bk_batches k" by (simp add: bucket_of_def)
  moreover have "all_batches e = bk_batches k" "ekey e = BuildPartitionKey (c_key C) residual d"
    using dk(2) by (simp_all add: partition_entry_def all_batches_def blank_entry_def)
  ultimately show ?thesis using s by metis
qed

end
