(* ===== verification/Replay_Connection.thy ===== *)
theory Replay_Connection
  imports Result_Capture
begin

text \<open>
  Serving a cached result (\<^verbatim>\<open>src/src/vgi_cached_replay_connection.cpp\<close>): the connection that replays the
  batches of an entry in place of a worker, from memory or from the object on disk; the union of
  per-partition entries; the entries of the exchange functions and the renewal of an entry that the
  worker confirmed (\<^verbatim>\<open>src/src/vgi_exchange_cache_key.cpp\<close>, \<^verbatim>\<open>src/src/vgi_table_function_impl.cpp\<close>).
\<close>

section \<open>The connection\<close>

definition INVALID_INDEX :: u64 where "INVALID_INDEX = - 1"

text \<open>\<open>disk_handle\<close> holds the bytes of the open object: they stay readable when its name is removed.\<close>

record CachedReplayConnection =
  rp_path :: string
  order :: "VgiCachedBatch list"
  cursor :: nat
  finished :: bool
  last_batch_index :: u64
  last_partition_values :: string
  disk_handle :: "string option"

definition new_replay :: "VgiResultCacheEntry \<Rightarrow> CachedReplayConnection" where
  "new_replay e =
     (let flat = concat (map batches (streams e)) in
      \<lparr>rp_path = disk_path e,
       order = (if list_ex cb_has_index flat then sort_key cb_index flat else flat),
       cursor = 0, finished = False, last_batch_index = INVALID_INDEX, last_partition_values = [], disk_handle = None\<rparr>)"

text \<open>An entry without bytes and without a place on disk would dereference a null buffer.\<close>

datatype 'd replayed = EndOfStream | Batch 'd | Throws | NullBuffer

definition ReadDataBatch ::
  "'fs file_system \<Rightarrow> 'd ipc_format \<Rightarrow> 'fs \<Rightarrow> CachedReplayConnection \<Rightarrow> 'd replayed \<times> CachedReplayConnection" where
  "ReadDataBatch F X s c =
     (if cursor c \<ge> length (order c) then
        (EndOfStream, c\<lparr>finished := True, last_batch_index := INVALID_INDEX, last_partition_values := []\<rparr>)
      else
        let cached = order c ! cursor c;
            c1 = c\<lparr>cursor := cursor c + 1\<rparr>;
            deliver = (\<lambda>ipc c'.
              case ic_decode X ipc of
                None \<Rightarrow> (Throws, c')
              | Some d \<Rightarrow> (Batch d, c'\<lparr>last_batch_index := (if cb_has_index cached then cb_index cached else INVALID_INDEX),
                                     last_partition_values := cb_pv cached\<rparr>)) in
        case cb_ipc cached of
          Some ipc \<Rightarrow> deliver ipc c1
        | None \<Rightarrow>
            if cb_disk_offset cached < 0 then (NullBuffer, c1)
            else
              case (case disk_handle c of Some h \<Rightarrow> Some h | None \<Rightarrow> fs_read F s (rp_path c)) of
                None \<Rightarrow> (Throws, c1)
              | Some h \<Rightarrow>
                  let c2 = c1\<lparr>disk_handle := Some h\<rparr> in
                  if cb_disk_length cached < 0 then (Throws, c2)
                  else case bytes_at h (nat (cb_disk_length cached)) (cb_disk_offset cached) of
                    None \<Rightarrow> (Throws, c2)
                  | Some ipc \<Rightarrow> deliver ipc c2)"

text \<open>The scan reads until the end of the stream; the file system may change between two reads.\<close>

fun replay :: "'fs file_system \<Rightarrow> 'd ipc_format \<Rightarrow> 'fs list \<Rightarrow> CachedReplayConnection \<Rightarrow> ('d \<times> u64 \<times> string) list \<times> 'd replayed" where
  "replay F X [] c = ([], Throws)"
| "replay F X (s # ss) c =
     (case ReadDataBatch F X s c of
        (Batch d, c') \<Rightarrow> (case replay F X ss c' of (ds, r) \<Rightarrow> ((d, last_batch_index c', last_partition_values c') # ds, r))
      | (r, c') \<Rightarrow> ([], r))"

section \<open>Partitions served together\<close>

fun renumber :: "u64 \<Rightarrow> VgiCachedBatch list \<Rightarrow> VgiCachedBatch list" where
  "renumber seq [] = []"
| "renumber seq (b # bs) = b\<lparr>cb_has_index := True, cb_index := seq\<rparr> # renumber (seq + 1) bs"

definition combined_entry :: "VgiResultCacheKey \<Rightarrow> string \<Rightarrow> VgiResultCacheEntry list \<Rightarrow> VgiResultCacheEntry" where
  "combined_entry key catalog hs =
     (let merged = renumber 0 (concat (map all_batches hs));
          rows = (\<Sum>b\<leftarrow>merged. cb_rows b); bytes = (\<Sum>h\<leftarrow>hs. etotal_bytes h) in
      blank_entry key\<lparr>catalog_name := catalog, enever_expires := True,
        streams := [\<lparr>batches = merged, sbytes = bytes, srows = rows\<rparr>], erows := rows, etotal_bytes := bytes\<rparr>)"

text \<open>All partitions hit in memory, or the scan goes to the worker.\<close>

definition serve_partitions :: "VgiResultCacheKey \<Rightarrow> string \<Rightarrow> VgiResultCacheEntry option list \<Rightarrow> VgiResultCacheEntry option" where
  "serve_partitions key catalog found =
     (if found \<noteq> [] \<and> list_all (\<lambda>h. case h of None \<Rightarrow> False | Some e \<Rightarrow> \<not> disk_backed e) found
      then Some (combined_entry key catalog (map the found)) else None)"

section \<open>Renewal\<close>

text \<open>
  A reply that the stored result is unmodified. Times are in nanoseconds; the difference of two times
  is cast to seconds towards zero.
\<close>

definition prior_seconds :: "VgiResultCacheEntry \<Rightarrow> int" where
  "prior_seconds e = (let d = eexpires_at e - stored_at e in if d \<ge> 0 then d div 1000000000 else - ((- d) div 1000000000))"

definition refresh_validators :: "VgiCacheControl \<Rightarrow> VgiResultCacheEntry \<Rightarrow> VgiResultCacheEntry" where
  "refresh_validators cc e =
     (let e1 = (if cc_etag cc \<noteq> [] then e\<lparr>eetag := cc_etag cc\<rparr> else e) in
      if cc_last_modified cc \<noteq> [] then e1\<lparr>elast_modified := cc_last_modified cc\<rparr> else e1)"

definition MaybeSlideRevalidatedEntry :: "int \<Rightarrow> VgiCacheControl \<Rightarrow> VgiResultCacheEntry \<Rightarrow> VgiResultCacheEntry" where
  "MaybeSlideRevalidatedEntry now cc orig =
     (let ttl0 = (case ttl_seconds cc of None \<Rightarrow> 0 | Some t \<Rightarrow> t);
          ttl = (if ttl0 \<le> 0 \<and> expires_rfc3339 cc = [] \<and> \<not> enever_expires orig
                 then (if prior_seconds orig > 0 then prior_seconds orig else 0) else ttl0);
          e1 = orig\<lparr>stored_at := now\<rparr>;
          e2 = (if enever_expires orig then e1 else e1\<lparr>eexpires_at := now + (if ttl > 0 then ttl else 0) * 1000000000\<rparr>) in
      refresh_validators cc e2)"

definition SlideRevalidatedExchangeEntry :: "int \<Rightarrow> VgiCacheControl \<Rightarrow> bool \<Rightarrow> VgiResultCacheEntry \<Rightarrow> VgiResultCacheEntry \<times> bool" where
  "SlideRevalidatedExchangeEntry now cc allow_disk e =
     (let ttl0 = (case ttl_seconds cc of None \<Rightarrow> 0 | Some t \<Rightarrow> t);
          ttl1 = (if ttl0 \<le> 0 \<and> \<not> enever_expires e then (if prior_seconds e > 0 then prior_seconds e else 0) else ttl0);
          ttl = (if ttl1 > VGI_CACHE_MAX_TTL_SECONDS then VGI_CACHE_MAX_TTL_SECONDS else ttl1);
          e1 = e\<lparr>stored_at := now\<rparr>;
          e2 = (if enever_expires e then e1 else e1\<lparr>eexpires_at := now + (if ttl > 0 then ttl else 0) * 1000000000\<rparr>) in
      (refresh_validators cc e2, allow_disk \<and> (enever_expires e \<or> eexpires_at e2 > stored_at e2)))"

section \<open>Exchange results\<close>

datatype exchange_skip = NotCacheable | TransactionScopedResult | ImmediatelyStalePerValue | NoFreshness

definition exchange_batch :: "'d ipc_format \<Rightarrow> 'd \<times> int \<Rightarrow> VgiCachedBatch" where
  "exchange_batch X b = \<lparr>cb_ipc = Some (ic_encode X (fst b) ''none'' 1), cb_rows = snd b, cb_index = 0, cb_has_index = False,
     cb_pv = [], cb_disk_offset = - 1, cb_disk_length = 0\<rparr>"

text \<open>The entry handed to \<^verbatim>\<open>Insert\<close> and whether it may go to disk, or the reason it is not stored.\<close>

definition StoreExchangeMemoEntry ::
  "'d ipc_format \<Rightarrow> int \<Rightarrow> VgiResultCacheKey \<Rightarrow> VgiCacheControl \<Rightarrow> string \<Rightarrow> int \<Rightarrow> ('d \<times> int) option list \<Rightarrow> bool \<Rightarrow> bool \<Rightarrow>
   exchange_skip + (VgiResultCacheEntry \<times> bool)" where
  "StoreExchangeMemoEntry X now key cc catalog default_ttl out_batches allow_disk allow_immediately_stale =
     (if \<not> present cc \<or> no_store cc \<or> \<not> Cacheable cc then Inl NotCacheable
      else if TransactionScoped cc then Inl TransactionScopedResult
      else
        let ttl0 = (case ttl_seconds cc of Some t \<Rightarrow> t | None \<Rightarrow> default_ttl);
            ttl = (if ttl0 > VGI_CACHE_MAX_TTL_SECONDS then VGI_CACHE_MAX_TTL_SECONDS else ttl0);
            stale = (ttl \<le> 0) in
        if stale \<and> \<not> allow_immediately_stale then Inl ImmediatelyStalePerValue
        else if stale \<and> \<not> (cc_revalidatable cc \<and> cc_etag cc \<noteq> []) then Inl NoFreshness
        else
          let bs = map (exchange_batch X) (map the (filter (\<lambda>b. b \<noteq> None) out_batches));
              rows = (\<Sum>b\<leftarrow>bs. cb_rows b); bytes = (\<Sum>b\<leftarrow>bs. int (length (the (cb_ipc b)))) in
          Inr (blank_entry key\<lparr>catalog_name := catalog, escope := cc_scope cc, eetag := cc_etag cc, elast_modified := cc_last_modified cc,
                 erevalidatable := cc_revalidatable cc, stored_at := now,
                 eexpires_at := now + (if stale then 0 else ttl) * 1000000000,
                 streams := [\<lparr>batches = bs, sbytes = bytes, srows = rows\<rparr>], erows := rows, etotal_bytes := bytes\<rparr>,
               allow_disk \<and> \<not> stale))"

text \<open>Reading one batch of such an entry opens the object for each batch.\<close>

definition DeserializeCachedRecordBatch ::
  "'fs file_system \<Rightarrow> 'd ipc_format \<Rightarrow> 'fs \<Rightarrow> VgiResultCacheEntry \<Rightarrow> VgiCachedBatch \<Rightarrow> 'd option" where
  "DeserializeCachedRecordBatch F X s e cached =
     (case (case cb_ipc cached of
              Some ipc \<Rightarrow> Some ipc
            | None \<Rightarrow>
                if cb_disk_offset cached < 0 \<or> cb_disk_length cached < 0 then None
                else case fs_read F s (disk_path e) of
                  None \<Rightarrow> None
                | Some h \<Rightarrow> bytes_at h (nat (cb_disk_length cached)) (cb_disk_offset cached)) of
        None \<Rightarrow> None
      | Some ipc \<Rightarrow> ic_decode X ipc)"

section \<open>What is replayed\<close>

text \<open>The bytes of a cached batch, with the object's bytes at hand, and what a read reports for it.\<close>

definition cached_bytes :: "string \<Rightarrow> VgiCachedBatch \<Rightarrow> string option" where
  "cached_bytes h cb =
     (case cb_ipc cb of
        Some ipc \<Rightarrow> Some ipc
      | None \<Rightarrow> if cb_disk_offset cb < 0 \<or> cb_disk_length cb < 0 then None
                else bytes_at h (nat (cb_disk_length cb)) (cb_disk_offset cb))"

definition decoded :: "'d ipc_format \<Rightarrow> string \<Rightarrow> VgiCachedBatch \<Rightarrow> 'd option" where
  "decoded X h cb = Option.bind (cached_bytes h cb) (ic_decode X)"

definition reported :: "'d ipc_format \<Rightarrow> string \<Rightarrow> VgiCachedBatch \<Rightarrow> 'd \<times> u64 \<times> string" where
  "reported X h cb = (the (decoded X h cb), if cb_has_index cb then cb_index cb else INVALID_INDEX, cb_pv cb)"

lemma ReadDataBatch_next:
  assumes "cursor c < length (order c)" "decoded X h (order c ! cursor c) \<noteq> None"
    "disk_handle c = Some h \<or> (disk_handle c = None \<and> fs_read F s (rp_path c) = Some h)"
  shows "\<exists>c'. ReadDataBatch F X s c = (Batch (the (decoded X h (order c ! cursor c))), c') \<and> cursor c' = cursor c + 1 \<and>
    order c' = order c \<and> rp_path c' = rp_path c \<and> (disk_handle c' = disk_handle c \<or> disk_handle c' = Some h) \<and>
    (cb_ipc (order c ! cursor c) = None \<longrightarrow> disk_handle c' = Some h) \<and>
    (last_batch_index c', last_partition_values c') = snd (reported X h (order c ! cursor c))"
proof -
  let ?cb = "order c ! cursor c"
  obtain ipc d where i: "cached_bytes h ?cb = Some ipc" "ic_decode X ipc = Some d"
    using assms(2) by (auto simp: decoded_def bind_eq_Some_conv)
  then have d: "decoded X h ?cb = Some d" by (simp add: decoded_def)
  show ?thesis
  proof (cases "cb_ipc ?cb")
    case (Some x)
    then show ?thesis using assms(1) i d by (simp add: ReadDataBatch_def Let_def cached_bytes_def reported_def)
  next
    case None
    then show ?thesis
      using assms(1,3) i d by (auto simp: ReadDataBatch_def Let_def cached_bytes_def reported_def split: if_splits)
  qed
qed

lemma replay_end: "cursor c \<ge> length (order c) \<Longrightarrow> ss \<noteq> [] \<Longrightarrow> replay F X ss c = ([], EndOfStream)"
  by (cases ss) (simp_all add: ReadDataBatch_def)

lemma replay_rest:
  assumes "\<forall>cb \<in> set (drop (cursor c) (order c)). decoded X h cb \<noteq> None" "length (order c) - cursor c < length ss"
    "disk_handle c = Some h \<or> (disk_handle c = None \<and> (\<forall>cb \<in> set (drop (cursor c) (order c)). cb_ipc cb \<noteq> None))"
  shows "replay F X ss c = (map (reported X h) (drop (cursor c) (order c)), EndOfStream)"
  using assms
proof (induction ss arbitrary: c)
  case (Cons s ss)
  show ?case
  proof (cases "cursor c < length (order c)")
    case True
    let ?cb = "order c ! cursor c"
    have dr: "drop (cursor c) (order c) = ?cb # drop (Suc (cursor c)) (order c)" using True by (rule Cons_nth_drop_Suc [symmetric])
    have ok: "decoded X h ?cb \<noteq> None" using Cons.prems(1) dr by simp
    obtain c' where c': "ReadDataBatch F X s c = (Batch (the (decoded X h ?cb)), c')" "cursor c' = Suc (cursor c)" "order c' = order c"
      "disk_handle c' = disk_handle c \<or> disk_handle c' = Some h" "(last_batch_index c', last_partition_values c') = snd (reported X h ?cb)"
    proof (cases "disk_handle c")
      case None
      then obtain ipc where "cb_ipc ?cb = Some ipc" using Cons.prems(3) dr by auto
      then show ?thesis using that True ok None
        by (auto simp: ReadDataBatch_def Let_def decoded_def cached_bytes_def reported_def split: option.splits)
    next
      case (Some x)
      then show ?thesis using that ReadDataBatch_next [OF True ok, of F s] Cons.prems(3) by auto
    qed
    have "length (order c) - Suc (cursor c) < length ss" using Cons.prems(2) True by (simp add: Suc_diff_Suc)
    then have "replay F X ss c' = (map (reported X h) (drop (cursor c') (order c')), EndOfStream)"
      using Cons.prems c'(2-4) dr by (intro Cons.IH) auto
    moreover have "(the (decoded X h ?cb), last_batch_index c', last_partition_values c') = reported X h ?cb"
      using c'(5) by (simp add: reported_def)
    ultimately show ?thesis using c' dr by simp
  qed (simp add: ReadDataBatch_def)
qed simp

text \<open>
  Every batch is replayed once, in the order of the entry or, where the worker numbered batches, by
  number, batches with the same number keeping their order; then the end of the stream.
\<close>

lemma replay_order:
  assumes "order (new_replay e) = os"
  shows "mset os = mset (all_batches e)"
    "list_ex cb_has_index (all_batches e) \<Longrightarrow> sorted (map cb_index os)"
    "filter (\<lambda>cb. cb_index cb = i) os = filter (\<lambda>cb. cb_index cb = i) (all_batches e)"
    "\<not> list_ex cb_has_index (all_batches e) \<Longrightarrow> os = all_batches e"
proof -
  have o: "os = (if list_ex cb_has_index (all_batches e) then sort_key cb_index (all_batches e) else all_batches e)"
    using assms by (auto simp: new_replay_def Let_def all_batches_def split: if_splits)
  have "filter (\<lambda>cb. cb_index cb = i) (sort_key cb_index xs) = filter (\<lambda>cb. cb_index cb = i) xs" for xs :: "VgiCachedBatch list"
    by (rule sort_key_stable)
  with o show "mset os = mset (all_batches e)" "list_ex cb_has_index (all_batches e) \<Longrightarrow> sorted (map cb_index os)"
    "filter (\<lambda>cb. cb_index cb = i) os = filter (\<lambda>cb. cb_index cb = i) (all_batches e)"
    "\<not> list_ex cb_has_index (all_batches e) \<Longrightarrow> os = all_batches e"
    by simp_all
qed

theorem replay_in_memory:
  assumes "\<forall>cb \<in> set (all_batches e). \<exists>ipc d. cb_ipc cb = Some ipc \<and> ic_decode X ipc = Some d" "length (all_batches e) < length ss"
  shows "replay F X ss (new_replay e) = (map (reported X []) (order (new_replay e)), EndOfStream)"
proof -
  have s: "set (order (new_replay e)) = set (all_batches e)" "length (order (new_replay e)) = length (all_batches e)"
    using replay_order(1) [of e] by (metis mset_eq_setD, metis mset_eq_length)
  have c: "cursor (new_replay e) = 0" "disk_handle (new_replay e) = None" by (simp_all add: new_replay_def Let_def)
  show ?thesis
    using replay_rest [of "new_replay e" X "[]" ss F] assms s c by (fastforce simp: decoded_def cached_bytes_def)
qed

text \<open>From disk only the first read needs the object's name: the handle outlives a removal.\<close>

theorem replay_from_disk:
  assumes "fs_read F s (disk_path e) = Some h" "length (all_batches e) \<le> length ss"
    "\<forall>cb \<in> set (all_batches e). cb_ipc cb = None \<and> decoded X h cb \<noteq> None"
  shows "replay F X (s # ss) (new_replay e) = (map (reported X h) (order (new_replay e)), EndOfStream)"
proof -
  let ?c = "new_replay e"
  have s: "set (order ?c) = set (all_batches e)" "length (order ?c) = length (all_batches e)"
    using replay_order(1) [of e] by (metis mset_eq_setD, metis mset_eq_length)
  have c: "cursor ?c = 0" "disk_handle ?c = None" "rp_path ?c = disk_path e" by (simp_all add: new_replay_def Let_def)
  show ?thesis
  proof (cases "order ?c")
    case Nil
    then show ?thesis using replay_end [of ?c "s # ss"] by simp
  next
    case (Cons cb cbs)
    then have cb: "cb_ipc cb = None" "decoded X h cb \<noteq> None" using assms(3) s(1) by auto
    then obtain c' where c': "ReadDataBatch F X s ?c = (Batch (the (decoded X h cb)), c')" "cursor c' = 1" "order c' = cb # cbs"
      "disk_handle c' = Some h" "(last_batch_index c', last_partition_values c') = snd (reported X h cb)"
      using ReadDataBatch_next [of ?c X h F s] Cons c assms(1) by auto
    have "replay F X ss c' = (map (reported X h) cbs, EndOfStream)"
      using replay_rest [of c' X h ss F] c' assms(2,3) s Cons by auto
    moreover have "(the (decoded X h cb), last_batch_index c', last_partition_values c') = reported X h cb"
      using c'(5) by (simp add: reported_def)
    ultimately show ?thesis using c'(1) Cons by simp
  qed
qed

text \<open>The ranges of a table of contents are the payloads.\<close>

lemma toc_bytes:
  "map (cached_bytes (pre @ concat (map (\<lambda>cb. frame cb (f cb)) cbs))) (toc_of (length pre) f cbs) = map (Some \<circ> f) cbs"
proof (induction cbs arbitrary: pre)
  case (Cons cb cbs)
  define rest where "rest = concat (map (\<lambda>cb. frame cb (f cb)) cbs)"
  have "pre @ frame cb (f cb) @ rest = (pre @ batch_header cb (length (f cb))) @ f cb @ rest" by (simp add: frame_def)
  moreover have "int (length (pre @ batch_header cb (length (f cb)))) = int (length pre + 40 + length (cb_pv cb))" by (simp add: batch_header_def)
  ultimately have "bytes_at (pre @ frame cb (f cb) @ rest) (length (f cb)) (int (length pre + 40 + length (cb_pv cb))) = Some (f cb)"
    using bytes_at_mid by metis
  then have "cached_bytes (pre @ frame cb (f cb) @ rest) (toc_entry (length pre + 40 + length (cb_pv cb)) cb (length (f cb))) = Some (f cb)"
    by (simp add: cached_bytes_def toc_entry_def)
  with Cons [of "pre @ frame cb (f cb)"] show ?case by (simp add: rest_def)
qed simp

lemma toc_no_ipc: "cb \<in> set (toc_of off f cbs) \<Longrightarrow> cb_ipc cb = None"
  by (induction cbs arbitrary: off) (auto simp: toc_entry_def)

section \<open>From capture to replay\<close>

lemma capture_meta_fields:
  assumes "capture_meta C now cc = Some e"
  shows "escope e = cc_scope cc" "eetag e = cc_etag cc" "elast_modified e = cc_last_modified cc" "catalog_name e = c_catalog C"
    "\<not> TransactionScoped cc \<Longrightarrow> ekey e = c_key C"
  using assms by (auto simp: capture_meta_def Let_def blank_entry_def split: if_splits)

lemma codec_one_line: "one_line (ResolveDiskCompressionCodec c)"
proof -
  have "ResolveDiskCompressionCodec c \<in> {''none'', ''zstd'', ''lz4''}" by (simp add: ResolveDiskCompressionCodec_def Let_def)
  then show ?thesis by (auto simp: one_line_def)
qed

lemma log_data:
  assumes "ipc_law (c_ipc C)" "log_of C rs log" "t < length rs"
  shows "map (\<lambda>e. the (ic_decode (c_ipc C) (snd (snd e)))) (filter (\<lambda>e. fst e = t) log) = map ab_data (took (rs ! t))"
proof -
  let ?g = "\<lambda>cb. the (ic_decode (c_ipc C) (the (cb_ipc cb)))"
  have "the (ic_decode (c_ipc C) (snd (snd e))) = ?g (fst (snd e))" if "e \<in> set log" for e
    using assms(1,2) that by (fastforce simp: log_of_def ipc_law_def)
  then have "map (\<lambda>e. the (ic_decode (c_ipc C) (snd (snd e)))) (filter (\<lambda>e. fst e = t) log) =
      map ?g (map (fst \<circ> snd) (filter (\<lambda>e. fst e = t) log))" by simp
  also have "\<dots> = map ?g (map (cached_batch (c_ipc C)) (took (rs ! t)))" using assms(2,3) by (simp only: log_of_def)
  also have "\<dots> = map ab_data (took (rs ! t))" using assms(1) by (simp add: ipc_law_def comp_def)
  finally show ?thesis .
qed

lemma mset_by_reader:
  "\<forall>e \<in> set log. fst e < n \<Longrightarrow> mset (map g log) = (\<Sum>t\<leftarrow>[0..<n]. mset (map g (filter (\<lambda>e. fst e = t) log)))"
proof (induction log)
  case Nil
  show ?case by (induction n) simp_all
next
  case (Cons e log)
  have "(\<Sum>t\<leftarrow>[0..<n]. mset (map g (filter (\<lambda>e. fst e = t) (e # log)))) =
      (\<Sum>t\<leftarrow>[0..<n]. (if t = fst e then {#g e#} else {#}) + mset (map g (filter (\<lambda>e. fst e = t) log)))"
    by (rule arg_cong [where f = sum_list]) (auto intro!: map_cong)
  also have "\<dots> = (\<Sum>t\<leftarrow>[0..<n]. if t = fst e then {#g e#} else {#}) + mset (map g log)"
    using Cons by (simp only: sum_list_addf) simp
  also have "(\<Sum>t\<leftarrow>[0..<n]. if t = fst e then {#g e#} else {#}) = {#g e#}"
    using Cons.prems by (subst sum_list_distinct_conv_sum_set) (simp_all add: sum.delta)
  finally show ?case by simp
qed

lemma log_everything:
  assumes "ipc_law (c_ipc C)" "log_of C rs log"
  shows "mset (map (\<lambda>e. the (ic_decode (c_ipc C) (snd (snd e)))) log) = (\<Sum>r\<leftarrow>rs. mset (map ab_data (took r)))"
proof -
  have "\<forall>e \<in> set log. fst e < length rs" using assms(2) by (auto simp: log_of_def)
  note mset_by_reader [OF this, of "\<lambda>e. the (ic_decode (c_ipc C) (snd (snd e)))"]
  also have "(\<Sum>t\<leftarrow>[0..<length rs]. mset (map (\<lambda>e. the (ic_decode (c_ipc C) (snd (snd e)))) (filter (\<lambda>e. fst e = t) log))) =
      (\<Sum>t\<leftarrow>[0..<length rs]. mset (map ab_data (took (rs ! t))))"
  proof (rule arg_cong [where f = sum_list], rule map_cong [OF refl])
    fix t assume "t \<in> set [0..<length rs]"
    then have "t < length rs" by simp
    then show "mset (map (\<lambda>e. the (ic_decode (c_ipc C) (snd (snd e)))) (filter (\<lambda>e. fst e = t) log)) = mset (map ab_data (took (rs ! t)))"
      by (simp only: log_data [OF assms])
  qed
  also have "\<dots> = (\<Sum>r\<leftarrow>rs. mset (map ab_data (took r)))"
    by (rule arg_cong [where f = sum_list], rule nth_equalityI) simp_all
  finally show ?thesis .
qed

text \<open>The entry the streaming loader builds for a committed capture, and its replay.\<close>

lemma toc_replay:
  assumes "ipc_law (c_ipc C)" "log_of C rs log" "fs_read F s (disk_path e) = Some (log_blob log)"
    "all_batches e = toc_of 4 (the \<circ> cb_ipc) (log_batches log)" "length log \<le> length ss"
  obtains out where "replay F (c_ipc C) (s # ss) (new_replay e) = (out, EndOfStream)"
    "mset (map fst out) = (\<Sum>r\<leftarrow>rs. mset (map ab_data (took r)))"
    "(\<forall>e \<in> set log. \<not> cb_has_index (fst (snd e))) \<longrightarrow> map fst out = map (\<lambda>e. the (ic_decode (c_ipc C) (snd (snd e)))) log"
proof -
  let ?X = "c_ipc C" and ?h = "log_blob log" and ?toc = "toc_of 4 (the \<circ> cb_ipc) (log_batches log)"
  let ?dat = "\<lambda>e. the (ic_decode ?X (snd (snd e)))"
  have bts: "map (cached_bytes ?h) ?toc = map (\<lambda>e. Some (snd (snd e))) log"
    using toc_bytes [of "''VRC1''" "the \<circ> cb_ipc" "log_batches log", unfolded VRC1_length]
    by (simp add: captured_blob_def log_batches_def comp_def split_def)
  have dec: "map (decoded ?X ?h) ?toc = map (\<lambda>e. ic_decode ?X (snd (snd e))) log"
  proof -
    have "map (decoded ?X ?h) ?toc = map (\<lambda>x. Option.bind x (ic_decode ?X)) (map (cached_bytes ?h) ?toc)"
      by (simp add: decoded_def comp_def)
    then show ?thesis unfolding bts by (simp add: comp_def)
  qed
  have some: "ic_decode ?X (snd (snd e)) \<noteq> None" if "e \<in> set log" for e using assms(2) that by (fastforce simp: log_of_def)
  have ok: "\<forall>cb \<in> set (all_batches e). cb_ipc cb = None \<and> decoded ?X ?h cb \<noteq> None" unfolding assms(4)
  proof
    fix cb assume "cb \<in> set ?toc"
    then have "decoded ?X ?h cb \<in> set (map (decoded ?X ?h) ?toc)" unfolding set_map by (rule imageI)
    then have "decoded ?X ?h cb \<noteq> None" unfolding dec set_map using some by fastforce
    then show "cb_ipc cb = None \<and> decoded ?X ?h cb \<noteq> None" using toc_no_ipc [OF \<open>cb \<in> set ?toc\<close>] by simp
  qed
  have "length (all_batches e) \<le> length ss" using arg_cong [OF dec, of length] assms(4,5) by simp
  note r = replay_from_disk [OF assms(3) this ok]
  have data: "map (the \<circ> decoded ?X ?h) ?toc = map ?dat log" using arg_cong [OF dec, of "map the"] by (simp add: comp_def)
  have fst: "map fst (map (reported ?X ?h) xs) = map (the \<circ> decoded ?X ?h) xs" for xs by (simp add: reported_def comp_def)
  have "mset (map fst (map (reported ?X ?h) (order (new_replay e)))) = mset (map ?dat log)"
    unfolding fst data [symmetric] using replay_order(1) [of e] assms(4) by (simp only: mset_map refl)
  then have 1: "mset (map fst (map (reported ?X ?h) (order (new_replay e)))) = (\<Sum>r\<leftarrow>rs. mset (map ab_data (took r)))"
    using log_everything [OF assms(1,2)] by simp
  have nidx: "map fst (map (reported ?X ?h) (order (new_replay e))) = map ?dat log" if "\<forall>e \<in> set log. \<not> cb_has_index (fst (snd e))"
  proof -
    have "map cb_has_index ?toc = map (\<lambda>e. cb_has_index (fst (snd e))) log"
      by (simp add: toc_of_meta log_batches_def split_def)
    then have "\<not> list_ex (\<lambda>x. x) (map cb_has_index ?toc)" using that by (simp add: list_ex_iff)
    then have "\<not> list_ex cb_has_index ?toc" by (simp add: list_ex_iff)
    then have "order (new_replay e) = ?toc" using replay_order(4) [of e] assms(4) by simp
    then show ?thesis by (simp only: fst data)
  qed
  show ?thesis by (rule that [OF r 1]) (use nidx in blast)
qed

text \<open>
  What the worker produced for the scan: the splits of the catalog, or what each reader's own stream
  held, in either case without the batches that have no rows.
\<close>

definition produced :: "('d, 'fs) capture_config \<Rightarrow> 'd reader list \<Rightarrow> 'd arrow_batch list" where
  "produced C rs = with_rows (if c_split_path C then concat (c_splits C) else concat (map source rs))"

lemma mset_concat_map: "mset (concat xss) = (\<Sum>xs\<leftarrow>xss. mset xs)"
  by (induction xss) simp_all

lemma image_mset_sum_list: "image_mset f (\<Sum>x\<leftarrow>xs. g x) = (\<Sum>x\<leftarrow>xs. image_mset f (g x))"
  by (induction xs) simp_all

lemma sum_mset_of_sum: "sum_mset (\<Sum>x\<leftarrow>xs. g x) = (\<Sum>x\<leftarrow>xs. sum_mset (g x))"
  by (induction xs) simp_all

lemma size_sum_list: "size (\<Sum>x\<leftarrow>xs. g x) = (\<Sum>x\<leftarrow>xs. size (g x))" for g :: "'a \<Rightarrow> 'b multiset"
  by (induction xs) simp_all

lemma everything_produced:
  assumes "everything C rs"
  shows "(\<Sum>r\<leftarrow>rs. mset (map ab_data (took r))) = mset (map ab_data (produced C rs))"
proof -
  have "(\<Sum>r\<leftarrow>rs. mset (took r)) = mset (produced C rs)"
  proof (cases "c_split_path C")
    case False
    then have "map (\<lambda>r. mset (took r)) rs = map (\<lambda>r. mset (with_rows (source r))) rs" using assms by (simp add: everything_def)
    then show ?thesis using False by (simp only: produced_def if_False filter_concat mset_concat_map map_map comp_def)
  next
    case True
    then have "(\<Sum>r\<leftarrow>rs. mset (took r)) = (\<Sum>xs\<leftarrow>c_splits C. mset (with_rows xs))" using assms by (simp add: everything_def)
    then show ?thesis using True by (simp only: produced_def if_True filter_concat mset_concat_map map_map comp_def)
  qed
  from arg_cong [OF this, of "image_mset ab_data"] show ?thesis by (simp add: image_mset_sum_list)
qed

lemma log_rows:
  assumes "log_of C rs log"
  shows "(\<Sum>(t, cb, body)\<leftarrow>log. cb_rows cb) = (\<Sum>r\<leftarrow>rs. \<Sum>b\<leftarrow>took r. ab_rows b)"
proof -
  let ?g = "\<lambda>e. cb_rows (fst (snd e))"
  have lt: "\<forall>e \<in> set log. fst e < length rs" using assms by (auto simp: log_of_def)
  have r: "map ?g (filter (\<lambda>e. fst e = t) log) = map ab_rows (took (rs ! t))" if "t < length rs" for t
  proof -
    have "map cb_rows (map (fst \<circ> snd) (filter (\<lambda>e. fst e = t) log)) = map cb_rows (map (cached_batch (c_ipc C)) (took (rs ! t)))"
      using assms that by (simp only: log_of_def)
    then show ?thesis by (simp add: cached_batch_def comp_def)
  qed
  have "sum_mset (mset (map ?g log)) = (\<Sum>t\<leftarrow>[0..<length rs]. sum_list (map ?g (filter (\<lambda>e. fst e = t) log)))"
    by (simp only: mset_by_reader [OF lt] sum_mset_of_sum sum_mset_sum_list)
  also have "\<dots> = (\<Sum>t\<leftarrow>[0..<length rs]. sum_list (map ab_rows (took (rs ! t))))"
    by (rule arg_cong [where f = sum_list], rule map_cong [OF refl], rule arg_cong [where f = sum_list], rule r) simp
  also have "\<dots> = (\<Sum>r\<leftarrow>rs. \<Sum>b\<leftarrow>took r. ab_rows b)"
    by (rule arg_cong [where f = sum_list], rule nth_equalityI) simp_all
  finally show ?thesis by (simp only: split_def sum_mset_sum_list)
qed

lemma log_length:
  assumes "ipc_law (c_ipc C)" "log_of C rs log"
  shows "length log = (\<Sum>r\<leftarrow>rs. length (took r))"
  using arg_cong [OF log_everything [OF assms], of size] by (simp add: size_sum_list)

text \<open>The conditions under which a stored reference file reads back: its text fields hold no line break, and the row counts and
  the expiry fit the signed 64-bit fields of the format.\<close>

definition fits_the_format :: "('d, 'fs) capture_config \<Rightarrow> int \<Rightarrow> int \<Rightarrow> ('d, 'fs) capture \<Rightarrow> bool" where
  "fits_the_format C now now_unix S \<longleftrightarrow>
     one_line (cc_scope (latched S)) \<and> one_line (cc_etag (latched S)) \<and> one_line (cc_last_modified (latched S)) \<and>
     one_line (c_catalog C) \<and> one_line (function_name (c_key C)) \<and>
     list_all (\<lambda>r. list_all (\<lambda>b. int64 (ab_rows b)) (took r)) (readers S) \<and> int64 (\<Sum>r\<leftarrow>readers S. \<Sum>b\<leftarrow>took r. ab_rows b) \<and>
     (case capture_meta C now (latched S) of None \<Rightarrow> True | Some meta \<Rightarrow> int64 (ComputeExpiresUnix now_unix meta))"

definition lives_at :: "('d, 'fs) capture_config \<Rightarrow> int \<Rightarrow> int \<Rightarrow> int \<Rightarrow> ('d, 'fs) capture \<Rightarrow> bool" where
  "lives_at C now now_unix load_unix S \<longleftrightarrow>
     (case capture_meta C now (latched S) of None \<Rightarrow> True
      | Some meta \<Rightarrow> enever_expires meta \<or> load_unix < ComputeExpiresUnix now_unix meta)"

lemma log_from_reader:
  assumes "log_of C rs log" "e \<in> set log"
  obtains b where "fst e < length rs" "b \<in> set (took (rs ! fst e))" "fst (snd e) = cached_batch (c_ipc C) b"
proof -
  have t: "fst e < length rs" using assms by (auto simp: log_of_def)
  have "map (fst \<circ> snd) (filter (\<lambda>x. fst x = fst e) log) = map (cached_batch (c_ipc C)) (took (rs ! fst e))"
    using assms(1) t by (simp only: log_of_def)
  moreover have "fst (snd e) \<in> set (map (fst \<circ> snd) (filter (\<lambda>x. fst x = fst e) log))" using assms(2) by auto
  ultimately show ?thesis using that t by auto
qed

lemma log_rows_fit:
  assumes "log_of C rs log" "list_all (\<lambda>r. list_all (\<lambda>b. int64 (ab_rows b)) (took r)) rs"
  shows "\<forall>cb \<in> set (log_batches log). int64 (cb_rows cb)"
proof
  fix cb assume "cb \<in> set (log_batches log)"
  then obtain e where e: "e \<in> set log" "cb = (fst (snd e))\<lparr>cb_ipc := Some (snd (snd e))\<rparr>" by (auto simp: log_batches_def)
  from log_from_reader [OF assms(1) e(1)] obtain b where b: "fst e < length rs" "b \<in> set (took (rs ! fst e))"
    "fst (snd e) = cached_batch (c_ipc C) b" .
  have "int64 (ab_rows b)" using assms(2) b(2) nth_mem [OF b(1)] unfolding list_all_iff by blast
  then show "int64 (cb_rows cb)" using e(2) b(3) by (simp add: cached_batch_def)
qed

lemma log_no_index:
  assumes "log_of C rs log" "list_all (\<lambda>r. list_all (\<lambda>b. ab_index b = None) (took r)) rs"
  shows "\<forall>e \<in> set log. \<not> cb_has_index (fst (snd e))"
proof
  fix e assume "e \<in> set log"
  from log_from_reader [OF assms(1) this] obtain b where b: "fst e < length rs" "b \<in> set (took (rs ! fst e))"
    "fst (snd e) = cached_batch (c_ipc C) b" .
  have "ab_index b = None" using assms(2) b(2) nth_mem [OF b(1)] unfolding list_all_iff by blast
  then show "\<not> cb_has_index (fst (snd e))" using b(3) by (simp add: cached_batch_def)
qed

text \<open>From the stored files of a committed capture to the entry the streaming loader hands to a replay.\<close>

lemma captured_entry_loads:
  assumes "\<forall>b. IsHex64 (c_sha C b)" "log_of C (readers S) log" "capture_meta C now (latched S) = Some meta"
    "\<not> TransactionScoped (latched S)" "c_disk_dir C \<noteq> []" "length (log_blob log) < 2 ^ 63"
    "fs_read (c_fs C) s (object_path (c_sha C) (c_disk_dir C) (c_key C) (c_sha C (log_blob log))) = Some (log_blob log)"
    "fs_read (c_fs C) s (ref_path (c_sha C) (c_disk_dir C) (c_key C)) =
      Some (ref_text (Fingerprint (c_sha C) (c_key C)) (c_sha C (log_blob log)) (ComputeExpiresUnix now_unix meta)
        (meta\<lparr>erows := (\<Sum>(t, cb, body)\<leftarrow>log. cb_rows cb), etotal_bytes := tot\<rparr>) (ResolveDiskCompressionCodec (c_codec C)))"
    "fits_the_format C now now_unix S" "lives_at C now now_unix load_unix S" "length log < fuel"
  obtains e where
    "LoadFromDiskStreaming (c_fs C) (c_sha C) fuel load_unix load_now (c_key C) (c_disk_dir C) s = Some (Served e)"
    "all_batches e = toc_of 4 (the \<circ> cb_ipc) (log_batches log)"
    "disk_path e = object_path (c_sha C) (c_disk_dir C) (c_key C) (c_sha C (log_blob log))"
proof -
  let ?k = "c_key C" and ?x = "ComputeExpiresUnix now_unix meta" and ?rows = "\<Sum>(t, cb, body)\<leftarrow>log. cb_rows cb"
  let ?text = "ref_text (Fingerprint (c_sha C) ?k) (c_sha C (log_blob log)) ?x
    (meta\<lparr>erows := ?rows, etotal_bytes := tot\<rparr>) (ResolveDiskCompressionCodec (c_codec C))"
  note fm = capture_meta_fields [OF assms(3)]
  have hex: "one_line (c_sha C b)" "c_sha C b \<noteq> []" for b
    using assms(1) [rule_format, of b] IsHex64_chars [of "c_sha C b"] by (auto simp: one_line_def IsHex64_def)
  have fp: "Fingerprint (c_sha C) ?k \<noteq> []" "one_line (Fingerprint (c_sha C) ?k)" by (simp_all only: Fingerprint_def hex not_False_eq_True)
  have p: "parse_ref ?text = \<lparr>rf_keyfp = Fingerprint (c_sha C) ?k, rf_content = c_sha C (log_blob log), rf_scope = cc_scope (latched S),
      rf_etag = cc_etag (latched S), rf_last_modified = cc_last_modified (latched S), rf_catalog = c_catalog C, rf_expires = ?x, rf_rows = ?rows\<rparr>"
    using assms(3,4,9) fm by (subst parse_ref_text) (simp_all add: fp hex codec_one_line fits_the_format_def log_rows [OF assms(2)])
  have live: "?x = 2 ^ 63 - 1 \<or> load_unix < ?x" using assms(3,10) by (auto simp: lives_at_def ComputeExpiresUnix_def)
  have rows: "\<forall>cb \<in> set (log_batches log). int64 (cb_rows cb)"
    using log_rows_fit [OF assms(2)] assms(9) by (simp add: fits_the_format_def)
  have len: "length (log_batches log) < fuel" using assms(11) by (simp add: log_batches_def)
  have hx: "IsHex64 (c_sha C (log_blob log))" using assms(1) by blast
  note l = loaders_agree(2) [OF assms(5) fp(1) assms(8), unfolded p ref_fields.simps, OF refl hx live assms(7) refl assms(6) rows len]
  show ?thesis
    by (rule that [OF l]) (simp_all add: loaded_entry_def expiry_fields_def all_batches_def toc_stream_def)
qed

text \<open>
  C6. A result that was captured by any interleaving of its readers and committed to disk is later served
  complete: a lookup loads it, and replaying the entry ends normally and hands out exactly the batches
  with rows that the worker produced; a batch without rows is skipped by the scan and not stored, and
  a result that has no other batches is never committed. Where the worker numbers no batch, each
  reader's batches come in the order in which it received them.
\<close>

theorem captured_result_replayed:
  assumes "pack_fs_laws (c_fs C)" "writes_local (c_fs C)" "ipc_law (c_ipc C)" "\<forall>b. IsHex64 (c_sha C b)" "captures C S"
    "destroy_capture C now now_unix sync_ok tsuf S = (ToDisk True, S')"
    "\<forall>c. fs_read (c_fs C) (files S) (object_path (c_sha C) (c_disk_dir C) (c_key C) (c_sha C c)) \<in> {None, Some c}"
    "fits_the_format C now now_unix S" "lives_at C now now_unix load_unix S"
    "(\<Sum>r\<leftarrow>readers S. length (took r)) < fuel" "(\<Sum>r\<leftarrow>readers S. length (took r)) \<le> length ss"
  shows "\<exists>e out. LoadFromDiskStreaming (c_fs C) (c_sha C) fuel load_unix load_now (c_key C) (c_disk_dir C) (files S') = Some (Served e) \<and>
    replay (c_fs C) (c_ipc C) (files S' # ss) (new_replay e) = (out, EndOfStream) \<and>
    mset (map fst out) = mset (map ab_data (produced C (readers S))) \<and> out \<noteq> [] \<and>
    (list_all (\<lambda>r. list_all (\<lambda>b. ab_index b = None) (took r)) (readers S) \<longrightarrow>
      list_all (\<lambda>r. subseq (map ab_data (took r)) (map fst out)) (readers S))"
proof -
  obtain log meta tot where l: "log_of C (readers S) log" "everything C (readers S)" "capture_meta C now (latched S) = Some meta"
    "\<not> TransactionScoped (latched S)" "c_disk_dir C \<noteq> []" "length (log_blob log) < 2 ^ 63"
    and obj: "fs_read (c_fs C) (files S') (object_path (c_sha C) (c_disk_dir C) (c_key C) (c_sha C (log_blob log))) = Some (log_blob log)"
    and ref: "fs_read (c_fs C) (files S') (ref_path (c_sha C) (c_disk_dir C) (c_key C)) =
      Some (ref_text (Fingerprint (c_sha C) (c_key C)) (c_sha C (log_blob log)) (ComputeExpiresUnix now_unix meta)
        (meta\<lparr>erows := (\<Sum>(t, cb, body)\<leftarrow>log. cb_rows cb), etotal_bytes := tot\<rparr>) (ResolveDiskCompressionCodec (c_codec C)))"
    using captured_on_disk [OF assms(1-7)] by blast
  note len = log_length [OF assms(3) l(1)]
  obtain e where e: "LoadFromDiskStreaming (c_fs C) (c_sha C) fuel load_unix load_now (c_key C) (c_disk_dir C) (files S') = Some (Served e)"
    "all_batches e = toc_of 4 (the \<circ> cb_ipc) (log_batches log)"
    "disk_path e = object_path (c_sha C) (c_disk_dir C) (c_key C) (c_sha C (log_blob log))"
    by (rule captured_entry_loads [OF assms(4) l(1,3-6) obj ref assms(8,9)]) (use len assms(10) in simp)
  have rd: "fs_read (c_fs C) (files S') (disk_path e) = Some (log_blob log)" using obj e(3) by simp
  have ln: "length log \<le> length ss" using len assms(11) by simp
  obtain out where out: "replay (c_fs C) (c_ipc C) (files S' # ss) (new_replay e) = (out, EndOfStream)"
    "mset (map fst out) = (\<Sum>r\<leftarrow>readers S. mset (map ab_data (took r)))"
    "(\<forall>e \<in> set log. \<not> cb_has_index (fst (snd e))) \<longrightarrow> map fst out = map (\<lambda>e. the (ic_decode (c_ipc C) (snd (snd e)))) log"
    by (rule toc_replay [OF assms(3) l(1) rd e(2) ln])
  have sq: "list_all (\<lambda>r. subseq (map ab_data (took r)) (map fst out)) (readers S)"
    if "list_all (\<lambda>r. list_all (\<lambda>b. ab_index b = None) (took r)) (readers S)"
    unfolding list_all_length out(3) [THEN mp, OF log_no_index [OF l(1) that]]
    by (auto simp: log_data [OF assms(3) l(1), symmetric] intro!: subseq_map)
  have "complete C (S\<lparr>reserved := 0\<rparr>)" using assms(6) by (auto simp: destroy_capture_def Let_def split: if_splits)
  then have "\<exists>r \<in> set (readers S). took r \<noteq> []" using complete_nonempty [OF assms(5)] by (simp add: complete_def)
  then have "size (mset (map fst out)) \<noteq> 0" unfolding out(2) size_sum_list by (auto simp: sum_list_eq_0_iff)
  then have "out \<noteq> []" by auto
  then show ?thesis using e(1) out(1,2) everything_produced [OF l(2)] sq by auto
qed

text \<open>
  One reader whose stream holds a batch without rows and one of one row, and a memory limit of zero:
  the first is skipped, the second goes to disk and is served from there.
\<close>

lemma map_files_WriteAll:
  assumes "s p = Some c" "b \<noteq> []"
  shows "WriteAll map_files p pos b 0 s = (True, pos + length b, s(p \<mapsto> memcpy c pos b))"
  using assms by (subst WriteAll.simps) (auto simp: map_files_def WriteAll.simps)

lemma map_files_begin:
  assumes "dir \<noteq> []" "disk_max \<noteq> 0" "Fingerprint sha k \<noteq> []" "s (capture_tmp sha dir k tsuf) = None"
  shows "\<exists>w. BeginStreamingCapture map_files sha k dir disk_max codec level tsuf s = (Some w, s(capture_tmp sha dir k tsuf \<mapsto> ''VRC1''))"
proof -
  let ?t = "capture_tmp sha dir k tsuf"
  have t: "shard_dir sha dir k @ ''/objects'' @ ''/.tmp-'' @ tsuf = ?t" by (simp add: capture_tmp_def)
  have mk: "make_shard map_files sha dir k s = (True, s)" by (simp add: make_shard_def MkdirP_def map_files_def)
  have op: "fs_open map_files s ?t = Some (s(?t \<mapsto> []))" using assms(4) by (simp add: map_files_def)
  have "WriteAll map_files ?t 0 ''VRC1'' 0 (s(?t \<mapsto> [])) = (True, 4, s(?t \<mapsto> ''VRC1''))"
    by (subst map_files_WriteAll [where c = "[]"]) (simp_all add: memcpy_def)
  with mk op show ?thesis using assms(1-3) unfolding BeginStreamingCapture_def Let_def append_assoc t by simp
qed

lemma map_files_append:
  assumes "stream_ok map_files w s" "wdisk_max w = 1000" "length (hashed w) + length (frame cb body) \<le> 1000" "body \<noteq> []"
  shows "\<exists>w'. append_cb map_files w cb body n s = (True, w', s(tmp_path w \<mapsto> hashed w @ frame cb body))"
proof -
  let ?h = "batch_header cb (length body)" and ?p = "tmp_path w"
  have w: "\<not> wfailed w" "\<not> wfinalized w" "handle w = Some (length (hashed w))" "s ?p = Some (hashed w)"
    "wbytes w = int (length (hashed w))"
    using assms(1) by (simp_all add: stream_ok_def map_files_def)
  have ne: "?h \<noteq> []" by (simp add: batch_header_def put_le_def)
  have 1: "WriteAll map_files ?p (length (hashed w)) ?h 0 s = (True, length (hashed w @ ?h), s(?p \<mapsto> hashed w @ ?h))"
    by (subst map_files_WriteAll [where s = s and p = ?p, OF w(4) ne]) (simp add: memcpy_def)
  have 2: "WriteAll map_files ?p (length (hashed w @ ?h)) body 0 (s(?p \<mapsto> hashed w @ ?h)) =
      (True, length (hashed w @ ?h) + length body, s(?p \<mapsto> hashed w @ frame cb body))"
    by (subst map_files_WriteAll [where p = ?p and c = "hashed w @ ?h", OF _ assms(4)]) (simp_all add: memcpy_def frame_def)
  have "\<not> (wbytes w + (int (length ?h) + int (length body)) > i64_of (wdisk_max w))"
    using assms(2,3) w(5) by (simp add: frame_def i64_of_def)
  then show ?thesis using w(1-3) assms(4) 1 2 unfolding AppendBatch_def Let_def batch_header_def [symmetric] by simp
qed

definition tiny_cc :: VgiCacheControl where
  "tiny_cc = no_cache_control\<lparr>present := True, ttl_seconds := Some 60, partition_scope := True\<rparr>"

definition tiny_batch :: "string arrow_batch" where
  "tiny_batch = \<lparr>ab_data = ''x'', ab_rows = 1, ab_size = 1, ab_index = None, ab_pv = [], ab_cc = tiny_cc\<rparr>"

definition rowless_batch :: "string arrow_batch" where
  "rowless_batch = tiny_batch\<lparr>ab_data := [], ab_rows := 0, ab_size := 0\<rparr>"

definition tiny :: "int \<Rightarrow> (string, string \<rightharpoonup> string) capture_config" where
  "tiny max_entry = \<lparr>c_fs = map_files, c_sha = constant_digest, c_ipc = \<lparr>ic_encode = (\<lambda>d _ _. d), ic_decode = Some\<rparr>, c_key = blank_key,
     c_catalog = ''c'', c_transaction_id = [], c_max_entry_bytes = max_entry, c_default_ttl = 0, c_frozen = False, c_disk_dir = ''d'',
     c_disk_max = 1000, c_codec = ''none'', c_level = 1, c_split_path = False, c_splits = []\<rparr>"

definition tiny_reader :: "string pc \<Rightarrow> bool \<Rightarrow> bool \<Rightarrow> VgiCachedBatch list \<Rightarrow> string arrow_batch list \<Rightarrow> string reader" where
  "tiny_reader p checked spl bs tk = \<lparr>pc = p, rest = (if tk = [] then [tiny_batch] else []), has_split = False,
     checked_first = checked, spilled = spl, sub = \<lparr>batches = bs, sbytes = 0, srows = 0\<rparr>, source = [rowless_batch, tiny_batch], took = tk, claims = []\<rparr>"

definition tiny_state ::
  "string reader \<Rightarrow> nat \<Rightarrow> bool \<Rightarrow> int \<Rightarrow> VgiCaptureDiskWriter option \<Rightarrow> (string \<rightharpoonup> string) \<Rightarrow>
   (nat \<times> VgiCachedBatch \<times> string) list \<Rightarrow> (string, string \<rightharpoonup> string) capture" where
  "tiny_state r n seen tb w s log = \<lparr>readers = [r], eos = n, next_split = 0, completed_splits = 0, cc_seen = seen,
     latched = (if seen then tiny_cc else no_cache_control), aborted = False, spilling = (w \<noteq> None), total_bytes = tb,
     reserved = 0, disk_writer = w, files = s, written = log\<rparr>"

lemmas tiny_defs = tiny_state_def tiny_reader_def tiny_def rowless_batch_def tiny_batch_def tiny_cc_def no_cache_control_def

abbreviation "tiny_tmp \<equiv> capture_tmp constant_digest ''d'' blank_key"

lemma tiny_proceed:
  assumes "captures (tiny m) (tiny_state r n seen tb w s log)" "s (tiny_tmp tsuf) = None"
  shows "captures (tiny m) (install_step (tiny m) granted tsuf 0 r (pc r) (tiny_state r n seen tb w s log))"
proof -
  have "capture_step (tiny m) (tiny_state r n seen tb w s log) (install_step (tiny m) granted tsuf 0 (readers (tiny_state r n seen tb w s log) ! 0)
      (pc (readers (tiny_state r n seen tb w s log) ! 0)) (tiny_state r n seen tb w s log))"
    by (rule capture_step.proceed) (use assms(2) in \<open>simp_all add: tiny_state_def tiny_def map_files_def\<close>)
  then show ?thesis using captures.more [OF assms(1)] by (simp add: tiny_state_def)
qed

lemma tiny_received: "captures (tiny m) (tiny_state (tiny_reader (Add tiny_batch) True False [] [tiny_batch]) 0 True 0 None Map.empty [])"
proof -
  let ?r = "tiny_reader Idle False False [] []" and ?n = "[rowless_batch, tiny_batch]"
  have "captures (tiny m) (tiny_state (?r\<lparr>rest := ?n\<rparr>) 0 False 0 None Map.empty [])" (is "captures _ ?S0")
    using captures.more [OF captures.begin_capture capture_step.start [of "tiny m" ?n "new_capture Map.empty"]]
    by (simp add: NewStream_def new_capture_def new_reader_def tiny_state_def tiny_reader_def empty_stream_def tiny_def)
  moreover have "capture_step (tiny m) ?S0 (?S0\<lparr>readers := (readers ?S0)[0 := (readers ?S0 ! 0)\<lparr>rest := [tiny_batch]\<rparr>]\<rparr>)"
    by (rule capture_step.skip_empty [of _ _ rowless_batch]) (simp_all add: tiny_state_def tiny_reader_def rowless_batch_def)
  ultimately have "captures (tiny m) (tiny_state ?r 0 False 0 None Map.empty [])" (is "captures _ ?S")
    using captures.more by (fastforce simp: tiny_state_def tiny_reader_def)
  moreover have "capture_step (tiny m) ?S (begin_install 0 (readers ?S ! 0) tiny_batch ?S)"
    by (rule capture_step.receive) (simp_all add: tiny_state_def tiny_reader_def tiny_batch_def)
  ultimately have "captures (tiny m) (tiny_state (tiny_reader (Latch tiny_batch) False False [] [tiny_batch]) 0 False 0 None Map.empty [])"
    using captures.more by (fastforce simp: begin_install_def tiny_state_def tiny_reader_def)
  from tiny_proceed [OF this]
  have "captures (tiny m) (tiny_state (tiny_reader (Decide tiny_batch) True False [] [tiny_batch]) 0 True 0 None Map.empty [])"
    by (simp add: latch_def tiny_defs)
  from tiny_proceed [OF this]
  have "captures (tiny m) (tiny_state (tiny_reader (Branch tiny_batch) True False [] [tiny_batch]) 0 True 0 None Map.empty [])"
    by (simp add: Cacheable_def tiny_defs)
  from tiny_proceed [OF this] show ?thesis by (simp add: tiny_defs)
qed

lemma tiny_buffered: "captures (tiny 0) (tiny_state (tiny_reader (Over tiny_batch) True False [] [tiny_batch]) 0 True 1 None Map.empty [])"
  using tiny_proceed [OF tiny_received [of 0]] by (simp add: tiny_defs Let_def)

lemma map_files_commit:
  assumes "stream_ok map_files w s" "s (objects_dir w @ ''/'' @ sha (hashed w) @ ''.vrc'') = None"
  shows "\<exists>w' s'. CommitStreamingCapture map_files sha now_unix True tsuf w meta s = (True, w', s')"
  using assms
  by (simp add: CommitStreamingCapture_def Let_def stream_ok_def WriteRef_def WriteFileAtomic_def map_files_def split: prod.splits if_splits)

lemma tiny_captured:
  "\<exists>w s log. captures (tiny 0) (tiny_state (tiny_reader Done True True [] [tiny_batch]) 1 True 1 (Some w) s log) \<and> stream_ok map_files w s \<and>
     objects_dir w = shard_dir constant_digest ''d'' blank_key @ ''/objects'' \<and> dom s = {tiny_tmp ''a''}"
proof -
  let ?t = "tiny_tmp ''a''" and ?s = "[tiny_tmp ''a'' \<mapsto> ''VRC1'']" and ?cb = "cached_batch (c_ipc (tiny 0)) tiny_batch"
  have free: "?s (tiny_tmp ''b'') = None" by (simp add: capture_tmp_def)
  have fp: "Fingerprint constant_digest blank_key \<noteq> []" by (simp add: Fingerprint_def constant_digest_def)
  obtain w where w: "BeginStreamingCapture map_files constant_digest blank_key ''d'' 1000 ''none'' 1 ''a'' Map.empty = (Some w, ?s)"
    using map_files_begin [of "''d''" 1000 constant_digest blank_key Map.empty "''a''" "''none''" 1] fp by auto
  note wb = BeginStreamingCapture_some [OF map_files_pack_laws(1) w]
  have wok: "stream_ok map_files w ?s" "writer_of constant_digest ''d'' blank_key ''a'' 1000 ''none'' 1 w" "hashed w = ''VRC1''"
    using wb(1-3) by (simp_all add: map_files_def)
  have "captures (tiny 0) (tiny_state (tiny_reader (Drain [?cb] True None) True False [?cb] [tiny_batch]) 0 True 1 (Some w) ?s [])"
    using tiny_proceed [OF tiny_buffered, where tsuf = "''a''"] w by (simp add: spill_def tiny_state_def tiny_reader_def tiny_def Let_def)
  note d = tiny_proceed [OF this, where tsuf = "''b''", OF free]
  have c: "wcodec w = ''none''" "wdisk_max w = 1000" "tmp_path w = ?t" "objects_dir w = shard_dir constant_digest ''d'' blank_key @ ''/objects''"
    using wok(2) by (simp_all add: writer_of_def ResolveDiskCompressionCodec_def c_tolower_def)
  have "length (hashed w) + length (frame ?cb ''x'') \<le> 1000" using wok(3) by (simp add: frame_def batch_header_def cached_batch_def tiny_batch_def)
  from map_files_append [OF wok(1) c(2) this, of 1] c(3)
  obtain w' where w': "append_cb map_files w ?cb ''x'' 1 ?s = (True, w', [?t \<mapsto> hashed w @ frame ?cb ''x''])" by auto
  let ?s' = "[?t \<mapsto> hashed w @ frame ?cb ''x'']"
  have "captures (tiny 0) (tiny_state (tiny_reader (Drain [] True None) True False [?cb] [tiny_batch]) 0 True 1 (Some w') ?s' [(0, ?cb, ''x'')])"
    using d w' by (simp add: drain_step_def writer_append_def TranscodeIpcWithCodec_def c(1) cached_batch_def tiny_defs Let_def)
  from tiny_proceed [OF this, where tsuf = "''b''"]
  have "captures (tiny 0) (tiny_state (tiny_reader Idle True True [] [tiny_batch]) 0 True 1 (Some w') ?s' [(0, ?cb, ''x'')])" (is "captures _ ?S")
    by (simp add: drain_step_def tiny_state_def tiny_reader_def capture_tmp_def)
  moreover have "capture_step (tiny 0) ?S (AdvanceToNextSplit (tiny 0) 0 (readers ?S ! 0) ?S)"
    by (rule capture_step.end_stream) (simp_all add: tiny_state_def tiny_reader_def)
  ultimately have "captures (tiny 0) (tiny_state (tiny_reader Done True True [] [tiny_batch]) 1 True 1 (Some w') ?s' [(0, ?cb, ''x'')])"
    using captures.more by (fastforce simp: AdvanceToNextSplit_def tiny_state_def tiny_reader_def tiny_def)
  moreover have "stream_ok map_files w' ?s'" by (rule AppendBatch_true(1) [OF map_files_pack_laws(1) wok(1) w'])
  moreover have "objects_dir w' = objects_dir w" using AppendBatch_target [OF w'] by (simp add: same_target_def)
  ultimately show ?thesis using c(4) by (intro exI [of _ w'] exI [of _ ?s'] exI) auto
qed

lemma tiny_committed:
  assumes "stream_ok map_files w s" "objects_dir w = shard_dir constant_digest ''d'' blank_key @ ''/objects''" "dom s = {tiny_tmp ''a''}"
  shows "\<exists>S'. destroy_capture (tiny 0) 0 0 True ''r'' (tiny_state (tiny_reader Done True True [] [tiny_batch]) 1 True 1 (Some w) s log) =
    (ToDisk True, S')"
proof -
  let ?S = "tiny_state (tiny_reader Done True True [] [tiny_batch]) 1 True 1 (Some w) s log"
  obtain meta where m: "capture_meta (tiny 0) 0 tiny_cc = Some meta" "stored_at meta = 0" "eexpires_at meta = 60000000000"
    by (simp add: capture_meta_def tiny_def tiny_cc_def no_cache_control_def TransactionScoped_def VGI_CACHE_MAX_TTL_SECONDS_def)
  have "objects_dir w @ ''/'' @ constant_digest (hashed w) @ ''.vrc'' \<notin> dom s"
    unfolding assms(2,3) by (simp add: capture_tmp_def constant_digest_def)
  then have "s (objects_dir w @ ''/'' @ constant_digest (hashed w) @ ''.vrc'') = None" by blast
  from map_files_commit [OF assms(1), of constant_digest 0 "''r''" meta, OF this]
  obtain w' s' where c: "CommitStreamingCapture map_files constant_digest 0 True ''r'' w meta s = (True, w', s')" by blast
  have S: "?S\<lparr>reserved := 0\<rparr> = ?S" "complete (tiny 0) ?S" "latched ?S = tiny_cc" "spilling ?S" "disk_writer ?S = Some w" "files ?S = s"
    "map sub (readers ?S) = [\<lparr>batches = [], sbytes = 0, srows = 0\<rparr>]" "\<not> TransactionScoped tiny_cc"
    by (simp_all add: complete_def Cacheable_def TransactionScoped_def tiny_defs)
  show ?thesis
    unfolding destroy_capture_def Let_def S m(1) commit_spilled_def
    using m(2,3) c S by (simp add: tiny_def)
qed

theorem captured_result_replayed_witness:
  "\<exists>S S' e out. captures (tiny 0) S \<and> destroy_capture (tiny 0) 0 0 True ''r'' S = (ToDisk True, S') \<and>
     LoadFromDiskStreaming map_files constant_digest 2 0 0 blank_key ''d'' (files S') = Some (Served e) \<and>
     replay map_files (c_ipc (tiny 0)) [files S', Map.empty] (new_replay e) = (out, EndOfStream) \<and> map fst out = [''x'']"
proof -
  from tiny_captured obtain w s log where S: "captures (tiny 0) (tiny_state (tiny_reader Done True True [] [tiny_batch]) 1 True 1 (Some w) s log)"
    (is "captures _ ?S") "stream_ok map_files w s" "objects_dir w = shard_dir constant_digest ''d'' blank_key @ ''/objects''"
    "dom s = {tiny_tmp ''a''}" by blast
  from tiny_committed [OF S(2-4), of log] obtain S' where S': "destroy_capture (tiny 0) 0 0 True ''r'' ?S = (ToDisk True, S')" by blast
  have t: "c_fs (tiny 0) = map_files" "c_sha (tiny 0) = constant_digest" "c_key (tiny 0) = blank_key" "c_disk_dir (tiny 0) = ''d''" "readers ?S = [tiny_reader Done True True [] [tiny_batch]]"
    by (simp_all add: tiny_def tiny_state_def)
  have laws: "writes_local map_files" "ipc_law (c_ipc (tiny 0))" by (auto simp: writes_local_def ipc_law_def map_files_def tiny_def)
  have none: "\<forall>c. fs_read map_files (files ?S) (object_path constant_digest ''d'' blank_key (constant_digest c)) \<in> {None, Some c}"
  proof
    fix c
    have "object_path constant_digest ''d'' blank_key (constant_digest c) \<notin> dom s"
      unfolding S(4) by (simp add: capture_tmp_def object_path_def constant_digest_def)
    then show "fs_read map_files (files ?S) (object_path constant_digest ''d'' blank_key (constant_digest c)) \<in> {None, Some c}"
      by (auto simp: map_files_def tiny_state_def)
  qed
  have fit: "fits_the_format (tiny 0) 0 0 ?S" "lives_at (tiny 0) 0 0 0 ?S"
    by (simp_all add: fits_the_format_def lives_at_def capture_meta_def tiny_defs TransactionScoped_def one_line_def blank_key_def
        blank_entry_def ComputeExpiresUnix_def duration_s_def VGI_CACHE_MAX_TTL_SECONDS_def)
  have n: "(\<Sum>r\<leftarrow>readers ?S. length (took r)) = 1" unfolding t by (simp add: tiny_reader_def)
  have p: "map ab_data (produced (tiny 0) (readers ?S)) = [''x'']" by (simp add: produced_def tiny_defs)
  have hx: "\<forall>b. IsHex64 (constant_digest b)" using constant_digest_hex by blast
  have le: "1 < (2 :: nat)" "1 \<le> length [Map.empty :: string \<rightharpoonup> string]" by simp_all
  from captured_result_replayed [of "tiny 0", unfolded t(1-4), OF map_files_pack_laws(1) laws hx S(1) S' none fit, of 2 "[Map.empty]" 0,
      unfolded n p, OF le]
  obtain e out where r: "LoadFromDiskStreaming map_files constant_digest 2 0 0 blank_key ''d'' (files S') = Some (Served e)"
    "replay map_files (c_ipc (tiny 0)) [files S', Map.empty] (new_replay e) = (out, EndOfStream)" "mset (map fst out) = mset [''x'']"
    by (elim exE conjE)
  have "map fst out = [''x'']" using r(3) by (simp only: mset.simps add_0_right mset_single_iff)
  with S(1) S' r(1,2) show ?thesis by (intro exI conjI)
qed

section \<open>From partitions to one replay\<close>

lemma renumber_index: "map cb_index (renumber n bs) = map (\<lambda>i. n + of_nat i) [0..<length bs]"
proof (induction bs arbitrary: n)
  case (Cons b bs)
  have "map (\<lambda>i. n + 1 + of_nat i) [0..<length bs] = map (\<lambda>i. n + of_nat i) (map Suc [0..<length bs])" by (simp add: ac_simps)
  then show ?case using Cons by (simp only: map_Suc_upt renumber.simps list.map length_Cons upt_conv_Cons zero_less_Suc) simp
qed simp

lemma renumber_sorted:
  assumes "length bs \<le> 2 ^ 64"
  shows "sorted (map cb_index (renumber 0 bs))"
proof -
  have "(of_nat i :: u64) \<le> of_nat j" if "i \<le> j" "j < length bs" for i j
    using that assms by (simp add: word_le_nat_alt unsigned_of_nat take_bit_nat_eq_self)
  then show ?thesis unfolding renumber_index by (auto simp: sorted_iff_nth_mono)
qed

lemma renumber_data: "map (the \<circ> decoded X h) (renumber n bs) = map (the \<circ> decoded X h) bs"
  by (induction bs arbitrary: n) (auto simp: decoded_def cached_bytes_def split: option.split)

lemma renumber_length [simp]: "length (renumber n bs) = length bs"
  by (induction bs arbitrary: n) simp_all

lemma renumber_ipc: "map cb_ipc (renumber n bs) = map cb_ipc bs"
  by (induction bs arbitrary: n) simp_all

lemma combined_batches: "all_batches (combined_entry key catalog hs) = renumber 0 (concat (map all_batches hs))"
proof -
  have "concat (map batches (streams (combined_entry key catalog hs))) = renumber 0 (concat (map all_batches hs))"
    by (simp add: combined_entry_def Let_def)
  then show ?thesis by (simp only: all_batches_def)
qed

lemma combined_replay:
  assumes "\<forall>cb \<in> set (concat (map all_batches hs)). \<exists>ipc d. cb_ipc cb = Some ipc \<and> ic_decode X ipc = Some d"
    "length (concat (map all_batches hs)) < length ss" "length (concat (map all_batches hs)) \<le> 2 ^ 64"
  shows "\<exists>out. replay F X ss (new_replay (combined_entry key catalog hs)) = (out, EndOfStream) \<and>
    map fst out = map (the \<circ> decoded X []) (concat (map all_batches hs))"
proof -
  let ?bs = "concat (map all_batches hs)" and ?e = "combined_entry key catalog hs"
  note ab = combined_batches [of key catalog hs]
  note flat = ab [unfolded all_batches_def [of ?e]]
  have o: "order (new_replay ?e) = renumber 0 ?bs"
    unfolding new_replay_def Let_def flat sort_key_id_if_sorted [OF renumber_sorted [OF assms(3)]] by simp
  have "\<exists>ipc d. cb_ipc cb = Some ipc \<and> ic_decode X ipc = Some d" if "cb \<in> set (renumber 0 ?bs)" for cb
  proof -
    have "cb_ipc cb \<in> set (map cb_ipc (renumber 0 ?bs))" using that unfolding set_map by (rule imageI)
    then obtain cb' where "cb' \<in> set ?bs" "cb_ipc cb' = cb_ipc cb" unfolding renumber_ipc set_map by force
    then show ?thesis using assms(1) by metis
  qed
  then have "replay F X ss (new_replay ?e) = (map (reported X []) (renumber 0 ?bs), EndOfStream)"
    using replay_in_memory [of ?e X ss F] assms(2) ab o by simp
  moreover have "map fst (map (reported X []) (renumber 0 ?bs)) = map (the \<circ> decoded X []) ?bs"
    using renumber_data [of X "[]" 0 ?bs] by (simp add: reported_def comp_def)
  ultimately show ?thesis by blast
qed

text \<open>The value of a batch's partition columns, as its discriminator.\<close>

definition in_partition :: "(string \<Rightarrow> (string \<times> string) option) \<Rightarrow> string \<Rightarrow> 'd arrow_batch \<Rightarrow> bool" where
  "in_partition disc_of d b \<longleftrightarrow> map_option fst (disc_of (ab_pv b)) = Some d"

lemma BuildPartitionKey_inj: "BuildPartitionKey k r d = BuildPartitionKey k r d' \<longleftrightarrow> d = d'"
  by (auto simp: BuildPartitionKey_def dest: arg_cong [of _ _ input_hash])

lemma partition_found:
  assumes "find (\<lambda>e. ekey e = BuildPartitionKey (c_key C) residual d) (SplitAndStorePartitionEntries C disc_of residual pmax meta sts) = Some e"
    "concat (map batches sts) = map (cached_batch X) bs"
  shows "all_batches e = map (cached_batch X) (filter (in_partition disc_of d) bs)"
proof -
  have e: "e \<in> set (SplitAndStorePartitionEntries C disc_of residual pmax meta sts)" "ekey e = BuildPartitionKey (c_key C) residual d"
    using assms(1) by (auto simp: find_Some_iff)
  then obtain d' where "ekey e = BuildPartitionKey (c_key C) residual d'"
    "all_batches e = filter (\<lambda>b. map_option fst (disc_of (cb_pv b)) = Some d') (concat (map batches sts))"
    using partition_entries_batches by blast
  then have "all_batches e = filter (\<lambda>b. map_option fst (disc_of (cb_pv b)) = Some d) (map (cached_batch X) bs)"
    using e(2) assms(2) BuildPartitionKey_inj by metis
  then show ?thesis by (simp add: filter_map comp_def in_partition_def [abs_def] cached_batch_def)
qed

text \<open>
  C22. The partitions a query asks for, each found under its own key, are served by one replay that
  hands out, in the order asked for, exactly the batches of these partitions that the capture received.
\<close>

theorem partitions_served_exactly:
  assumes "pack_fs_laws (c_fs C)" "ipc_law (c_ipc C)" "captures C S"
    "destroy_capture C now now_unix sync_ok tsuf S = (ToMemory e allow_disk, S')"
    "es = commit_partitions C disc_of residual partition_max requested declared e S"
    "serve_partitions key catalog (map (\<lambda>d. find (\<lambda>e. ekey e = BuildPartitionKey (c_key C) residual d) es) ds) = Some u"
    "length (all_batches u) < length ss" "length (all_batches u) \<le> 2 ^ 64"
  shows "\<exists>out. replay F (c_ipc C) ss (new_replay u) = (out, EndOfStream) \<and>
    map fst out = concat (map (\<lambda>d. map ab_data (filter (in_partition disc_of d) (concat (map took (readers S))))) ds)"
proof -
  let ?found = "map (\<lambda>d. find (\<lambda>e. ekey e = BuildPartitionKey (c_key C) residual d) es) ds"
  let ?bs = "concat (map took (readers S))" and ?cb = "cached_batch (c_ipc C)"
  have u: "u = combined_entry key catalog (map the ?found)" "ds \<noteq> []" "list_all (\<lambda>h. h \<noteq> None) ?found"
    using assms(6) by (auto simp: serve_partitions_def list_all_iff split: if_splits option.splits)
  have "es \<noteq> []" using u(2,3) by (cases ds) auto
  then have es: "es = SplitAndStorePartitionEntries C disc_of residual partition_max e (map sub (readers S))"
    unfolding assms(5) commit_partitions_def by presburger
  have "map batches (map sub (readers S)) = map (\<lambda>r. map ?cb (took r)) (readers S)"
    using captured_in_memory(1,4) [OF assms(1-4)] by (simp only:)
  then have bs: "concat (map batches (map sub (readers S))) = map ?cb ?bs" by (simp only: map_concat map_map comp_def)
  have "all_batches (the (find (\<lambda>e. ekey e = BuildPartitionKey (c_key C) residual d) es)) = map ?cb (filter (in_partition disc_of d) ?bs)"
    if d: "d \<in> set ds" for d
  proof -
    obtain h where "find (\<lambda>e. ekey e = BuildPartitionKey (c_key C) residual d) es = Some h" using u(3) d by (auto simp: list_all_iff)
    then show ?thesis using partition_found [OF _ bs] unfolding es by simp
  qed
  then have hs: "concat (map all_batches (map the ?found)) = concat (map (\<lambda>d. map ?cb (filter (in_partition disc_of d) ?bs)) ds)"
    unfolding map_map comp_def by (intro arg_cong [where f = concat] map_cong refl)
  have len: "length (all_batches u) = length (concat (map all_batches (map the ?found)))"
    by (simp only: u(1) combined_batches renumber_length)
  have dec: "cb_ipc (?cb b) = Some (ic_encode (c_ipc C) (ab_data b) ''none'' 1)"
    "ic_decode (c_ipc C) (ic_encode (c_ipc C) (ab_data b) ''none'' 1) = Some (ab_data b)" "(the \<circ> decoded (c_ipc C) []) (?cb b) = ab_data b" for b
    using assms(2) by (simp_all add: ipc_law_def cached_batch_def decoded_def cached_bytes_def)
  have "\<forall>cb \<in> set (concat (map all_batches (map the ?found))). \<exists>ipc d. cb_ipc cb = Some ipc \<and> ic_decode (c_ipc C) ipc = Some d"
    unfolding hs using dec(1,2) by auto
  from combined_replay [OF this, of ss F key catalog, folded len u(1), OF assms(7,8)]
  obtain out where "replay F (c_ipc C) ss (new_replay u) = (out, EndOfStream)"
    "map fst out = map (the \<circ> decoded (c_ipc C) []) (concat (map all_batches (map the ?found)))" by blast
  then show ?thesis unfolding hs by (simp add: map_concat comp_def dec(3) [unfolded comp_def])
qed

lemma tiny_in_memory:
  "\<exists>S e. captures (tiny 100) S \<and> destroy_capture (tiny 100) 0 0 True ''r'' S = (ToMemory e True, S\<lparr>reserved := 0\<rparr>) \<and>
     map (batches \<circ> sub) (readers S) = [[cached_batch (c_ipc (tiny 100)) tiny_batch]] \<and> concat (map took (readers S)) = [tiny_batch] \<and>
     \<not> spilling S \<and> latched S = tiny_cc"
proof -
  let ?cb = "cached_batch (c_ipc (tiny 100)) tiny_batch"
  let ?r = "\<lambda>p. (tiny_reader p True False [?cb] [tiny_batch])\<lparr>sub := \<lparr>batches = [?cb], sbytes = 1, srows = 1\<rparr>\<rparr>"
  let ?S = "\<lambda>p n. (tiny_state (?r p) n True 1 None Map.empty [])\<lparr>reserved := 1\<rparr>"
  have "captures (tiny 100) (tiny_state (tiny_reader (Reserve tiny_batch) True False [] [tiny_batch]) 0 True 1 None Map.empty [])"
    using tiny_proceed [OF tiny_received [of 100]] by (simp add: tiny_defs Let_def)
  from tiny_proceed [OF this, where granted = True]
  have "captures (tiny 100) (?S Idle 0)" by (simp add: reserve_def tiny_defs Let_def cached_batch_def)
  moreover have "capture_step (tiny 100) (?S Idle 0) (AdvanceToNextSplit (tiny 100) 0 (readers (?S Idle 0) ! 0) (?S Idle 0))"
    by (rule capture_step.end_stream) (simp_all add: tiny_state_def tiny_reader_def)
  ultimately have "captures (tiny 100) (AdvanceToNextSplit (tiny 100) 0 (readers (?S Idle 0) ! 0) (?S Idle 0))" by (rule captures.more)
  also have "AdvanceToNextSplit (tiny 100) 0 (readers (?S Idle 0) ! 0) (?S Idle 0) = ?S Done 1"
    by (simp add: AdvanceToNextSplit_def tiny_state_def tiny_reader_def tiny_def)
  finally have S: "captures (tiny 100) (?S Done 1)" .
  have "complete (tiny 100) (?S Done 1\<lparr>reserved := 0\<rparr>)" by (simp add: complete_def Cacheable_def tiny_defs)
  moreover obtain meta where "capture_meta (tiny 100) 0 tiny_cc = Some meta"
    by (simp add: capture_meta_def tiny_def tiny_cc_def no_cache_control_def TransactionScoped_def VGI_CACHE_MAX_TTL_SECONDS_def)
  moreover have l: "latched (?S Done 1) = tiny_cc" "\<not> spilling (?S Done 1)" "\<not> TransactionScoped tiny_cc"
    by (simp_all add: tiny_state_def TransactionScoped_def tiny_cc_def no_cache_control_def)
  ultimately have "\<exists>e. destroy_capture (tiny 100) 0 0 True ''r'' (?S Done 1) = (ToMemory e True, ?S Done 1\<lparr>reserved := 0\<rparr>)"
    by (simp add: destroy_capture_def Let_def)
  then obtain e where e: "destroy_capture (tiny 100) 0 0 True ''r'' (?S Done 1) = (ToMemory e True, ?S Done 1\<lparr>reserved := 0\<rparr>)" ..
  have "map (batches \<circ> sub) (readers (?S Done 1)) = [[?cb]]" "concat (map took (readers (?S Done 1))) = [tiny_batch]"
    by (simp_all add: tiny_state_def tiny_reader_def)
  with S e l(1,2) show ?thesis by (intro exI conjI)
qed

theorem partitions_served_exactly_witness:
  "\<exists>S S' e u out. captures (tiny 100) S \<and> destroy_capture (tiny 100) 0 0 True ''r'' S = (ToMemory e True, S') \<and>
     serve_partitions blank_key ''c'' [find (\<lambda>e. ekey e = BuildPartitionKey blank_key [] ''p'')
       (commit_partitions (tiny 100) (\<lambda>_. Some (''p'', ''l'')) [] 5 True True e S)] = Some u \<and>
     replay map_files (c_ipc (tiny 100)) [Map.empty, Map.empty] (new_replay u) = (out, EndOfStream) \<and> map fst out = [''x'']"
proof -
  let ?disc = "\<lambda>_ :: string. Some (''p'', ''l'')"
  from tiny_in_memory obtain S e where S: "captures (tiny 100) S" "destroy_capture (tiny 100) 0 0 True ''r'' S = (ToMemory e True, S\<lparr>reserved := 0\<rparr>)"
    "map (batches \<circ> sub) (readers S) = [[cached_batch (c_ipc (tiny 100)) tiny_batch]]" "concat (map took (readers S)) = [tiny_batch]"
    "\<not> spilling S" "latched S = tiny_cc" by (elim exE conjE)
  let ?es = "commit_partitions (tiny 100) ?disc [] 5 True True e S"
  have k: "c_key (tiny 100) = blank_key" "c_fs (tiny 100) = map_files" by (simp_all add: tiny_def)
  have ipc: "ipc_law (c_ipc (tiny 100))" by (simp add: ipc_law_def tiny_def)
  obtain h where h: "?es = [h]" "ekey h = BuildPartitionKey blank_key [] ''p''" "\<not> disk_backed h" "length (all_batches h) = 1"
    using S(3,5,6) by (simp add: commit_partitions_def SplitAndStorePartitionEntries_def tiny_cc_def no_cache_control_def TransactionScoped_def
        partition_entry_def k blank_entry_def all_batches_def add_to_bucket_def Let_def)
  define u where "u = combined_entry blank_key ''c'' [h]"
  have u: "serve_partitions blank_key ''c'' (map (\<lambda>d. find (\<lambda>e. ekey e = BuildPartitionKey blank_key [] d) ?es) [''p'']) = Some u"
    using h by (simp add: serve_partitions_def u_def)
  have "length (all_batches u) = 1" using h(4) by (simp only: u_def combined_batches renumber_length list.map concat.simps append_Nil2)
  then have n: "length (all_batches u) < length [Map.empty, Map.empty :: string \<rightharpoonup> string]" "length (all_batches u) \<le> 2 ^ 64" by simp_all
  from partitions_served_exactly [of "tiny 100", unfolded k, OF map_files_pack_laws(1) ipc S(1,2) refl u n, of map_files, unfolded S(4)]
  obtain out where "replay map_files (c_ipc (tiny 100)) [Map.empty, Map.empty] (new_replay u) = (out, EndOfStream)"
    "map fst out = concat (map (\<lambda>d. map ab_data (filter (in_partition ?disc d) [tiny_batch])) [''p''])" by (elim exE conjE)
  moreover have "concat (map (\<lambda>d. map ab_data (filter (in_partition ?disc d) [tiny_batch])) [''p'']) = [''x'']"
    by (simp add: in_partition_def tiny_batch_def)
  ultimately have "replay map_files (c_ipc (tiny 100)) [Map.empty, Map.empty] (new_replay u) = (out, EndOfStream)" "map fst out = [''x'']"
    by (simp_all only:)
  with S(1,2) u show ?thesis unfolding list.map by (intro exI conjI)
qed

end
