(* ===== verification/Cancel_Dispatcher.thy ===== *)
theory Cancel_Dispatcher
  imports Vgi_Prelude
begin

text \<open>
  The background dispatcher of cancellations, \<^verbatim>\<open>src/src/vgi_cancel_dispatcher.cpp\<close>, with any
  number of threads that call it and the worker thread that it creates. Each thread is at one program
  point; a step is one access to the shared state. A mutex is free when no thread stands at a program
  point between its acquisition and its release. The lock-free queues hand out any element and may
  report that they are full or empty; what a cancellation does with its context is one step.
\<close>

section \<open>State\<close>

text \<open>A request: a cancel or a streaming close, whether it has a connection or attach parameters, and an identity.\<close>

datatype job = CancelRequest (has_target: bool) (job_id: nat) | StreamingCloseRequest (has_target: bool) (job_id: nat)

text \<open>Where a processing thread goes on: in the worker's loop or in one of the two loops of a drain.\<close>

datatype return_to = ToWorker | ToDrain | ToDrainClose

text \<open>
  The program points: in \<open>Enqueue\<close> (E), \<open>StartWorker\<close> with the request that waits for it (W), the
  worker loop (L), processing (P), \<open>Suspend\<close> with whether the destructor called it (S), \<open>Resume\<close> (R),
  the join of the destructor (J) and \<open>DrainForTesting\<close> (D). \<open>Fresh\<close> is a thread not yet created.
\<close>

datatype pc =
    Idle | Fresh
  | E_Start job | E_Count job | E_Push job | E_Undo
  | W_First "job option" | W_Lock "job option" | W_Check "job option" | W_Store "job option"
  | L_Init | L_Top | L_Try | L_TryClose | L_Wait | L_Exit
  | P_Count job return_to | P_Lock job return_to | P_Check job return_to | P_Bot job return_to | P_Use job nat return_to
  | S_Begin bool | S_Interrupt bool | S_Process bool | S_Reset bool
  | R_Store | J_Join | J_Done
  | D_Loop | D_LoopClose

text \<open>
  The members of the dispatcher and its threads. \<open>suspended\<close> and \<open>executed\<close> are kept for the
  statements only: whether the last \<open>Suspend\<close> returned with the flag still down, and the requests
  that were executed, with the context each of them used.
\<close>

record dispatcher =
  explicit_only :: bool
  accepting :: bool
  shutdown :: bool
  worker_started :: bool
  worker_running :: bool
  bot_context :: "nat option"
  next_context :: nat
  interrupted :: "nat list"
  queue :: "job list"
  streaming_close_queue :: "job list"
  pending_count :: int
  suspended :: bool
  executed :: "(job \<times> nat) list"
  threads :: "pc list"

definition goto :: "nat \<Rightarrow> pc \<Rightarrow> dispatcher \<Rightarrow> dispatcher" where
  "goto t p s = s\<lparr>threads := (threads s)[t := p]\<rparr>"

section \<open>Mutexes\<close>

fun holds_processing :: "pc \<Rightarrow> nat" where
  "holds_processing (P_Check j r) = 1"
| "holds_processing (P_Bot j r) = 1"
| "holds_processing (P_Use j c r) = 1"
| "holds_processing (S_Reset d) = 1"
| "holds_processing _ = 0"

fun holds_conn :: "pc \<Rightarrow> nat" where
  "holds_conn (P_Bot j r) = 1"
| "holds_conn _ = 0"

fun holds_start :: "pc \<Rightarrow> nat" where
  "holds_start (W_Check k) = 1"
| "holds_start (W_Store k) = 1"
| "holds_start _ = 0"

definition totl :: "(pc \<Rightarrow> nat) \<Rightarrow> pc list \<Rightarrow> nat" where
  "totl f ps = sum_list (map f ps)"

abbreviation tot :: "(pc \<Rightarrow> nat) \<Rightarrow> dispatcher \<Rightarrow> nat" where
  "tot f s \<equiv> totl f (threads s)"

section \<open>Steps\<close>

fun after_start :: "job option \<Rightarrow> pc" where
  "after_start (Some j) = E_Count j"
| "after_start None = Idle"

fun return_pc :: "return_to \<Rightarrow> pc" where
  "return_pc ToWorker = L_Top"
| "return_pc ToDrain = D_Loop"
| "return_pc ToDrainClose = D_LoopClose"

definition push :: "job \<Rightarrow> dispatcher \<Rightarrow> dispatcher" where
  "push j s =
     (case j of CancelRequest _ _ \<Rightarrow> s\<lparr>queue := queue s @ [j]\<rparr>
      | StreamingCloseRequest _ _ \<Rightarrow> s\<lparr>streaming_close_queue := streaming_close_queue s @ [j]\<rparr>)"

definition remove_at :: "nat \<Rightarrow> 'a list \<Rightarrow> 'a list" where
  "remove_at n xs = take n xs @ drop (n + 1) xs"

text \<open>A dequeue: the element that the choice \<open>n\<close> names, or nothing when there is none.\<close>

definition dequeue :: "nat \<Rightarrow> return_to \<Rightarrow> pc \<Rightarrow> nat \<Rightarrow> dispatcher \<Rightarrow> dispatcher" where
  "dequeue t r otherwise n s =
     (if n < length (queue s) then goto t (P_Count (queue s ! n) r) (s\<lparr>queue := remove_at n (queue s)\<rparr>)
      else goto t otherwise s)"

definition dequeue_close :: "nat \<Rightarrow> return_to \<Rightarrow> pc \<Rightarrow> nat \<Rightarrow> dispatcher \<Rightarrow> dispatcher" where
  "dequeue_close t r otherwise n s =
     (if n < length (streaming_close_queue s)
      then goto t (P_Count (streaming_close_queue s ! n) r)
             (s\<lparr>streaming_close_queue := remove_at n (streaming_close_queue s)\<rparr>)
      else goto t otherwise s)"

definition first_fresh :: "pc list \<Rightarrow> nat option" where
  "first_fresh ps = find (\<lambda>i. ps ! i = Fresh) [0..<length ps]"

text \<open>
  The next step of thread \<open>t\<close>; none when it waits for a mutex or for the worker, or has nothing to
  do. The choice \<open>n\<close> is the element a dequeue gives, and whether an enqueue finds room (0).
\<close>

fun advance :: "nat \<Rightarrow> nat \<Rightarrow> pc \<Rightarrow> dispatcher \<Rightarrow> dispatcher option" where
  "advance t n (E_Start j) s =
     Some (goto t (if worker_running s then E_Count j else if explicit_only s then Idle else W_First (Some j)) s)"
| "advance t n (W_First k) s = Some (goto t (if worker_started s then after_start k else W_Lock k) s)"
| "advance t n (W_Lock k) s = (if tot holds_start s = 0 then Some (goto t (W_Check k) s) else None)"
| "advance t n (W_Check k) s =
     (if worker_started s then Some (goto t (after_start k) s)
      else case first_fresh (threads s) of
        None \<Rightarrow> Some (goto t Idle s)
      | Some i \<Rightarrow> Some (goto i L_Init (goto t (W_Store k) s)))"
| "advance t n (W_Store k) s = Some (goto t (after_start k) (s\<lparr>worker_started := True\<rparr>))"
| "advance t n (E_Count j) s = Some (goto t (E_Push j) (s\<lparr>pending_count := pending_count s + 1\<rparr>))"
| "advance t n (E_Push j) s = Some (if n = 0 then goto t Idle (push j s) else goto t E_Undo s)"
| "advance t n E_Undo s = Some (goto t Idle (s\<lparr>pending_count := pending_count s - 1\<rparr>))"
| "advance t n L_Init s = Some (goto t L_Top (s\<lparr>worker_running := True\<rparr>))"
| "advance t n L_Top s = Some (goto t (if shutdown s then L_Exit else L_Try) s)"
| "advance t n L_Try s = Some (dequeue t ToWorker L_TryClose n s)"
| "advance t n L_TryClose s = Some (dequeue_close t ToWorker L_Wait n s)"
| "advance t n L_Wait s = Some (goto t L_Top s)"
| "advance t n (P_Count j r) s = Some (goto t (P_Lock j r) (s\<lparr>pending_count := pending_count s - 1\<rparr>))"
| "advance t n (P_Lock j r) s = (if tot holds_processing s = 0 then Some (goto t (P_Check j r) s) else None)"
| "advance t n (P_Check j r) s =
     (if \<not> has_target j then Some (goto t (return_pc r) s)
      else if tot holds_conn s \<noteq> 0 then None
      else if shutdown s \<or> \<not> accepting s then Some (goto t (return_pc r) s)
      else Some (goto t (P_Bot j r) s))"
| "advance t n (P_Bot j r) s =
     Some (case bot_context s of
       Some c \<Rightarrow> goto t (P_Use j c r) s
     | None \<Rightarrow> goto t (P_Use j (next_context s) r) (s\<lparr>bot_context := Some (next_context s), next_context := next_context s + 1\<rparr>))"
| "advance t n (P_Use j c r) s = Some (goto t (return_pc r) (s\<lparr>executed := executed s @ [(j, c)]\<rparr>))"
| "advance t n (S_Begin d) s = Some (goto t (S_Interrupt d) (s\<lparr>accepting := False\<rparr>))"
| "advance t n (S_Interrupt d) s =
     (if tot holds_conn s \<noteq> 0 then None
      else Some (goto t (S_Process d) (case bot_context s of None \<Rightarrow> s | Some c \<Rightarrow> s\<lparr>interrupted := c # interrupted s\<rparr>)))"
| "advance t n (S_Process d) s = (if tot holds_processing s = 0 then Some (goto t (S_Reset d) s) else None)"
| "advance t n (S_Reset d) s =
     (if tot holds_conn s \<noteq> 0 then None
      else Some (goto t (if d then J_Join else Idle) (s\<lparr>bot_context := None, suspended := \<not> accepting s\<rparr>)))"
| "advance t n R_Store s = Some (goto t Idle (s\<lparr>accepting := True, suspended := False\<rparr>))"
| "advance t n J_Join s = (if \<not> worker_started s \<or> L_Exit \<in> set (threads s) then Some (goto t J_Done s) else None)"
| "advance t n D_Loop s = Some (dequeue t ToDrain D_LoopClose n s)"
| "advance t n D_LoopClose s = Some (dequeue_close t ToDrainClose Idle n s)"
| "advance t n _ s = None"

text \<open>What an idle thread may call.\<close>

datatype call = Enqueue job | StartWorker | Suspend | Resume | DrainForTesting | Destroy

fun begin_call :: "nat \<Rightarrow> call \<Rightarrow> dispatcher \<Rightarrow> dispatcher" where
  "begin_call t (Enqueue j) s = (if shutdown s \<or> \<not> accepting s then s else goto t (E_Start j) s)"
| "begin_call t StartWorker s = goto t (W_First None) s"
| "begin_call t Suspend s = goto t (S_Begin False) s"
| "begin_call t Resume s = (if shutdown s then s else goto t R_Store s)"
| "begin_call t DrainForTesting s = goto t D_Loop s"
| "begin_call t Destroy s = goto t (S_Begin True) (s\<lparr>shutdown := True\<rparr>)"

datatype event = Call nat call | Advance nat nat

fun step :: "event \<Rightarrow> dispatcher \<Rightarrow> dispatcher option" where
  "step (Call t c) s = (if t < length (threads s) \<and> threads s ! t = Idle then Some (begin_call t c s) else None)"
| "step (Advance t n) s = (if t < length (threads s) then advance t n (threads s ! t) s else None)"

definition new_dispatcher :: "bool \<Rightarrow> nat \<Rightarrow> nat \<Rightarrow> dispatcher" where
  "new_dispatcher explicit callers spare =
     \<lparr>explicit_only = explicit, accepting = True, shutdown = False, worker_started = False, worker_running = False,
      bot_context = None, next_context = 0, interrupted = [], queue = [], streaming_close_queue = [], pending_count = 0,
      suspended = False, executed = [], threads = replicate callers Idle @ replicate spare Fresh\<rparr>"

inductive reachable :: "dispatcher \<Rightarrow> dispatcher \<Rightarrow> bool" for s0 where
  start: "reachable s0 s0"
| step: "reachable s0 s \<Longrightarrow> step ev s = Some s' \<Longrightarrow> reachable s0 s'"

section \<open>Counting threads\<close>

text \<open>
  A request that its enqueuer has counted and not yet put into a queue, or that was taken out and is
  still counted; the worker thread, at any point of its life; a worker created and not yet announced;
  a thread that uses a context or is about to.
\<close>

fun in_flight :: "pc \<Rightarrow> nat" where
  "in_flight (E_Push j) = 1"
| "in_flight E_Undo = 1"
| "in_flight (P_Count j r) = 1"
| "in_flight _ = 0"

fun is_worker :: "pc \<Rightarrow> nat" where
  "is_worker (P_Count j r) = (if r = ToWorker then 1 else 0)"
| "is_worker (P_Lock j r) = (if r = ToWorker then 1 else 0)"
| "is_worker (P_Check j r) = (if r = ToWorker then 1 else 0)"
| "is_worker (P_Bot j r) = (if r = ToWorker then 1 else 0)"
| "is_worker (P_Use j c r) = (if r = ToWorker then 1 else 0)"
| "is_worker p = (if p \<in> {L_Init, L_Top, L_Try, L_TryClose, L_Wait, L_Exit} then 1 else 0)"

fun announces :: "pc \<Rightarrow> nat" where
  "announces (W_Store k) = 1"
| "announces _ = 0"

fun uses_context :: "pc \<Rightarrow> nat" where
  "uses_context (P_Bot j r) = 1"
| "uses_context (P_Use j c r) = 1"
| "uses_context _ = 0"

lemma totl_update:
  "t < length ps \<Longrightarrow> totl f (ps[t := p]) + f (ps ! t) = totl f ps + f p"
  unfolding totl_def by (induction ps arbitrary: t) (auto split: nat.splits simp: less_Suc_eq_0_disj)

lemma totl_moved: "t < length ps \<Longrightarrow> ps ! t = q \<Longrightarrow> totl f (ps[t := p]) = totl f ps + f p - f q"
  using totl_update [of t ps f p] by simp

lemma totl_ge: "t < length ps \<Longrightarrow> ps ! t = q \<Longrightarrow> f q \<le> totl f ps"
  unfolding totl_def by (metis elem_le_sum_list length_map nth_map)

lemma goto_simps [simp]:
  "explicit_only (goto t p s) = explicit_only s" "accepting (goto t p s) = accepting s" "shutdown (goto t p s) = shutdown s"
  "worker_started (goto t p s) = worker_started s" "worker_running (goto t p s) = worker_running s"
  "bot_context (goto t p s) = bot_context s" "queue (goto t p s) = queue s"
  "streaming_close_queue (goto t p s) = streaming_close_queue s" "pending_count (goto t p s) = pending_count s"
  "suspended (goto t p s) = suspended s" "threads (goto t p s) = (threads s)[t := p]"
  by (simp_all add: goto_def)

lemma threads_push [simp]: "threads (push j s) = threads s" "pending_count (push j s) = pending_count s"
  "worker_started (push j s) = worker_started s" "accepting (push j s) = accepting s" "suspended (push j s) = suspended s"
  "bot_context (push j s) = bot_context s"
  "length (queue (push j s)) + length (streaming_close_queue (push j s)) = length (queue s) + length (streaming_close_queue s) + 1"
  by (simp_all add: push_def split: job.split)

lemma length_remove_at: "n < length xs \<Longrightarrow> length (remove_at n xs) = length xs - 1"
  by (simp add: remove_at_def)

lemma first_fresh_some:
  assumes "first_fresh ps = Some i"
  shows "i < length ps" "ps ! i = Fresh"
  using assms by (auto simp: first_fresh_def find_Some_iff)

lemma totl_mono: "(\<And>p. f p \<le> g p) \<Longrightarrow> totl f ps \<le> totl g ps"
  by (simp add: totl_def sum_list_mono)

lemma totl_zero_iff: "totl f ps = 0 \<longleftrightarrow> (\<forall>p \<in> set ps. f p = 0)"
  by (simp add: totl_def)

lemma after_start_weights [simp]:
  "holds_processing (after_start k) = 0" "holds_conn (after_start k) = 0" "holds_start (after_start k) = 0"
  "in_flight (after_start k) = 0" "is_worker (after_start k) = 0" "announces (after_start k) = 0" "uses_context (after_start k) = 0"
  by (cases k; simp)+

lemma return_pc_weights [simp]:
  "holds_processing (return_pc r) = 0" "holds_conn (return_pc r) = 0" "holds_start (return_pc r) = 0"
  "in_flight (return_pc r) = 0" "announces (return_pc r) = 0" "uses_context (return_pc r) = 0"
  "is_worker (return_pc r) = (if r = ToWorker then 1 else 0)"
  by (cases r; simp)+

lemma totl_spawn:
  assumes "first_fresh ps = Some i" "t < length ps" "ps ! t = W_Check k" "f Fresh = 0"
  shows "totl f (ps[t := W_Store k, i := L_Init]) + f (W_Check k) = totl f ps + f (W_Store k) + f L_Init"
proof -
  note fresh = first_fresh_some [OF assms(1)]
  then have "i \<noteq> t" using assms(3) by auto
  then have "totl f (ps[t := W_Store k, i := L_Init]) = totl f (ps[t := W_Store k]) + f L_Init - f Fresh"
    using fresh by (intro totl_moved) auto
  then show ?thesis using totl_update [OF assms(2), of f "W_Store k"] assms(3,4) by simp
qed

text \<open>While a thread is alone inside a mutex, nobody else is at a point that the mutex guards.\<close>

lemma totl_excluded:
  assumes "t < length ps" "f (ps ! t) = 0" "totl g ps \<le> g (ps ! t)" "\<And>p. f p \<le> g p" "g Idle = 0"
  shows "totl f ps = 0"
proof -
  have "f Idle = 0" using assms(4) [of Idle] assms(5) by simp
  then have "totl f (ps[t := Idle]) = totl f ps" using totl_update [OF assms(1), of f Idle] assms(2) by simp
  moreover have "totl g (ps[t := Idle]) = 0" using totl_update [OF assms(1), of g Idle] assms(3,5) by simp
  ultimately show ?thesis using totl_mono [of f g "ps[t := Idle]", OF assms(4)] by simp
qed

lemma weights_le: "uses_context p \<le> holds_processing p" "announces p \<le> holds_start p" "holds_conn p \<le> holds_processing p"
  by (cases p; simp)+

text \<open>The equations that every proof about a step uses.\<close>

lemmas step_simps = dequeue_def dequeue_close_def length_remove_at

section \<open>The invariants\<close>

definition mutexes :: "dispatcher \<Rightarrow> bool" where
  "mutexes s \<longleftrightarrow> tot holds_processing s \<le> 1 \<and> tot holds_conn s \<le> 1 \<and> tot holds_start s \<le> 1"

definition counted :: "dispatcher \<Rightarrow> bool" where
  "counted s \<longleftrightarrow> pending_count s = int (length (queue s) + length (streaming_close_queue s) + tot in_flight s)"

definition one_worker :: "dispatcher \<Rightarrow> bool" where
  "one_worker s \<longleftrightarrow> tot is_worker s = (if worker_started s then 1 else 0) + tot announces s \<and>
     (worker_started s \<longrightarrow> tot announces s = 0)"

definition quiet :: "dispatcher \<Rightarrow> bool" where
  "quiet s \<longleftrightarrow> (suspended s \<longrightarrow> \<not> accepting s \<and> bot_context s = None \<and> tot uses_context s = 0)"

definition live_context :: "dispatcher \<Rightarrow> bool" where
  "live_context s \<longleftrightarrow> (\<forall>t < length (threads s). \<forall>j c r. threads s ! t = P_Use j c r \<longrightarrow> bot_context s = Some c)"

text \<open>A step moves one thread, and the creation of the worker a second one.\<close>

lemma step_mutexes:
  assumes "mutexes s" "step ev s = Some s'"
  shows "mutexes s'"
proof (cases ev)
  case (Call t c)
  then have t: "t < length (threads s)" "threads s ! t = Idle" "s' = begin_call t c s" using assms(2) by (auto split: if_splits)
  with assms(1) show ?thesis by (cases c) (auto simp: mutexes_def totl_moved [OF t(1,2)])
next
  case (Advance t n)
  then have t: "t < length (threads s)" "advance t n (threads s ! t) s = Some s'" using assms(2) by (auto split: if_splits)
  note ge = totl_ge [OF t(1)] and spawn = totl_spawn [OF _ t(1)]
  show ?thesis
    using t(2) assms(1)
    by (cases "threads s ! t")
      (auto simp: mutexes_def totl_moved [OF t(1)] step_simps dest: spawn [of _ _ holds_processing] spawn [of _ _ holds_conn]
        spawn [of _ _ holds_start] split: if_splits option.splits)
qed

lemma step_counted:
  assumes "counted s" "step ev s = Some s'"
  shows "counted s'"
proof (cases ev)
  case (Call t c)
  then have t: "t < length (threads s)" "threads s ! t = Idle" "s' = begin_call t c s" using assms(2) by (auto split: if_splits)
  with assms(1) show ?thesis by (cases c) (auto simp: counted_def totl_moved [OF t(1,2)])
next
  case (Advance t n)
  then have t: "t < length (threads s)" "advance t n (threads s ! t) s = Some s'" using assms(2) by (auto split: if_splits)
  note ge = totl_ge [OF t(1), of _ in_flight] and spawn = totl_spawn [OF _ t(1), of _ _ in_flight]
  have push: "int (length (queue (push j s))) + int (length (streaming_close_queue (push j s))) =
      int (length (queue s)) + int (length (streaming_close_queue s)) + 1" for j
    using threads_push(7) [of j s] by linarith
  show ?thesis
    using t(2) assms(1) ge push
    by (cases "threads s ! t")
      (auto simp: counted_def totl_moved [OF t(1)] step_simps of_nat_diff dest: spawn split: if_splits option.splits)
qed

lemma step_one_worker:
  assumes "mutexes s" "one_worker s" "step ev s = Some s'"
  shows "one_worker s'"
proof (cases ev)
  case (Call t c)
  then have t: "t < length (threads s)" "threads s ! t = Idle" "s' = begin_call t c s" using assms(3) by (auto split: if_splits)
  with assms(2) show ?thesis by (cases c) (auto simp: one_worker_def totl_moved [OF t(1,2)])
next
  case (Advance t n)
  then have t: "t < length (threads s)" "advance t n (threads s ! t) s = Some s'" using assms(3) by (auto split: if_splits)
  note ge = totl_ge [OF t(1), of _ is_worker] totl_ge [OF t(1), of _ announces] totl_ge [OF t(1), of _ holds_start]
  have spawn: "totl is_worker ((threads s)[t := W_Store k, i := L_Init]) = tot is_worker s + 1 \<and>
      totl announces ((threads s)[t := W_Store k, i := L_Init]) = tot announces s + 1"
    if "threads s ! t = W_Check k" "first_fresh (threads s) = Some i" for k i
    using totl_spawn [OF that(2) t(1) that(1), of is_worker] totl_spawn [OF that(2) t(1) that(1), of announces] by simp
  have ann: "tot announces s \<le> tot holds_start s" by (rule totl_mono) (rule weights_le)
  show ?thesis
    using t(2) assms(1,2) ge ann
    by (cases "threads s ! t")
      (auto simp: one_worker_def mutexes_def totl_moved [OF t(1)] step_simps spawn split: if_splits option.splits)
qed

lemma step_quiet:
  assumes "mutexes s" "quiet s" "step ev s = Some s'"
  shows "quiet s'"
proof (cases ev)
  case (Call t c)
  then have t: "t < length (threads s)" "threads s ! t = Idle" "s' = begin_call t c s" using assms(3) by (auto split: if_splits)
  with assms(2) show ?thesis by (cases c) (auto simp: quiet_def totl_moved [OF t(1,2)])
next
  case (Advance t n)
  then have t: "t < length (threads s)" "advance t n (threads s ! t) s = Some s'" using assms(3) by (auto split: if_splits)
  note ge = totl_ge [OF t(1), of _ uses_context] and spawn = totl_spawn [OF _ t(1), of _ _ uses_context]
  have alone: "tot uses_context s = 0" if "threads s ! t = S_Reset d" for d
    by (rule totl_excluded [OF t(1), of uses_context holds_processing])
      (use assms(1) that weights_le in \<open>auto simp: mutexes_def\<close>)
  show ?thesis
    using t(2) assms(1,2) ge alone
    by (cases "threads s ! t")
      (auto simp: quiet_def mutexes_def totl_moved [OF t(1)] step_simps dest: spawn split: if_splits option.splits)
qed

lemma live_context_goto:
  assumes "live_context s" "bot_context u = bot_context s" "threads u = threads s" "\<And>j c r. p = P_Use j c r \<Longrightarrow> bot_context s = Some c"
  shows "live_context (goto t p u)"
  unfolding live_context_def
proof (intro allI impI)
  fix i j c r
  assume i: "i < length (threads (goto t p u))" "threads (goto t p u) ! i = P_Use j c r"
  then show "bot_context (goto t p u) = Some c"
    using assms by (cases "i = t") (auto simp: live_context_def)
qed

lemma no_use_point: "after_start k \<noteq> P_Use j c r" "return_pc q \<noteq> P_Use j c r"
  by (cases k; simp) (cases q; simp)

lemma no_users:
  assumes "tot uses_context s = 0" "p \<in> set (threads s)"
  shows "p \<noteq> P_Use j c r"
  using assms unfolding totl_zero_iff by fastforce

lemma step_live_context:
  assumes "mutexes s" "live_context s" "step ev s = Some s'"
  shows "live_context s'"
proof (cases ev)
  case (Call t c)
  then have "s' = begin_call t c s" using assms(3) by (auto split: if_splits)
  then show ?thesis using assms(2) by (cases c) (auto intro!: live_context_goto [OF assms(2)])
next
  case (Advance t n)
  then have t: "t < length (threads s)" "advance t n (threads s ! t) s = Some s'" using assms(3) by (auto split: if_splits)
  note keep = live_context_goto [OF assms(2)]
  show ?thesis
  proof (cases "threads s ! t")
    case (S_Reset d)
    have "tot uses_context s = 0"
      by (rule totl_excluded [OF t(1), of uses_context holds_processing])
        (use assms(1) S_Reset weights_le in \<open>auto simp: mutexes_def\<close>)
    then have "p \<noteq> P_Use j c r" if "p \<in> set (threads s)" for p j c r using no_users that by blast
    then show ?thesis using t S_Reset unfolding live_context_def by (auto simp: nth_list_update split: if_splits)
  next
    case (P_Bot j r)
    have "bot_context s = None \<Longrightarrow> t' < length (threads s) \<Longrightarrow> threads s ! t' \<noteq> P_Use j' c' r'" for t' j' c' r'
      using assms(2) unfolding live_context_def by auto
    with t P_Bot assms(2) show ?thesis
      unfolding live_context_def by (auto simp: nth_list_update split: option.splits if_splits)
  next
    case (W_Check k)
    have "live_context (goto t (W_Store k) s)" by (rule keep) auto
    note two = live_context_goto [OF this, of "goto t (W_Store k) s" L_Init]
    show ?thesis
    proof (cases "worker_started s \<or> first_fresh (threads s) = None")
      case True
      with t W_Check show ?thesis by (auto split: if_splits simp: no_use_point intro!: keep)
    next
      case False
      with t W_Check two show ?thesis by auto
    qed
  next
    case (S_Interrupt d)
    with t show ?thesis by (auto intro!: keep split: if_splits option.splits)
  qed (use t no_use_point in \<open>auto intro!: keep simp: dequeue_def dequeue_close_def push_def split: if_splits job.split\<close>)
qed

lemma new_dispatcher_ok:
  "mutexes (new_dispatcher e m n)" "counted (new_dispatcher e m n)" "one_worker (new_dispatcher e m n)"
  "quiet (new_dispatcher e m n)" "live_context (new_dispatcher e m n)"
proof -
  have z: "tot f (new_dispatcher e m n) = m * f Idle + n * f Fresh" for f
    by (simp add: new_dispatcher_def totl_def sum_list_replicate)
  show "mutexes (new_dispatcher e m n)" "counted (new_dispatcher e m n)" "one_worker (new_dispatcher e m n)"
    "quiet (new_dispatcher e m n)"
    using z by (simp_all add: mutexes_def counted_def one_worker_def quiet_def) (simp_all add: new_dispatcher_def)
  show "live_context (new_dispatcher e m n)"
    by (auto simp: live_context_def new_dispatcher_def nth_append)
qed

lemma reachable_invariants:
  assumes "reachable (new_dispatcher e m n) s"
  shows "mutexes s \<and> counted s \<and> one_worker s \<and> quiet s \<and> live_context s"
  using assms
proof (induction rule: reachable.induct)
  case start
  show ?case using new_dispatcher_ok by blast
next
  case (step s ev s')
  then show ?case using step_mutexes step_counted step_one_worker step_quiet step_live_context by metis
qed

lemma totl_le_one_unique:
  assumes "totl f ps \<le> 1" "f Idle = 0" "t < length ps" "u < length ps" "f (ps ! t) = 1" "f (ps ! u) = 1"
  shows "t = u"
proof (rule ccontr)
  assume "t \<noteq> u"
  have "totl f (ps[t := Idle]) + 1 = totl f ps" using totl_update [OF assms(3), of f Idle] assms(2,5) by simp
  moreover have "totl f (ps[t := Idle, u := Idle]) + 1 = totl f (ps[t := Idle])"
    using totl_update [of u "ps[t := Idle]" f Idle] assms(2,4,6) \<open>t \<noteq> u\<close> by simp
  ultimately show False using assms(1) by linarith
qed

text \<open>
  C40. The dispatcher is safe under every interleaving of its callers, its worker, drains, suspends,
  resumes and the destructor. The count of pending requests is always the number of queued ones plus
  those in transit between a queue and the count, so it never goes below zero. At most one worker
  thread is ever created, however many callers race to start it. At most one thread at a time uses a
  context, and it is the dispatcher's own, which a suspend interrupts. From the return of a suspend
  until the next resume takes effect the dispatcher holds no context and no thread uses one or is
  about to, which is what lets the database be torn down.
\<close>

theorem dispatcher_safe:
  assumes "reachable (new_dispatcher explicit callers spare) s"
  shows "pending_count s = int (length (queue s) + length (streaming_close_queue s) + totl in_flight (threads s)) \<and>
    (\<forall>t u. t < length (threads s) \<and> u < length (threads s) \<and> is_worker (threads s ! t) = 1 \<and> is_worker (threads s ! u) = 1 \<longrightarrow> t = u) \<and>
    (\<forall>t u. t < length (threads s) \<and> u < length (threads s) \<and> uses_context (threads s ! t) = 1 \<and> uses_context (threads s ! u) = 1 \<longrightarrow> t = u) \<and>
    (\<forall>t < length (threads s). \<forall>j c r. threads s ! t = P_Use j c r \<longrightarrow> bot_context s = Some c) \<and>
    (suspended s \<longrightarrow> \<not> accepting s \<and> bot_context s = None \<and> (\<forall>p \<in> set (threads s). uses_context p = 0))"
proof -
  have inv: "mutexes s" "counted s" "one_worker s" "quiet s" "live_context s"
    using reachable_invariants [OF assms] by auto
  have "totl announces (threads s) \<le> 1" and uses: "totl uses_context (threads s) \<le> 1"
    using inv(1) totl_mono [of announces holds_start "threads s"] totl_mono [of uses_context holds_processing "threads s"] weights_le
    by (auto simp: mutexes_def intro: order_trans)
  then have worker: "totl is_worker (threads s) \<le> 1" using inv(3) by (auto simp: one_worker_def)
  from totl_le_one_unique [OF worker] totl_le_one_unique [OF uses] inv(2,4,5) show ?thesis
    by (auto simp: counted_def quiet_def live_context_def totl_zero_iff)
qed

text \<open>
  One caller cancels a scan, the worker it starts executes the request, and a second caller suspends
  while the worker is still at work.
\<close>

fun run_events :: "event list \<Rightarrow> dispatcher \<Rightarrow> dispatcher option" where
  "run_events [] s = Some s"
| "run_events (ev # evs) s = (case step ev s of None \<Rightarrow> None | Some s' \<Rightarrow> run_events evs s')"

lemma run_events_reachable: "reachable s0 s \<Longrightarrow> run_events evs s = Some s' \<Longrightarrow> reachable s0 s'"
  by (induction evs arbitrary: s) (auto split: option.splits intro: reachable.step)

definition sample_events :: "event list" where
  "sample_events =
     [Call 0 (Enqueue (CancelRequest True 7)), Advance 0 0, Advance 0 0, Advance 0 0, Advance 0 0, Advance 0 0, Advance 0 0, Advance 0 0,
      Advance 2 0, Advance 2 0, Advance 2 0, Advance 2 0, Advance 2 0, Advance 2 0, Advance 2 0,
      Call 1 Suspend, Advance 1 0, Advance 1 0, Advance 2 0, Advance 1 0, Advance 1 0]"

theorem dispatcher_safe_witness:
  "\<exists>s. run_events sample_events (new_dispatcher False 2 1) = Some s \<and> executed s = [(CancelRequest True 7, 0)] \<and>
     interrupted s = [0] \<and> suspended s \<and> pending_count s = 0 \<and> bot_context s = None"
proof -
  have "\<exists>s. run_events sample_events (new_dispatcher False 2 1) = Some s \<and> executed s = [(CancelRequest True 7, 0)] \<and>
      interrupted s = [0] \<and> suspended s \<and> queue s = [] \<and> streaming_close_queue s = [] \<and> totl in_flight (threads s) = 0"
    by (simp add: sample_events_def new_dispatcher_def goto_def totl_def first_fresh_def dequeue_def push_def remove_at_def
        numeral_2_eq_2 upt_rec)
  then obtain s where s: "run_events sample_events (new_dispatcher False 2 1) = Some s" "executed s = [(CancelRequest True 7, 0)]"
      "interrupted s = [0]" "suspended s" "queue s = []" "streaming_close_queue s = []" "totl in_flight (threads s) = 0"
    by blast
  have "reachable (new_dispatcher False 2 1) s" by (rule run_events_reachable [OF reachable.start s(1)])
  note safe = dispatcher_safe [OF this]
  from conjunct1 [OF safe] have "pending_count s = 0" by (simp only: s list.size of_nat_0 add_0)
  moreover have "bot_context s = None" using safe s(4) by blast
  ultimately show ?thesis using s(1-4) by blast
qed

end
