(* ===== verification/Spec2Isabelle.thy ===== *)
theory Spec2Isabelle
  imports Location_Dispatch Shm_Segment Worker_Pool Cookie_Jar Memo_Registry Input_Dedup Result_Cache Capture_Budget Disk_Reaper
    Batch_Validation Sab_Stream Replay_Connection Cancel_Dispatcher
begin

text \<open>
  VGI is a DuckDB extension that runs functions and catalogs in worker processes. This library models
  the parts of it that decide something on their own, without DuckDB's engine or Arrow's arrays, and
  proves what makes each of them correct. All sources are under \<^verbatim>\<open>src/src\<close>, the native slots of the
  browser transport under \<^verbatim>\<open>src/test/support\<close>.

  \<^bold>\<open>How the parts interact.\<close> An ATTACH names a worker by a location. The location is classified and
  checked against the transport policy and dispatched to a transport; a launched worker is found or started under a name derived
  from its canonical configuration; idle workers are kept in a pool. Requests and results travel as
  Arrow IPC streams, inline or as pointers into a shared-memory segment; in a browser they travel
  through the rings of a slot; HTTP sessions carry cookies. Every batch of a worker is validated
  against its own structure and the declared schema before DuckDB reads it. A scan that is abandoned
  hands its connection to the cancel dispatcher.
  Results that a worker declares cacheable are kept by three stores: the memo arenas, one per function,
  which remember the output of single input values; the result cache, which remembers whole results in
  memory; and its disk tier, loose files for large results and packs of records for small ones, which
  outlives the process. Input chunks are deduplicated before the memo
  arenas are probed.

  \<^bold>\<open>Shared theories.\<close> \<^verbatim>\<open>Vgi_Prelude\<close> holds byte strings, searching and splitting, decimal numbers,
  little-endian integers and the lemmas on lists the components share. \<^verbatim>\<open>Codec_Interface\<close> has the
  locales of the encodings, prefix-free and prefix-decodable; \<^verbatim>\<open>Std_Map\<close> the locale of ordered maps.
  They are interpreted where a component provides the encoding or the map.

  \<^bold>\<open>Components.\<close>

  \<^item> \<^verbatim>\<open>Launcher\<close> (\<^verbatim>\<open>vgi_launcher_internal.cpp\<close>): canonical JSON of a launch configuration, which is
    injective; the shell-style argument splitter, which inverts quoting; the discovery line, however
    it is cut into reads.
  \<^item> \<^verbatim>\<open>Transport\<close> (\<^verbatim>\<open>vgi_transport.cpp\<close>): the TCP location parser against a grammar, and the normal
    form of \<^verbatim>\<open>httpi\<close> locations.
  \<^item> \<^verbatim>\<open>Location_Policy\<close> (\<^verbatim>\<open>vgi_location_classify.cpp\<close>, \<^verbatim>\<open>vgi_location_policy.cpp\<close>): parsing and printing
    of the allowed transports; the policy word that concurrent settings can only narrow, a step
    relation over compare-and-swap; and the check of a location.
  \<^item> \<^verbatim>\<open>Location_Dispatch\<close> (\<^verbatim>\<open>vgi_extension.cpp\<close>, \<^verbatim>\<open>vgi_function_connection.cpp\<close>, \<^verbatim>\<open>vgi_unary_rpc.cpp\<close>,
    \<^verbatim>\<open>vgi_container_runtime.cpp\<close>): what ATTACH makes of a location and where the two dispatchers take it,
    for both builds; a location that passes the check is contacted or run only as a transport the
    policy permits.
  \<^item> \<^verbatim>\<open>Ipc_Stream\<close> (\<^verbatim>\<open>vgi_ipc.cpp\<close>): input streams over buffers and chained streams, and the reader of one
    batch, which reads the same from a chain as from the whole.
  \<^item> \<^verbatim>\<open>Shm_Segment\<close> (\<^verbatim>\<open>vgi_shm_segment.cpp\<close>): the segment as bytes, its allocation table as the list it
    encodes; first fit, the disjointness of slots, the survival of written bytes, and the bounds of a
    pointer received from the other process.
  \<^item> \<^verbatim>\<open>Worker_Pool\<close> (\<^verbatim>\<open>vgi_worker_pool.cpp\<close>): acquire, release and the reaper; a worker has one owner, and
    the most recently used live one is handed out.
  \<^item> \<^verbatim>\<open>Cookie_Jar\<close> (\<^verbatim>\<open>vgi_cookie_jar.cpp\<close>): parsing, storing and rendering cookies; the caps, the refusal of
    secure cookies over plain text, and that a rendered header reads back.
  \<^item> \<^verbatim>\<open>Memo_Arena\<close>, \<^verbatim>\<open>Memo_Registry\<close> (\<^verbatim>\<open>vgi_memo_arena.cpp\<close>): rows, slots, probe, store, compaction,
    persistence; and the registry that shares arenas between queries under one byte budget, as a step
    relation over a heap of arenas.
  \<^item> \<^verbatim>\<open>Input_Dedup\<close> (\<^verbatim>\<open>vgi_input_dedup.cpp\<close>): row hashing and comparison under a budget, the open-addressing
    table and the grouping by counting sort.
  \<^item> \<^verbatim>\<open>Cache_Key\<close> (\<^verbatim>\<open>vgi_result_cache.cpp\<close>, \<^verbatim>\<open>vgi_cache_control.hpp\<close>): the key of the result cache, the injective
    text its fingerprint hashes, and the parser of a worker's cache-control metadata.
  \<^item> \<^verbatim>\<open>Entry_Codec\<close>: the entry blob and the pack record, with positions that wrap at \<open>2 ^ 64\<close>; both read
    back, and the scan of a pack survives an append that was cut anywhere.
  \<^item> \<^verbatim>\<open>Result_Cache\<close>: the memory tier, one definition per critical section; consistency and caps under
    every interleaving, least-recently-used eviction, and the refinement to a map that may forget.
    \<^verbatim>\<open>Capture_Budget\<close> is the atomic budget of captures in flight: it is never exceeded, and a
    reservation takes effect at one moment of its call.
  \<^item> \<^verbatim>\<open>Disk_Store\<close>, \<^verbatim>\<open>Disk_Reaper\<close>: ref and object files over any file system; a served entry is intact,
    of the key asked for and fresh, whatever is on the disk, as long as its expiry is in the range of
    the clock; a lemma shows what happens beyond it. What is persisted is loaded; the reaper
    keeps its caps and takes the oldest first.
  \<^item> \<^verbatim>\<open>Capture_Stream\<close>: the writer that streams a large result into a temporary object, with its commit,
    abort and budget, and the loader that reads the table of contents only; both loaders give the same
    entry for what the writer committed, and flushing an identity spares the others. Lemmas show a file
    on which the streaming loader never ends and a budget at which the writer refuses everything.
  \<^item> \<^verbatim>\<open>Result_Capture\<close> (\<^verbatim>\<open>vgi_table_function_impl.cpp\<close>): what a scan does to capture its result while it
    streams to DuckDB. Readers claim splits, skip batches without rows, latch the advertisement, buffer, spill to the writer or give
    up, one step per access to what they share; the destructor commits. A capture is doomed, and then
    never stored, or holds every batch received; what is stored is every batch with rows that the
    worker produced, and never a result without any.
    Also the lifetime given to an entry and its division into entries per partition.
  \<^item> \<^verbatim>\<open>Replay_Connection\<close> (\<^verbatim>\<open>vgi_cached_replay_connection.cpp\<close>, \<^verbatim>\<open>vgi_exchange_cache_key.cpp\<close>): the
    connection that replays an entry from memory or disk, the union of partitions, the renewal of a
    confirmed entry and the entries of exchange functions; it joins the parts above, from a captured
    scan through the files to the batches a later scan is served.
  \<^item> \<^verbatim>\<open>Pack_Store\<close>: the packs of small entries over any file system, with the writer, its rolls, the
    sidecar index, expiry, eviction and compaction; a shard is a map from fingerprints to records under
    every sequence of operations, and the sidecar restores the index. A lemma shows how an invalidated
    shard overwrites its first pack.
  \<^item> \<^verbatim>\<open>Batch_Validation\<close> (\<^verbatim>\<open>vgi_batch_validation.cpp\<close>): schema trees and array views; a batch is accepted
    exactly when its columns have the declared types and its strings are valid UTF-8.
  \<^item> \<^verbatim>\<open>Sab_Stream\<close> (\<^verbatim>\<open>vgi_sab_stream.cpp\<close>, \<^verbatim>\<open>vgi_sab_native_ring.cpp\<close>): the byte rings, which are queues, the slots
    and their worker; the locales \<open>slot_reader\<close> and \<open>blocking_slots\<close> are the contract of a slot's read,
    interpreted on the native slots, over which a stream's read returns and delivers in order. A lemma
    shows that a native read waits for ever on a worker that does nothing more, deadline or not.
  \<^item> \<^verbatim>\<open>Cancel_Dispatcher\<close> (\<^verbatim>\<open>vgi_cancel_dispatcher.cpp\<close>): the program points of its callers and its worker
    as a step relation; exact counting, a single worker, and no context in use after a suspend.

  \<^bold>\<open>Conventions.\<close> A byte string is a \<^typ>\<open>string\<close>, one character per byte. Unsigned machine integers are
  words where they can wrap; lengths and positions are natural numbers, with the wrap written out
  where the code can reach it; signed 64-bit values are integers, converted at the casts. Errors,
  exceptions and undefined reads are values. Code outside the repository is an argument: DuckDB's file
  system, hashes and vectors, nanoarrow's compression, SHA-256, the clocks and the operating system;
  what a property needs of it is a hypothesis of that property, and its witness gives an instance. One
  critical section, or one atomic access where there is no lock, is one step; concurrent behaviour is
  every sequence of steps.

  \<^bold>\<open>Fuel.\<close> The loops that read a buffer to its end (the blob parser, the pack scan) carry fuel, because
  a length that wraps can keep them from ending. The properties give the fuel that is enough: more than
  the number of batches, or of records. \<^verbatim>\<open>Entry_Codec\<close> also shows a pack file, and \<^verbatim>\<open>Capture_Stream\<close> an
  object, for which no fuel is enough. The loops of the slot streams carry fuel too, one unit per byte and one
  more; the waits of the native slots are partial functions that are undefined when a wait never
  ends.

  \<^bold>\<open>Not modelled.\<close> The operators, functions and catalog classes that implement DuckDB's interfaces,
  apart from the capture and the replay of results, the generated protocol records and the RPC client
  over them, the HTTP client, what processes, sockets and containers do once they are chosen, downloads, OAuth, telemetry and the
  diagnostic table functions: their substance is in calls to DuckDB, Arrow and the operating system.
  Of the result cache, the counters and snapshots that only diagnostics read are left out; a change
  of the configuration is one step with its test, and the byte budget of captures stays fixed during a
  run. A file is created whole or not at all: temporary names are unused, and DuckDB's write stores
  every byte or throws. The byte totals of a cache directory are taken to fit 64 bits. The
  browser's implementation of the slots is not in the repository.
\<close>

end
